(* ===== verification/Bytes_Prelude.thy ===== *)
theory Bytes_Prelude
  imports Main "HOL-Library.Word"
begin

text \<open>
  Shared vocabulary of the development: the machine types of the C sources (an LP64,
  little-endian target, as iOS on arm64), the three-way outcome of a C call (a value, a
  reported failure, undefined behaviour), a state-passing sequencing operator over it, byte
  lists against machine words (little- and big-endian), and the flat byte memory in which the
  message structures of nanopb live.  Everything here is generic; no definition of this theory
  models a function of the sources.
\<close>

unbundle bit_operations_syntax

type_synonym byte = "8 word"
type_synonym u16 = "16 word"
type_synonym u32 = "32 word"
type_synonym u64 = "64 word"
type_synonym size_t = "64 word"
type_synonym addr = "64 word"
type_synonym mem = "addr \<Rightarrow> byte"

named_theorems seq_simps \<open>unfolding of the sequencing operators\<close>

section \<open>Outcomes and sequencing\<close>

text \<open>
  \<open>Ok v\<close>: the C function returned success and produced \<open>v\<close>.  \<open>Fail\<close>: it returned its failure
  value.  \<open>Undef\<close>: it did something the C standard leaves undefined (a read outside a buffer, a
  call through a null function pointer, a shift by the width of the operand, unbounded
  recursion).
\<close>

datatype 'a outcome = Ok 'a | Fail | Undef

definition seq :: "('s \<Rightarrow> 'a outcome \<times> 's) \<Rightarrow> ('a \<Rightarrow> 's \<Rightarrow> 'b outcome \<times> 's) \<Rightarrow> 's \<Rightarrow> 'b outcome \<times> 's"
  where "seq m f s =
    (case m s of (Ok x, t) \<Rightarrow> f x t | (Fail, t) \<Rightarrow> (Fail, t) | (Undef, t) \<Rightarrow> (Undef, t))"

definition ret :: "'a \<Rightarrow> 's \<Rightarrow> 'a outcome \<times> 's"
  where "ret x s = (Ok x, s)"

definition fails :: "'s \<Rightarrow> 'a outcome \<times> 's"
  where "fails s = (Fail, s)"

definition undefd :: "'s \<Rightarrow> 'a outcome \<times> 's"
  where "undefd s = (Undef, s)"

lemma seq_cong [fundef_cong]:
  assumes "m s = m' s'" and "\<And>x t. m' s' = (Ok x, t) \<Longrightarrow> f x t = f' x t"
  shows "seq m f s = seq m' f' s'"
  using assms by (auto simp: seq_def split: prod.splits outcome.splits)

lemma seq_Ok [seq_simps]: "m s = (Ok x, t) \<Longrightarrow> seq m f s = f x t"
  by (simp add: seq_def)

lemma seq_Fail [seq_simps]: "m s = (Fail, t) \<Longrightarrow> seq m f s = (Fail, t)"
  by (simp add: seq_def)

lemma seq_Undef [seq_simps]: "m s = (Undef, t) \<Longrightarrow> seq m f s = (Undef, t)"
  by (simp add: seq_def)

lemma seq_eq_Ok:
  "seq m f s = (Ok y, u) \<longleftrightarrow> (\<exists>x t. m s = (Ok x, t) \<and> f x t = (Ok y, u))"
  by (auto simp: seq_def split: prod.splits outcome.splits)

lemma seq_eq_Undef:
  "fst (seq m f s) = Undef \<longleftrightarrow>
    fst (m s) = Undef \<or> (\<exists>x t. m s = (Ok x, t) \<and> fst (f x t) = Undef)"
  by (auto simp: seq_def split: prod.splits outcome.splits)

lemma ret_simp [simp]: "ret x s = (Ok x, s)"
  by (simp add: ret_def)

lemma fails_simp [simp]: "fails s = (Fail, s)"
  by (simp add: fails_def)

lemma undefd_simp [simp]: "undefd s = (Undef, s)"
  by (simp add: undefd_def)

lemma seq_ret [simp]: "seq (ret x) f = f x"
  by (rule ext) (simp add: seq_def)

lemma seq_assoc: "seq (seq m f) g = seq m (\<lambda>x. seq (f x) g)"
  by (rule ext) (auto simp: seq_def split: prod.splits outcome.splits)

text \<open>The success flag of an outcome, as a C caller sees it.\<close>

fun succeeded :: "'a outcome \<Rightarrow> bool" where
  "succeeded (Ok _) = True"
| "succeeded Fail = False"
| "succeeded Undef = False"

section \<open>Words as byte lists\<close>

text \<open>\<open>le_word\<close> reads a byte list as a little-endian number of any width (excess bits fall off);
  \<open>le_bytes n x\<close> writes the low \<open>n\<close> bytes of \<open>x\<close>.\<close>

fun le_word :: "byte list \<Rightarrow> 'a::len word" where
  "le_word [] = 0"
| "le_word (b # bs) = ucast b OR push_bit 8 (le_word bs)"

definition le_bytes :: "nat \<Rightarrow> 'a::len word \<Rightarrow> byte list"
  where "le_bytes n x = map (\<lambda>i. ucast (drop_bit (8 * i) x)) [0..<n]"

definition be_word :: "byte list \<Rightarrow> 'a::len word"
  where "be_word bs = le_word (rev bs)"

definition be_bytes :: "nat \<Rightarrow> 'a::len word \<Rightarrow> byte list"
  where "be_bytes n x = rev (le_bytes n x)"

lemma length_le_bytes [simp]: "length (le_bytes n x) = n"
  by (simp add: le_bytes_def)

lemma length_be_bytes [simp]: "length (be_bytes n x) = n"
  by (simp add: be_bytes_def)

lemma bit_le_word:
  "bit (le_word bs :: 'a::len word) n \<longleftrightarrow>
    n < LENGTH('a) \<and> n div 8 < length bs \<and> bit (bs ! (n div 8)) (n mod 8)"
proof (induction bs arbitrary: n)
  case Nil
  then show ?case by simp
next
  case (Cons b bs)
  show ?case
  proof (cases "n < 8")
    case True
    then show ?thesis
      by (auto simp: bit_or_iff bit_unsigned_iff bit_push_bit_iff dest: bit_imp_le_length)
  next
    case False
    then have d: "n div 8 = Suc ((n - 8) div 8)" "(n - 8) mod 8 = n mod 8"
      by (simp_all add: le_div_geq le_mod_geq)
    from False have "\<not> bit b n"
      using bit_imp_le_length [of b n] by auto
    with False show ?thesis
      by (auto simp: bit_or_iff bit_unsigned_iff bit_push_bit_iff Cons.IH d)
  qed
qed

lemma le_bytes_nth: "i < n \<Longrightarrow> le_bytes n x ! i = ucast (drop_bit (8 * i) x)"
  by (simp add: le_bytes_def)

lemma le_word_le_bytes:
  assumes "LENGTH('a) \<le> 8 * n"
  shows "le_word (le_bytes n x) = (x :: 'a::len word)"
proof (rule bit_word_eqI)
  fix k assume "k < LENGTH('a)"
  moreover from this assms have "k div 8 < n" by linarith
  ultimately show "bit (le_word (le_bytes n x) :: 'a word) k = bit x k"
    by (simp add: bit_le_word le_bytes_nth bit_unsigned_iff bit_drop_bit_eq)
qed

lemma le_bytes_le_word:
  assumes "8 * length bs \<le> LENGTH('a)"
  shows "le_bytes (length bs) (le_word bs :: 'a::len word) = bs"
proof (rule nth_equalityI)
  show "length (le_bytes (length bs) (le_word bs :: 'a word)) = length bs" by simp
next
  fix i assume i: "i < length (le_bytes (length bs) (le_word bs :: 'a word))"
  show "le_bytes (length bs) (le_word bs :: 'a word) ! i = bs ! i"
  proof (rule bit_word_eqI)
    fix k assume "k < LENGTH(8)"
    then have k: "k < 8" by simp
    have d: "(8 * i + k) div 8 = i" "(8 * i + k) mod 8 = k" using k by simp_all
    from i k assms have "8 * i + k < LENGTH('a)" by simp
    with i k d show "bit (le_bytes (length bs) (le_word bs :: 'a word) ! i) k = bit (bs ! i) k"
      by (simp add: le_bytes_nth bit_unsigned_iff bit_drop_bit_eq bit_le_word)
  qed
qed

lemma be_word_be_bytes:
  assumes "LENGTH('a) \<le> 8 * n"
  shows "be_word (be_bytes n x) = (x :: 'a::len word)"
  using assms by (simp add: be_word_def be_bytes_def le_word_le_bytes)

lemma be_bytes_be_word:
  assumes "8 * length bs \<le> LENGTH('a)"
  shows "be_bytes (length bs) (be_word bs :: 'a::len word) = bs"
  using le_bytes_le_word [where 'a = 'a, of "rev bs"] assms by (simp add: be_word_def be_bytes_def)

text \<open>The usual C accumulation loop computes the big-endian value.\<close>

lemma le_word_snoc:
  "le_word (bs @ [b]) = (le_word bs OR push_bit (8 * length bs) (ucast b) :: 'a::len word)"
proof (induction bs)
  case Nil
  then show ?case by simp
next
  case (Cons c bs)
  then show ?case by (simp add: push_bit_or or.assoc ac_simps)
qed

lemma be_word_snoc: "be_word (bs @ [b]) = (push_bit 8 (be_word bs) OR ucast b :: 'a::len word)"
  by (simp add: be_word_def or.commute)

lemma foldl_be_word:
  "foldl (\<lambda>r b. push_bit 8 r OR ucast b) 0 bs = (be_word bs :: 'a::len word)"
proof (induction bs rule: rev_induct)
  case Nil
  then show ?case by (simp add: be_word_def)
next
  case (snoc b bs)
  then show ?case by (simp add: be_word_snoc)
qed

lemma unat_drop_bit_div: "unat (drop_bit n v) = unat (v :: 'a::len word) div 2 ^ n"
  by (subst unat_drop_bit_eq) (simp add: drop_bit_eq_div)

lemma small_word_bits:
  assumes "unat (v :: 'a::len word) < 2 ^ n" "bit v k"
  shows "k < n"
proof (rule ccontr)
  assume "\<not> k < n"
  have "unat (drop_bit n v) = 0" using assms(1) by (simp only: unat_drop_bit_div) simp
  then have "drop_bit n v = 0" by (simp only: unat_eq_0)
  then have "\<not> bit (drop_bit n v) (k - n)" by simp
  with assms(2) \<open>\<not> k < n\<close> show False by (simp add: bit_drop_bit_eq)
qed

lemma unat_ucast_u32 [simp]: "unat (ucast (x :: u32) :: size_t) = unat x"
proof -
  have "unat x < 2 ^ LENGTH(32)" by (rule unsigned_less)
  then have "take_bit 64 (unat x) = unat x" by (intro take_bit_nat_eq_self) simp
  then show ?thesis by (simp add: unsigned_ucast_eq)
qed

lemma unat_ucast_byte_size [simp]: "unat (ucast (x :: byte) :: size_t) = unat x"
proof -
  have "unat x < 2 ^ LENGTH(8)" by (rule unsigned_less)
  then have "take_bit 64 (unat x) = unat x" by (intro take_bit_nat_eq_self) simp
  then show ?thesis by (simp add: unsigned_ucast_eq)
qed

lemma unat_ucast_byte_u32 [simp]: "unat (ucast (x :: byte) :: u32) = unat x"
proof -
  have "unat x < 2 ^ LENGTH(8)" by (rule unsigned_less)
  then have "take_bit 32 (unat x) = unat x" by (intro take_bit_nat_eq_self) simp
  then show ?thesis by (simp add: unsigned_ucast_eq)
qed

section \<open>Memory\<close>

fun mem_write :: "mem \<Rightarrow> addr \<Rightarrow> byte list \<Rightarrow> mem" where
  "mem_write m a [] = m"
| "mem_write m a (b # bs) = mem_write (m(a := b)) (a + 1) bs"

definition mem_read :: "mem \<Rightarrow> addr \<Rightarrow> nat \<Rightarrow> byte list"
  where "mem_read m a n = map (\<lambda>i. m (a + of_nat i)) [0..<n]"

definition load :: "nat \<Rightarrow> mem \<Rightarrow> addr \<Rightarrow> 'a::len word"
  where "load n m a = le_word (mem_read m a n)"

definition store :: "nat \<Rightarrow> mem \<Rightarrow> addr \<Rightarrow> 'a::len word \<Rightarrow> mem"
  where "store n m a x = mem_write m a (le_bytes n x)"

lemma length_mem_read [simp]: "length (mem_read m a n) = n"
  by (simp add: mem_read_def)

text \<open>The address range of an object of \<open>n\<close> bytes at \<open>a\<close>.\<close>

definition range_of :: "addr \<Rightarrow> nat \<Rightarrow> addr set"
  where "range_of a n = (\<lambda>i. a + of_nat i) ` {..<n}"

lemma range_of_Suc: "range_of a (Suc n) = insert a (range_of (a + 1) n)"
  by (simp add: range_of_def lessThan_Suc_eq_insert_0 image_image add.assoc)

lemma range_of_0 [simp]: "range_of a 0 = {}"
  by (simp add: range_of_def)

lemma range_of_mono: "n \<le> k \<Longrightarrow> range_of a n \<subseteq> range_of a k"
  by (auto simp: range_of_def)

lemma mem_write_outside:
  "x \<notin> range_of a (length bs) \<Longrightarrow> mem_write m a bs x = m x"
  by (induction bs arbitrary: m a) (simp_all add: range_of_Suc)

lemma range_of_next_fresh:
  assumes "n < 2 ^ 64"
  shows "a \<notin> range_of (a + 1) n"
proof
  assume "a \<in> range_of (a + 1) n"
  then obtain j where j: "j < n" "a = a + (1 + of_nat j)"
    by (auto simp: range_of_def add.assoc)
  from j(2) have "of_nat (Suc j) = (0 :: addr)" by simp
  then have "2 ^ 64 dvd Suc j" by (simp only: word_of_nat_eq_0_iff len_of_numeral_defs) simp
  then have "2 ^ 64 \<le> Suc j" by (rule dvd_imp_le) simp
  with j(1) assms show False by simp
qed

lemma mem_write_nth:
  assumes "i < length bs" and "length bs \<le> 2 ^ 64"
  shows "mem_write m a bs (a + of_nat i) = bs ! i"
  using assms
proof (induction bs arbitrary: m a i)
  case Nil
  then show ?case by simp
next
  case (Cons b bs)
  show ?case
  proof (cases i)
    case 0
    have "a \<notin> range_of (a + 1) (length bs)"
      using Cons.prems by (intro range_of_next_fresh) simp
    with 0 show ?thesis by (simp add: mem_write_outside)
  next
    case (Suc j)
    have eq: "a + of_nat (Suc j) = (a + 1) + of_nat j" by simp
    from Suc Cons.prems have "mem_write (m(a := b)) (a + 1) bs ((a + 1) + of_nat j) = bs ! j"
      by (intro Cons.IH) simp_all
    with Suc eq show ?thesis by (simp only: mem_write.simps nth_Cons_Suc)
  qed
qed

lemma mem_read_write_same:
  "length bs \<le> 2 ^ 64 \<Longrightarrow> mem_read (mem_write m a bs) a (length bs) = bs"
  by (rule nth_equalityI) (simp_all add: mem_read_def mem_write_nth)

lemma mem_read_cong:
  "(\<And>x. x \<in> range_of a n \<Longrightarrow> m x = m' x) \<Longrightarrow> mem_read m a n = mem_read m' a n"
  by (auto simp: mem_read_def range_of_def)

lemma mem_read_write_other:
  "range_of a n \<inter> range_of b (length bs) = {} \<Longrightarrow>
    mem_read (mem_write m b bs) a n = mem_read m a n"
  by (rule mem_read_cong) (auto intro!: mem_write_outside)

end
