(* ===== verification/Nanopb_Common.thy ===== *)
theory Nanopb_Common
  imports Bytes_Prelude
begin

text \<open>
  nanopb, the protocol-buffer codec of the pod (\<^verbatim>\<open>Pods/nanopb\<close>): the constants and
  the field descriptor of \<^verbatim>\<open>pb.h\<close> and the field iterator of \<^verbatim>\<open>pb_common.c\<close>,
  for the configuration the pod is built with (\<^verbatim>\<open>PB_FIELD_32BIT=1\<close>, no
  \<^verbatim>\<open>PB_ENABLE_MALLOC\<close>).

  A descriptor array \<^verbatim>\<open>const pb_field_t fields[]\<close> is the list of its entries before the
  terminator \<^verbatim>\<open>PB_LAST_FIELD\<close>; \<open>field_at\<close> supplies the terminator.  The iterator's
  \<^verbatim>\<open>pos\<close> pointer is an index into that list.  The lemmas show where the iterator stands
  after any number of steps, that a full cycle comes back to the start, and that searching for a
  tag always ends, on a field that carries the tag if there is one.
\<close>

section \<open>Field types\<close>

definition PB_LTYPE :: "byte \<Rightarrow> byte" where "PB_LTYPE x = x AND 0x0F"
definition PB_HTYPE :: "byte \<Rightarrow> byte" where "PB_HTYPE x = x AND 0x30"
definition PB_ATYPE :: "byte \<Rightarrow> byte" where "PB_ATYPE x = x AND 0xC0"

definition PB_LTYPE_VARINT :: byte where "PB_LTYPE_VARINT = 0x00"
definition PB_LTYPE_UVARINT :: byte where "PB_LTYPE_UVARINT = 0x01"
definition PB_LTYPE_SVARINT :: byte where "PB_LTYPE_SVARINT = 0x02"
definition PB_LTYPE_FIXED32 :: byte where "PB_LTYPE_FIXED32 = 0x03"
definition PB_LTYPE_FIXED64 :: byte where "PB_LTYPE_FIXED64 = 0x04"
definition PB_LTYPE_LAST_PACKABLE :: byte where "PB_LTYPE_LAST_PACKABLE = 0x04"
definition PB_LTYPE_BYTES :: byte where "PB_LTYPE_BYTES = 0x05"
definition PB_LTYPE_STRING :: byte where "PB_LTYPE_STRING = 0x06"
definition PB_LTYPE_SUBMESSAGE :: byte where "PB_LTYPE_SUBMESSAGE = 0x07"
definition PB_LTYPE_EXTENSION :: byte where "PB_LTYPE_EXTENSION = 0x08"
definition PB_LTYPE_FIXED_LENGTH_BYTES :: byte where "PB_LTYPE_FIXED_LENGTH_BYTES = 0x09"

definition PB_HTYPE_REQUIRED :: byte where "PB_HTYPE_REQUIRED = 0x00"
definition PB_HTYPE_OPTIONAL :: byte where "PB_HTYPE_OPTIONAL = 0x10"
definition PB_HTYPE_REPEATED :: byte where "PB_HTYPE_REPEATED = 0x20"
definition PB_HTYPE_ONEOF :: byte where "PB_HTYPE_ONEOF = 0x30"

definition PB_ATYPE_STATIC :: byte where "PB_ATYPE_STATIC = 0x00"
definition PB_ATYPE_POINTER :: byte where "PB_ATYPE_POINTER = 0x80"
definition PB_ATYPE_CALLBACK :: byte where "PB_ATYPE_CALLBACK = 0x40"

lemmas ltype_defs = PB_LTYPE_VARINT_def PB_LTYPE_UVARINT_def PB_LTYPE_SVARINT_def
  PB_LTYPE_FIXED32_def PB_LTYPE_FIXED64_def PB_LTYPE_LAST_PACKABLE_def PB_LTYPE_BYTES_def
  PB_LTYPE_STRING_def PB_LTYPE_SUBMESSAGE_def PB_LTYPE_EXTENSION_def
  PB_LTYPE_FIXED_LENGTH_BYTES_def

lemmas htype_defs = PB_HTYPE_REQUIRED_def PB_HTYPE_OPTIONAL_def PB_HTYPE_REPEATED_def
  PB_HTYPE_ONEOF_def

lemmas atype_defs = PB_ATYPE_STATIC_def PB_ATYPE_POINTER_def PB_ATYPE_CALLBACK_def

lemmas pb_type_defs = ltype_defs htype_defs atype_defs PB_LTYPE_def PB_HTYPE_def PB_ATYPE_def

text \<open>Wire types (\<^verbatim>\<open>pb_wire_type_t\<close>; the decoder casts any value of three bits to it).\<close>

definition PB_WT_VARINT :: u32 where "PB_WT_VARINT = 0"
definition PB_WT_64BIT :: u32 where "PB_WT_64BIT = 1"
definition PB_WT_STRING :: u32 where "PB_WT_STRING = 2"
definition PB_WT_32BIT :: u32 where "PB_WT_32BIT = 5"

lemmas wt_defs = PB_WT_VARINT_def PB_WT_64BIT_def PB_WT_STRING_def PB_WT_32BIT_def

definition PB_SIZE_MAX :: u32 where "PB_SIZE_MAX = - 1"

definition PB_MAX_REQUIRED_FIELDS :: nat where "PB_MAX_REQUIRED_FIELDS = 64"

definition sizeof_ptr :: nat where "sizeof_ptr = 8"

text \<open>\<^verbatim>\<open>PB_BYTES_ARRAY_T_ALLOCSIZE(n)\<close>: \<open>n\<close> bytes after the 32-bit size field.\<close>

definition PB_BYTES_ARRAY_T_ALLOCSIZE :: "u32 \<Rightarrow> size_t"
  where "PB_BYTES_ARRAY_T_ALLOCSIZE n = ucast n + 4"

section \<open>Field descriptors and the iterator\<close>

record pb_field =
  pb_tag :: u32
  pb_type :: byte
  pb_data_offset :: u32
  pb_size_offset :: u32
  pb_data_size :: u32
  pb_array_size :: u32
  pb_ptr :: addr

definition PB_LAST_FIELD :: pb_field
  where "PB_LAST_FIELD = \<lparr>pb_tag = 0, pb_type = 0, pb_data_offset = 0, pb_size_offset = 0,
    pb_data_size = 0, pb_array_size = 0, pb_ptr = 0\<rparr>"

abbreviation ltype :: "pb_field \<Rightarrow> byte" where "ltype f \<equiv> PB_LTYPE (pb_type f)"
abbreviation htype :: "pb_field \<Rightarrow> byte" where "htype f \<equiv> PB_HTYPE (pb_type f)"
abbreviation atype :: "pb_field \<Rightarrow> byte" where "atype f \<equiv> PB_ATYPE (pb_type f)"

definition field_at :: "pb_field list \<Rightarrow> nat \<Rightarrow> pb_field"
  where "field_at fs i = (if i < length fs then fs ! i else PB_LAST_FIELD)"

record pb_field_iter =
  it_start :: "pb_field list"
  it_pos :: nat
  it_required_field_index :: u32
  it_dest_struct :: addr
  it_pData :: addr
  it_pSize :: addr

abbreviation it_field :: "pb_field_iter \<Rightarrow> pb_field"
  where "it_field it \<equiv> field_at (it_start it) (it_pos it)"

definition pb_field_iter_begin :: "pb_field list \<Rightarrow> addr \<Rightarrow> bool \<times> pb_field_iter" where
  "pb_field_iter_begin flds dest =
    (let p = field_at flds 0;
         pd = dest + ucast (pb_data_offset p)
     in (pb_tag p \<noteq> 0,
         \<lparr>it_start = flds, it_pos = 0, it_required_field_index = 0, it_dest_struct = dest,
          it_pData = pd, it_pSize = pd + scast (pb_size_offset p)\<rparr>))"

definition pb_field_iter_next :: "pb_field_iter \<Rightarrow> bool \<times> pb_field_iter" where
  "pb_field_iter_next it =
    (let prev = it_field it;
         cur = field_at (it_start it) (Suc (it_pos it))
     in if pb_tag prev = 0 then (False, it)
        else if pb_tag cur = 0
        then (False, snd (pb_field_iter_begin (it_start it) (it_dest_struct it)))
        else if htype prev = PB_HTYPE_ONEOF \<and> htype cur = PB_HTYPE_ONEOF \<and>
                pb_data_offset cur = PB_SIZE_MAX
        then (True, it\<lparr>it_pos := Suc (it_pos it)\<rparr>)
        else
          let prev_size =
                (if atype prev = PB_ATYPE_STATIC \<and> htype prev = PB_HTYPE_REPEATED
                 then ucast (pb_data_size prev) * ucast (pb_array_size prev)
                 else if atype prev = PB_ATYPE_POINTER then of_nat sizeof_ptr
                 else ucast (pb_data_size prev) :: size_t);
              rfi = (if htype prev = PB_HTYPE_REQUIRED then it_required_field_index it + 1
                     else it_required_field_index it);
              pd = it_pData it + prev_size + ucast (pb_data_offset cur)
          in (True, it\<lparr>it_pos := Suc (it_pos it), it_required_field_index := rfi,
                it_pData := pd, it_pSize := pd + scast (pb_size_offset cur)\<rparr>))"

text \<open>The do-while loop of \<^verbatim>\<open>pb_field_iter_find\<close>: at most one visit per entry, so the
  number of entries is enough fuel (\<open>pb_field_iter_find_total\<close> below).\<close>

fun iter_find_loop :: "nat \<Rightarrow> nat \<Rightarrow> u32 \<Rightarrow> pb_field_iter \<Rightarrow> bool outcome \<times> pb_field_iter" where
  "iter_find_loop 0 first t it = (Undef, it)"
| "iter_find_loop (Suc n) first t it =
    (if pb_tag (it_field it) = t \<and> ltype (it_field it) \<noteq> PB_LTYPE_EXTENSION then (Ok True, it)
     else let it' = snd (pb_field_iter_next it)
          in if it_pos it' = first then (Ok False, it') else iter_find_loop n first t it')"

definition pb_field_iter_find :: "u32 \<Rightarrow> pb_field_iter \<Rightarrow> bool outcome \<times> pb_field_iter"
  where "pb_field_iter_find t it =
    iter_find_loop (Suc (length (it_start it))) (it_pos it) t it"

text \<open>The loop \<^verbatim>\<open>do { body } while (pb_field_iter_next(&iter))\<close> shared by the encoder and
  the decoder.\<close>

lemma iter_next_pos:
  "pb_field_iter_next it = (True, it') \<Longrightarrow>
    it_start it' = it_start it \<and> it_pos it' = Suc (it_pos it) \<and> Suc (it_pos it) < length (it_start it)"
  by (auto simp: pb_field_iter_next_def Let_def field_at_def PB_LAST_FIELD_def split: if_splits)

function iter_do :: "(pb_field_iter \<Rightarrow> 's \<Rightarrow> unit outcome \<times> 's) \<Rightarrow> pb_field_iter \<Rightarrow> 's \<Rightarrow> unit outcome \<times> 's"
  where "iter_do body it s =
    seq (body it)
      (\<lambda>_. case pb_field_iter_next it of
             (True, it') \<Rightarrow> iter_do body it'
           | (False, _) \<Rightarrow> ret ()) s"
  by pat_completeness auto
termination
  by (relation "measure (\<lambda>(body, it, s). length (it_start it) - it_pos it)")
     (auto dest: iter_next_pos [OF sym])

declare iter_do.simps [simp del]

section \<open>Extensions in memory\<close>

text \<open>\<^verbatim>\<open>pb_extension_t\<close> lies in memory as \<^verbatim>\<open>type\<close>, \<^verbatim>\<open>dest\<close>, \<^verbatim>\<open>next\<close>,
  \<^verbatim>\<open>found\<close> at offsets 0, 8, 16, 24; \<^verbatim>\<open>pb_extension_type_t\<close> as \<^verbatim>\<open>decode\<close>,
  \<^verbatim>\<open>encode\<close>, \<^verbatim>\<open>arg\<close> at 0, 8, 16.\<close>

definition ext_type :: "mem \<Rightarrow> addr \<Rightarrow> addr" where "ext_type m e = load sizeof_ptr m e"
definition ext_dest :: "mem \<Rightarrow> addr \<Rightarrow> addr" where "ext_dest m e = load sizeof_ptr m (e + 8)"
definition ext_next :: "mem \<Rightarrow> addr \<Rightarrow> addr" where "ext_next m e = load sizeof_ptr m (e + 16)"
definition ext_found_addr :: "addr \<Rightarrow> addr" where "ext_found_addr e = e + 24"

section \<open>Where the iterator stands\<close>

definition wf_fields :: "pb_field list \<Rightarrow> bool"
  where "wf_fields fs \<longleftrightarrow> (\<forall>f \<in> set fs. pb_tag f \<noteq> 0)"

primrec iter_at :: "pb_field list \<Rightarrow> addr \<Rightarrow> nat \<Rightarrow> pb_field_iter" where
  "iter_at fs d 0 = snd (pb_field_iter_begin fs d)"
| "iter_at fs d (Suc i) = snd (pb_field_iter_next (iter_at fs d i))"

lemma field_at_in [simp]: "i < length fs \<Longrightarrow> field_at fs i = fs ! i"
  by (simp add: field_at_def)

lemma field_at_end [simp]: "length fs \<le> i \<Longrightarrow> pb_tag (field_at fs i) = 0"
  by (simp add: field_at_def PB_LAST_FIELD_def)

lemma wf_fields_tag: "wf_fields fs \<Longrightarrow> pb_tag (field_at fs i) = 0 \<longleftrightarrow> length fs \<le> i"
  by (cases "i < length fs") (auto simp: wf_fields_def)

lemma iter_begin_sel [simp]:
  "it_start (snd (pb_field_iter_begin fs d)) = fs"
  "it_dest_struct (snd (pb_field_iter_begin fs d)) = d"
  "it_pos (snd (pb_field_iter_begin fs d)) = 0"
  by (simp_all add: pb_field_iter_begin_def Let_def)

lemma iter_next_sel [simp]:
  "it_start (snd (pb_field_iter_next it)) = it_start it"
  "it_dest_struct (snd (pb_field_iter_next it)) = it_dest_struct it"
  by (simp_all add: pb_field_iter_next_def Let_def)

lemma iter_at_sel [simp]:
  "it_start (iter_at fs d i) = fs"
  "it_dest_struct (iter_at fs d i) = d"
  by (induction i) simp_all

lemma iter_next_inside:
  assumes "wf_fields (it_start it)" "Suc (it_pos it) < length (it_start it)"
  shows "fst (pb_field_iter_next it)" "it_pos (snd (pb_field_iter_next it)) = Suc (it_pos it)"
  using assms by (auto simp: pb_field_iter_next_def Let_def wf_fields_def)

lemma iter_next_last:
  assumes "wf_fields (it_start it)" "Suc (it_pos it) = length (it_start it)"
  shows "pb_field_iter_next it =
    (False, snd (pb_field_iter_begin (it_start it) (it_dest_struct it)))"
  using assms by (auto simp: pb_field_iter_next_def Let_def wf_fields_def)

lemma iter_next_empty:
  "it_start it = [] \<Longrightarrow> pb_field_iter_next it = (False, it)"
  by (simp add: pb_field_iter_next_def Let_def)

lemma iter_at_pos:
  "wf_fields fs \<Longrightarrow> i < length fs \<Longrightarrow> it_pos (iter_at fs d i) = i"
  by (induction i) (simp_all add: iter_next_inside)

lemma iter_at_next:
  "wf_fields fs \<Longrightarrow> Suc i < length fs \<Longrightarrow>
    pb_field_iter_next (iter_at fs d i) = (True, iter_at fs d (Suc i))"
  using iter_next_inside(1) [of "iter_at fs d i"] by (auto simp: iter_at_pos prod_eq_iff)

lemma iter_at_wrap:
  "wf_fields fs \<Longrightarrow> Suc i = length fs \<Longrightarrow>
    pb_field_iter_next (iter_at fs d i) = (False, iter_at fs d 0)"
  by (subst iter_next_last) (simp_all add: iter_at_pos)

lemma iter_at_field: "wf_fields fs \<Longrightarrow> i < length fs \<Longrightarrow> it_field (iter_at fs d i) = fs ! i"
  by (simp add: iter_at_pos)

text \<open>Stepping on from entry \<open>i\<close> goes to the cyclic successor.\<close>

lemma iter_at_cycle:
  assumes "wf_fields fs" "i < length fs"
  shows "snd (pb_field_iter_next (iter_at fs d i)) = iter_at fs d (Suc i mod length fs)"
proof (cases "Suc i < length fs")
  case True
  then show ?thesis using iter_at_next [OF assms(1) True] by simp
next
  case False
  with assms have "Suc i = length fs" by simp
  then show ?thesis using iter_at_wrap [OF assms(1)] by simp
qed

text \<open>The search visits \<open>i, i + 1, \<dots>\<close> cyclically; \<open>k\<close> entries are still to be visited.\<close>

definition tag_matches :: "u32 \<Rightarrow> pb_field \<Rightarrow> bool"
  where "tag_matches t f \<longleftrightarrow> pb_tag f = t \<and> ltype f \<noteq> PB_LTYPE_EXTENSION"

lemma find_loop_hit:
  "tag_matches t (it_field it) \<Longrightarrow> iter_find_loop (Suc n) first t it = (Ok True, it)"
  by (simp add: tag_matches_def)

lemma find_loop_miss:
  "\<not> tag_matches t (it_field it) \<Longrightarrow> it' = snd (pb_field_iter_next it) \<Longrightarrow>
    iter_find_loop (Suc n) first t it =
      (if it_pos it' = first then (Ok False, it') else iter_find_loop n first t it')"
  by (auto simp: tag_matches_def Let_def)

declare iter_find_loop.simps(2) [simp del]

lemma mod_add_neq:
  "a < n \<Longrightarrow> 0 < m \<Longrightarrow> m < n \<Longrightarrow> (a + m) mod n \<noteq> (a::nat)"
  by (cases "a + m < n") (auto simp: mod_if)

text \<open>What the search reports when it started at \<open>first\<close> and the last \<open>k\<close> entries of the
  cycle are still to be visited.\<close>

definition find_result :: "pb_field list \<Rightarrow> addr \<Rightarrow> u32 \<Rightarrow> nat \<Rightarrow> nat \<Rightarrow> bool outcome \<times> pb_field_iter \<Rightarrow> bool"
  where "find_result fs d t first k r \<longleftrightarrow>
    (\<exists>j < length fs. r = (Ok True, iter_at fs d j) \<and> tag_matches t (fs ! j)) \<or>
    (r = (Ok False, iter_at fs d first) \<and>
      (\<forall>j \<in> {length fs - k..<length fs}. \<not> tag_matches t (fs ! ((first + j) mod length fs))))"

lemma iter_find_loop_cyclic:
  assumes "wf_fields fs" "first < length fs" "0 < k" "k \<le> length fs"
  shows "find_result fs d t first k
    (iter_find_loop (Suc k) first t (iter_at fs d ((first + (length fs - k)) mod length fs)))"
  using assms(3,4)
proof (induction k)
  case 0
  then show ?case by simp
next
  case (Suc k)
  let ?n = "length fs"
  let ?i = "(first + (?n - Suc k)) mod ?n"
  have n: "0 < ?n" using assms(2) by linarith
  then have i: "?i < ?n" "Suc ?i mod ?n < ?n" by simp_all
  have nxt: "Suc ?i mod ?n = (first + (?n - k)) mod ?n"
    using Suc.prems by (simp add: mod_Suc_eq Suc_diff_Suc flip: add_Suc_right)
  show ?case
  proof (cases "tag_matches t (fs ! ?i)")
    case True
    then have "iter_find_loop (Suc (Suc k)) first t (iter_at fs d ?i) = (Ok True, iter_at fs d ?i)"
      by (intro find_loop_hit) (simp only: iter_at_field [OF assms(1) i(1)])
    with i(1) True show ?thesis unfolding find_result_def by blast
  next
    case False
    have step: "iter_find_loop (Suc (Suc k)) first t (iter_at fs d ?i) =
        (if Suc ?i mod ?n = first then (Ok False, iter_at fs d (Suc ?i mod ?n))
         else iter_find_loop (Suc k) first t (iter_at fs d (Suc ?i mod ?n)))"
      using False i assms(1)
      by (subst find_loop_miss [OF _ iter_at_cycle [symmetric]])
         (simp_all only: iter_at_pos iter_at_sel field_at_in simp_thms)
    have range: "{?n - Suc k..<?n} = insert (?n - Suc k) {?n - k..<?n}"
      using Suc.prems by auto
    show ?thesis
    proof (cases "k = 0")
      case True
      then have "Suc ?i mod ?n = first" using nxt assms(2) by simp
      with True False step range show ?thesis by (simp add: find_result_def)
    next
      case k: False
      have "Suc ?i mod ?n \<noteq> first"
        using k Suc.prems assms(2) unfolding nxt by (intro mod_add_neq) simp_all
      with step nxt have eq: "iter_find_loop (Suc (Suc k)) first t (iter_at fs d ?i) =
          iter_find_loop (Suc k) first t (iter_at fs d ((first + (?n - k)) mod ?n))" by simp
      have "find_result fs d t first k
          (iter_find_loop (Suc k) first t (iter_at fs d ((first + (?n - k)) mod ?n)))"
        using k Suc.prems by (intro Suc.IH) simp_all
      then show ?thesis unfolding eq find_result_def range using False by blast
    qed
  qed
qed

lemma cyclic_index: "i < n \<Longrightarrow> j < n \<Longrightarrow> \<exists>k < n. (i + k) mod n = (j::nat)"
proof (cases "i \<le> j")
  case True
  then show "i < n \<Longrightarrow> j < n \<Longrightarrow> ?thesis" by (intro exI [of _ "j - i"]) simp
next
  case False
  then show "i < n \<Longrightarrow> j < n \<Longrightarrow> ?thesis" by (intro exI [of _ "n + j - i"]) simp
qed

text \<open>Searching from any entry: the result does not depend on where the search starts, except
  for which of several matching entries is met first.\<close>

lemma pb_field_iter_find_total:
  assumes "wf_fields fs" "i < length fs"
  shows "(\<exists>j < length fs. pb_field_iter_find t (iter_at fs d i) = (Ok True, iter_at fs d j) \<and>
            tag_matches t (fs ! j)) \<or>
         (pb_field_iter_find t (iter_at fs d i) = (Ok False, iter_at fs d i) \<and>
            (\<forall>f \<in> set fs. \<not> tag_matches t f))"
proof -
  have "find_result fs d t i (length fs) (pb_field_iter_find t (iter_at fs d i))"
    using iter_find_loop_cyclic [OF assms, of "length fs" d t] assms
    by (cases "fs = []") (simp_all add: pb_field_iter_find_def iter_at_pos)
  moreover have "\<not> tag_matches t f"
    if "\<forall>j \<in> {0..<length fs}. \<not> tag_matches t (fs ! ((i + j) mod length fs))" "f \<in> set fs" for f
    using that cyclic_index [OF assms(2)] by (metis atLeastLessThan_iff in_set_conv_nth le0)
  ultimately show ?thesis unfolding find_result_def by fastforce
qed

lemma pb_field_iter_find_empty:
  "pb_field_iter_find t (iter_at [] d 0) =
    (if t = 0 then (Ok True, iter_at [] d 0) else (Ok False, iter_at [] d 0))"
  by (simp add: pb_field_iter_find_def iter_find_loop.simps iter_next_empty field_at_def
      PB_LAST_FIELD_def pb_type_defs Let_def)

end
