(* ===== verification/Nanopb_Encode.thy ===== *)
theory Nanopb_Encode
  imports Nanopb_Common
begin

text \<open>
  The encoder of nanopb (\<^verbatim>\<open>pb_encode.c\<close>).  An output stream is its destination (none: a
  sizing stream; a memory buffer, with the bytes stored so far; a user callback with its state),
  the size limit, the running count and the first error message.  The message being encoded lies
  in the byte memory \<open>m\<close>, which the encoder only reads.

  Calls through \<^verbatim>\<open>field->ptr\<close> and through function pointers stored in the message go to
  code outside the library; it is the record \<open>pb_enc_env\<close>: the constant descriptor tables by
  address, and the user's field and extension callbacks by function address.  The number \<open>d\<close>
  bounds the recursion through submessages and the length of extension chains; running out of it
  is \<open>Undef\<close> (a C program would overflow its stack or loop).
\<close>

section \<open>Output streams\<close>

datatype 'o pb_sink = Null_sink | Buf_sink "byte list" | User_sink "'o \<Rightarrow> byte list \<Rightarrow> bool \<times> 'o" 'o

record 'o pb_ostream =
  os_sink :: "'o pb_sink"
  os_max_size :: size_t
  os_bytes_written :: size_t
  os_errmsg :: "string option"

type_synonym 'o enc = "'o pb_ostream \<Rightarrow> unit outcome \<times> 'o pb_ostream"

definition os_set_error :: "string \<Rightarrow> 'o pb_ostream \<Rightarrow> 'o pb_ostream"
  where "os_set_error msg os =
    (case os_errmsg os of None \<Rightarrow> os\<lparr>os_errmsg := Some msg\<rparr> | Some _ \<Rightarrow> os)"

definition os_return_error :: "string \<Rightarrow> 'o enc"
  where "os_return_error msg os = (Fail, os_set_error msg os)"

definition pb_ostream_from_buffer :: "size_t \<Rightarrow> 'o pb_ostream"
  where "pb_ostream_from_buffer bufsize =
    \<lparr>os_sink = Buf_sink [], os_max_size = bufsize, os_bytes_written = 0, os_errmsg = None\<rparr>"

definition PB_OSTREAM_SIZING :: "'o pb_ostream"
  where "PB_OSTREAM_SIZING =
    \<lparr>os_sink = Null_sink, os_max_size = 0, os_bytes_written = 0, os_errmsg = None\<rparr>"

definition is_sizing :: "'o pb_ostream \<Rightarrow> bool"
  where "is_sizing os \<longleftrightarrow> (case os_sink os of Null_sink \<Rightarrow> True | _ \<Rightarrow> False)"

text \<open>\<^verbatim>\<open>buf_write\<close> stores the bytes at the buffer position and advances it.\<close>

definition buf_write :: "byte list \<Rightarrow> byte list \<Rightarrow> byte list"
  where "buf_write stored buf = stored @ buf"

text \<open>\<open>buf\<close> is what can be read at the pointer argument, nothing for \<^verbatim>\<open>NULL\<close>.\<close>

definition pb_write :: "byte list \<Rightarrow> size_t \<Rightarrow> 'o enc" where
  "pb_write buf count os =
    (let written = os_bytes_written os + count in
     case os_sink os of
       Null_sink \<Rightarrow> (Ok (), os\<lparr>os_bytes_written := written\<rparr>)
     | Buf_sink stored \<Rightarrow>
         if os_max_size os < written then os_return_error ''stream full'' os
         else if length buf < unat count then (Undef, os)
         else (Ok (), os\<lparr>os_sink := Buf_sink (buf_write stored (take (unat count) buf)),
                         os_bytes_written := written\<rparr>)
     | User_sink cb st \<Rightarrow>
         if os_max_size os < written then os_return_error ''stream full'' os
         else if length buf < unat count then (Undef, os)
         else case cb st (take (unat count) buf) of
                (True, st') \<Rightarrow> (Ok (), os\<lparr>os_sink := User_sink cb st', os_bytes_written := written\<rparr>)
              | (False, st') \<Rightarrow> os_return_error ''io error'' (os\<lparr>os_sink := User_sink cb st'\<rparr>))"

section \<open>Helper functions\<close>

text \<open>The loop that fills \<^verbatim>\<open>buffer\<close> in \<^verbatim>\<open>pb_encode_varint\<close>.\<close>

lemma drop_bit_less: "(v :: 'a::len word) \<noteq> 0 \<Longrightarrow> 0 < n \<Longrightarrow> unat (drop_bit n v) < unat v"
  by (subst unat_drop_bit_eq)
     (auto simp: drop_bit_eq_div unat_gt_0 intro!: div_less_dividend one_less_power)

function varint_buffer :: "u64 \<Rightarrow> byte list" where
  "varint_buffer v =
    (if v = 0 then []
     else ucast ((v AND 0x7F) OR 0x80) # varint_buffer (drop_bit 7 v))"
  by pat_completeness auto
termination
  by (relation "measure unat") (auto intro: drop_bit_less)

declare varint_buffer.simps [simp del]

definition pb_encode_varint :: "u64 \<Rightarrow> 'o enc" where
  "pb_encode_varint v =
    (if v \<le> 0x7F then pb_write [ucast v] 1
     else let buffer = varint_buffer v;
              buffer' = butlast buffer @ [last buffer AND 0x7F]
          in pb_write buffer' (of_nat (length buffer)))"

definition pb_encode_svarint :: "u64 \<Rightarrow> 'o enc" where
  "pb_encode_svarint v =
    (let zigzagged = (if sint v < 0 then NOT (push_bit 1 v) else push_bit 1 v)
     in pb_encode_varint zigzagged)"

definition pb_encode_fixed32 :: "mem \<Rightarrow> addr \<Rightarrow> 'o enc" where
  "pb_encode_fixed32 m value =
    (let val = load 4 m value :: u32
     in pb_write [ucast (val AND 0xFF), ucast (drop_bit 8 val AND 0xFF),
                  ucast (drop_bit 16 val AND 0xFF), ucast (drop_bit 24 val AND 0xFF)] 4)"

definition pb_encode_fixed64 :: "mem \<Rightarrow> addr \<Rightarrow> 'o enc" where
  "pb_encode_fixed64 m value =
    (let val = load 8 m value :: u64
     in pb_write [ucast (val AND 0xFF), ucast (drop_bit 8 val AND 0xFF),
                  ucast (drop_bit 16 val AND 0xFF), ucast (drop_bit 24 val AND 0xFF),
                  ucast (drop_bit 32 val AND 0xFF), ucast (drop_bit 40 val AND 0xFF),
                  ucast (drop_bit 48 val AND 0xFF), ucast (drop_bit 56 val AND 0xFF)] 8)"

definition pb_encode_tag :: "u32 \<Rightarrow> u32 \<Rightarrow> 'o enc" where
  "pb_encode_tag wiretype field_number =
    pb_encode_varint (push_bit 3 (ucast field_number) OR ucast wiretype)"

definition wire_type_of :: "byte \<Rightarrow> u32 option" where
  "wire_type_of lt =
    (if lt \<in> {PB_LTYPE_VARINT, PB_LTYPE_UVARINT, PB_LTYPE_SVARINT} then Some PB_WT_VARINT
     else if lt = PB_LTYPE_FIXED32 then Some PB_WT_32BIT
     else if lt = PB_LTYPE_FIXED64 then Some PB_WT_64BIT
     else if lt \<in> {PB_LTYPE_BYTES, PB_LTYPE_STRING, PB_LTYPE_SUBMESSAGE, PB_LTYPE_FIXED_LENGTH_BYTES}
     then Some PB_WT_STRING
     else None)"

definition pb_encode_tag_for_field :: "pb_field \<Rightarrow> 'o enc" where
  "pb_encode_tag_for_field f =
    (case wire_type_of (ltype f) of
       None \<Rightarrow> os_return_error ''invalid field type''
     | Some wiretype \<Rightarrow> pb_encode_tag wiretype (pb_tag f))"

definition pb_encode_string :: "byte list \<Rightarrow> size_t \<Rightarrow> 'o enc" where
  "pb_encode_string buffer n =
    seq (pb_encode_varint n) (\<lambda>_. pb_write buffer n)"

section \<open>Field encoders\<close>

text \<open>Reading a C integer of \<^verbatim>\<open>data_size\<close> bytes, sign- or zero-extended to 64 bits;
  \<open>None\<close> for any other size.\<close>

definition load_signed :: "mem \<Rightarrow> u32 \<Rightarrow> addr \<Rightarrow> u64 option" where
  "load_signed m data_size src =
    (if data_size = 1 then Some (scast (load 1 m src :: byte))
     else if data_size = 2 then Some (scast (load 2 m src :: u16))
     else if data_size = 4 then Some (scast (load 4 m src :: u32))
     else if data_size = 8 then Some (load 8 m src)
     else None)"

definition load_unsigned :: "mem \<Rightarrow> u32 \<Rightarrow> addr \<Rightarrow> u64 option" where
  "load_unsigned m data_size src =
    (if data_size = 1 then Some (ucast (load 1 m src :: byte))
     else if data_size = 2 then Some (ucast (load 2 m src :: u16))
     else if data_size = 4 then Some (ucast (load 4 m src :: u32))
     else if data_size = 8 then Some (load 8 m src)
     else None)"

definition pb_enc_varint :: "mem \<Rightarrow> pb_field \<Rightarrow> addr \<Rightarrow> 'o enc" where
  "pb_enc_varint m f src =
    (case load_signed m (pb_data_size f) src of
       None \<Rightarrow> os_return_error ''invalid data_size''
     | Some v \<Rightarrow> pb_encode_varint v)"

definition pb_enc_uvarint :: "mem \<Rightarrow> pb_field \<Rightarrow> addr \<Rightarrow> 'o enc" where
  "pb_enc_uvarint m f src =
    (case load_unsigned m (pb_data_size f) src of
       None \<Rightarrow> os_return_error ''invalid data_size''
     | Some v \<Rightarrow> pb_encode_varint v)"

definition pb_enc_svarint :: "mem \<Rightarrow> pb_field \<Rightarrow> addr \<Rightarrow> 'o enc" where
  "pb_enc_svarint m f src =
    (case load_signed m (pb_data_size f) src of
       None \<Rightarrow> os_return_error ''invalid data_size''
     | Some v \<Rightarrow> pb_encode_svarint v)"

definition pb_enc_fixed64 :: "mem \<Rightarrow> pb_field \<Rightarrow> addr \<Rightarrow> 'o enc"
  where "pb_enc_fixed64 m f src = pb_encode_fixed64 m src"

definition pb_enc_fixed32 :: "mem \<Rightarrow> pb_field \<Rightarrow> addr \<Rightarrow> 'o enc"
  where "pb_enc_fixed32 m f src = pb_encode_fixed32 m src"

definition pb_enc_bytes :: "mem \<Rightarrow> pb_field \<Rightarrow> addr \<Rightarrow> 'o enc" where
  "pb_enc_bytes m f src =
    (if src = 0 then pb_encode_string [] 0
     else let sz = load 4 m src :: u32
          in if atype f = PB_ATYPE_STATIC \<and> ucast (pb_data_size f) < PB_BYTES_ARRAY_T_ALLOCSIZE sz
             then os_return_error ''bytes size exceeded''
             else pb_encode_string (mem_read m (src + 4) (unat sz)) (ucast sz))"

text \<open>The \<^verbatim>\<open>strnlen\<close> loop of \<^verbatim>\<open>pb_enc_string\<close>; for a pointer field the bound is
  \<^verbatim>\<open>(size_t)-1\<close>.\<close>

fun strnlen_loop :: "mem \<Rightarrow> addr \<Rightarrow> nat \<Rightarrow> nat" where
  "strnlen_loop m p 0 = 0"
| "strnlen_loop m p (Suc room) = (if m p = 0 then 0 else Suc (strnlen_loop m (p + 1) room))"

definition pb_enc_string :: "mem \<Rightarrow> pb_field \<Rightarrow> addr \<Rightarrow> 'o enc" where
  "pb_enc_string m f src =
    (let max_size = (if atype f = PB_ATYPE_POINTER then - 1 else ucast (pb_data_size f)) :: size_t;
         sz = (if src = 0 then 0 else strnlen_loop m src (unat max_size))
     in pb_encode_string (mem_read m src sz) (of_nat sz))"

definition pb_enc_fixed_length_bytes :: "mem \<Rightarrow> pb_field \<Rightarrow> addr \<Rightarrow> 'o enc" where
  "pb_enc_fixed_length_bytes m f src =
    pb_encode_string (mem_read m src (unat (pb_data_size f))) (ucast (pb_data_size f))"

section \<open>Submessages\<close>

text \<open>\<open>sub\<close> is \<^verbatim>\<open>pb_encode\<close> one level down.\<close>

type_synonym 'o sub_encoder = "pb_field list \<Rightarrow> addr \<Rightarrow> 'o enc"

text \<open>The second half of \<^verbatim>\<open>pb_encode_submessage\<close>, after the length has been written.\<close>

definition submessage_body :: "'o sub_encoder \<Rightarrow> pb_field list \<Rightarrow> addr \<Rightarrow> size_t \<Rightarrow> 'o enc" where
  "submessage_body sub flds src sz os =
    (if is_sizing os then pb_write [] sz os
     else if os_max_size os < os_bytes_written os + sz then os_return_error ''stream full'' os
     else case sub flds src \<lparr>os_sink = os_sink os, os_max_size = sz, os_bytes_written = 0, os_errmsg = None\<rparr> of
         (Undef, _) \<Rightarrow> (Undef, os)
       | (status, substream2) \<Rightarrow>
           let os' = os\<lparr>os_bytes_written := os_bytes_written os + os_bytes_written substream2,
                        os_sink := os_sink substream2, os_errmsg := os_errmsg substream2\<rparr>
           in if os_bytes_written substream2 \<noteq> sz
              then os_return_error ''submsg size changed'' os' else (status, os'))"

definition pb_encode_submessage :: "'o sub_encoder \<Rightarrow> pb_field list \<Rightarrow> addr \<Rightarrow> 'o enc" where
  "pb_encode_submessage sub flds src os =
    (case sub flds src PB_OSTREAM_SIZING of
       (Undef, _) \<Rightarrow> (Undef, os)
     | (Fail, substream) \<Rightarrow> (Fail, os\<lparr>os_errmsg := os_errmsg substream\<rparr>)
     | (Ok _, substream) \<Rightarrow>
         seq (pb_encode_varint (os_bytes_written substream))
           (\<lambda>_. submessage_body sub flds src (os_bytes_written substream)) os)"

record 'o pb_enc_env =
  en_fields_at :: "addr \<Rightarrow> pb_field list"
  en_callback :: "addr \<Rightarrow> pb_field \<Rightarrow> addr \<Rightarrow> 'o enc"
  en_extension :: "addr \<Rightarrow> addr \<Rightarrow> 'o enc"

definition pb_enc_submessage :: "'o pb_enc_env \<Rightarrow> 'o sub_encoder \<Rightarrow> mem \<Rightarrow> pb_field \<Rightarrow> addr \<Rightarrow> 'o enc" where
  "pb_enc_submessage env sub m f src =
    (if pb_ptr f = 0 then os_return_error ''invalid field descriptor''
     else pb_encode_submessage sub (en_fields_at env (pb_ptr f)) src)"

text \<open>The table \<^verbatim>\<open>PB_ENCODERS\<close>; entry 8 is a null pointer and there are ten entries.\<close>

definition PB_ENCODERS :: "'o pb_enc_env \<Rightarrow> 'o sub_encoder \<Rightarrow> mem \<Rightarrow> byte \<Rightarrow> pb_field \<Rightarrow> addr \<Rightarrow> 'o enc" where
  "PB_ENCODERS env sub m lt =
    (if lt = PB_LTYPE_VARINT then pb_enc_varint m
     else if lt = PB_LTYPE_UVARINT then pb_enc_uvarint m
     else if lt = PB_LTYPE_SVARINT then pb_enc_svarint m
     else if lt = PB_LTYPE_FIXED32 then pb_enc_fixed32 m
     else if lt = PB_LTYPE_FIXED64 then pb_enc_fixed64 m
     else if lt = PB_LTYPE_BYTES then pb_enc_bytes m
     else if lt = PB_LTYPE_STRING then pb_enc_string m
     else if lt = PB_LTYPE_SUBMESSAGE then pb_enc_submessage env sub m
     else if lt = PB_LTYPE_FIXED_LENGTH_BYTES then pb_enc_fixed_length_bytes m
     else (\<lambda>_ _. undefd))"

section \<open>Encoding one field\<close>

type_synonym 'o field_encoder = "pb_field \<Rightarrow> addr \<Rightarrow> 'o enc"

fun encode_items :: "'o field_encoder \<Rightarrow> pb_field \<Rightarrow> addr \<Rightarrow> nat \<Rightarrow> 'o enc" where
  "encode_items func f p 0 = ret ()"
| "encode_items func f p (Suc n) =
    seq (func f p) (\<lambda>_. encode_items func f (p + ucast (pb_data_size f)) n)"

text \<open>The unpacked loop writes the tag before each entry, and follows one more pointer for
  pointer-type strings and bytes.\<close>

fun encode_tagged_items :: "mem \<Rightarrow> 'o field_encoder \<Rightarrow> pb_field \<Rightarrow> addr \<Rightarrow> nat \<Rightarrow> 'o enc" where
  "encode_tagged_items m func f p 0 = ret ()"
| "encode_tagged_items m func f p (Suc n) =
    seq (pb_encode_tag_for_field f)
      (\<lambda>_. seq (if atype f = PB_ATYPE_POINTER \<and> (ltype f = PB_LTYPE_STRING \<or> ltype f = PB_LTYPE_BYTES)
                then func f (load sizeof_ptr m p) else func f p)
        (\<lambda>_. encode_tagged_items m func f (p + ucast (pb_data_size f)) n))"

text \<open>The size of a packed array: known for fixed-width entries, else found by a sizing pass; then
  the data, which a sizing stream only counts.\<close>

definition packed_size :: "'o field_encoder \<Rightarrow> pb_field \<Rightarrow> addr \<Rightarrow> size_t \<Rightarrow> size_t outcome" where
  "packed_size func f pData count =
    (if ltype f = PB_LTYPE_FIXED32 then Ok (4 * count)
     else if ltype f = PB_LTYPE_FIXED64 then Ok (8 * count)
     else case encode_items func f pData (unat count) PB_OSTREAM_SIZING of
            (Ok _, sizestream) \<Rightarrow> Ok (os_bytes_written sizestream)
          | (Fail, _) \<Rightarrow> Fail
          | (Undef, _) \<Rightarrow> Undef)"

definition packed_data :: "'o field_encoder \<Rightarrow> pb_field \<Rightarrow> addr \<Rightarrow> size_t \<Rightarrow> size_t \<Rightarrow> 'o enc" where
  "packed_data func f pData count sz os =
    (if is_sizing os then pb_write [] sz os else encode_items func f pData (unat count) os)"

definition encode_array :: "mem \<Rightarrow> 'o field_encoder \<Rightarrow> pb_field \<Rightarrow> addr \<Rightarrow> size_t \<Rightarrow> 'o enc" where
  "encode_array m func f pData count =
    (if count = 0 then ret ()
     else if atype f \<noteq> PB_ATYPE_POINTER \<and> ucast (pb_array_size f) < count
     then os_return_error ''array max size exceeded''
     else if ltype f \<le> PB_LTYPE_LAST_PACKABLE then
       seq (pb_encode_tag PB_WT_STRING (pb_tag f))
         (\<lambda>_. case packed_size func f pData count of
               Ok sz \<Rightarrow> seq (pb_encode_varint sz) (\<lambda>_. packed_data func f pData count sz)
             | Fail \<Rightarrow> fails
             | Undef \<Rightarrow> undefd)
     else encode_tagged_items m func f pData (unat count))"

text \<open>\<^verbatim>\<open>pb_check_proto3_default_value\<close>; \<open>chk\<close> is the check of all fields of a submessage, one
  level down, and \<open>None\<close> is undefined (a null descriptor, or the recursion bound is reached).\<close>

fun all_zero :: "mem \<Rightarrow> addr \<Rightarrow> nat \<Rightarrow> bool" where
  "all_zero m p 0 = True"
| "all_zero m p (Suc n) = (m p = 0 \<and> all_zero m (p + 1) n)"

definition proto3_default_step ::
    "(addr \<Rightarrow> addr \<Rightarrow> bool option) \<Rightarrow> mem \<Rightarrow> pb_field \<Rightarrow> addr \<Rightarrow> bool option" where
  "proto3_default_step chk m f pData =
    (if atype f = PB_ATYPE_STATIC \<and> ltype f = PB_LTYPE_BYTES then Some (load 4 m pData = (0::u32))
     else if atype f = PB_ATYPE_STATIC \<and> ltype f = PB_LTYPE_STRING then Some (m pData = 0)
     else if atype f = PB_ATYPE_STATIC \<and> ltype f = PB_LTYPE_FIXED_LENGTH_BYTES
     then Some (pb_data_size f = 0)
     else if atype f = PB_ATYPE_STATIC \<and> ltype f = PB_LTYPE_SUBMESSAGE
     then (if pb_ptr f = 0 then None else chk (pb_ptr f) pData)
     else Some (all_zero m pData (unat (pb_data_size f))))"

primrec pb_check_proto3_default_value ::
    "(addr \<Rightarrow> pb_field list) \<Rightarrow> mem \<Rightarrow> nat \<Rightarrow> pb_field \<Rightarrow> addr \<Rightarrow> bool option" where
  "pb_check_proto3_default_value fat m 0 f pData = None"
| "pb_check_proto3_default_value fat m (Suc d) f pData =
    proto3_default_step
      (\<lambda>tab a. case pb_field_iter_begin (fat tab) a of
          (False, _) \<Rightarrow> Some True
        | (True, it) \<Rightarrow>
            (case iter_do
               (\<lambda>it (_::unit). case pb_check_proto3_default_value fat m d (it_field it) (it_pData it) of
                       Some True \<Rightarrow> (Ok (), ()) | Some False \<Rightarrow> (Fail, ()) | None \<Rightarrow> (Undef, ())) it () of
               (Ok _, _) \<Rightarrow> Some True | (Fail, _) \<Rightarrow> Some False | (Undef, _) \<Rightarrow> None))
      m f pData"

text \<open>\<^verbatim>\<open>encode_basic_field\<close>.  \<open>implicit_has\<close> is the local the size pointer refers to when the
  descriptor has no size offset; it is one byte wide, so using it as an array count or as a
  \<^verbatim>\<open>which_\<close> tag (a repeated or oneof field without size offset) is undefined.\<close>

definition encode_present :: "'o field_encoder \<Rightarrow> pb_field \<Rightarrow> addr \<Rightarrow> 'o enc"
  where "encode_present func f pData = seq (pb_encode_tag_for_field f) (\<lambda>_. func f pData)"

definition encode_basic_field :: "'o pb_enc_env \<Rightarrow> 'o sub_encoder \<Rightarrow> nat \<Rightarrow> mem \<Rightarrow> pb_field \<Rightarrow> addr \<Rightarrow> 'o enc" where
  "encode_basic_field env sub d m f pData0 =
    (let func = PB_ENCODERS env sub m (ltype f);
         pSize = pData0 + scast (pb_size_offset f);
         has0 = (if pb_size_offset f \<noteq> 0 then Some True
                 else if htype f = PB_HTYPE_OPTIONAL
                 then map_option Not (pb_check_proto3_default_value (en_fields_at env) m d f pData0)
                 else Some True)
     in case has0 of None \<Rightarrow> undefd | Some has1 \<Rightarrow>
       let pData = (if atype f = PB_ATYPE_POINTER then load sizeof_ptr m pData0 else pData0);
           implicit_has = (if atype f = PB_ATYPE_POINTER then pData \<noteq> 0 else has1);
           has = (if pb_size_offset f \<noteq> 0 then m pSize \<noteq> 0 else implicit_has)
       in if htype f = PB_HTYPE_REQUIRED then
            (if pData = 0 then os_return_error ''missing required field''
             else encode_present func f pData)
          else if htype f = PB_HTYPE_OPTIONAL then
            (if has then encode_present func f pData else ret ())
          else if pb_size_offset f = 0 then undefd
          else if htype f = PB_HTYPE_REPEATED
          then encode_array m func f pData (ucast (load 4 m pSize :: u32))
          else \<comment> \<open>PB_HTYPE_ONEOF, the fourth value of the mask\<close>
            (if load 4 m pSize = pb_tag f then encode_present func f pData else ret ()))"

text \<open>\<^verbatim>\<open>pb_callback_t\<close>: the function pointer, then the argument.\<close>

definition encode_callback_field :: "'o pb_enc_env \<Rightarrow> mem \<Rightarrow> pb_field \<Rightarrow> addr \<Rightarrow> 'o enc" where
  "encode_callback_field env m f pData os =
    (let fn = load sizeof_ptr m pData :: addr in
     if fn = 0 then (Ok (), os)
     else case en_callback env fn f (pData + 8) os of
            (Ok _, os') \<Rightarrow> (Ok (), os')
          | (Fail, os') \<Rightarrow> os_return_error ''callback error'' os'
          | (Undef, os') \<Rightarrow> (Undef, os'))"

definition encode_field :: "'o pb_enc_env \<Rightarrow> 'o sub_encoder \<Rightarrow> nat \<Rightarrow> mem \<Rightarrow> pb_field \<Rightarrow> addr \<Rightarrow> 'o enc" where
  "encode_field env sub d m f pData =
    (if atype f = PB_ATYPE_STATIC \<or> atype f = PB_ATYPE_POINTER
     then encode_basic_field env sub d m f pData
     else if atype f = PB_ATYPE_CALLBACK then encode_callback_field env m f pData
     else os_return_error ''invalid field type'')"

definition default_extension_encoder :: "'o pb_enc_env \<Rightarrow> 'o sub_encoder \<Rightarrow> nat \<Rightarrow> mem \<Rightarrow> addr \<Rightarrow> 'o enc" where
  "default_extension_encoder env sub d m e =
    (let f = field_at (en_fields_at env (load sizeof_ptr m (ext_type m e + 16))) 0
     in if atype f = PB_ATYPE_POINTER then encode_field env sub d m f (e + 8)
        else encode_field env sub d m f (ext_dest m e))"

fun encode_extensions :: "'o pb_enc_env \<Rightarrow> 'o sub_encoder \<Rightarrow> nat \<Rightarrow> mem \<Rightarrow> nat \<Rightarrow> addr \<Rightarrow> 'o enc" where
  "encode_extensions env sub d m 0 e os = (if e = 0 then (Ok (), os) else (Undef, os))"
| "encode_extensions env sub d m (Suc n) e os =
    (if e = 0 then (Ok (), os)
     else seq (let fn = load sizeof_ptr m (ext_type m e + 8) :: addr
               in if fn \<noteq> 0 then en_extension env fn e
                  else default_extension_encoder env sub d m e)
            (\<lambda>_. encode_extensions env sub d m n (ext_next m e)) os)"

definition encode_extension_field :: "'o pb_enc_env \<Rightarrow> 'o sub_encoder \<Rightarrow> nat \<Rightarrow> mem \<Rightarrow> addr \<Rightarrow> 'o enc"
  where "encode_extension_field env sub d m pData =
    encode_extensions env sub d m d (load sizeof_ptr m pData)"

section \<open>Encoding a message\<close>

definition encode_fields_body :: "'o pb_enc_env \<Rightarrow> 'o sub_encoder \<Rightarrow> nat \<Rightarrow> mem \<Rightarrow> pb_field_iter \<Rightarrow> 'o enc" where
  "encode_fields_body env sub d m it =
    (if ltype (it_field it) = PB_LTYPE_EXTENSION
     then encode_extension_field env sub d m (it_pData it)
     else encode_field env sub d m (it_field it) (it_pData it))"

primrec pb_encode :: "'o pb_enc_env \<Rightarrow> mem \<Rightarrow> nat \<Rightarrow> pb_field list \<Rightarrow> addr \<Rightarrow> 'o enc" where
  "pb_encode env m 0 = (\<lambda>flds src. undefd)"
| "pb_encode env m (Suc d) = (\<lambda>flds src.
    (case pb_field_iter_begin flds src of
       (False, _) \<Rightarrow> ret ()
     | (True, it) \<Rightarrow> iter_do (encode_fields_body env (pb_encode env m d) d m) it))"

definition pb_encode_delimited :: "'o pb_enc_env \<Rightarrow> mem \<Rightarrow> nat \<Rightarrow> pb_field list \<Rightarrow> addr \<Rightarrow> 'o enc"
  where "pb_encode_delimited env m d = pb_encode_submessage (pb_encode env m d)"

definition pb_get_encoded_size :: "'o pb_enc_env \<Rightarrow> mem \<Rightarrow> nat \<Rightarrow> pb_field list \<Rightarrow> addr \<Rightarrow> size_t outcome"
  where "pb_get_encoded_size env m d flds src =
    (case pb_encode env m d flds src PB_OSTREAM_SIZING of
       (Ok _, stream) \<Rightarrow> Ok (os_bytes_written stream) | (Fail, _) \<Rightarrow> Fail | (Undef, _) \<Rightarrow> Undef)"

end
