(* ===== verification/Nanopb_Encode_Laws.thy ===== *)
theory Nanopb_Encode_Laws
  imports Nanopb_Encode
begin

text \<open>
  What the encoder does to an output stream.  \<open>emits e bs\<close> is the complete contract of an
  encoding step on a sizing or buffer stream: if the bytes \<open>bs\<close> fit, the step succeeds and
  appends exactly \<open>bs\<close>; if they do not fit (and the byte count does not wrap around), it fails,
  having stored only a prefix of \<open>bs\<close> that does fit.  A step is \<open>uniform\<close> when it either emits
  a fixed byte string or never succeeds: then a sizing pass and a writing pass agree.
  Sequencing, loops and submessages preserve both notions, so a whole message is uniform
  whenever the user's callbacks are.
\<close>

definition plain :: "'o pb_ostream \<Rightarrow> bool"
  where "plain os \<longleftrightarrow> os_errmsg os = None \<and>
    (case os_sink os of
       Null_sink \<Rightarrow> True
     | Buf_sink _ \<Rightarrow> unat (os_bytes_written os) \<le> unat (os_max_size os)
     | User_sink _ _ \<Rightarrow> False)"

definition fits :: "nat \<Rightarrow> 'o pb_ostream \<Rightarrow> bool"
  where "fits n os \<longleftrightarrow>
    (case os_sink os of
       Null_sink \<Rightarrow> True
     | Buf_sink _ \<Rightarrow> unat (os_bytes_written os) + n \<le> unat (os_max_size os)
     | User_sink _ _ \<Rightarrow> False)"

definition sink_append :: "byte list \<Rightarrow> 'o pb_sink \<Rightarrow> 'o pb_sink"
  where "sink_append bs s = (case s of Buf_sink stored \<Rightarrow> Buf_sink (stored @ bs) | _ \<Rightarrow> s)"

definition os_append :: "byte list \<Rightarrow> 'o pb_ostream \<Rightarrow> 'o pb_ostream"
  where "os_append bs os =
    os\<lparr>os_sink := sink_append bs (os_sink os),
       os_bytes_written := os_bytes_written os + of_nat (length bs)\<rparr>"

definition partial_write :: "byte list \<Rightarrow> 'o pb_ostream \<Rightarrow> 'o pb_ostream \<Rightarrow> bool"
  where "partial_write bs os os' \<longleftrightarrow>
    (\<exists>p q. bs = p @ q \<and> fits (length p) os \<and>
       os' = (os_append p os)\<lparr>os_errmsg := os_errmsg os'\<rparr>)"

definition emits :: "'o enc \<Rightarrow> byte list \<Rightarrow> bool"
  where "emits e bs \<longleftrightarrow>
    (\<forall>os. plain os \<longrightarrow>
      (fits (length bs) os \<longrightarrow> e os = (Ok (), os_append bs os)) \<and>
      (\<not> fits (length bs) os \<and> unat (os_bytes_written os) + length bs < 2 ^ 64 \<longrightarrow>
        (\<exists>os'. e os = (Fail, os') \<and> partial_write bs os os')))"

definition keeps_plain :: "'o enc \<Rightarrow> bool"
  where "keeps_plain e \<longleftrightarrow> (\<forall>os os'. plain os \<and> e os = (Ok (), os') \<longrightarrow> plain os')"

definition never_ok :: "'o enc \<Rightarrow> bool"
  where "never_ok e \<longleftrightarrow> (\<forall>os. plain os \<longrightarrow> fst (e os) \<noteq> Ok ())"

definition uniform :: "'o enc \<Rightarrow> bool"
  where "uniform e \<longleftrightarrow> keeps_plain e \<and> ((\<exists>bs. emits e bs) \<or> never_ok e)"

section \<open>The stream algebra\<close>

lemma os_append_sel [simp]:
  "os_max_size (os_append bs os) = os_max_size os"
  "os_errmsg (os_append bs os) = os_errmsg os"
  "os_bytes_written (os_append bs os) = os_bytes_written os + of_nat (length bs)"
  "os_sink (os_append bs os) = sink_append bs (os_sink os)"
  by (simp_all add: os_append_def)

lemma sink_append_append [simp]: "sink_append b (sink_append a s) = sink_append (a @ b) s"
  by (cases s) (simp_all add: sink_append_def)

lemma os_append_append: "os_append b (os_append a os) = os_append (a @ b) os"
  by (simp add: os_append_def algebra_simps)

lemma sink_append_Nil [simp]: "sink_append [] s = s"
  by (cases s) (simp_all add: sink_append_def)

lemma os_append_Nil [simp]: "os_append [] os = os"
  by (simp add: os_append_def)

lemma sink_append_case:
  "sink_append bs Null_sink = Null_sink"
  "sink_append bs (Buf_sink st) = Buf_sink (st @ bs)"
  "sink_append bs (User_sink f u) = User_sink f u"
  by (simp_all add: sink_append_def)

lemma plain_sizing [simp]: "plain PB_OSTREAM_SIZING"
  by (simp add: plain_def PB_OSTREAM_SIZING_def)

lemma fits_errmsg [simp]: "fits n (os\<lparr>os_errmsg := x\<rparr>) = fits n os"
  by (cases "os_sink os") (simp_all add: fits_def)

lemma append_errmsg:
  "os_append bs (os\<lparr>os_errmsg := x\<rparr>) = (os_append bs os)\<lparr>os_errmsg := x\<rparr>"
  by (simp add: os_append_def)

lemma fits_mono: "fits n os \<Longrightarrow> k \<le> n \<Longrightarrow> fits k os"
  by (cases "os_sink os") (simp_all add: fits_def)

lemma unat_add_of_nat:
  "unat (a :: size_t) + n < 2 ^ 64 \<Longrightarrow> unat (a + of_nat n) = unat a + n"
  by (simp add: unat_word_ariths unat_of_nat)

lemma unat_size_t_less: "unat (a :: size_t) < 2 ^ 64"
  using unsigned_less [of a] by simp

lemma fits_written:
  assumes "os_sink os = Buf_sink st" "fits n os"
  shows "unat (os_bytes_written os + of_nat n) = unat (os_bytes_written os) + n"
  using assms unat_size_t_less [of "os_max_size os"]
  by (intro unat_add_of_nat) (simp add: fits_def)

lemma fits_append:
  "fits (length a) os \<Longrightarrow> fits n (os_append a os) \<longleftrightarrow> fits (length a + n) os"
proof (cases "os_sink os")
  case (Buf_sink st)
  assume f: "fits (length a) os"
  show ?thesis
    using Buf_sink fits_written [OF Buf_sink f] by (simp add: fits_def sink_append_case add.assoc)
qed (simp_all add: fits_def sink_append_case)

lemma fits_buffer: "\<not> fits n os \<Longrightarrow> plain os \<Longrightarrow> \<exists>st. os_sink os = Buf_sink st"
  by (cases "os_sink os") (simp_all add: fits_def plain_def)

lemma fits_0: "plain os \<Longrightarrow> fits 0 os"
  by (cases "os_sink os") (simp_all add: fits_def plain_def)

lemma plain_append: "plain os \<Longrightarrow> fits (length bs) os \<Longrightarrow> plain (os_append bs os)"
  using fits_append [of bs os 0]
  by (cases "os_sink os") (simp_all add: plain_def fits_def sink_append_case)

section \<open>Emission is compositional\<close>

lemma emitsD_fits: "emits e bs \<Longrightarrow> plain os \<Longrightarrow> fits (length bs) os \<Longrightarrow> e os = (Ok (), os_append bs os)"
  by (simp add: emits_def)

lemma emitsD_full:
  "emits e bs \<Longrightarrow> plain os \<Longrightarrow> \<not> fits (length bs) os \<Longrightarrow>
    unat (os_bytes_written os) + length bs < 2 ^ 64 \<Longrightarrow>
    \<exists>os'. e os = (Fail, os') \<and> partial_write bs os os'"
  by (simp add: emits_def)

lemma partial_write_left: "partial_write a os os' \<Longrightarrow> partial_write (a @ b) os os'"
  unfolding partial_write_def by (metis append.assoc)

lemma partial_write_right:
  assumes f: "fits (length a) os" and p: "partial_write b (os_append a os) os'"
  shows "partial_write (a @ b) os os'"
proof -
  from p obtain p q where pq: "b = p @ q" "fits (length p) (os_append a os)"
    "os' = (os_append p (os_append a os))\<lparr>os_errmsg := os_errmsg os'\<rparr>"
    by (auto simp: partial_write_def)
  have "a @ b = (a @ p) @ q" using pq by simp
  moreover have "fits (length (a @ p)) os" using pq f by (simp add: fits_append)
  ultimately show ?thesis
    unfolding partial_write_def using pq(3) by (metis os_append_append)
qed

lemma emits_seq:
  assumes e: "emits e a" and f: "emits f b"
  shows "emits (seq e (\<lambda>_. f)) (a @ b)"
  unfolding emits_def
proof (intro allI impI conjI)
  fix os :: "'a pb_ostream" assume pl: "plain os"
  show "seq e (\<lambda>_. f) os = (Ok (), os_append (a @ b) os)" if "fits (length (a @ b)) os"
  proof -
    have fa: "fits (length a) os" using that by (rule fits_mono) simp
    then have "fits (length b) (os_append a os)" using that by (simp add: fits_append)
    then show ?thesis
      using emitsD_fits [OF e pl fa] emitsD_fits [OF f, of "os_append a os"] plain_append [OF pl fa]
      by (simp add: seq_simps os_append_append)
  qed
next
  fix os :: "'a pb_ostream" assume pl: "plain os"
    and full: "\<not> fits (length (a @ b)) os \<and> unat (os_bytes_written os) + length (a @ b) < 2 ^ 64"
  show "\<exists>os'. seq e (\<lambda>_. f) os = (Fail, os') \<and> partial_write (a @ b) os os'"
  proof (cases "fits (length a) os")
    case True
    from full pl obtain st where st: "os_sink os = Buf_sink st" using fits_buffer by blast
    have "\<not> fits (length b) (os_append a os)" using full True by (simp add: fits_append)
    moreover have "unat (os_bytes_written (os_append a os)) + length b < 2 ^ 64"
      using full fits_written [OF st True] by simp
    ultimately obtain os' where "f (os_append a os) = (Fail, os')" "partial_write b (os_append a os) os'"
      using emitsD_full [OF f] plain_append [OF pl True] by blast
    then show ?thesis
      using emitsD_fits [OF e pl True] partial_write_right [OF True] by (auto simp: seq_simps)
  next
    case False
    then obtain os' where "e os = (Fail, os')" "partial_write a os os'"
      using emitsD_full [OF e pl] full by auto
    then show ?thesis using partial_write_left by (auto simp: seq_simps)
  qed
qed

lemma emits_ret [simp]: "emits (ret ()) []"
  by (auto simp: emits_def dest: fits_0)

lemma emits_Pair [simp]: "emits (Pair (Ok ())) []"
  using emits_ret by (simp add: emits_def)

lemma emits_keeps_plain_fits: "emits e bs \<Longrightarrow> plain os \<Longrightarrow> fits (length bs) os \<Longrightarrow> plain (snd (e os))"
  by (simp add: emitsD_fits plain_append)

lemma emits_sizing:
  assumes "emits e bs"
  shows "\<exists>s. e PB_OSTREAM_SIZING = (Ok (), s) \<and> os_bytes_written s = of_nat (length bs)"
  using emitsD_fits [OF assms plain_sizing] by (auto simp: fits_def PB_OSTREAM_SIZING_def os_append_def)

lemma never_okI: "(\<And>os os'. plain os \<Longrightarrow> e os = (Ok (), os') \<Longrightarrow> False) \<Longrightarrow> never_ok e"
  unfolding never_ok_def by (metis prod.collapse)

lemma never_okD: "never_ok e \<Longrightarrow> plain os \<Longrightarrow> e os = (Ok u, os') \<Longrightarrow> False"
  unfolding never_ok_def by force

lemma keeps_plainD: "keeps_plain e \<Longrightarrow> plain os \<Longrightarrow> e os = (Ok u, os') \<Longrightarrow> plain os'"
  unfolding keeps_plain_def by simp

lemma never_ok_seq1: "never_ok e \<Longrightarrow> never_ok (seq e f)"
  by (rule never_okI) (auto simp: seq_eq_Ok dest: never_okD)

lemma never_ok_seq2:
  assumes "keeps_plain e" "\<And>x. never_ok (f x)"
  shows "never_ok (seq e f)"
proof (rule never_okI)
  fix os os' assume "plain os" "seq e f os = (Ok (), os')"
  then obtain x t where "e os = (Ok x, t)" "f x t = (Ok (), os')" "plain t"
    using keeps_plainD [OF assms(1)] by (auto simp: seq_eq_Ok)
  then show False using never_okD [OF assms(2)] by blast
qed

lemma keeps_plain_seq:
  assumes "keeps_plain e" "\<And>x. keeps_plain (f x)"
  shows "keeps_plain (seq e f)"
  unfolding keeps_plain_def
proof (intro allI impI, elim conjE)
  fix os os' assume "plain os" "seq e f os = (Ok (), os')"
  then obtain x t where "e os = (Ok x, t)" "f x t = (Ok (), os')" "plain t"
    using keeps_plainD [OF assms(1)] by (auto simp: seq_eq_Ok)
  then show "plain os'" using keeps_plainD [OF assms(2)] by blast
qed

lemma uniform_seq:
  assumes e: "uniform e" and f: "uniform f"
  shows "uniform (seq e (\<lambda>_. f))"
proof -
  have "keeps_plain (seq e (\<lambda>_. f))"
    using e f by (intro keeps_plain_seq) (simp_all add: uniform_def)
  moreover have "(\<exists>bs. emits (seq e (\<lambda>_. f)) bs) \<or> never_ok (seq e (\<lambda>_. f))"
    using e f emits_seq never_ok_seq1 [of e "\<lambda>_. f"] never_ok_seq2 [of e "\<lambda>_. f"]
    unfolding uniform_def by metis
  ultimately show ?thesis by (simp add: uniform_def)
qed

lemma uniform_emits: "keeps_plain e \<Longrightarrow> emits e bs \<Longrightarrow> uniform e"
  by (auto simp: uniform_def)

lemma uniform_fails: "(\<And>os. fst (e os) \<noteq> Ok ()) \<Longrightarrow> uniform e"
  unfolding uniform_def never_ok_def keeps_plain_def by (metis fst_conv)

lemma uniform_ret [simp]: "uniform (ret ())"
  by (rule uniform_emits [OF _ emits_ret]) (simp add: keeps_plain_def)

lemma uniform_error [simp]: "uniform (os_return_error msg)"
  by (rule uniform_fails) (simp add: os_return_error_def)

lemma uniform_undefd [simp]: "uniform undefd"
  by (rule uniform_fails) simp

section \<open>The primitive encoders\<close>

lemma emits_pb_write:
  assumes "unat c \<le> length buf"
  shows "emits (pb_write buf c) (take (unat c) buf)"
  unfolding emits_def
proof (intro allI impI conjI)
  fix os :: "'a pb_ostream" assume pl: "plain os" and f: "fits (length (take (unat c) buf)) os"
  have n: "length (take (unat c) buf) = unat c" using assms by simp
  from f have f': "fits (unat c) os" by (simp only: n)
  show "pb_write buf c os = (Ok (), os_append (take (unat c) buf) os)"
  proof (cases "os_sink os")
    case Null_sink
    then show ?thesis
      using assms by (simp add: pb_write_def os_append_def sink_append_case min_def)
  next
    case (Buf_sink st)
    have "unat (os_bytes_written os + c) \<le> unat (os_max_size os)"
      using fits_written [OF Buf_sink f'] f' Buf_sink by (simp add: fits_def)
    then show ?thesis
      using assms Buf_sink
      by (simp add: pb_write_def os_append_def sink_append_case min_def buf_write_def
          word_less_nat_alt not_less)
  next
    case (User_sink cb u)
    with pl show ?thesis by (simp add: plain_def)
  qed
next
  fix os :: "'a pb_ostream" assume pl: "plain os"
    and full: "\<not> fits (length (take (unat c) buf)) os \<and>
      unat (os_bytes_written os) + length (take (unat c) buf) < 2 ^ 64"
  from full pl obtain st where st: "os_sink os = Buf_sink st" using fits_buffer by blast
  have n: "length (take (unat c) buf) = unat c" using assms by simp
  have "unat (os_bytes_written os + c) = unat (os_bytes_written os) + unat c"
    using unat_add_of_nat [of "os_bytes_written os" "unat c"] full n by simp
  then have over: "os_max_size os < os_bytes_written os + c"
    using full n st by (simp add: fits_def word_less_nat_alt not_le)
  define os' where "os' = os_set_error ''stream full'' os"
  have "os' = os\<lparr>os_errmsg := os_errmsg os'\<rparr>"
    by (simp add: os'_def os_set_error_def split: option.splits)
  then have "partial_write (take (unat c) buf) os os'"
    unfolding partial_write_def using fits_0 [OF pl] by (metis append_Nil list.size(3) os_append_Nil)
  moreover have "pb_write buf c os = (Fail, os')"
    using st over by (simp add: pb_write_def os'_def os_return_error_def)
  ultimately show "\<exists>os'. pb_write buf c os = (Fail, os') \<and> partial_write (take (unat c) buf) os os'"
    by blast
qed

lemma keeps_plain_pb_write: "keeps_plain (pb_write buf c)"
  unfolding keeps_plain_def
  by (auto simp: pb_write_def plain_def Let_def os_return_error_def word_less_nat_alt not_less
      split: pb_sink.splits if_splits prod.splits bool.splits)

lemma uniform_pb_write: "unat c \<le> length buf \<Longrightarrow> uniform (pb_write buf c)"
  by (rule uniform_emits [OF keeps_plain_pb_write emits_pb_write])

section \<open>Variable-length integers\<close>

text \<open>The byte string of a varint, seven bits at a time.\<close>

function varint_bytes :: "u64 \<Rightarrow> byte list" where
  "varint_bytes v =
    (if v \<le> 0x7F then [ucast v]
     else ucast ((v AND 0x7F) OR 0x80) # varint_bytes (drop_bit 7 v))"
  by pat_completeness auto
termination
  by (relation "measure unat") (auto intro!: drop_bit_less)

declare varint_bytes.simps [simp del]

lemma varint_buffer_step:
  "v \<noteq> 0 \<Longrightarrow> varint_buffer v = ucast ((v AND 0x7F) OR 0x80) # varint_buffer (drop_bit 7 v)"
  by (simp add: varint_buffer.simps)

lemma drop7_zero_iff: "drop_bit 7 (v :: u64) = 0 \<longleftrightarrow> v \<le> 0x7F"
proof -
  have "drop_bit 7 v = 0 \<longleftrightarrow> unat (drop_bit 7 v) = 0" by (simp add: unat_eq_0)
  also have "\<dots> \<longleftrightarrow> unat v div 128 = 0" by (simp add: unat_drop_bit_div)
  also have "\<dots> \<longleftrightarrow> unat v \<le> 127" by auto
  also have "\<dots> \<longleftrightarrow> v \<le> 0x7F" by (simp add: word_le_nat_alt)
  finally show ?thesis .
qed

lemma low7_last:
  assumes "v \<le> (0x7F :: u64)"
  shows "ucast ((v AND 0x7F) OR 0x80) AND 0x7F = (ucast v :: byte)"
proof (rule bit_word_eqI)
  fix n assume "n < LENGTH(8)"
  then have n: "n < 8" by simp
  have z: "\<not> bit v (7 :: nat)"
  proof
    assume "bit v (7 :: nat)"
    then have "bit (drop_bit 7 v) 0" by (simp add: bit_drop_bit_eq)
    with assms show False by (simp add: drop7_zero_iff [symmetric])
  qed
  have "n = 0 \<or> n = 1 \<or> n = 2 \<or> n = 3 \<or> n = 4 \<or> n = 5 \<or> n = 6 \<or> n = 7" using n by auto
  then show "bit (ucast ((v AND 0x7F) OR 0x80) AND 0x7F :: byte) n = bit (ucast v :: byte) n"
    using z by (elim disjE) (simp_all add: bit_simps bit_numeral_rec)
qed

lemma varint_buffer_bytes:
  "v \<noteq> 0 \<Longrightarrow> butlast (varint_buffer v) @ [last (varint_buffer v) AND 0x7F] = varint_bytes v"
proof (induction v rule: varint_buffer.induct)
  case (1 v)
  show ?case
  proof (cases "v \<le> 0x7F")
    case True
    then have "drop_bit 7 v = 0" by (simp add: drop7_zero_iff)
    moreover have "varint_buffer 0 = []" by (simp add: varint_buffer.simps)
    ultimately show ?thesis
      using True "1.prems" low7_last [OF True]
      by (simp add: varint_buffer_step varint_bytes.simps [of v])
  next
    case False
    then have nz: "drop_bit 7 v \<noteq> 0" by (simp add: drop7_zero_iff)
    then have "varint_buffer (drop_bit 7 v) \<noteq> []" by (simp add: varint_buffer_step)
    then show ?thesis
      using "1.IH" [OF "1.prems" nz] False "1.prems"
      by (simp add: varint_buffer_step [of v] varint_bytes.simps [of v])
  qed
qed

lemma varint_buffer_length: "unat v < 2 ^ (7 * k) \<Longrightarrow> length (varint_buffer v) \<le> k"
proof (induction k arbitrary: v)
  case 0
  then have "v = 0" by (simp add: unat_eq_0)
  then show ?case by (simp add: varint_buffer.simps)
next
  case (Suc k)
  show ?case
  proof (cases "v = 0")
    case True
    then show ?thesis by (simp add: varint_buffer.simps)
  next
    case False
    have "unat (drop_bit 7 v) < 2 ^ (7 * k)"
      using Suc.prems
      by (simp add: unat_drop_bit_div power_add less_mult_imp_div_less mult.commute)
    from Suc.IH [OF this] show ?thesis using False by (simp add: varint_buffer_step)
  qed
qed

lemma varint_buffer_length_10: "length (varint_buffer v) \<le> 10"
  using unat_size_t_less [of v] by (intro varint_buffer_length) simp

lemma varint_bytes_length: "0 < length (varint_bytes v) \<and> length (varint_bytes v) \<le> 10"
proof (cases "v = 0")
  case True
  then show ?thesis by (simp add: varint_bytes.simps)
next
  case False
  then have "varint_buffer v \<noteq> []" by (simp add: varint_buffer_step)
  moreover have "length (varint_bytes v) = Suc (length (butlast (varint_buffer v)))"
    using varint_buffer_bytes [OF False] by (metis length_append_singleton)
  ultimately show ?thesis using varint_buffer_length_10 [of v] by (cases "varint_buffer v") simp_all
qed

lemma pb_encode_varint_write:
  "pb_encode_varint v = pb_write (varint_bytes v) (of_nat (length (varint_bytes v)))"
proof (cases "v \<le> 0x7F")
  case True
  then show ?thesis by (simp add: pb_encode_varint_def varint_bytes.simps)
next
  case False
  then have "v \<noteq> 0" by auto
  then have "varint_buffer v \<noteq> []" "butlast (varint_buffer v) @ [last (varint_buffer v) AND 0x7F] = varint_bytes v"
    by (simp add: varint_buffer_step, simp add: varint_buffer_bytes)
  moreover from this have "length (varint_bytes v) = length (varint_buffer v)"
    by (metis length_append_singleton append_butlast_last_id)
  ultimately show ?thesis using False by (simp add: pb_encode_varint_def Let_def)
qed

lemma emits_short:
  assumes "length bs < 2 ^ 64"
  shows "emits (pb_write bs (of_nat (length bs))) bs"
  using emits_pb_write [of "of_nat (length bs)" bs] assms by (simp add: unat_of_nat)

lemma emits_varint: "emits (pb_encode_varint v) (varint_bytes v)"
  unfolding pb_encode_varint_write using varint_bytes_length [of v] by (intro emits_short) simp

lemma keeps_plain_varint: "keeps_plain (pb_encode_varint v)"
  by (simp add: pb_encode_varint_write keeps_plain_pb_write)

lemma uniform_varint [simp]: "uniform (pb_encode_varint v)"
  by (rule uniform_emits [OF keeps_plain_varint emits_varint])

section \<open>Uniformity of the message encoder\<close>

lemma unat_of_nat_le: "unat (of_nat n :: 'a::len word) \<le> n"
  by (simp add: unat_of_nat)

lemma uniform_svarint [simp]: "uniform (pb_encode_svarint v)"
  by (simp add: pb_encode_svarint_def Let_def)

lemma uniform_fixed32 [simp]: "uniform (pb_encode_fixed32 m a)"
  by (simp add: pb_encode_fixed32_def Let_def uniform_pb_write)

lemma uniform_fixed64 [simp]: "uniform (pb_encode_fixed64 m a)"
  by (simp add: pb_encode_fixed64_def Let_def uniform_pb_write)

lemma uniform_tag [simp]: "uniform (pb_encode_tag wt n)"
  by (simp add: pb_encode_tag_def)

lemma uniform_tag_for_field [simp]: "uniform (pb_encode_tag_for_field f)"
  by (simp add: pb_encode_tag_for_field_def split: option.split)

lemma uniform_string: "unat n \<le> length buf \<Longrightarrow> uniform (pb_encode_string buf n)"
  unfolding pb_encode_string_def by (intro uniform_seq uniform_varint uniform_pb_write)

lemma uniform_enc_varint [simp]: "uniform (pb_enc_varint m f a)"
  by (simp add: pb_enc_varint_def split: option.split)

lemma uniform_enc_uvarint [simp]: "uniform (pb_enc_uvarint m f a)"
  by (simp add: pb_enc_uvarint_def split: option.split)

lemma uniform_enc_svarint [simp]: "uniform (pb_enc_svarint m f a)"
  by (simp add: pb_enc_svarint_def split: option.split)

lemma uniform_enc_bytes [simp]: "uniform (pb_enc_bytes m f a)"
  by (simp add: pb_enc_bytes_def Let_def uniform_string)

lemma uniform_enc_string [simp]: "uniform (pb_enc_string m f a)"
  by (simp add: pb_enc_string_def Let_def uniform_string unat_of_nat_le)

lemma uniform_enc_fixed_length [simp]: "uniform (pb_enc_fixed_length_bytes m f a)"
  by (simp add: pb_enc_fixed_length_bytes_def uniform_string)

lemma keeps_plain_body:
  assumes "keeps_plain (sub flds src)"
  shows "keeps_plain (submessage_body sub flds src sz)"
  unfolding keeps_plain_def
proof (intro allI impI, elim conjE)
  fix os os' assume pl: "plain os" and ok: "submessage_body sub flds src sz os = (Ok (), os')"
  show "plain os'"
  proof (cases "os_sink os")
    case Null_sink
    then have "pb_write [] sz os = (Ok (), os')"
      using ok by (simp add: submessage_body_def is_sizing_def)
    then show ?thesis by (rule keeps_plainD [OF keeps_plain_pb_write pl])
  next
    case (User_sink cb u)
    with pl show ?thesis by (simp add: plain_def)
  next
    case (Buf_sink st)
    define sub0 :: "'a pb_ostream"
      where "sub0 = \<lparr>os_sink = Buf_sink st, os_max_size = sz, os_bytes_written = 0, os_errmsg = None\<rparr>"
    have le: "\<not> os_max_size os < os_bytes_written os + sz"
      using ok Buf_sink by (auto simp: submessage_body_def is_sizing_def os_return_error_def split: if_splits)
    then obtain sub2 where s2: "sub flds src sub0 = (Ok (), sub2)" "os_bytes_written sub2 = sz"
      "os' = os\<lparr>os_bytes_written := os_bytes_written os + sz, os_sink := os_sink sub2,
              os_errmsg := os_errmsg sub2\<rparr>"
      using ok Buf_sink
      by (auto simp: submessage_body_def is_sizing_def os_return_error_def sub0_def Let_def
          split: if_splits prod.splits outcome.splits)
    have "plain sub0" by (simp add: sub0_def plain_def)
    then have "plain sub2" by (rule keeps_plainD [OF assms _ s2(1)])
    then show ?thesis
      using s2(3) le by (auto simp: plain_def word_less_nat_alt not_less split: pb_sink.splits)
  qed
qed

lemma emits_body:
  assumes e: "emits (sub flds src) bs"
  shows "emits (submessage_body sub flds src (of_nat (length bs))) bs"
  unfolding emits_def
proof (intro allI impI conjI)
  fix os :: "'a pb_ostream" assume pl: "plain os" and f: "fits (length bs) os"
  show "submessage_body sub flds src (of_nat (length bs)) os = (Ok (), os_append bs os)"
  proof (cases "os_sink os")
    case Null_sink
    then show ?thesis
      by (simp add: submessage_body_def is_sizing_def pb_write_def os_append_def sink_append_case)
  next
    case (User_sink cb u)
    with pl show ?thesis by (simp add: plain_def)
  next
    case (Buf_sink st)
    define sub0 :: "'a pb_ostream" where "sub0 = \<lparr>os_sink = Buf_sink st,
        os_max_size = of_nat (length bs), os_bytes_written = 0, os_errmsg = None\<rparr>"
    have w: "unat (os_bytes_written os + of_nat (length bs)) \<le> unat (os_max_size os)"
      using fits_written [OF Buf_sink f] f Buf_sink by (simp add: fits_def)
    have len: "length bs < 2 ^ 64"
      using f Buf_sink unat_size_t_less [of "os_max_size os"] by (simp add: fits_def)
    have "plain sub0" "fits (length bs) sub0"
      using len by (simp_all add: sub0_def plain_def fits_def unat_of_nat)
    then have "sub flds src sub0 = (Ok (), os_append bs sub0)" by (rule emitsD_fits [OF e])
    then show ?thesis
      using w Buf_sink pl
      by (simp add: submessage_body_def is_sizing_def sub0_def word_less_nat_alt os_append_def
          sink_append_case plain_def)
  qed
next
  fix os :: "'a pb_ostream" assume pl: "plain os"
    and full: "\<not> fits (length bs) os \<and> unat (os_bytes_written os) + length bs < 2 ^ 64"
  from full pl obtain st where st: "os_sink os = Buf_sink st" using fits_buffer by blast
  have "unat (os_bytes_written os + of_nat (length bs)) = unat (os_bytes_written os) + length bs"
    using full by (intro unat_add_of_nat) simp
  then have over: "os_max_size os < os_bytes_written os + of_nat (length bs)"
    using full st by (simp add: fits_def word_less_nat_alt not_le)
  then have "submessage_body sub flds src (of_nat (length bs)) os =
      (Fail, os\<lparr>os_errmsg := Some ''stream full''\<rparr>)"
    using st pl by (simp add: submessage_body_def is_sizing_def os_return_error_def os_set_error_def plain_def)
  moreover have "partial_write bs os (os\<lparr>os_errmsg := Some ''stream full''\<rparr>)"
    unfolding partial_write_def by (rule exI [of _ "[]"], rule exI [of _ bs]) (simp add: fits_0 [OF pl])
  ultimately show "\<exists>os'. submessage_body sub flds src (of_nat (length bs)) os = (Fail, os') \<and>
      partial_write bs os os'" by blast
qed

lemma uniform_submessage:
  assumes u: "uniform (sub flds src)"
  shows "uniform (pb_encode_submessage sub flds src)"
proof (cases "sub flds src PB_OSTREAM_SIZING")
  case (Pair r s0)
  show ?thesis
  proof (cases r)
    case (Ok x)
    then obtain bs where bs: "emits (sub flds src) bs"
      using u Pair plain_sizing unfolding uniform_def by (metis never_okD old.unit.exhaust)
    have n: "os_bytes_written s0 = of_nat (length bs)" using emits_sizing [OF bs] Pair by auto
    have eq: "pb_encode_submessage sub flds src =
        seq (pb_encode_varint (of_nat (length bs))) (\<lambda>_. submessage_body sub flds src (of_nat (length bs)))"
      using Pair Ok n by (auto simp: pb_encode_submessage_def)
    have "emits (submessage_body sub flds src (of_nat (length bs))) bs" using bs by (rule emits_body)
    moreover have "keeps_plain (submessage_body sub flds src (of_nat (length bs)))"
      using u by (intro keeps_plain_body) (simp add: uniform_def)
    ultimately have "uniform (submessage_body sub flds src (of_nat (length bs)))"
      by (intro uniform_emits)
    then show ?thesis unfolding eq by (intro uniform_seq uniform_varint)
  next
    case Fail
    with Pair show ?thesis by (intro uniform_fails) (simp add: pb_encode_submessage_def)
  next
    case Undef
    with Pair show ?thesis by (intro uniform_fails) (simp add: pb_encode_submessage_def)
  qed
qed

lemma uniform_fails_simp [simp]: "uniform fails"
  by (rule uniform_fails) simp

lemma uniform_items: "(\<And>a. uniform (func f a)) \<Longrightarrow> uniform (encode_items func f p n)"
  by (induction n arbitrary: p) (simp_all add: uniform_seq)

lemma uniform_tagged_items:
  "(\<And>a. uniform (func f a)) \<Longrightarrow> uniform (encode_tagged_items m func f p n)"
  by (induction n arbitrary: p) (auto intro!: uniform_seq)

lemma emits_fixed_items:
  assumes "\<And>a. \<exists>bs. emits (func f a) bs \<and> length bs = k"
  shows "\<exists>bs. emits (encode_items func f p n) bs \<and> length bs = n * k"
proof (induction n arbitrary: p)
  case 0
  then show ?case by (auto intro: emits_ret)
next
  case (Suc n)
  from assms obtain a where "emits (func f p) a" "length a = k" by blast
  moreover from Suc.IH obtain b where
    "emits (encode_items func f (p + ucast (pb_data_size f)) n) b" "length b = n * k" by blast
  ultimately show ?case by (auto intro!: exI [of _ "a @ b"] emits_seq)
qed

lemma emits_fixed32: "\<exists>bs. emits (pb_enc_fixed32 m f a) bs \<and> length bs = 4"
  unfolding pb_enc_fixed32_def pb_encode_fixed32_def Let_def
  by (rule exI, rule conjI, rule emits_pb_write) simp_all

lemma emits_fixed64: "\<exists>bs. emits (pb_enc_fixed64 m f a) bs \<and> length bs = 8"
  unfolding pb_enc_fixed64_def pb_encode_fixed64_def Let_def
  by (rule exI, rule conjI, rule emits_pb_write) simp_all

lemma keeps_plain_packed_data:
  "keeps_plain (encode_items func f p (unat c)) \<Longrightarrow> keeps_plain (packed_data func f p c sz)"
  unfolding keeps_plain_def packed_data_def
  by (auto dest: keeps_plainD [OF keeps_plain_pb_write] split: if_splits)

lemma emits_packed_data:
  assumes "emits (encode_items func f p (unat c)) bs" "sz = of_nat (length bs)"
  shows "emits (packed_data func f p c sz) bs"
  unfolding emits_def
proof (intro allI impI conjI)
  fix os :: "'a pb_ostream" assume pl: "plain os" and f: "fits (length bs) os"
  show "packed_data func f p c sz os = (Ok (), os_append bs os)"
    using emitsD_fits [OF assms(1) pl f] assms(2)
    by (cases "os_sink os")
       (simp_all add: packed_data_def is_sizing_def pb_write_def os_append_def sink_append_case)
next
  fix os :: "'a pb_ostream" assume pl: "plain os"
    and full: "\<not> fits (length bs) os \<and> unat (os_bytes_written os) + length bs < 2 ^ 64"
  then obtain st where "os_sink os = Buf_sink st" using fits_buffer by blast
  then have "packed_data func f p c sz os = encode_items func f p (unat c) os"
    by (simp add: packed_data_def is_sizing_def)
  then show "\<exists>os'. packed_data func f p c sz os = (Fail, os') \<and> partial_write bs os os'"
    using emitsD_full [OF assms(1) pl] full by simp
qed

lemma uniform_packed:
  assumes items: "\<And>a. uniform (func f a)"
    and f32: "ltype f = PB_LTYPE_FIXED32 \<Longrightarrow> func = pb_enc_fixed32 m"
    and f64: "ltype f = PB_LTYPE_FIXED64 \<Longrightarrow> func = pb_enc_fixed64 m"
    and size: "packed_size func f p c = Ok sz"
  shows "uniform (packed_data func f p c sz)"
proof -
  have u: "uniform (encode_items func f p (unat c))" using items by (rule uniform_items)
  have "\<exists>bs. emits (encode_items func f p (unat c)) bs \<and> sz = of_nat (length bs)"
  proof (cases "ltype f = PB_LTYPE_FIXED32 \<or> ltype f = PB_LTYPE_FIXED64")
    case True
    then show ?thesis
      using size f32 emits_fixed_items [where func = "pb_enc_fixed32 m" and n = "unat c", OF emits_fixed32]
        f64 emits_fixed_items [where func = "pb_enc_fixed64 m" and n = "unat c", OF emits_fixed64]
      by (fastforce simp: packed_size_def ltype_defs)
  next
    case False
    with size obtain s0 where s0: "encode_items func f p (unat c) PB_OSTREAM_SIZING = (Ok (), s0)"
      "sz = os_bytes_written s0"
      by (auto simp: packed_size_def split: prod.splits outcome.splits)
    with u obtain bs where bs: "emits (encode_items func f p (unat c)) bs"
      unfolding uniform_def using never_okD plain_sizing by blast
    with s0 emits_sizing [OF bs] show ?thesis by auto
  qed
  then obtain bs where bs: "emits (encode_items func f p (unat c)) bs" "sz = of_nat (length bs)" by blast
  have "keeps_plain (packed_data func f p c sz)"
    using u by (intro keeps_plain_packed_data) (simp add: uniform_def)
  then show ?thesis using emits_packed_data [OF bs] by (rule uniform_emits)
qed

lemma uniform_array:
  assumes "\<And>a. uniform (func f a)"
    and "ltype f = PB_LTYPE_FIXED32 \<Longrightarrow> func = pb_enc_fixed32 m"
    and "ltype f = PB_LTYPE_FIXED64 \<Longrightarrow> func = pb_enc_fixed64 m"
  shows "uniform (encode_array m func f p c)"
proof -
  have "uniform (case packed_size func f p c of
      Ok sz \<Rightarrow> seq (pb_encode_varint sz) (\<lambda>_. packed_data func f p c sz) | Fail \<Rightarrow> fails | Undef \<Rightarrow> undefd)"
    using uniform_packed [OF assms] by (auto split: outcome.split intro!: uniform_seq)
  then show ?thesis
    unfolding encode_array_def using assms(1) by (auto intro!: uniform_seq uniform_tagged_items)
qed

section \<open>User callbacks\<close>

text \<open>
  nanopb encodes a submessage twice, once to find its size and once to write it, so it requires
  of the user's callbacks that they produce the same bytes each time.
\<close>

lemma uniform_Undef [simp]: "uniform (Pair Undef)"
  by (rule uniform_fails) simp

lemma uniform_Ok [simp]: "uniform (Pair (Ok ()))"
  by (rule uniform_emits [OF _ emits_Pair]) (simp add: keeps_plain_def)

lemma partial_write_set_error:
  assumes "partial_write bs os os'"
  shows "partial_write bs os (os_set_error msg os')"
proof -
  have "os_set_error msg os' = os'\<lparr>os_errmsg := os_errmsg (os_set_error msg os')\<rparr>"
    by (simp add: os_set_error_def split: option.split)
  with assms show ?thesis
    unfolding partial_write_def by (metis pb_ostream.surjective pb_ostream.update_convs(4))
qed

lemma uniform_with_error:
  assumes "uniform e"
  shows "uniform (\<lambda>os. case e os of (Ok _, os') \<Rightarrow> (Ok (), os')
    | (Fail, os') \<Rightarrow> os_return_error msg os' | (Undef, os') \<Rightarrow> (Undef, os'))" (is "uniform ?e")
proof -
  have "keeps_plain ?e"
    using assms unfolding uniform_def keeps_plain_def
    by (auto simp: os_return_error_def split: prod.splits outcome.splits)
  moreover have "emits ?e bs" if em: "emits e bs" for bs
    unfolding emits_def
  proof (intro allI impI conjI)
    fix os :: "'a pb_ostream" assume "plain os" "fits (length bs) os"
    then show "?e os = (Ok (), os_append bs os)" using emitsD_fits [OF em] by simp
  next
    fix os :: "'a pb_ostream" assume "plain os"
      "\<not> fits (length bs) os \<and> unat (os_bytes_written os) + length bs < 2 ^ 64"
    then obtain os' where "e os = (Fail, os')" "partial_write bs os os'"
      using emitsD_full [OF em] by blast
    then show "\<exists>os'. ?e os = (Fail, os') \<and> partial_write bs os os'"
      by (auto simp: os_return_error_def intro: partial_write_set_error)
  qed
  moreover have "never_ok ?e" if "never_ok e"
    using that unfolding never_ok_def
    by (auto simp: os_return_error_def split: prod.splits outcome.splits)
  ultimately show ?thesis using assms unfolding uniform_def by blast
qed

lemma uniform_iter_do: "(\<And>it. uniform (body it)) \<Longrightarrow> uniform (iter_do body it)"
proof (induction "length (it_start it) - it_pos it" arbitrary: it rule: less_induct)
  case less
  have "iter_do body it = seq (body it) (\<lambda>_. case pb_field_iter_next it of
      (True, it') \<Rightarrow> iter_do body it' | (False, _) \<Rightarrow> ret ())"
    by (rule ext) (rule iter_do.simps)
  moreover have "uniform (case pb_field_iter_next it of (True, it') \<Rightarrow> iter_do body it' | (False, _) \<Rightarrow> ret ())"
  proof (cases "pb_field_iter_next it")
    case (Pair b it')
    show ?thesis
    proof (cases b)
      case True
      with Pair have "length (it_start it') - it_pos it' < length (it_start it) - it_pos it"
        using iter_next_pos [of it it'] by auto
      with less.hyps less.prems Pair True show ?thesis by simp
    next
      case False
      with Pair show ?thesis by simp
    qed
  qed
  ultimately show ?case using less.prems by (simp add: uniform_seq)
qed

locale repeatable_callbacks =
  fixes env :: "'o pb_enc_env"
  assumes callback_uniform: "uniform (en_callback env fn f arg)"
    and extension_uniform: "uniform (en_extension env fn e)"
begin

lemma uniform_encoder:
  "(\<And>flds src. uniform (sub flds src)) \<Longrightarrow> uniform (PB_ENCODERS env sub m lt f a)"
  by (simp add: PB_ENCODERS_def pb_enc_fixed32_def pb_enc_fixed64_def pb_enc_submessage_def
      uniform_submessage)

lemma uniform_basic_field:
  assumes "\<And>flds src. uniform (sub flds src)"
  shows "uniform (encode_basic_field env sub d m f a)"
proof -
  have p: "uniform (encode_present (PB_ENCODERS env sub m (ltype f)) f b)" for b
    unfolding encode_present_def using assms by (intro uniform_seq uniform_encoder) simp_all
  have r: "uniform (encode_array m (PB_ENCODERS env sub m (ltype f)) f b c)" for b c
    using assms by (intro uniform_array uniform_encoder) (simp_all add: PB_ENCODERS_def ltype_defs)
  show ?thesis
    unfolding encode_basic_field_def Let_def using p r by (auto split: option.split)
qed

lemma uniform_callback_field: "uniform (encode_callback_field env m f a)"
  unfolding encode_callback_field_def [abs_def] Let_def
  using uniform_with_error [OF callback_uniform] by (cases "load sizeof_ptr m a = (0::addr)") simp_all

lemma uniform_field:
  "(\<And>flds src. uniform (sub flds src)) \<Longrightarrow> uniform (encode_field env sub d m f a)"
  by (simp add: encode_field_def uniform_basic_field uniform_callback_field)

lemma uniform_extensions:
  assumes "\<And>flds src. uniform (sub flds src)"
  shows "uniform (encode_extensions env sub d m n e)"
proof (induction n arbitrary: e)
  case 0
  then show ?case by (cases "e = 0") (simp_all add: uniform_Undef)
next
  case (Suc n)
  have "uniform (default_extension_encoder env sub d m e)"
    using assms by (simp add: default_extension_encoder_def Let_def uniform_field)
  with Suc.IH show ?case
    by (cases "e = 0") (auto simp: Let_def intro!: uniform_seq extension_uniform)
qed

lemma uniform_fields_body:
  "(\<And>flds src. uniform (sub flds src)) \<Longrightarrow> uniform (encode_fields_body env sub d m it)"
  by (simp add: encode_fields_body_def encode_extension_field_def uniform_extensions uniform_field)

lemma uniform_encode: "uniform (pb_encode env m d flds src)"
proof (induction d arbitrary: flds src)
  case 0
  then show ?case by simp
next
  case (Suc d)
  then show ?case
    by (auto split: prod.split bool.split intro!: uniform_iter_do uniform_fields_body)
qed

text \<open>The encoded size is the number of bytes a real pass writes.\<close>

lemma size_is_emitted:
  assumes "pb_get_encoded_size env m d flds src = Ok n"
  shows "\<exists>bs. n = of_nat (length bs) \<and> emits (pb_encode env m d flds src) bs"
proof -
  from assms obtain s0 where s0: "pb_encode env m d flds src PB_OSTREAM_SIZING = (Ok (), s0)"
    "n = os_bytes_written s0"
    by (auto simp: pb_get_encoded_size_def split: prod.splits outcome.splits)
  with uniform_encode [of m d flds src] obtain bs where bs: "emits (pb_encode env m d flds src) bs"
    unfolding uniform_def using never_okD plain_sizing by blast
  with s0 emits_sizing [OF bs] show ?thesis by auto
qed

lemma emitted_has_size:
  assumes "plain os" "pb_encode env m d flds src os = (Ok (), os')"
  shows "\<exists>n. pb_get_encoded_size env m d flds src = Ok n"
proof -
  from uniform_encode [of m d flds src] assms obtain bs where bs: "emits (pb_encode env m d flds src) bs"
    unfolding uniform_def using never_okD by blast
  from emits_sizing [OF bs] show ?thesis by (auto simp: pb_get_encoded_size_def)
qed

end

end
