(* ===== verification/Nanopb_Decode.thy ===== *)
theory Nanopb_Decode
  imports Nanopb_Common
begin

text \<open>
  The decoder of nanopb (\<^verbatim>\<open>pb_decode.c\<close>, without \<^verbatim>\<open>PB_ENABLE_MALLOC\<close>).  An input
  stream is its source (a memory buffer, with the bytes from the read position on, or a user
  callback with its state), the number of bytes left and the first error message.  The message
  structure lies in the byte memory; functions that fill it in take and return the pair of
  stream and memory.  The input buffer is not part of that memory: the decoder never writes to
  it, and a destination that overlaps its own input is outside the model.

  Reading a buffer past its end is \<open>Undef\<close>, as are a call through the null entry of
  \<^verbatim>\<open>PB_DECODERS\<close>, an index outside \<^verbatim>\<open>fields_seen\<close>, a 32-bit shift by 32, and
  running out of the bound \<open>d\<close> on recursion and on the length of extension chains.
\<close>

section \<open>Input streams\<close>

datatype 's pb_source =
    Buf_source "byte list"
  | User_source "'s \<Rightarrow> nat \<Rightarrow> bool \<times> (nat \<Rightarrow> byte) \<times> 's" 's

record 's pb_istream =
  is_source :: "'s pb_source"
  is_bytes_left :: size_t
  is_errmsg :: "string option"

type_synonym ('s, 'a) sdec = "'s pb_istream \<Rightarrow> 'a outcome \<times> 's pb_istream"

definition is_set_error :: "string \<Rightarrow> 's pb_istream \<Rightarrow> 's pb_istream"
  where "is_set_error msg st =
    (case is_errmsg st of None \<Rightarrow> st\<lparr>is_errmsg := Some msg\<rparr> | Some _ \<Rightarrow> st)"

definition is_return_error :: "string \<Rightarrow> ('s, 'a) sdec"
  where "is_return_error msg st = (Fail, is_set_error msg st)"

definition is_user_source :: "'s pb_istream \<Rightarrow> bool"
  where "is_user_source st \<longleftrightarrow> (case is_source st of Buf_source _ \<Rightarrow> False | User_source _ _ \<Rightarrow> True)"

text \<open>\<^verbatim>\<open>stream->callback(stream, buf, count)\<close>: \<^verbatim>\<open>buf_read\<close> or the user's function.\<close>

definition buf_read :: "byte list \<Rightarrow> nat \<Rightarrow> (byte list \<times> byte list) option"
  where "buf_read source count =
    (if length source < count then None else Some (take count source, drop count source))"

definition stream_callback :: "nat \<Rightarrow> ('s, byte list) sdec" where
  "stream_callback count st =
    (case is_source st of
       Buf_source source \<Rightarrow>
         (case buf_read source count of
            None \<Rightarrow> (Undef, st)
          | Some (buf, source') \<Rightarrow> (Ok buf, st\<lparr>is_source := Buf_source source'\<rparr>))
     | User_source cb u \<Rightarrow>
         (case cb u count of
            (True, contents, u') \<Rightarrow> (Ok (map contents [0..<count]), st\<lparr>is_source := User_source cb u'\<rparr>)
          | (False, _, u') \<Rightarrow> is_return_error ''io error'' (st\<lparr>is_source := User_source cb u'\<rparr>)))"

definition pb_read_into :: "size_t \<Rightarrow> ('s, byte list) sdec" where
  "pb_read_into count st =
    (if is_bytes_left st < count then is_return_error ''end-of-stream'' st
     else seq (stream_callback (unat count))
       (\<lambda>buf st. (Ok buf, st\<lparr>is_bytes_left := is_bytes_left st - count\<rparr>)) st)"

function pb_skip_input :: "size_t \<Rightarrow> ('s, byte list) sdec" where
  "pb_skip_input count st =
    (if 16 < count then seq (pb_read_into 16) (\<lambda>_. pb_skip_input (count - 16)) st
     else pb_read_into count st)"
  by pat_completeness auto
termination
  by (relation "measure (\<lambda>(count, st). unat count)") (auto simp: word_less_nat_alt unat_sub word_le_nat_alt)

declare pb_skip_input.simps [simp del]

text \<open>\<open>pb_read null count\<close>: \<open>null\<close> tells whether \<^verbatim>\<open>buf\<close> is \<^verbatim>\<open>NULL\<close>; the result is
  what was stored at \<^verbatim>\<open>buf\<close>.\<close>

definition pb_read :: "bool \<Rightarrow> size_t \<Rightarrow> ('s, byte list) sdec" where
  "pb_read null count st =
    (if null \<and> is_user_source st then pb_skip_input count st else pb_read_into count st)"

definition pb_readbyte :: "('s, byte) sdec" where
  "pb_readbyte st =
    (if is_bytes_left st = 0 then is_return_error ''end-of-stream'' st
     else seq (stream_callback 1)
       (\<lambda>buf st. (Ok (hd buf), st\<lparr>is_bytes_left := is_bytes_left st - 1\<rparr>)) st)"

definition pb_istream_from_buffer :: "byte list \<Rightarrow> size_t \<Rightarrow> 's pb_istream"
  where "pb_istream_from_buffer buf bufsize =
    \<lparr>is_source = Buf_source buf, is_bytes_left = bufsize, is_errmsg = None\<rparr>"

section \<open>Helper functions\<close>

function varint32_loop :: "nat \<Rightarrow> u32 \<Rightarrow> ('s, u32) sdec" where
  "varint32_loop bitpos result st =
    (if 32 \<le> bitpos then is_return_error ''varint overflow'' st
     else seq pb_readbyte
       (\<lambda>b. let result' = result OR push_bit bitpos (ucast (b AND 0x7F))
            in if b AND 0x80 \<noteq> 0 then varint32_loop (bitpos + 7) result' else ret result') st)"
  by pat_completeness auto
termination
  by (relation "measure (\<lambda>(bitpos, result, st). 32 - bitpos)") auto

definition pb_decode_varint32 :: "('s, u32) sdec" where
  "pb_decode_varint32 =
    seq pb_readbyte
      (\<lambda>b. if b AND 0x80 = 0 then ret (ucast b) else varint32_loop 7 (ucast (b AND 0x7F)))"

function varint_loop :: "nat \<Rightarrow> u64 \<Rightarrow> ('s, u64) sdec" where
  "varint_loop bitpos result st =
    (if 64 \<le> bitpos then is_return_error ''varint overflow'' st
     else seq pb_readbyte
       (\<lambda>b. let result' = result OR push_bit bitpos (ucast (b AND 0x7F))
            in if b AND 0x80 \<noteq> 0 then varint_loop (bitpos + 7) result' else ret result') st)"
  by pat_completeness auto
termination
  by (relation "measure (\<lambda>(bitpos, result, st). 64 - bitpos)") auto

declare varint32_loop.simps [simp del] varint_loop.simps [simp del]

definition pb_decode_varint :: "('s, u64) sdec"
  where "pb_decode_varint = varint_loop 0 0"

text \<open>Every round of \<^verbatim>\<open>pb_skip_varint\<close> consumes a byte, so the bytes left bound the rounds.\<close>

fun skip_varint_loop :: "nat \<Rightarrow> ('s, unit) sdec" where
  "skip_varint_loop 0 = undefd"
| "skip_varint_loop (Suc n) =
    seq (pb_read False 1) (\<lambda>buf. if hd buf AND 0x80 \<noteq> 0 then skip_varint_loop n else ret ())"

definition pb_skip_varint :: "('s, unit) sdec"
  where "pb_skip_varint st = skip_varint_loop (Suc (unat (is_bytes_left st))) st"

definition pb_skip_string :: "('s, unit) sdec"
  where "pb_skip_string = seq pb_decode_varint32 (\<lambda>n. seq (pb_read True (ucast n)) (\<lambda>_. ret ()))"

text \<open>The four results of \<^verbatim>\<open>pb_decode_tag\<close>: its return value and the three output
  parameters.\<close>

record tag_result =
  tr_status :: bool
  tr_eof :: bool
  tr_wire_type :: u32
  tr_tag :: u32

definition pb_decode_tag :: "('s, tag_result) sdec" where
  "pb_decode_tag st =
    (case pb_decode_varint32 st of
       (Undef, st') \<Rightarrow> (Undef, st')
     | (Fail, st') \<Rightarrow>
         (Ok \<lparr>tr_status = False, tr_eof = (is_bytes_left st' = 0), tr_wire_type = 0, tr_tag = 0\<rparr>, st')
     | (Ok temp, st') \<Rightarrow>
         if temp = 0
         then (Ok \<lparr>tr_status = False, tr_eof = True, tr_wire_type = 0, tr_tag = 0\<rparr>, st')
         else (Ok \<lparr>tr_status = True, tr_eof = False, tr_wire_type = temp AND 7,
                   tr_tag = drop_bit 3 temp\<rparr>, st'))"

definition pb_skip_field :: "u32 \<Rightarrow> ('s, unit) sdec" where
  "pb_skip_field wire_type =
    (if wire_type = PB_WT_VARINT then pb_skip_varint
     else if wire_type = PB_WT_64BIT then seq (pb_read True 8) (\<lambda>_. ret ())
     else if wire_type = PB_WT_STRING then pb_skip_string
     else if wire_type = PB_WT_32BIT then seq (pb_read True 4) (\<lambda>_. ret ())
     else is_return_error ''invalid wire_type'')"

fun raw_varint :: "nat \<Rightarrow> ('s, byte list) sdec" where
  "raw_varint 0 = fails"
| "raw_varint (Suc room) =
    seq (pb_read False 1)
      (\<lambda>buf. if hd buf AND 0x80 \<noteq> 0
              then seq (raw_varint room) (\<lambda>rest. ret (buf @ rest)) else ret buf)"

definition read_raw_value :: "u32 \<Rightarrow> nat \<Rightarrow> ('s, byte list) sdec" where
  "read_raw_value wire_type max_size =
    (if wire_type = PB_WT_VARINT then raw_varint max_size
     else if wire_type = PB_WT_64BIT then pb_read False 8
     else if wire_type = PB_WT_32BIT then pb_read False 4
     else is_return_error ''invalid wire_type'')"

definition pb_make_string_substream :: "('s, 's pb_istream) sdec" where
  "pb_make_string_substream =
    seq pb_decode_varint32
      (\<lambda>sz st. if is_bytes_left st < ucast sz then is_return_error ''parent stream too short'' st
               else (Ok (st\<lparr>is_bytes_left := ucast sz\<rparr>),
                     st\<lparr>is_bytes_left := is_bytes_left st - ucast sz\<rparr>))"

definition pb_close_string_substream :: "'s pb_istream \<Rightarrow> ('s, unit) sdec" where
  "pb_close_string_substream sub st =
    (let finish = (\<lambda>sub. (Ok (), st\<lparr>is_source := is_source sub, is_errmsg := is_errmsg sub\<rparr>)) in
     if is_bytes_left sub \<noteq> 0
     then (case pb_read True (is_bytes_left sub) sub of
             (Ok _, sub') \<Rightarrow> finish sub' | (Fail, _) \<Rightarrow> (Fail, st) | (Undef, _) \<Rightarrow> (Undef, st))
     else finish sub)"

section \<open>Field decoders\<close>

text \<open>State of a decoder that fills in a message: the stream and the memory.\<close>

type_synonym ('s, 'a) dec = "'s pb_istream \<times> mem \<Rightarrow> 'a outcome \<times> ('s pb_istream \<times> mem)"

definition on_stream :: "('s, 'a) sdec \<Rightarrow> ('s, 'a) dec"
  where "on_stream f s = (case f (fst s) of (r, st') \<Rightarrow> (r, (st', snd s)))"

definition on_mem :: "(mem \<Rightarrow> mem) \<Rightarrow> ('s, unit) dec"
  where "on_mem f s = (Ok (), (fst s, f (snd s)))"

definition dec_error :: "string \<Rightarrow> ('s, 'a) dec"
  where "dec_error msg = on_stream (is_return_error msg)"

definition pb_decode_svarint :: "('s, u64) sdec" where
  "pb_decode_svarint =
    seq pb_decode_varint
      (\<lambda>v. if v AND 1 \<noteq> 0 then ret (NOT (drop_bit 1 v)) else ret (drop_bit 1 v))"

definition pb_decode_fixed32 :: "addr \<Rightarrow> ('s, unit) dec" where
  "pb_decode_fixed32 dest =
    seq (on_stream (pb_read False 4))
      (\<lambda>bytes. on_mem (\<lambda>m. store 4 m dest
        (ucast (bytes ! 0) OR push_bit 8 (ucast (bytes ! 1)) OR
         push_bit 16 (ucast (bytes ! 2)) OR push_bit 24 (ucast (bytes ! 3)) :: u32)))"

definition pb_decode_fixed64 :: "addr \<Rightarrow> ('s, unit) dec" where
  "pb_decode_fixed64 dest =
    seq (on_stream (pb_read False 8))
      (\<lambda>bytes. on_mem (\<lambda>m. store 8 m dest
        (ucast (bytes ! 0) OR push_bit 8 (ucast (bytes ! 1)) OR
         push_bit 16 (ucast (bytes ! 2)) OR push_bit 24 (ucast (bytes ! 3)) OR
         push_bit 32 (ucast (bytes ! 4)) OR push_bit 40 (ucast (bytes ! 5)) OR
         push_bit 48 (ucast (bytes ! 6)) OR push_bit 56 (ucast (bytes ! 7)) :: u64)))"

text \<open>Storing a 64-bit value in a C integer of \<^verbatim>\<open>data_size\<close> bytes; the result is the memory
  and the value read back (\<^verbatim>\<open>clamped\<close>), sign- or zero-extended.\<close>

definition store_signed :: "mem \<Rightarrow> u32 \<Rightarrow> addr \<Rightarrow> u64 \<Rightarrow> (mem \<times> u64) option" where
  "store_signed m data_size dest v =
    (if data_size = 8 then Some (store 8 m dest v, v)
     else if data_size = 4 then Some (store 4 m dest (ucast v :: u32), scast (ucast v :: u32))
     else if data_size = 2 then Some (store 2 m dest (ucast v :: u16), scast (ucast v :: u16))
     else if data_size = 1 then Some (store 1 m dest (ucast v :: byte), scast (ucast v :: byte))
     else None)"

definition store_unsigned :: "mem \<Rightarrow> u32 \<Rightarrow> addr \<Rightarrow> u64 \<Rightarrow> (mem \<times> u64) option" where
  "store_unsigned m data_size dest v =
    (if data_size = 8 then Some (store 8 m dest v, v)
     else if data_size = 4 then Some (store 4 m dest (ucast v :: u32), ucast (ucast v :: u32))
     else if data_size = 2 then Some (store 2 m dest (ucast v :: u16), ucast (ucast v :: u16))
     else if data_size = 1 then Some (store 1 m dest (ucast v :: byte), ucast (ucast v :: byte))
     else None)"

definition store_checked :: "(mem \<Rightarrow> (mem \<times> u64) option) \<Rightarrow> u64 \<Rightarrow> ('s, unit) dec" where
  "store_checked put v s =
    (case put (snd s) of
       None \<Rightarrow> dec_error ''invalid data_size'' s
     | Some (m', clamped) \<Rightarrow>
         if clamped \<noteq> v then dec_error ''integer too large'' (fst s, m')
         else (Ok (), (fst s, m')))"

definition pb_dec_varint :: "pb_field \<Rightarrow> addr \<Rightarrow> ('s, unit) dec" where
  "pb_dec_varint f dest =
    seq (on_stream pb_decode_varint)
      (\<lambda>v. let svalue = (if pb_data_size f = 8 then v else scast (ucast v :: u32))
           in store_checked (\<lambda>m. store_signed m (pb_data_size f) dest svalue) svalue)"

definition pb_dec_uvarint :: "pb_field \<Rightarrow> addr \<Rightarrow> ('s, unit) dec" where
  "pb_dec_uvarint f dest =
    seq (on_stream pb_decode_varint)
      (\<lambda>v. store_checked (\<lambda>m. store_unsigned m (pb_data_size f) dest v) v)"

definition pb_dec_svarint :: "pb_field \<Rightarrow> addr \<Rightarrow> ('s, unit) dec" where
  "pb_dec_svarint f dest =
    seq (on_stream pb_decode_svarint)
      (\<lambda>v. store_checked (\<lambda>m. store_signed m (pb_data_size f) dest v) v)"

definition pb_dec_fixed32 :: "pb_field \<Rightarrow> addr \<Rightarrow> ('s, unit) dec"
  where "pb_dec_fixed32 f dest = pb_decode_fixed32 dest"

definition pb_dec_fixed64 :: "pb_field \<Rightarrow> addr \<Rightarrow> ('s, unit) dec"
  where "pb_dec_fixed64 f dest = pb_decode_fixed64 dest"

definition pb_dec_bytes :: "pb_field \<Rightarrow> addr \<Rightarrow> ('s, unit) dec" where
  "pb_dec_bytes f dest =
    seq (on_stream pb_decode_varint32)
      (\<lambda>sz. let alloc_size = PB_BYTES_ARRAY_T_ALLOCSIZE sz in
        if PB_SIZE_MAX < sz then dec_error ''bytes overflow''
        else if alloc_size < ucast sz then dec_error ''size too large''
        else if atype f = PB_ATYPE_POINTER then dec_error ''no malloc support''
        else if ucast (pb_data_size f) < alloc_size then dec_error ''bytes overflow''
        else seq (on_mem (\<lambda>m. store 4 m dest sz))
               (\<lambda>_. seq (on_stream (pb_read False (ucast sz)))
                      (\<lambda>bytes. on_mem (\<lambda>m. mem_write m (dest + 4) bytes))))"

text \<open>\<^verbatim>\<open>alloc_size = size + 1\<close> is computed in 32 bits.  The terminator is stored whether or
  not the read succeeded.\<close>

definition pb_dec_string :: "pb_field \<Rightarrow> addr \<Rightarrow> ('s, unit) dec" where
  "pb_dec_string f dest =
    seq (on_stream pb_decode_varint32)
      (\<lambda>sz. let alloc_size = ucast (sz + 1) :: size_t in
        if alloc_size < ucast sz then dec_error ''size too large''
        else if atype f = PB_ATYPE_POINTER then dec_error ''no malloc support''
        else if ucast (pb_data_size f) < alloc_size then dec_error ''string overflow''
        else (\<lambda>s. case on_stream (pb_read False (ucast sz)) s of
               (Ok bytes, (st', m)) \<Rightarrow> (Ok (), (st', (mem_write m dest bytes)(dest + ucast sz := 0)))
             | (Fail, (st', m)) \<Rightarrow> (Fail, (st', m(dest + ucast sz := 0)))
             | (Undef, s') \<Rightarrow> (Undef, s')))"

definition pb_dec_fixed_length_bytes :: "pb_field \<Rightarrow> addr \<Rightarrow> ('s, unit) dec" where
  "pb_dec_fixed_length_bytes f dest =
    seq (on_stream pb_decode_varint32)
      (\<lambda>sz. if PB_SIZE_MAX < sz then dec_error ''bytes overflow''
        else if sz = 0 then on_mem (\<lambda>m. mem_write m dest (replicate (unat (pb_data_size f)) 0))
        else if sz \<noteq> pb_data_size f then dec_error ''incorrect fixed length bytes size''
        else seq (on_stream (pb_read False (ucast (pb_data_size f))))
               (\<lambda>bytes. on_mem (\<lambda>m. mem_write m dest bytes)))"

text \<open>Closing a substream gives the parent its position back; the inner status is returned.\<close>

definition close_after :: "(unit outcome \<times> ('s pb_istream \<times> mem)) \<Rightarrow> 's pb_istream \<Rightarrow>
    unit outcome \<times> ('s pb_istream \<times> mem)" where
  "close_after r st =
    (case r of
       (Undef, (sub, m)) \<Rightarrow> (Undef, (st, m))
     | (status, (sub, m)) \<Rightarrow>
         (case pb_close_string_substream sub st of
            (Ok _, st') \<Rightarrow> (status, (st', m))
          | (Fail, st') \<Rightarrow> (Fail, (st', m))
          | (Undef, st') \<Rightarrow> (Undef, (st', m))))"

record 's pb_dec_env =
  de_fields_at :: "addr \<Rightarrow> pb_field list"
  de_callback :: "addr \<Rightarrow> pb_field \<Rightarrow> addr \<Rightarrow> ('s, unit) dec"
  de_extension :: "addr \<Rightarrow> addr \<Rightarrow> u32 \<Rightarrow> u32 \<Rightarrow> ('s, unit) dec"

text \<open>\<open>sub init\<close> is \<^verbatim>\<open>pb_decode\<close> (\<open>init\<close>) or \<^verbatim>\<open>pb_decode_noinit\<close> one level down.\<close>

type_synonym 's sub_decoder = "bool \<Rightarrow> pb_field list \<Rightarrow> addr \<Rightarrow> ('s, unit) dec"

definition pb_dec_submessage :: "'s pb_dec_env \<Rightarrow> 's sub_decoder \<Rightarrow> pb_field \<Rightarrow> addr \<Rightarrow> ('s, unit) dec" where
  "pb_dec_submessage env sub f dest =
    seq (on_stream pb_make_string_substream)
      (\<lambda>substream s.
        if pb_ptr f = 0 then dec_error ''invalid field descriptor'' s
        else close_after
          (sub (htype f = PB_HTYPE_REPEATED) (de_fields_at env (pb_ptr f)) dest (substream, snd s))
          (fst s))"

definition PB_DECODERS :: "'s pb_dec_env \<Rightarrow> 's sub_decoder \<Rightarrow> byte \<Rightarrow> pb_field \<Rightarrow> addr \<Rightarrow> ('s, unit) dec" where
  "PB_DECODERS env sub lt =
    (if lt = PB_LTYPE_VARINT then pb_dec_varint
     else if lt = PB_LTYPE_UVARINT then pb_dec_uvarint
     else if lt = PB_LTYPE_SVARINT then pb_dec_svarint
     else if lt = PB_LTYPE_FIXED32 then pb_dec_fixed32
     else if lt = PB_LTYPE_FIXED64 then pb_dec_fixed64
     else if lt = PB_LTYPE_BYTES then pb_dec_bytes
     else if lt = PB_LTYPE_STRING then pb_dec_string
     else if lt = PB_LTYPE_SUBMESSAGE then pb_dec_submessage env sub
     else if lt = PB_LTYPE_FIXED_LENGTH_BYTES then pb_dec_fixed_length_bytes
     else (\<lambda>_ _. undefd))"

section \<open>Default values\<close>

type_synonym mem_action = "mem \<Rightarrow> unit outcome \<times> mem"

definition iter_from_extension :: "(addr \<Rightarrow> pb_field list) \<Rightarrow> mem \<Rightarrow> addr \<Rightarrow> pb_field_iter" where
  "iter_from_extension fat m e =
    (let flds = fat (load sizeof_ptr m (ext_type m e + 16));
         it = snd (pb_field_iter_begin flds (ext_dest m e))
     in it\<lparr>it_pData := (if atype (field_at flds 0) = PB_ATYPE_POINTER then e + 8 else ext_dest m e),
           it_pSize := ext_found_addr e\<rparr>)"

fun default_extensions :: "(pb_field_iter \<Rightarrow> mem_action) \<Rightarrow> (addr \<Rightarrow> pb_field list) \<Rightarrow> nat \<Rightarrow> addr \<Rightarrow> mem_action" where
  "default_extensions fdef fat 0 e m = (if e = 0 then (Ok (), m) else (Undef, m))"
| "default_extensions fdef fat (Suc n) e m =
    (if e = 0 then (Ok (), m)
     else let m' = m(ext_found_addr e := 0)
          in seq (fdef (iter_from_extension fat m' e))
               (\<lambda>_ m. default_extensions fdef fat n (ext_next m e) m) m')"

definition message_defaults :: "(pb_field_iter \<Rightarrow> mem_action) \<Rightarrow> pb_field list \<Rightarrow> addr \<Rightarrow> mem_action" where
  "message_defaults fdef flds dest =
    (case pb_field_iter_begin flds dest of
       (False, _) \<Rightarrow> ret ()
     | (True, it) \<Rightarrow> iter_do fdef it)"

definition field_default_step ::
    "(pb_field_iter \<Rightarrow> mem_action) \<Rightarrow> (addr \<Rightarrow> pb_field list) \<Rightarrow> nat \<Rightarrow> pb_field_iter \<Rightarrow> mem_action" where
  "field_default_step fdef fat d it m =
    (let f = it_field it in
     if ltype f = PB_LTYPE_EXTENSION
     then default_extensions fdef fat d (load sizeof_ptr m (it_pData it)) m
     else if atype f = PB_ATYPE_STATIC then
       let optional = (htype f = PB_HTYPE_OPTIONAL \<and> it_pSize it \<noteq> it_pData it);
           counted = (htype f = PB_HTYPE_REPEATED \<or> htype f = PB_HTYPE_ONEOF);
           m1 = (if optional then m(it_pSize it := 0)
                 else if counted then store 4 m (it_pSize it) (0::u32) else m)
       in if \<not> optional \<and> counted then (Ok (), m1)
          else if ltype f = PB_LTYPE_SUBMESSAGE
          then (if pb_ptr f = 0 then (Undef, m1)
                else message_defaults fdef (fat (pb_ptr f)) (it_pData it) m1)
          else if pb_ptr f \<noteq> 0
          then (Ok (), mem_write m1 (it_pData it) (mem_read m1 (pb_ptr f) (unat (pb_data_size f))))
          else (Ok (), mem_write m1 (it_pData it) (replicate (unat (pb_data_size f)) 0))
     else if atype f = PB_ATYPE_POINTER then
       let m1 = store sizeof_ptr m (it_pData it) (0::addr)
       in (Ok (), if htype f = PB_HTYPE_REPEATED \<or> htype f = PB_HTYPE_ONEOF
                  then store 4 m1 (it_pSize it) (0::u32) else m1)
     else (Ok (), m))"

primrec pb_field_set_to_default :: "(addr \<Rightarrow> pb_field list) \<Rightarrow> nat \<Rightarrow> pb_field_iter \<Rightarrow> mem_action" where
  "pb_field_set_to_default fat 0 = (\<lambda>it. undefd)"
| "pb_field_set_to_default fat (Suc d) = field_default_step (pb_field_set_to_default fat d) fat d"

definition pb_message_set_to_defaults :: "(addr \<Rightarrow> pb_field list) \<Rightarrow> nat \<Rightarrow> pb_field list \<Rightarrow> addr \<Rightarrow> mem_action"
  where "pb_message_set_to_defaults fat d = message_defaults (pb_field_set_to_default fat d)"

definition mem_step :: "mem_action \<Rightarrow> ('s, unit) dec"
  where "mem_step f s = (case f (snd s) of (r, m') \<Rightarrow> (r, (fst s, m')))"

section \<open>Decoding one field\<close>

type_synonym 's field_decoder = "pb_field \<Rightarrow> addr \<Rightarrow> ('s, unit) dec"

text \<open>The loop over a packed array; \<open>Ok False\<close> when an entry did not decode.  An entry takes at
  least one byte, so the bytes of the substream bound the rounds.\<close>

fun packed_loop :: "'s field_decoder \<Rightarrow> pb_field_iter \<Rightarrow> nat \<Rightarrow> ('s, bool) dec" where
  "packed_loop func it 0 s = (Undef, s)"
| "packed_loop func it (Suc n) s =
    (let f = it_field it; count = load 4 (snd s) (it_pSize it) :: u32 in
     if is_bytes_left (fst s) \<noteq> 0 \<and> count < pb_array_size f then
       (case func f (it_pData it + ucast (pb_data_size f * count)) s of
          (Ok _, (sub', m')) \<Rightarrow>
            packed_loop func it n
              (sub', store 4 m' (it_pSize it) (load 4 m' (it_pSize it) + 1 :: u32))
        | (Fail, s') \<Rightarrow> (Ok False, s')
        | (Undef, s') \<Rightarrow> (Undef, s'))
     else (Ok True, s))"

definition decode_packed :: "'s field_decoder \<Rightarrow> pb_field_iter \<Rightarrow> ('s, unit) dec" where
  "decode_packed func it =
    seq (on_stream pb_make_string_substream)
      (\<lambda>substream (st, m).
        case packed_loop func it (Suc (unat (is_bytes_left substream))) (substream, m) of
          (Undef, (_, m')) \<Rightarrow> (Undef, (st, m'))
        | (Fail, (_, m')) \<Rightarrow> (Fail, (st, m'))
        | (Ok status, (sub', m')) \<Rightarrow>
            if is_bytes_left sub' \<noteq> 0 then dec_error ''array overflow'' (st, m')
            else close_after (if status then Ok () else Fail, (sub', m')) st)"

definition decode_static_field :: "'s pb_dec_env \<Rightarrow> 's sub_decoder \<Rightarrow> nat \<Rightarrow> u32 \<Rightarrow> pb_field_iter \<Rightarrow> ('s, unit) dec" where
  "decode_static_field env sub d wire_type it =
    (let f = it_field it; func = PB_DECODERS env sub (ltype f) in
     if htype f = PB_HTYPE_REQUIRED then func f (it_pData it)
     else if htype f = PB_HTYPE_OPTIONAL then
       seq (on_mem (\<lambda>m. if it_pSize it \<noteq> it_pData it then m(it_pSize it := 1) else m))
         (\<lambda>_. func f (it_pData it))
     else if htype f = PB_HTYPE_REPEATED then
       (if wire_type = PB_WT_STRING \<and> ltype f \<le> PB_LTYPE_LAST_PACKABLE
        then decode_packed func it
        else (\<lambda>s. let count = load 4 (snd s) (it_pSize it) :: u32 in
          if pb_array_size f \<le> count then dec_error ''array overflow'' s
          else seq (on_mem (\<lambda>m. store 4 m (it_pSize it) (count + 1)))
                 (\<lambda>_. func f (it_pData it + ucast (pb_data_size f * count))) s))
     else \<comment> \<open>PB_HTYPE_ONEOF\<close>
       seq (on_mem (\<lambda>m. store 4 m (it_pSize it) (pb_tag f)))
         (\<lambda>_. seq (if ltype f = PB_LTYPE_SUBMESSAGE
                   then seq (on_mem (\<lambda>m. mem_write m (it_pData it) (replicate (unat (pb_data_size f)) 0)))
                          (\<lambda>_. if pb_ptr f = 0 then undefd
                               else mem_step (pb_message_set_to_defaults (de_fields_at env) d
                                      (de_fields_at env (pb_ptr f)) (it_pData it)))
                   else ret ())
           (\<lambda>_. func f (it_pData it))))"

definition decode_pointer_field :: "('s, unit) dec"
  where "decode_pointer_field = dec_error ''no malloc support''"

text \<open>The do-while over a string substream: the callback runs until the substream is used up.\<close>

fun callback_loop :: "('s, unit) dec \<Rightarrow> nat \<Rightarrow> ('s, bool) dec" where
  "callback_loop cb 0 s = (Undef, s)"
| "callback_loop cb (Suc n) s =
    (case cb s of
       (Ok _, (sub', m')) \<Rightarrow>
         if is_bytes_left sub' \<noteq> 0 then callback_loop cb n (sub', m') else (Ok True, (sub', m'))
     | (Fail, s') \<Rightarrow> (Ok False, s')
     | (Undef, s') \<Rightarrow> (Undef, s'))"

definition decode_callback_field :: "'s pb_dec_env \<Rightarrow> nat \<Rightarrow> u32 \<Rightarrow> pb_field_iter \<Rightarrow> ('s, unit) dec" where
  "decode_callback_field env d wire_type it s =
    (let f = it_field it; fn = load sizeof_ptr (snd s) (it_pData it) :: addr;
         cb = de_callback env fn f (it_pData it + 8)
     in if fn = 0 then on_stream (pb_skip_field wire_type) s
        else if wire_type = PB_WT_STRING then
          seq (on_stream pb_make_string_substream)
            (\<lambda>substream (st, m).
              case callback_loop cb d (substream, m) of
                (Undef, (_, m')) \<Rightarrow> (Undef, (st, m'))
              | (Ok True, r) \<Rightarrow> close_after (Ok (), r) st
              | (_, (_, m')) \<Rightarrow> dec_error ''callback failed'' (st, m')) s
        else
          seq (on_stream (read_raw_value wire_type 10))
            (\<lambda>buffer (st, m).
              case cb (pb_istream_from_buffer buffer (of_nat (length buffer)), m) of
                (r, (_, m')) \<Rightarrow> (r, (st, m'))) s)"

definition decode_field :: "'s pb_dec_env \<Rightarrow> 's sub_decoder \<Rightarrow> nat \<Rightarrow> u32 \<Rightarrow> pb_field_iter \<Rightarrow> ('s, unit) dec" where
  "decode_field env sub d wire_type it =
    (let f = it_field it in
     if atype f = PB_ATYPE_STATIC then decode_static_field env sub d wire_type it
     else if atype f = PB_ATYPE_POINTER then decode_pointer_field
     else if atype f = PB_ATYPE_CALLBACK then decode_callback_field env d wire_type it
     else dec_error ''invalid field type'')"

section \<open>Extensions\<close>

definition default_extension_decoder ::
    "'s pb_dec_env \<Rightarrow> 's sub_decoder \<Rightarrow> nat \<Rightarrow> addr \<Rightarrow> u32 \<Rightarrow> u32 \<Rightarrow> ('s, unit) dec" where
  "default_extension_decoder env sub d e tg wire_type s =
    (let it = iter_from_extension (de_fields_at env) (snd s) e in
     if pb_tag (it_field it) \<noteq> tg then (Ok (), s)
     else decode_field env sub d wire_type it (fst s, (snd s)(ext_found_addr e := 1)))"

fun extension_loop :: "'s pb_dec_env \<Rightarrow> 's sub_decoder \<Rightarrow> nat \<Rightarrow> u32 \<Rightarrow> u32 \<Rightarrow> size_t \<Rightarrow> nat \<Rightarrow> addr \<Rightarrow> ('s, unit) dec" where
  "extension_loop env sub d tg wt pos 0 e s =
    (if e \<noteq> 0 \<and> pos = is_bytes_left (fst s) then (Undef, s) else (Ok (), s))"
| "extension_loop env sub d tg wt pos (Suc n) e s =
    (if e \<noteq> 0 \<and> pos = is_bytes_left (fst s) then
       seq (let fn = load sizeof_ptr (snd s) (ext_type (snd s) e) :: addr
            in if fn \<noteq> 0 then de_extension env fn e tg wt
               else default_extension_decoder env sub d e tg wt)
         (\<lambda>_ s. extension_loop env sub d tg wt pos n (ext_next (snd s) e) s) s
     else (Ok (), s))"

definition decode_extension :: "'s pb_dec_env \<Rightarrow> 's sub_decoder \<Rightarrow> nat \<Rightarrow> u32 \<Rightarrow> u32 \<Rightarrow> pb_field_iter \<Rightarrow> ('s, unit) dec" where
  "decode_extension env sub d tg wt it s =
    extension_loop env sub d tg wt (is_bytes_left (fst s)) d (load sizeof_ptr (snd s) (it_pData it)) s"

fun find_extension_loop :: "nat \<Rightarrow> nat \<Rightarrow> pb_field_iter \<Rightarrow> bool outcome \<times> pb_field_iter" where
  "find_extension_loop 0 first it = (Undef, it)"
| "find_extension_loop (Suc n) first it =
    (if ltype (it_field it) = PB_LTYPE_EXTENSION then (Ok True, it)
     else let it' = snd (pb_field_iter_next it)
          in if it_pos it' = first then (Ok False, it') else find_extension_loop n first it')"

definition find_extension_field :: "pb_field_iter \<Rightarrow> bool outcome \<times> pb_field_iter"
  where "find_extension_field it =
    find_extension_loop (Suc (length (it_start it))) (it_pos it) it"

section \<open>Decoding a message\<close>

text \<open>A tag that no field of the table carries: an extension if the tag lies in the extension
  range, else skipped.  The result is the iterator and the updated start of that range.\<close>

definition decode_unknown :: "'s pb_dec_env \<Rightarrow> 's sub_decoder \<Rightarrow> nat \<Rightarrow> u32 \<Rightarrow> u32 \<Rightarrow> pb_field_iter \<Rightarrow> u32 \<Rightarrow>
    ('s, pb_field_iter \<times> u32) dec" where
  "decode_unknown env sub d tg wt it range_start s =
    (let skip = (\<lambda>it' rs. seq (on_stream (pb_skip_field wt)) (\<lambda>_. ret (it', rs))) in
     if range_start \<le> tg then
       (case find_extension_field it of
          (Ok found, it') \<Rightarrow>
            let rs' = (if found then pb_tag (it_field it') else - 1) in
            if rs' \<le> tg then
              seq (decode_extension env sub d tg wt it')
                (\<lambda>_ s'. if is_bytes_left (fst s) \<noteq> is_bytes_left (fst s') then (Ok (it', rs'), s')
                         else skip it' rs' s') s
            else skip it' rs' s
        | (_, _) \<Rightarrow> (Undef, s))
     else skip it range_start s)"

definition mark_seen :: "pb_field_iter \<Rightarrow> u32 list \<Rightarrow> u32 list" where
  "mark_seen it seen =
    (let i = unat (it_required_field_index it) in
     if htype (it_field it) = PB_HTYPE_REQUIRED \<and> i < PB_MAX_REQUIRED_FIELDS
     then seen[i div 32 := seen ! (i div 32) OR push_bit (i mod 32) 1]
     else seen)"

text \<open>Every round of the main loop reads at least one byte of tag, so the bytes left bound the
  rounds.\<close>

fun decode_loop :: "'s pb_dec_env \<Rightarrow> 's sub_decoder \<Rightarrow> nat \<Rightarrow> nat \<Rightarrow> pb_field_iter \<Rightarrow> u32 list \<Rightarrow> u32 \<Rightarrow>
    ('s, pb_field_iter \<times> u32 list) dec" where
  "decode_loop env sub d 0 it seen rs s = (Undef, s)"
| "decode_loop env sub d (Suc n) it seen rs s =
    (if is_bytes_left (fst s) = 0 then (Ok (it, seen), s)
     else seq (on_stream pb_decode_tag)
       (\<lambda>tr. if \<not> tr_status tr then (if tr_eof tr then ret (it, seen) else fails)
         else case pb_field_iter_find (tr_tag tr) it of
           (Ok True, it') \<Rightarrow>
             seq (decode_field env sub d (tr_wire_type tr) it')
               (\<lambda>_. decode_loop env sub d n it' (mark_seen it' seen) rs)
         | (Ok False, it') \<Rightarrow>
             seq (decode_unknown env sub d (tr_tag tr) (tr_wire_type tr) it' rs)
               (\<lambda>(it'', rs'). decode_loop env sub d n it'' seen rs')
         | (_, _) \<Rightarrow> undefd) s)"

text \<open>The final walk to the end of the table counts the required fields; then the bits of
  \<^verbatim>\<open>fields_seen\<close> (two words) are compared.\<close>

function seek_last :: "pb_field_iter \<Rightarrow> u32 \<times> byte \<times> pb_field_iter" where
  "seek_last it =
    (case pb_field_iter_next it of
       (True, it') \<Rightarrow> seek_last it'
     | (False, it') \<Rightarrow> (it_required_field_index it, pb_type (it_field it), it'))"
  by pat_completeness auto
termination
  by (relation "measure (\<lambda>it. length (it_start it) - it_pos it)") (auto dest: iter_next_pos [OF sym])

declare seek_last.simps [simp del]

definition req_field_count :: "pb_field_iter \<Rightarrow> u32" where
  "req_field_count it =
    (case seek_last it of (n, last_type, it') \<Rightarrow>
       if PB_HTYPE last_type = PB_HTYPE_REQUIRED \<and> pb_tag (it_field it') \<noteq> 0 then n + 1 else n)"

fun check_words :: "u32 list \<Rightarrow> nat list \<Rightarrow> unit outcome" where
  "check_words seen [] = Ok ()"
| "check_words seen (i # is) =
    (if length seen \<le> i then Undef else if seen ! i \<noteq> - 1 then Fail else check_words seen is)"

definition check_required :: "u32 list \<Rightarrow> nat \<Rightarrow> unit outcome" where
  "check_required seen n =
    (if n = 0 then Ok ()
     else case check_words seen [0..<n div 32] of
       Ok _ \<Rightarrow>
         if length seen \<le> n div 32 then Undef
         else if n mod 32 = 0 then Undef \<comment> \<open>\<open>allbits >> 32\<close>\<close>
         else if seen ! (n div 32) \<noteq> drop_bit (32 - n mod 32) (- 1) then Fail else Ok ()
     | Fail \<Rightarrow> Fail
     | Undef \<Rightarrow> Undef)"

definition noinit_body :: "'s pb_dec_env \<Rightarrow> 's sub_decoder \<Rightarrow> nat \<Rightarrow> pb_field list \<Rightarrow> addr \<Rightarrow> ('s, unit) dec" where
  "noinit_body env sub d flds dest s =
    seq (decode_loop env sub d (Suc (unat (is_bytes_left (fst s))))
           (snd (pb_field_iter_begin flds dest)) [0, 0] 0)
      (\<lambda>(it, seen). case check_required seen (unat (req_field_count it)) of
          Ok _ \<Rightarrow> ret ()
        | Fail \<Rightarrow> dec_error ''missing required field''
        | Undef \<Rightarrow> undefd) s"

primrec decode_message :: "'s pb_dec_env \<Rightarrow> nat \<Rightarrow> 's sub_decoder" where
  "decode_message env 0 = (\<lambda>init flds dest. undefd)"
| "decode_message env (Suc d) = (\<lambda>init flds dest.
    seq (if init then mem_step (pb_message_set_to_defaults (de_fields_at env) (Suc d) flds dest) else ret ())
      (\<lambda>_. noinit_body env (decode_message env d) d flds dest))"

definition pb_decode_noinit :: "'s pb_dec_env \<Rightarrow> nat \<Rightarrow> pb_field list \<Rightarrow> addr \<Rightarrow> ('s, unit) dec"
  where "pb_decode_noinit env d = decode_message env d False"

definition pb_decode :: "'s pb_dec_env \<Rightarrow> nat \<Rightarrow> pb_field list \<Rightarrow> addr \<Rightarrow> ('s, unit) dec"
  where "pb_decode env d = decode_message env d True"

definition pb_decode_delimited :: "'s pb_dec_env \<Rightarrow> nat \<Rightarrow> pb_field list \<Rightarrow> addr \<Rightarrow> ('s, unit) dec" where
  "pb_decode_delimited env d flds dest =
    seq (on_stream pb_make_string_substream)
      (\<lambda>substream s. close_after (pb_decode env d flds dest (substream, snd s)) (fst s))"

end
