(* ===== verification/Nanopb_Decode_Laws.thy ===== *)
theory Nanopb_Decode_Laws
  imports Nanopb_Decode
begin

text \<open>
  What the decoder does to an input stream.  \<open>parses f bs x\<close>: on a buffer that starts with \<open>bs\<close>
  (within the bytes left) the reader \<open>f\<close> returns \<open>x\<close> and consumes exactly \<open>bs\<close>.  \<open>safe f\<close>: on any
  buffer stream whose count of bytes left does not exceed the buffer, \<open>f\<close> never reads outside
  the buffer, keeps that property and never increases the count.  \<open>consuming f\<close>: a successful
  call decreases the count, which is what bounds every loop of the decoder.
\<close>

section \<open>Parsing\<close>

definition at_input :: "byte list \<Rightarrow> byte list \<Rightarrow> 's pb_istream \<Rightarrow> bool"
  where "at_input bs rest st \<longleftrightarrow>
    is_source st = Buf_source (bs @ rest) \<and> length bs \<le> unat (is_bytes_left st)"

definition consume :: "byte list \<Rightarrow> byte list \<Rightarrow> 's pb_istream \<Rightarrow> 's pb_istream"
  where "consume bs rest st =
    st\<lparr>is_source := Buf_source rest, is_bytes_left := is_bytes_left st - of_nat (length bs)\<rparr>"

definition parses :: "('s, 'a) sdec \<Rightarrow> byte list \<Rightarrow> 'a \<Rightarrow> bool"
  where "parses f bs x \<longleftrightarrow> (\<forall>rest st. at_input bs rest st \<longrightarrow> f st = (Ok x, consume bs rest st))"

lemma unat_minus_of_nat: "n \<le> unat (a :: size_t) \<Longrightarrow> unat (a - of_nat n) = unat a - n"
proof -
  assume n: "n \<le> unat a"
  have "unat a < 2 ^ LENGTH(64)" by (rule unsigned_less)
  with n have u: "unat (of_nat n :: size_t) = n" by (simp add: unat_of_nat)
  then have "(of_nat n :: size_t) \<le> a" using n by (simp add: word_le_nat_alt)
  then show ?thesis by (simp add: unat_sub u)
qed

lemma consume_sel [simp]:
  "is_source (consume bs rest st) = Buf_source rest"
  "is_bytes_left (consume bs rest st) = is_bytes_left st - of_nat (length bs)"
  "is_errmsg (consume bs rest st) = is_errmsg st"
  by (simp_all add: consume_def)

lemma consume_consume: "consume b rest (consume a (b @ rest) st) = consume (a @ b) rest st"
  by (simp add: consume_def algebra_simps)

lemma at_input_append:
  assumes "at_input (a @ b) rest st"
  shows "at_input a (b @ rest) st" "at_input b rest (consume a (b @ rest) st)"
  using assms by (auto simp: at_input_def unat_minus_of_nat)

lemma parsesD: "parses f bs x \<Longrightarrow> at_input bs rest st \<Longrightarrow> f st = (Ok x, consume bs rest st)"
  by (simp add: parses_def)

lemma parsesI: "(\<And>rest st. at_input bs rest st \<Longrightarrow> f st = (Ok x, consume bs rest st)) \<Longrightarrow> parses f bs x"
  by (simp add: parses_def)

lemma parses_seq:
  assumes "parses f a x" "parses (g x) b y"
  shows "parses (seq f g) (a @ b) y"
proof (rule parsesI)
  fix rest and st :: "'a pb_istream" assume i: "at_input (a @ b) rest st"
  show "seq f g st = (Ok y, consume (a @ b) rest st)"
    using parsesD [OF assms(1) at_input_append(1) [OF i]] parsesD [OF assms(2) at_input_append(2) [OF i]]
    by (simp add: seq_simps consume_consume)
qed

lemma consume_Nil: "is_source st = Buf_source rest \<Longrightarrow> consume [] rest st = st"
  by (simp add: consume_def)

lemma parses_ret: "parses (ret x) [] x"
  by (rule parsesI) (simp add: consume_Nil at_input_def)

lemma parses_seq_ret:
  assumes "parses f a x" "g x = ret y"
  shows "parses (seq f g) a y"
  using parses_seq [OF assms(1), of g "[]" y] assms(2) by (simp add: parses_ret)

lemma parses_readbyte: "parses pb_readbyte [b] b"
proof (rule parsesI)
  fix rest and st :: "'a pb_istream" assume i: "at_input [b] rest st"
  then have "is_bytes_left st \<noteq> 0" by (auto simp: at_input_def)
  with i show "pb_readbyte st = (Ok b, consume [b] rest st)"
    by (simp add: pb_readbyte_def stream_callback_def buf_read_def at_input_def consume_def seq_simps)
qed

lemma parses_read:
  assumes "unat n = length bs"
  shows "parses (pb_read null n) bs bs"
proof (rule parsesI)
  fix rest and st :: "'a pb_istream" assume i: "at_input bs rest st"
  then have "\<not> is_bytes_left st < n" using assms by (simp add: at_input_def word_less_nat_alt)
  moreover have "n = of_nat (length bs)" using assms by (metis of_nat_unat ucast_id)
  ultimately show "pb_read null n st = (Ok bs, consume bs rest st)"
    using i assms
    by (simp add: pb_read_def is_user_source_def at_input_def pb_read_into_def stream_callback_def
        buf_read_def consume_def seq_simps)
qed

section \<open>Safety\<close>

definition safe_stream :: "'s pb_istream \<Rightarrow> bool"
  where "safe_stream st \<longleftrightarrow>
    (case is_source st of Buf_source rest \<Rightarrow> unat (is_bytes_left st) \<le> length rest
     | User_source _ _ \<Rightarrow> True)"

text \<open>\<open>advance st st'\<close>: the stream moved forward, by at most what the count went down.\<close>

definition advance :: "'s pb_istream \<Rightarrow> 's pb_istream \<Rightarrow> bool"
  where "advance st st' \<longleftrightarrow> is_bytes_left st' \<le> is_bytes_left st \<and>
    (case is_source st of
       Buf_source rest \<Rightarrow>
         (\<exists>k. is_source st' = Buf_source (drop k rest) \<and> k + unat (is_bytes_left st') \<le> unat (is_bytes_left st))
     | User_source _ _ \<Rightarrow> is_user_source st')"

definition safe :: "('s, 'a) sdec \<Rightarrow> bool"
  where "safe f \<longleftrightarrow> (\<forall>st. safe_stream st \<longrightarrow> fst (f st) \<noteq> Undef \<and> advance st (snd (f st)))"

definition consuming :: "('s, 'a) sdec \<Rightarrow> bool"
  where "consuming f \<longleftrightarrow> (\<forall>st x st'. safe_stream st \<and> f st = (Ok x, st') \<longrightarrow>
    is_bytes_left st' < is_bytes_left st)"

lemma advance_le: "advance st st' \<Longrightarrow> is_bytes_left st' \<le> is_bytes_left st"
  by (simp add: advance_def)

lemma advance_safe: "advance st st' \<Longrightarrow> safe_stream st \<Longrightarrow> safe_stream st'"
  by (auto simp: advance_def safe_stream_def is_user_source_def split: pb_source.splits)

lemma advance_same:
  "is_source st' = is_source st \<Longrightarrow> is_bytes_left st' \<le> is_bytes_left st \<Longrightarrow> advance st st'"
  by (auto simp: advance_def is_user_source_def word_le_nat_alt split: pb_source.split intro!: exI [of _ 0])

lemma advance_refl [simp]: "advance st st"
  by (simp add: advance_same)

lemma advance_trans:
  assumes a: "advance st st'" and b: "advance st' st''"
  shows "advance st st''"
proof -
  have le: "is_bytes_left st'' \<le> is_bytes_left st"
    using advance_le [OF a] advance_le [OF b] by simp
  show ?thesis
  proof (cases "is_source st")
    case (Buf_source rest)
    with a obtain k where k: "is_source st' = Buf_source (drop k rest)"
      "k + unat (is_bytes_left st') \<le> unat (is_bytes_left st)" by (auto simp: advance_def)
    with b obtain j where "is_source st'' = Buf_source (drop j (drop k rest))"
      "j + unat (is_bytes_left st'') \<le> unat (is_bytes_left st')" by (auto simp: advance_def)
    with k Buf_source le show ?thesis by (auto simp: advance_def intro!: exI [of _ "j + k"])
  next
    case (User_source cb u)
    with a b le show ?thesis
      by (auto simp: advance_def is_user_source_def split: pb_source.splits)
  qed
qed

lemma safeI:
  assumes "\<And>st r st'. safe_stream st \<Longrightarrow> f st = (r, st') \<Longrightarrow> r \<noteq> Undef \<and> advance st st'"
  shows "safe f"
  unfolding safe_def using assms by (metis prod.collapse)

lemma safeD:
  assumes "safe f" "safe_stream st" "f st = (r, st')"
  shows "r \<noteq> Undef \<and> advance st st' \<and> safe_stream st' \<and> is_bytes_left st' \<le> is_bytes_left st"
proof -
  have "r \<noteq> Undef" "advance st st'" using assms unfolding safe_def by force+
  then show ?thesis using advance_safe advance_le assms(2) by blast
qed

lemma consumingD: "consuming f \<Longrightarrow> safe_stream st \<Longrightarrow> f st = (Ok x, st') \<Longrightarrow>
    is_bytes_left st' < is_bytes_left st"
  unfolding consuming_def by blast

lemma seq_cases:
  assumes "seq f g s = (r, t)"
  obtains x u where "f s = (Ok x, u)" "g x u = (r, t)"
        | "f s = (Fail, t)" "r = Fail"
        | "f s = (Undef, t)" "r = Undef"
  using assms by (auto simp: seq_def split: prod.splits outcome.splits)

lemma safe_seq:
  assumes f: "safe f" and g: "\<And>x. safe (g x)"
  shows "safe (seq f g)"
proof (rule safeI)
  fix st r st' assume st: "safe_stream st" and e: "seq f g st = (r, st')"
  from e show "r \<noteq> Undef \<and> advance st st'"
  proof (cases rule: seq_cases)
    case (1 x u)
    with safeD [OF f st 1(1)] safeD [OF g _ 1(2)] show ?thesis by (auto intro: advance_trans)
  qed (use safeD [OF f st] in auto)
qed

lemma consuming_seq1:
  assumes f: "safe f" "consuming f" and g: "\<And>x. safe (g x)"
  shows "consuming (seq f g)"
  unfolding consuming_def
proof (intro allI impI, elim conjE)
  fix st y st' assume st: "safe_stream st" and e: "seq f g st = (Ok y, st')"
  then obtain x u where 1: "f st = (Ok x, u)" "g x u = (Ok y, st')" by (auto simp: seq_eq_Ok)
  then show "is_bytes_left st' < is_bytes_left st"
    using consumingD [OF f(2) st 1(1)] safeD [OF f(1) st 1(1)] safeD [OF g _ 1(2)]
    by (auto intro: le_less_trans)
qed

lemma safe_ret [simp]: "safe (ret x)"
  by (simp add: safe_def)

lemma safe_fails [simp]: "safe fails"
  by (simp add: safe_def)

lemma safe_Fail [simp]: "safe (Pair Fail)"
  by (simp add: safe_def)

lemma is_source_error [simp]: "is_source (is_set_error msg st) = is_source st"
  by (simp add: is_set_error_def split: option.split)

lemma safe_stream_error [simp]: "safe_stream (is_set_error msg st) = safe_stream st"
  by (simp add: is_set_error_def safe_stream_def split: option.split pb_source.split)

lemma bytes_left_error [simp]: "is_bytes_left (is_set_error msg st) = is_bytes_left st"
  by (simp add: is_set_error_def split: option.split)

lemma advance_error [simp]: "advance st (is_set_error msg st)"
  by (simp add: advance_same)

lemma safe_error [simp]: "safe (is_return_error msg)"
  by (simp add: safe_def is_return_error_def)

lemma callback_then_count:
  assumes st: "safe_stream st" and n: "n \<le> is_bytes_left st"
    and r: "seq (stream_callback (unat n)) (\<lambda>buf st. (Ok (h buf), st\<lparr>is_bytes_left := is_bytes_left st - n\<rparr>)) st = (r, st')"
  shows "r \<noteq> Undef \<and> advance st st' \<and>
    (r \<noteq> Fail \<longrightarrow> is_bytes_left st' = is_bytes_left st - n)"
proof -
  have le: "is_bytes_left st - n \<le> is_bytes_left st"
    using n by (simp add: word_le_nat_alt unat_sub)
  show ?thesis
  proof (cases "is_source st")
    case (Buf_source rest)
    have "unat n \<le> length rest" "unat (is_bytes_left st) \<le> length rest"
      using st n Buf_source by (auto simp: safe_stream_def word_le_nat_alt)
    with r Buf_source n le show ?thesis
      by (auto simp: seq_def stream_callback_def buf_read_def advance_def unat_sub word_le_nat_alt
          intro!: exI [of _ "unat n"])
  next
    case (User_source cb u)
    with r n le show ?thesis
      by (auto simp: seq_def stream_callback_def is_return_error_def advance_def is_user_source_def
          is_set_error_def split: prod.splits bool.splits option.splits)
  qed
qed

lemma safe_read_into: "safe (pb_read_into n)"
proof (rule safeI)
  fix st r st' assume st: "safe_stream (st :: 'a pb_istream)" and e: "pb_read_into n st = (r, st')"
  show "r \<noteq> Undef \<and> advance st st'"
  proof (cases "is_bytes_left st < n")
    case True
    with e st show ?thesis by (auto simp: pb_read_into_def is_return_error_def)
  next
    case False
    then have "seq (stream_callback (unat n)) (\<lambda>buf st. (Ok buf, st\<lparr>is_bytes_left := is_bytes_left st - n\<rparr>)) st = (r, st')"
      using e by (simp add: pb_read_into_def)
    with callback_then_count [OF st, of n "\<lambda>b. b" r st'] False show ?thesis by (auto simp: not_less)
  qed
qed

lemma safe_skip_input: "safe (pb_skip_input n)"
proof (induction "unat n" arbitrary: n rule: less_induct)
  case less
  have "(pb_skip_input n :: ('a, byte list) sdec) =
      (if 16 < n then seq (pb_read_into 16) (\<lambda>_. pb_skip_input (n - 16)) else pb_read_into n)"
    by (rule ext) (simp add: pb_skip_input.simps)
  moreover have "safe (pb_skip_input (n - 16) :: ('a, byte list) sdec)" if "16 < n"
    using that by (intro less.hyps) (simp add: word_less_nat_alt unat_sub word_le_nat_alt)
  ultimately show ?case by (simp add: safe_read_into safe_seq)
qed

lemma safe_read: "safe (pb_read null n)"
proof -
  have "pb_read null n st = pb_skip_input n st \<or> pb_read null n st = pb_read_into n st" for st :: "'a pb_istream"
    by (simp add: pb_read_def)
  then show ?thesis
    using safe_skip_input [of n] safe_read_into [of n] unfolding safe_def by metis
qed

lemma consuming_read_into: "n \<noteq> 0 \<Longrightarrow> consuming (pb_read_into n)"
  unfolding consuming_def
proof (intro allI impI, elim conjE)
  fix st x st' assume n: "n \<noteq> 0" and st: "safe_stream (st :: 'a pb_istream)" and e: "pb_read_into n st = (Ok x, st')"
  then have le: "n \<le> is_bytes_left st"
    by (auto simp: pb_read_into_def is_return_error_def not_less split: if_splits)
  then have "seq (stream_callback (unat n)) (\<lambda>buf st. (Ok buf, st\<lparr>is_bytes_left := is_bytes_left st - n\<rparr>)) st = (Ok x, st')"
    using e by (simp add: pb_read_into_def leD)
  with callback_then_count [OF st le, of "\<lambda>b. b" "Ok x" st']
  have "is_bytes_left st' = is_bytes_left st - n" by simp
  moreover have "0 < unat n" using n by (simp add: unat_gt_0)
  ultimately show "is_bytes_left st' < is_bytes_left st"
    using le by (simp add: word_less_nat_alt word_le_nat_alt unat_sub)
qed

lemma safe_readbyte: "safe pb_readbyte"
proof (rule safeI)
  fix st r st' assume st: "safe_stream (st :: 'a pb_istream)" and e: "pb_readbyte st = (r, st')"
  show "r \<noteq> Undef \<and> advance st st'"
  proof (cases "is_bytes_left st = 0")
    case True
    with e st show ?thesis by (auto simp: pb_readbyte_def is_return_error_def)
  next
    case False
    then have "1 \<le> is_bytes_left st" by (simp add: word_le_nat_alt unat_gt_0 Suc_le_eq)
    then show ?thesis
      using callback_then_count [OF st, of 1 hd r st'] e False by (auto simp: pb_readbyte_def)
  qed
qed

lemma consuming_readbyte: "consuming pb_readbyte"
  unfolding consuming_def
proof (intro allI impI, elim conjE)
  fix st x st' assume st: "safe_stream (st :: 'a pb_istream)" and e: "pb_readbyte st = (Ok x, st')"
  then have nz: "is_bytes_left st \<noteq> 0" by (auto simp: pb_readbyte_def is_return_error_def split: if_splits)
  then have le: "1 \<le> is_bytes_left st" by (simp add: word_le_nat_alt unat_gt_0 Suc_le_eq)
  then have "is_bytes_left st' = is_bytes_left st - 1"
    using callback_then_count [OF st le, of hd "Ok x" st'] e nz by (auto simp: pb_readbyte_def)
  then show "is_bytes_left st' < is_bytes_left st"
    using le by (simp add: word_less_nat_alt word_le_nat_alt unat_sub)
qed

lemmas safe_consume_intros = safe_seq safe_readbyte safe_read safe_ret safe_error consuming_seq1
  consuming_readbyte

lemma safe_varint32_loop: "safe (varint32_loop k x)"
proof (induction "32 - k" arbitrary: k x rule: less_induct)
  case less
  have eq: "(varint32_loop k x :: ('a, u32) sdec) = (if 32 \<le> k then is_return_error ''varint overflow''
      else seq pb_readbyte (\<lambda>b. let x' = x OR push_bit k (ucast (b AND 0x7F))
        in if b AND 0x80 \<noteq> 0 then varint32_loop (k + 7) x' else ret x'))"
    by (rule ext) (simp add: varint32_loop.simps)
  show ?case unfolding eq Let_def by (auto intro!: safe_seq safe_readbyte less.hyps)
qed

lemma safe_varint_loop: "safe (varint_loop k x)"
proof (induction "64 - k" arbitrary: k x rule: less_induct)
  case less
  have eq: "(varint_loop k x :: ('a, u64) sdec) = (if 64 \<le> k then is_return_error ''varint overflow''
      else seq pb_readbyte (\<lambda>b. let x' = x OR push_bit k (ucast (b AND 0x7F))
        in if b AND 0x80 \<noteq> 0 then varint_loop (k + 7) x' else ret x'))"
    by (rule ext) (simp add: varint_loop.simps)
  show ?case unfolding eq Let_def by (auto intro!: safe_seq safe_readbyte less.hyps)
qed

lemma safe_varint32: "safe pb_decode_varint32"
  unfolding pb_decode_varint32_def by (auto intro!: safe_consume_intros safe_varint32_loop)

lemma consuming_varint32: "consuming pb_decode_varint32"
  unfolding pb_decode_varint32_def by (auto intro!: safe_consume_intros safe_varint32_loop)

lemma varint_unfold0: "pb_decode_varint = seq pb_readbyte (\<lambda>b. if b AND 0x80 \<noteq> 0
    then varint_loop 7 (ucast (b AND 0x7F)) else ret (ucast (b AND 0x7F)))"
  by (rule ext) (simp add: pb_decode_varint_def varint_loop.simps [of 0] Let_def cong: if_cong)

lemma safe_varint: "safe pb_decode_varint"
  unfolding pb_decode_varint_def by (rule safe_varint_loop)

lemma consuming_varint: "consuming pb_decode_varint"
  unfolding varint_unfold0 by (auto intro!: safe_consume_intros safe_varint_loop)

lemma safe_svarint: "safe pb_decode_svarint"
  unfolding pb_decode_svarint_def by (auto intro!: safe_seq safe_varint)

lemma consuming_svarint: "consuming pb_decode_svarint"
  unfolding pb_decode_svarint_def by (auto intro!: consuming_seq1 safe_varint consuming_varint)

text \<open>Skipping a varint: the fuel is the number of bytes left, and each round takes one.\<close>

lemma skip_varint_loop_safe:
  assumes "safe_stream st" "unat (is_bytes_left st) < n" "skip_varint_loop n st = (r, st')"
  shows "r \<noteq> Undef \<and> advance st st'"
  using assms
proof (induction n arbitrary: st)
  case 0
  then show ?case by simp
next
  case (Suc n)
  have s: "safe (pb_read False 1 :: ('a, byte list) sdec)" by (rule safe_read)
  have c: "consuming (pb_read False 1 :: ('a, byte list) sdec)"
    using consuming_read_into [of 1] by (simp add: pb_read_def [abs_def])
  from Suc.prems(3) have "seq (pb_read False 1) (\<lambda>buf. if hd buf AND 0x80 \<noteq> 0 then skip_varint_loop n else ret ()) st = (r, st')"
    by simp
  then show ?case
  proof (cases rule: seq_cases)
    case (1 x u)
    have u: "safe_stream u" "is_bytes_left u < is_bytes_left st" "advance st u"
      using safeD [OF s Suc.prems(1) 1(1)] consumingD [OF c Suc.prems(1) 1(1)] by simp_all
    show ?thesis
    proof (cases "hd x AND 0x80 = 0")
      case True
      with 1 u show ?thesis by auto
    next
      case False
      then have "skip_varint_loop n u = (r, st')" using 1 by simp
      moreover have "unat (is_bytes_left u) < n" using u Suc.prems(2) by (simp add: word_less_nat_alt)
      ultimately show ?thesis using Suc.IH [OF u(1)] u(3) by (auto intro: advance_trans)
    qed
  qed (use safeD [OF s Suc.prems(1)] in auto)
qed

lemma safe_skip_varint: "safe pb_skip_varint"
proof (rule safeI)
  fix st r st' assume st: "safe_stream (st :: 'a pb_istream)" and e: "pb_skip_varint st = (r, st')"
  from e have "skip_varint_loop (Suc (unat (is_bytes_left st))) st = (r, st')"
    by (simp only: pb_skip_varint_def)
  then show "r \<noteq> Undef \<and> advance st st'"
    by (rule skip_varint_loop_safe [OF st, rotated]) simp
qed

lemma safe_skip_string: "safe pb_skip_string"
  unfolding pb_skip_string_def by (intro safe_seq safe_varint32 safe_read safe_ret)

lemma safe_skip_field: "safe (pb_skip_field wt)"
  unfolding pb_skip_field_def
  by (auto intro!: safe_skip_varint safe_skip_string safe_seq safe_read)

lemma safe_raw_varint: "safe (raw_varint n)"
  by (induction n) (auto intro!: safe_seq safe_read)

lemma safe_read_raw: "safe (read_raw_value wt n)"
  unfolding read_raw_value_def by (auto intro!: safe_raw_varint safe_read)

lemma decode_tag_cases:
  assumes "pb_decode_tag st = (r, st')"
  obtains t where "pb_decode_varint32 st = (Ok t, st')" "t \<noteq> 0"
      "r = Ok \<lparr>tr_status = True, tr_eof = False, tr_wire_type = t AND 7, tr_tag = drop_bit 3 t\<rparr>"
    | "pb_decode_varint32 st = (Ok 0, st')"
      "r = Ok \<lparr>tr_status = False, tr_eof = True, tr_wire_type = 0, tr_tag = 0\<rparr>"
    | "pb_decode_varint32 st = (Fail, st')"
      "r = Ok \<lparr>tr_status = False, tr_eof = (is_bytes_left st' = 0), tr_wire_type = 0, tr_tag = 0\<rparr>"
    | "pb_decode_varint32 st = (Undef, st')" "r = Undef"
  using assms by (auto simp: pb_decode_tag_def split: prod.splits outcome.splits if_splits)

lemma safe_decode_tag: "safe pb_decode_tag"
proof (rule safeI)
  fix st r st' assume st: "safe_stream (st :: 'a pb_istream)" and e: "pb_decode_tag st = (r, st')"
  obtain q where q: "pb_decode_varint32 st = (q, st')" using e by (cases rule: decode_tag_cases) auto
  from safeD [OF safe_varint32 st q] q
  have "advance st st'" "pb_decode_varint32 st \<noteq> (Undef, st')" by auto
  with e show "r \<noteq> Undef \<and> advance st st'"
    by (elim decode_tag_cases) auto
qed

text \<open>A successful tag consumed at least a byte.\<close>

lemma decode_tag_consumes:
  assumes st: "safe_stream st" and e: "pb_decode_tag st = (Ok tr, st')" and t: "tr_status tr"
  shows "is_bytes_left st' < is_bytes_left st"
  using e
proof (cases rule: decode_tag_cases)
  case (1 x)
  then show ?thesis using consumingD [OF consuming_varint32 st] by blast
qed (use t in auto)

text \<open>A substream owns the bytes its parent gave up; closing it leaves the parent safe.\<close>

lemma make_substream:
  assumes st: "safe_stream st" and r: "pb_make_string_substream st = (Ok sub, st')"
  shows "safe_stream sub" "is_bytes_left sub < is_bytes_left st" "is_source sub = is_source st'"
    "unat (is_bytes_left sub) + unat (is_bytes_left st') < unat (is_bytes_left st)"
proof -
  from r obtain sz u where u: "pb_decode_varint32 st = (Ok sz, u)"
    "\<not> is_bytes_left u < ucast sz" "sub = u\<lparr>is_bytes_left := ucast sz\<rparr>"
    "st' = u\<lparr>is_bytes_left := is_bytes_left u - ucast sz\<rparr>"
    by (auto simp: pb_make_string_substream_def seq_eq_Ok is_return_error_def split: if_splits)
  have su: "safe_stream u" "is_bytes_left u < is_bytes_left st"
    using safeD [OF safe_varint32 st u(1)] consumingD [OF consuming_varint32 st u(1)] by simp_all
  show "safe_stream sub"
    using su(1) u(2,3) by (auto simp: safe_stream_def word_less_nat_alt split: pb_source.splits)
  show "is_bytes_left sub < is_bytes_left st" using su(2) u(2,3) by simp
  show "is_source sub = is_source st'" using u by simp
  show "unat (is_bytes_left sub) + unat (is_bytes_left st') < unat (is_bytes_left st)"
    using u(2,3,4) su(2) by (simp add: not_less word_less_nat_alt word_le_nat_alt unat_sub)
qed

lemma make_substream_not_Undef:
  assumes st: "safe_stream st" and e: "pb_make_string_substream st = (r, st')"
  shows "r \<noteq> Undef" "advance st st'"
proof -
  let ?k = "\<lambda>sz st. if is_bytes_left st < ucast sz then is_return_error ''parent stream too short'' st
    else (Ok (st\<lparr>is_bytes_left := ucast sz\<rparr>), st\<lparr>is_bytes_left := is_bytes_left st - ucast sz\<rparr>)"
  have "safe (\<lambda>st :: 'a pb_istream. ?k sz st)" for sz :: u32
    by (rule safeI)
       (auto simp: is_return_error_def not_less word_le_nat_alt unat_sub intro!: advance_same split: if_splits)
  then have "safe (pb_make_string_substream :: ('a, 'a pb_istream) sdec)"
    unfolding pb_make_string_substream_def by (intro safe_seq safe_varint32)
  from safeD [OF this st e] show "r \<noteq> Undef" "advance st st'" by simp_all
qed

lemma close_advance:
  assumes st: "safe_stream st" and r: "pb_make_string_substream st = (Ok sub, st')"
    and sub: "advance sub sub'" and st'': "is_source st'' = is_source sub'" "is_bytes_left st'' = is_bytes_left st'"
  shows "advance st st''"
proof -
  from r obtain sz u where u: "pb_decode_varint32 st = (Ok sz, u)"
    "\<not> is_bytes_left u < ucast sz" "sub = u\<lparr>is_bytes_left := ucast sz\<rparr>"
    "st' = u\<lparr>is_bytes_left := is_bytes_left u - ucast sz\<rparr>"
    by (auto simp: pb_make_string_substream_def seq_eq_Ok is_return_error_def split: if_splits)
  have "advance st u" using safeD [OF safe_varint32 st u(1)] by simp
  moreover have "advance u st''"
    using sub u(2,3,4) st''
    by (auto simp: advance_def not_less word_le_nat_alt unat_sub is_user_source_def split: pb_source.splits)
  ultimately show ?thesis by (rule advance_trans)
qed

end
