(* ===== verification/Nanopb_Roundtrip.thy ===== *)
theory Nanopb_Roundtrip
  imports Nanopb_Encode_Laws Nanopb_Decode_Laws
begin

text \<open>
  Encoder against decoder: what a primitive encoder emits, the matching decoder reads back, and
  it stops exactly behind it.
\<close>

section \<open>Seven bits at a time\<close>

lemma bit_0x7F: "bit (0x7F :: int) n \<longleftrightarrow> n < 7"
proof -
  have "(0x7F :: int) = mask 7" by (simp add: mask_eq_exp_minus_1)
  then show ?thesis by (simp only: bit_mask_iff) auto
qed

lemma bit_0x80: "bit (0x80 :: int) n \<longleftrightarrow> n = 7"
proof -
  have "(0x80 :: int) = push_bit 7 1" by (simp add: push_bit_eq_mult)
  then show ?thesis by (simp only: bit_push_bit_iff bit_1_iff) auto
qed

lemma low7_of_more:
  "ucast (ucast ((v AND 0x7F) OR 0x80) AND (0x7F :: byte)) = (v AND 0x7F :: u64)"
  by (rule bit_word_eqI)
     (auto simp: bit_and_iff bit_or_iff bit_unsigned_iff bit_0x7F bit_0x80)

lemma more_flag: "ucast ((v AND 0x7F) OR 0x80 :: u64) AND (0x80 :: byte) \<noteq> 0"
proof -
  have "bit (ucast ((v AND 0x7F) OR 0x80 :: u64) AND (0x80 :: byte)) 7"
    by (simp add: bit_and_iff bit_or_iff bit_unsigned_iff bit_0x80)
  then show ?thesis by auto
qed

lemma small_bits: "v \<le> (0x7F :: u64) \<Longrightarrow> bit v n \<Longrightarrow> n < 7"
proof -
  assume "v \<le> 0x7F" "bit v n"
  from \<open>v \<le> 0x7F\<close> have "drop_bit 7 v = 0" by (simp add: drop7_zero_iff)
  then have "\<not> bit (drop_bit 7 v) (n - 7)" by simp
  with \<open>bit v n\<close> show "n < 7" by (cases "n < 7") (auto simp: bit_drop_bit_eq)
qed

lemma last_flag: "v \<le> (0x7F :: u64) \<Longrightarrow> ucast v AND (0x80 :: byte) = 0"
  by (rule bit_word_eqI) (auto simp: bit_and_iff bit_unsigned_iff bit_0x80 dest: small_bits)

lemma low7_of_last: "v \<le> (0x7F :: u64) \<Longrightarrow> ucast (ucast v AND (0x7F :: byte)) = v"
  by (rule bit_word_eqI) (auto simp: bit_and_iff bit_unsigned_iff bit_0x7F dest: small_bits)

lemma split7: "push_bit k (v AND 0x7F) OR push_bit (k + 7) (drop_bit 7 v) = push_bit k (v :: 'a::len word)"
proof (rule bit_word_eqI)
  fix n assume "n < LENGTH('a)"
  moreover have "k + 7 \<le> n \<Longrightarrow> 7 + (n - (k + 7)) = n - k" by simp
  moreover have "k + 7 \<le> n \<longleftrightarrow> k \<le> n \<and> \<not> n - k < 7" by auto
  ultimately show "bit (push_bit k (v AND 0x7F) OR push_bit (k + 7) (drop_bit 7 v)) n = bit (push_bit k v) n"
    by (auto simp: bit_and_iff bit_or_iff bit_push_bit_iff bit_drop_bit_eq bit_0x7F)
qed

section \<open>Variable-length integers\<close>

lemma parses_varint_loop:
  assumes "k < 64" "unat v < 2 ^ (64 - k)"
  shows "parses (varint_loop k x) (varint_bytes v) (x OR push_bit k v)"
  using assms
proof (induction v arbitrary: k x rule: varint_bytes.induct)
  case (1 v)
  let ?k = "\<lambda>b :: byte. let x' = x OR push_bit k (ucast (b AND 0x7F)) in if b AND 0x80 \<noteq> 0 then varint_loop (k + 7) x' else ret x'"
  have eq: "(varint_loop k x :: ('a, u64) sdec) = seq pb_readbyte ?k"
    using \<open>k < 64\<close> by (intro ext) (simp add: varint_loop.simps [of k])
  show ?case
  proof (cases "v \<le> 0x7F")
    case True
    then have "varint_bytes v = [ucast v]" by (simp add: varint_bytes.simps)
    then show ?thesis
      unfolding eq using True
      by (simp only:) (rule parses_seq_ret [OF parses_readbyte], simp add: Let_def last_flag low7_of_last)
  next
    case False
    then have v: "128 \<le> unat v" by (simp add: word_le_nat_alt not_le)
    have "7 < 64 - k"
    proof (rule ccontr)
      assume "\<not> 7 < 64 - k"
      then have "(2::nat) ^ (64 - k) \<le> 2 ^ 7" by (intro power_increasing) simp_all
      with v "1.prems" show False by simp
    qed
    then have e: "64 - k = (64 - (k + 7)) + 7" "k + 7 < 64" by simp_all
    have "(2::nat) ^ (64 - k) = 2 ^ (64 - (k + 7)) * 2 ^ 7" by (subst e(1)) (rule power_add)
    then have "unat (drop_bit 7 v) < 2 ^ (64 - (k + 7))"
      using "1.prems" by (simp add: unat_drop_bit_div less_mult_imp_div_less)
    then have "parses (varint_loop (k + 7) (x OR push_bit k (v AND 0x7F)) :: ('a, u64) sdec) (varint_bytes (drop_bit 7 v))
        ((x OR push_bit k (v AND 0x7F)) OR push_bit (k + 7) (drop_bit 7 v))"
      by (rule "1.IH" [OF False e(2)])
    then have "parses (?k (ucast ((v AND 0x7F) OR 0x80)) :: ('a, u64) sdec) (varint_bytes (drop_bit 7 v)) (x OR push_bit k v)"
      by (simp only: Let_def more_flag low7_of_more or.assoc split7 not_False_eq_True if_True)
    from parses_seq [where g = ?k, OF parses_readbyte this]
    show ?thesis unfolding eq varint_bytes.simps [of v] using False by simp
  qed
qed

lemma parses_varint: "parses pb_decode_varint (varint_bytes v) v"
  using parses_varint_loop [of 0 v 0] unat_size_t_less [of v] by (simp add: pb_decode_varint_def)

text \<open>The 32-bit reader takes the same bytes.  It is used for tags and lengths, which fit.\<close>

lemma ucast_push_bit: "ucast (push_bit k x :: u64) = (push_bit k (ucast x) :: u32)"
  by (rule bit_word_eqI) (auto simp: bit_unsigned_iff bit_push_bit_iff)

lemma ucast_or: "ucast (x OR y :: u64) = (ucast x OR ucast y :: u32)"
  by (rule bit_word_eqI) (auto simp: bit_unsigned_iff bit_or_iff)

lemma low7_of_more32:
  "ucast (ucast ((v AND 0x7F) OR 0x80 :: u64) AND (0x7F :: byte)) = (ucast (v AND 0x7F) :: u32)"
  by (rule bit_word_eqI)
     (auto simp: bit_and_iff bit_or_iff bit_unsigned_iff bit_0x7F bit_0x80)

lemma low7_of_last32: "v \<le> (0x7F :: u64) \<Longrightarrow> ucast (ucast v AND (0x7F :: byte)) = (ucast v :: u32)"
  by (rule bit_word_eqI) (auto simp: bit_and_iff bit_unsigned_iff bit_0x7F dest: small_bits)

lemma parses_varint32_loop:
  assumes "k < 32" "unat v < 2 ^ (32 - k)"
  shows "parses (varint32_loop k x) (varint_bytes v) (x OR push_bit k (ucast v))"
  using assms
proof (induction v arbitrary: k x rule: varint_bytes.induct)
  case (1 v)
  let ?k = "\<lambda>b :: byte. let x' = x OR push_bit k (ucast (b AND 0x7F)) in if b AND 0x80 \<noteq> 0 then varint32_loop (k + 7) x' else ret x'"
  have eq: "(varint32_loop k x :: ('a, u32) sdec) = seq pb_readbyte ?k"
    using \<open>k < 32\<close> by (intro ext) (simp add: varint32_loop.simps [of k])
  show ?case
  proof (cases "v \<le> 0x7F")
    case True
    then have "varint_bytes v = [ucast v]" by (simp add: varint_bytes.simps)
    then show ?thesis
      unfolding eq using True
      by (simp only:) (rule parses_seq_ret [OF parses_readbyte], simp add: Let_def last_flag low7_of_last32)
  next
    case False
    then have v: "128 \<le> unat v" by (simp add: word_le_nat_alt not_le)
    have "7 < 32 - k"
    proof (rule ccontr)
      assume "\<not> 7 < 32 - k"
      then have "(2::nat) ^ (32 - k) \<le> 2 ^ 7" by (intro power_increasing) simp_all
      with v "1.prems" show False by simp
    qed
    then have e: "32 - k = (32 - (k + 7)) + 7" "k + 7 < 32" by simp_all
    have "(2::nat) ^ (32 - k) = 2 ^ (32 - (k + 7)) * 2 ^ 7" by (subst e(1)) (rule power_add)
    then have "unat (drop_bit 7 v) < 2 ^ (32 - (k + 7))"
      using "1.prems" by (simp add: unat_drop_bit_div less_mult_imp_div_less)
    then have "parses (varint32_loop (k + 7) (x OR push_bit k (ucast (v AND 0x7F))) :: ('a, u32) sdec)
        (varint_bytes (drop_bit 7 v))
        ((x OR push_bit k (ucast (v AND 0x7F))) OR push_bit (k + 7) (ucast (drop_bit 7 v)))"
      by (rule "1.IH" [OF False e(2)])
    then have "parses (?k (ucast ((v AND 0x7F) OR 0x80)) :: ('a, u32) sdec) (varint_bytes (drop_bit 7 v))
        (x OR push_bit k (ucast v))"
      by (simp only: Let_def more_flag low7_of_more32 or.assoc ucast_push_bit [symmetric]
          ucast_or [symmetric] split7 not_False_eq_True if_True)
    from parses_seq [where g = ?k, OF parses_readbyte this]
    show ?thesis unfolding eq varint_bytes.simps [of v] using False by simp
  qed
qed

lemma varint32_unfold: "pb_decode_varint32 = varint32_loop 0 0"
proof (rule ext)
  fix st :: "'a pb_istream"
  have *: "b AND 0x80 = 0 \<Longrightarrow> b AND 0x7F = b" for b :: byte
  proof (rule bit_word_eqI)
    fix n assume z: "b AND 0x80 = 0" and "n < LENGTH(8)"
    have "\<not> bit (b AND 0x80) 7" using z by simp
    then have "\<not> bit b 7" by (simp add: bit_and_iff bit_0x80)
    with \<open>n < LENGTH(8)\<close> show "bit (b AND 0x7F) n = bit b n"
      by (cases "n = 7") (auto simp: bit_and_iff bit_0x7F)
  qed
  show "pb_decode_varint32 st = varint32_loop 0 0 st"
    unfolding pb_decode_varint32_def varint32_loop.simps [of 0]
    by (simp add: Let_def) (auto intro!: seq_cong simp: *)
qed

lemma parses_varint32: "parses pb_decode_varint32 (varint_bytes (ucast x)) x"
proof -
  have "unat x < 2 ^ LENGTH(32)" by (rule unsigned_less)
  moreover have "ucast (ucast x :: u64) = x" by (rule bit_word_eqI) (simp add: bit_unsigned_iff)
  ultimately show ?thesis using parses_varint32_loop [of 0 "ucast x" 0] by (simp add: varint32_unfold)
qed

text \<open>Zigzag.\<close>

lemma sint_neg_bit: "sint (v :: u64) < 0 \<longleftrightarrow> bit v 63"
  using bit_last_iff [of v] by simp

lemma bit_not64: "bit (NOT x) n \<longleftrightarrow> n < 64 \<and> \<not> bit (x :: u64) n"
  by (auto simp: bit_not_iff dest: bit_imp_le_length)

lemma bit_push1: "bit (push_bit 1 x) (1 + n) \<longleftrightarrow> n < 63 \<and> bit (x :: u64) n"
  by (simp only: bit_push_bit_iff) auto

lemma parses_svarint:
  "parses pb_decode_svarint (varint_bytes (if sint v < 0 then NOT (push_bit 1 v) else push_bit 1 v)) v"
proof (cases "sint v < 0")
  case True
  then have "bit v 63" by (simp add: sint_neg_bit)
  then have "bit (NOT (drop_bit 1 (NOT (push_bit 1 v)))) n = bit v n" if "n < LENGTH(64)" for n
    using that by (cases "n = 63") (simp_all only: bit_not64 bit_drop_bit_eq o_apply bit_push1, simp_all)
  then have "NOT (drop_bit 1 (NOT (push_bit 1 v))) = v" by (rule bit_word_eqI)
  moreover have "bit (NOT (push_bit 1 v) AND 1) 0"
    by (simp only: bit_and_iff bit_not64 bit_push_bit_iff bit_1_iff) simp
  then have "NOT (push_bit 1 v) AND 1 \<noteq> 0" by auto
  ultimately show ?thesis
    unfolding pb_decode_svarint_def if_P [OF True] by (intro parses_seq_ret [OF parses_varint]) simp
next
  case False
  then have "\<not> bit v 63" by (simp add: sint_neg_bit)
  then have "bit (drop_bit 1 (push_bit 1 v)) n = bit v n" if "n < LENGTH(64)" for n
    using that by (cases "n = 63") (simp_all only: bit_drop_bit_eq o_apply bit_push1, simp_all)
  then have "drop_bit 1 (push_bit 1 v) = v" by (rule bit_word_eqI)
  moreover have "push_bit 1 v AND 1 = 0"
    by (rule bit_word_eqI) (simp only: bit_and_iff bit_push_bit_iff bit_1_iff, simp)
  ultimately show ?thesis
    unfolding pb_decode_svarint_def if_not_P [OF False] by (intro parses_seq_ret [OF parses_varint]) simp
qed

section \<open>Tags and strings\<close>

lemma tag_word_fields:
  assumes "unat (n :: u32) < 2 ^ 29" "unat (wt :: u32) < 8"
  shows "drop_bit 3 (push_bit 3 n OR wt) = n" "(push_bit 3 n OR wt) AND 7 = wt"
proof -
  have n: "bit n k \<Longrightarrow> k < 29" for k using small_word_bits [OF assms(1)] by blast
  have w: "bit wt k \<Longrightarrow> k < 3" for k using assms(2) small_word_bits [of wt 3 k] by simp
  show "drop_bit 3 (push_bit 3 n OR wt) = n"
  proof (rule bit_word_eqI)
    fix k assume "k < LENGTH(32)"
    then show "bit (drop_bit 3 (push_bit 3 n OR wt)) k = bit n k"
      using n [of k] w [of "3 + k"] by (auto simp: bit_drop_bit_eq bit_or_iff bit_push_bit_iff)
  qed
  have "(7 :: u32) = mask 3" by (simp add: mask_eq_exp_minus_1)
  then have m: "bit (7 :: u32) k \<longleftrightarrow> k < 3" for k by (simp only: bit_mask_iff) auto
  show "(push_bit 3 n OR wt) AND 7 = wt"
  proof (rule bit_word_eqI)
    fix k assume "k < LENGTH(32)"
    then show "bit ((push_bit 3 n OR wt) AND 7) k = bit wt k"
      using w [of k] by (simp only: bit_and_iff bit_or_iff bit_push_bit_iff m) auto
  qed
qed

lemma tag_word_widen:
  assumes "unat (n :: u32) < 2 ^ 29" "unat (wt :: u32) < 8"
  shows "push_bit 3 (ucast n) OR ucast wt = (ucast (push_bit 3 n OR wt) :: u64)"
proof (rule bit_word_eqI)
  fix k assume "k < LENGTH(64)"
  have n: "bit n j \<Longrightarrow> j < 29" for j using small_word_bits [OF assms(1)] by blast
  show "bit (push_bit 3 (ucast n) OR ucast wt :: u64) k = bit (ucast (push_bit 3 n OR wt) :: u64) k"
    using n [of "k - 3"] \<open>k < LENGTH(64)\<close>
    by (auto simp: bit_or_iff bit_push_bit_iff bit_unsigned_iff dest: bit_imp_le_length)
qed

text \<open>The bytes of a tag, and what the decoder makes of them.\<close>

definition tag_bytes :: "u32 \<Rightarrow> u32 \<Rightarrow> byte list"
  where "tag_bytes wt n = varint_bytes (push_bit 3 (ucast n) OR ucast wt)"

lemma emits_tag: "emits (pb_encode_tag wt n) (tag_bytes wt n)"
  by (simp add: pb_encode_tag_def tag_bytes_def emits_varint)

lemma parses_tag:
  assumes "unat (n :: u32) < 2 ^ 29" "unat (wt :: u32) < 8" "n \<noteq> 0"
  shows "parses pb_decode_tag (tag_bytes wt n)
    \<lparr>tr_status = True, tr_eof = False, tr_wire_type = wt, tr_tag = n\<rparr>"
proof (rule parsesI)
  fix rest and st :: "'a pb_istream"
  let ?t = "push_bit 3 n OR wt"
  assume i: "at_input (tag_bytes wt n) rest st"
  have "pb_decode_varint32 st = (Ok ?t, consume (tag_bytes wt n) rest st)"
    using parsesD [OF parses_varint32 [of ?t]] i
    unfolding tag_bytes_def tag_word_widen [OF assms(1,2)] by blast
  moreover have "?t \<noteq> 0"
  proof
    assume "?t = 0"
    then have "n = drop_bit 3 0" using tag_word_fields(1) [OF assms(1,2)] by metis
    with assms(3) show False by simp
  qed
  ultimately show "pb_decode_tag st = (Ok \<lparr>tr_status = True, tr_eof = False, tr_wire_type = wt, tr_tag = n\<rparr>,
      consume (tag_bytes wt n) rest st)"
    by (simp only: pb_decode_tag_def tag_word_fields [OF assms(1,2)] prod.case outcome.case if_False)
qed

text \<open>A length-delimited string is skipped as a whole, whatever it contains.\<close>

lemma emits_string:
  assumes "unat n \<le> length bs"
  shows "emits (pb_encode_string bs n) (varint_bytes n @ take (unat n) bs)"
  unfolding pb_encode_string_def by (intro emits_seq emits_varint emits_pb_write assms)

lemma parses_skip_string:
  assumes "unat (n :: u32) = length bs"
  shows "parses pb_skip_string (varint_bytes (ucast n) @ bs) ()"
  unfolding pb_skip_string_def
  by (rule parses_seq [OF parses_varint32], rule parses_seq_ret [OF parses_read]) (simp_all add: assms)

end
