(* ===== verification/Nanopb_Decode_Safety.thy ===== *)
theory Nanopb_Decode_Safety
  imports Nanopb_Decode_Laws
begin

text \<open>
  The decoder on arbitrary input.  \<open>dsafe n A f\<close>: on a stream with fewer than \<open>n\<close> bytes left, the
  decoder function \<open>f\<close> never reads outside the input buffer nor does anything else undefined, only
  moves the stream forward, and writes no memory outside the address set \<open>A\<close>.  The theory proves
  it for every field decoder, then for whole messages whose type is well formed (\<open>wf_tree\<close>: no
  extension range, known field types, acyclic static nesting, a number of required fields the final
  check can handle) and whose fields lie inside \<open>A\<close> (\<open>laid_out\<close>).  Recursion and loops are bounded
  by the number of input bytes: every level of nesting costs a length byte and every round of a
  loop consumes input.
\<close>

section \<open>Frames\<close>

definition frame :: "addr set \<Rightarrow> mem \<Rightarrow> mem \<Rightarrow> bool"
  where "frame A m m' \<longleftrightarrow> (\<forall>a. a \<notin> A \<longrightarrow> m' a = m a)"

lemma frame_refl [simp]: "frame A m m"
  by (simp add: frame_def)

lemma frame_trans: "frame A m m' \<Longrightarrow> frame A m' m'' \<Longrightarrow> frame A m m''"
  by (simp add: frame_def)

lemma frame_mono: "frame A m m' \<Longrightarrow> A \<subseteq> B \<Longrightarrow> frame B m m'"
  by (auto simp: frame_def)

lemma frame_upd: "a \<in> A \<Longrightarrow> frame A m (m(a := b))"
  by (auto simp: frame_def)

lemma frame_write: "range_of a (length bs) \<subseteq> A \<Longrightarrow> frame A m (mem_write m a bs)"
  unfolding frame_def by (metis mem_write_outside subsetD)

lemma frame_store: "range_of a n \<subseteq> A \<Longrightarrow> frame A m (store n m a x)"
  by (simp add: store_def frame_write)

lemma range_of_sub: "i + n \<le> k \<Longrightarrow> range_of (a + of_nat i) n \<subseteq> range_of a k"
  by (force simp: range_of_def add.assoc simp flip: of_nat_add)

lemma in_range_of: "i < n \<Longrightarrow> a + of_nat i \<in> range_of a n"
  by (auto simp: range_of_def)

lemmas frame_intros = frame_refl frame_upd frame_write frame_store

section \<open>Safe decoder functions\<close>

definition dsafe :: "nat \<Rightarrow> addr set \<Rightarrow> ('s, 'a) dec \<Rightarrow> bool"
  where "dsafe n A f \<longleftrightarrow> (\<forall>st m. safe_stream st \<and> unat (is_bytes_left st) < n \<longrightarrow>
    fst (f (st, m)) \<noteq> Undef \<and> advance st (fst (snd (f (st, m)))) \<and> frame A m (snd (snd (f (st, m)))))"

lemma dsafeI:
  assumes "\<And>st m r st' m'. safe_stream st \<Longrightarrow> unat (is_bytes_left st) < n \<Longrightarrow> f (st, m) = (r, (st', m')) \<Longrightarrow>
    r \<noteq> Undef \<and> advance st st' \<and> frame A m m'"
  shows "dsafe n A f"
  unfolding dsafe_def using assms by (metis prod.collapse)

lemma dsafeD:
  assumes "dsafe n A f" "safe_stream st" "unat (is_bytes_left st) < n" "f (st, m) = (r, (st', m'))"
  shows "r \<noteq> Undef" "advance st st'" "frame A m m'" "safe_stream st'"
    "is_bytes_left st' \<le> is_bytes_left st" "unat (is_bytes_left st') < n"
proof -
  show r: "r \<noteq> Undef" "advance st st'" "frame A m m'"
    using assms unfolding dsafe_def by (metis fst_conv snd_conv)+
  show "safe_stream st'" using advance_safe [OF r(2) assms(2)] .
  show le: "is_bytes_left st' \<le> is_bytes_left st" using advance_le [OF r(2)] .
  show "unat (is_bytes_left st') < n" using le assms(3) by (simp add: word_le_nat_alt)
qed

lemma dsafe_mono: "dsafe n A f \<Longrightarrow> k \<le> n \<Longrightarrow> A \<subseteq> B \<Longrightarrow> dsafe k B f"
  unfolding dsafe_def by (meson frame_mono less_le_trans)

lemma dsafe_seq:
  assumes f: "dsafe n A f" and g: "\<And>x. dsafe n A (g x)"
  shows "dsafe n A (seq f g)"
proof (rule dsafeI)
  fix st m r st' m'
  assume st: "safe_stream st" "unat (is_bytes_left st) < n" and e: "seq f g (st, m) = (r, (st', m'))"
  from e show "r \<noteq> Undef \<and> advance st st' \<and> frame A m m'"
  proof (cases rule: seq_cases)
    case (1 x u)
    obtain st1 m1 where u: "u = (st1, m1)" by (cases u)
    note a = dsafeD [OF f st 1(1) [unfolded u]]
    from dsafeD(1-3) [OF g a(4,6) 1(2) [unfolded u]] a(2,3)
    show ?thesis by (auto intro: advance_trans frame_trans)
  qed (use dsafeD [OF f st] in auto)
qed

text \<open>When the first part is a stream reader, the second may rely on what it returned.\<close>

lemma dsafe_read_then:
  assumes f: "safe f" and g: "\<And>st x st'. safe_stream st \<Longrightarrow> f st = (Ok x, st') \<Longrightarrow> dsafe n A (g x)"
  shows "dsafe n A (seq (on_stream f) g)"
proof (rule dsafeI)
  fix st m r st' m'
  assume st: "safe_stream st" "unat (is_bytes_left st) < n" and e: "seq (on_stream f) g (st, m) = (r, (st', m'))"
  obtain q st1 where q: "f st = (q, st1)" by (cases "f st")
  note a = safeD [OF f st(1) q]
  show "r \<noteq> Undef \<and> advance st st' \<and> frame A m m'"
  proof (cases q)
    case (Ok x)
    then have "g x (st1, m) = (r, (st', m'))" using e q by (simp add: seq_def on_stream_def)
    moreover have "unat (is_bytes_left st1) < n" using a st(2) by (simp add: word_le_nat_alt)
    ultimately show ?thesis
      using dsafeD(1-3) [OF g [OF st(1) q [unfolded Ok]], of st1 m r st' m'] a
      by (auto intro: advance_trans)
  qed (use e q a in \<open>auto simp: seq_def on_stream_def\<close>)
qed

lemma dsafe_on_stream: "safe f \<Longrightarrow> dsafe n A (on_stream f)"
  by (rule dsafeI) (auto simp: on_stream_def split: prod.splits dest: safeD)

lemma dsafe_on_mem: "(\<And>m. frame A m (h m)) \<Longrightarrow> dsafe n A (on_mem h)"
  by (simp add: dsafe_def on_mem_def)

lemma dsafe_ret [simp]: "dsafe n A (ret x)"
  by (simp add: dsafe_def)

lemma dsafe_Ok [simp]: "dsafe n A (Pair (Ok x))"
  by (simp add: dsafe_def)

lemma dsafe_fails [simp]: "dsafe n A fails"
  by (simp add: dsafe_def)

lemma dsafe_error [simp]: "dsafe n A (dec_error msg)"
  by (simp add: dec_error_def dsafe_on_stream)

section \<open>Field decoders\<close>

text \<open>One item of field \<open>f\<close> at address \<open>a\<close> lies inside \<open>A\<close>.  The fixed-width decoders store four
  or eight bytes whatever the descriptor says.\<close>

definition item_room :: "addr set \<Rightarrow> pb_field \<Rightarrow> addr \<Rightarrow> bool"
  where "item_room A f a \<longleftrightarrow> range_of a (unat (pb_data_size f)) \<subseteq> A \<and>
    (ltype f = PB_LTYPE_FIXED32 \<longrightarrow> 4 \<le> unat (pb_data_size f)) \<and>
    (ltype f = PB_LTYPE_FIXED64 \<longrightarrow> 8 \<le> unat (pb_data_size f))"

lemma dsafe_store_checked:
  assumes "\<And>m m' c. put m = Some (m', c) \<Longrightarrow> frame A m m'"
  shows "dsafe n A (store_checked put v)"
  by (rule dsafeI)
     (auto simp: store_checked_def dec_error_def on_stream_def is_return_error_def
       split: option.splits prod.splits if_splits dest: assms)

lemma store_sizes_frame:
  assumes "range_of a (unat sz) \<subseteq> A"
  shows "store_signed m sz a v = Some (m', c) \<Longrightarrow> frame A m m'"
    and "store_unsigned m sz a v = Some (m', c) \<Longrightarrow> frame A m m'"
  using assms
  by (auto simp: store_signed_def store_unsigned_def intro!: frame_store split: if_splits)

lemma dsafe_varint: "item_room A f a \<Longrightarrow> dsafe n A (pb_dec_varint f a)"
  unfolding pb_dec_varint_def Let_def item_room_def
  by (intro dsafe_seq dsafe_on_stream safe_varint dsafe_store_checked) (auto dest: store_sizes_frame)

lemma dsafe_uvarint: "item_room A f a \<Longrightarrow> dsafe n A (pb_dec_uvarint f a)"
  unfolding pb_dec_uvarint_def item_room_def
  by (intro dsafe_seq dsafe_on_stream safe_varint dsafe_store_checked) (auto dest: store_sizes_frame)

lemma dsafe_svarint: "item_room A f a \<Longrightarrow> dsafe n A (pb_dec_svarint f a)"
  unfolding pb_dec_svarint_def item_room_def
  by (intro dsafe_seq dsafe_on_stream safe_svarint dsafe_store_checked) (auto dest: store_sizes_frame)

lemma dsafe_fixed32:
  "item_room A f a \<Longrightarrow> ltype f = PB_LTYPE_FIXED32 \<Longrightarrow> dsafe n A (pb_dec_fixed32 f a)"
  unfolding pb_dec_fixed32_def pb_decode_fixed32_def item_room_def
  by (intro dsafe_seq dsafe_on_stream safe_read dsafe_on_mem frame_store)
     (use range_of_mono in blast)

lemma dsafe_fixed64:
  "item_room A f a \<Longrightarrow> ltype f = PB_LTYPE_FIXED64 \<Longrightarrow> dsafe n A (pb_dec_fixed64 f a)"
  unfolding pb_dec_fixed64_def pb_decode_fixed64_def item_room_def
  by (intro dsafe_seq dsafe_on_stream safe_read dsafe_on_mem frame_store)
     (use range_of_mono in blast)

lemma read_into_length: "pb_read_into n st = (Ok bs, st') \<Longrightarrow> length bs = unat n"
  by (auto simp: pb_read_into_def stream_callback_def buf_read_def is_return_error_def seq_eq_Ok
      split: if_splits pb_source.splits prod.splits bool.splits option.splits)

lemma read_length: "pb_read False n st = (Ok bs, st') \<Longrightarrow> length bs = unat n"
  by (simp add: pb_read_def read_into_length)

lemma range_of_sub_word:
  "unat (i :: u32) + n \<le> k \<Longrightarrow> range_of (a + ucast i) n \<subseteq> range_of a k"
  using range_of_sub [of "unat i" n k a] by (simp add: of_nat_unat)

lemma alloc_size_le:
  assumes "PB_BYTES_ARRAY_T_ALLOCSIZE sz \<le> ucast (ds :: u32)"
  shows "unat sz + 4 \<le> unat ds"
proof -
  have "unat sz < 2 ^ LENGTH(32)" by (rule unsigned_less)
  then have "unat (ucast sz + 4 :: size_t) = unat sz + 4" by (simp add: unat_word_ariths)
  with assms show ?thesis by (simp add: PB_BYTES_ARRAY_T_ALLOCSIZE_def word_le_nat_alt)
qed

lemma dsafe_bytes:
  assumes "item_room A f a"
  shows "dsafe n A (pb_dec_bytes f a)"
proof -
  have room: "range_of a (unat (pb_data_size f)) \<subseteq> A" using assms by (simp add: item_room_def)
  have body: "dsafe n A (seq (on_mem (\<lambda>m. store 4 m a sz))
      (\<lambda>_. seq (on_stream (pb_read False (ucast sz))) (\<lambda>bytes. on_mem (\<lambda>m. mem_write m (a + 4) bytes))))"
    if "\<not> ucast (pb_data_size f) < PB_BYTES_ARRAY_T_ALLOCSIZE sz" for sz :: u32
  proof -
    have le: "unat sz + 4 \<le> unat (pb_data_size f)" using that by (intro alloc_size_le) simp
    then have "range_of a 4 \<subseteq> A" using room range_of_mono [of 4 "unat (pb_data_size f)" a] by simp
    moreover have "range_of (a + 4) (unat sz) \<subseteq> A"
      using range_of_sub [of 4 "unat sz" "unat (pb_data_size f)" a] room le by simp
    ultimately show ?thesis
      by (intro dsafe_seq [OF dsafe_on_mem] dsafe_read_then [OF safe_read] dsafe_on_mem frame_store frame_write)
         (simp_all add: read_length)
  qed
  show ?thesis
    unfolding pb_dec_bytes_def Let_def
    by (intro dsafe_seq dsafe_on_stream safe_varint32) (auto intro: body)
qed

lemma string_size_le:
  assumes "\<not> ucast (sz + 1) < (ucast sz :: size_t)" "\<not> ucast ds < (ucast (sz + 1) :: size_t)"
  shows "unat (sz :: u32) + 1 \<le> unat (ds :: u32)"
proof -
  have "\<not> sz + 1 < sz" using assms(1) by (simp add: word_less_nat_alt)
  then have "unat (sz + 1) = unat sz + 1"
    by (cases "unat sz + 1 < 2 ^ 32") (auto simp: unat_word_ariths word_less_nat_alt not_less dest!: le_neq_implies_less split: if_splits)
  with assms(2) show ?thesis by (simp add: word_less_nat_alt)
qed

lemma dsafe_string:
  assumes "item_room A f a"
  shows "dsafe n A (pb_dec_string f a)"
proof -
  have room: "range_of a (unat (pb_data_size f)) \<subseteq> A" using assms by (simp add: item_room_def)
  have body: "dsafe n A (\<lambda>s. case on_stream (pb_read False (ucast sz)) s of
      (Ok bytes, (st', m)) \<Rightarrow> (Ok (), (st', (mem_write m a bytes)(a + ucast sz := 0)))
    | (Fail, (st', m)) \<Rightarrow> (Fail, (st', m(a + ucast sz := 0))) | (Undef, s') \<Rightarrow> (Undef, s'))"
    if "\<not> ucast (sz + 1) < (ucast sz :: size_t)" "\<not> ucast (pb_data_size f) < (ucast (sz + 1) :: size_t)" for sz :: u32
  proof (rule dsafeI)
    fix st m r st' m'
    assume st: "safe_stream st" and e: "(case on_stream (pb_read False (ucast sz)) (st, m) of
      (Ok bytes, (st', m)) \<Rightarrow> (Ok (), (st', (mem_write m a bytes)(a + ucast sz := 0)))
    | (Fail, (st', m)) \<Rightarrow> (Fail, (st', m(a + ucast sz := 0))) | (Undef, s') \<Rightarrow> (Undef, s')) = (r, (st', m'))"
    have le: "unat sz + 1 \<le> unat (pb_data_size f)" using that by (rule string_size_le)
    have nul: "frame A x (x(a + ucast sz := 0))" for x
      using range_of_sub_word [of sz 1 "unat (pb_data_size f)" a] le room in_range_of [of 0 1 "a + ucast sz"]
      by (intro frame_upd) auto
    have chars: "frame A x (mem_write x a bs)" if "length bs = unat sz" for x bs
      using range_of_mono [of "length bs" "unat (pb_data_size f)" a] that le room by (intro frame_write) auto
    obtain q u where q: "pb_read False (ucast sz) st = (q, u)" by (cases "pb_read False (ucast sz) st")
    have "advance st u" "q \<noteq> Undef" using safeD [OF safe_read st q] by simp_all
    with e q nul chars read_length [of "ucast sz" st _ u]
    show "r \<noteq> Undef \<and> advance st st' \<and> frame A m m'"
      by (cases q) (auto simp: on_stream_def intro: frame_trans)
  qed
  show ?thesis
    unfolding pb_dec_string_def Let_def
    by (intro dsafe_seq dsafe_on_stream safe_varint32) (auto intro: body)
qed

lemma dsafe_fixed_length:
  assumes "item_room A f a"
  shows "dsafe n A (pb_dec_fixed_length_bytes f a)"
proof -
  have room: "range_of a (unat (pb_data_size f)) \<subseteq> A" using assms by (simp add: item_room_def)
  then show ?thesis
    unfolding pb_dec_fixed_length_bytes_def
    by (intro dsafe_seq dsafe_on_stream safe_varint32)
       (auto intro!: dsafe_read_then dsafe_on_mem safe_read frame_write dest!: read_length)
qed

section \<open>Substreams\<close>

lemma close_substream_safe:
  assumes sub: "safe_stream sub" and e: "pb_close_string_substream sub st = (r, st')"
  shows "r \<noteq> Undef" "st' = st \<or> (\<exists>sub'. advance sub sub' \<and> is_source st' = is_source sub' \<and>
    is_bytes_left st' = is_bytes_left st)"
proof -
  show "r \<noteq> Undef"
    using e safe_read [of True "is_bytes_left sub"] sub
    by (auto simp: pb_close_string_substream_def Let_def split: if_splits prod.splits outcome.splits dest: safeD)
  obtain q sub' where q: "pb_read True (is_bytes_left sub) sub = (q, sub')"
    by (cases "pb_read True (is_bytes_left sub) sub")
  have adv: "advance sub sub'" using safeD [OF safe_read sub q] by simp
  show "st' = st \<or> (\<exists>sub'. advance sub sub' \<and> is_source st' = is_source sub' \<and>
      is_bytes_left st' = is_bytes_left st)"
  proof (cases "is_bytes_left sub = 0")
    case True
    with e show ?thesis by (intro disjI2 exI [of _ sub]) (auto simp: pb_close_string_substream_def Let_def)
  next
    case False
    with e q adv show ?thesis by (cases q) (auto simp: pb_close_string_substream_def Let_def)
  qed
qed

text \<open>Running a decoder on a substream and closing it.\<close>

lemma close_after_safe:
  assumes st: "safe_stream st" and mk: "pb_make_string_substream st = (Ok sub, st1)"
    and adv: "advance sub sub'" and q: "q \<noteq> Undef"
    and e: "close_after (q, (sub', m)) st1 = (r, (st', m'))"
  shows "r \<noteq> Undef \<and> advance st st' \<and> m' = m"
proof -
  have s: "safe_stream sub'" using make_substream(1) [OF st mk] adv advance_safe by blast
  obtain c st2 where c: "pb_close_string_substream sub' st1 = (c, st2)"
    by (cases "pb_close_string_substream sub' st1")
  have "r \<noteq> Undef" "st' = st2" "m' = m"
    using e q c close_substream_safe(1) [OF s c]
    by (cases q; cases c; auto simp: close_after_def)+
  moreover have "advance st st2"
    using close_substream_safe(2) [OF s c] make_substream_not_Undef(2) [OF st mk]
      close_advance [OF st mk advance_trans [OF adv]] by blast
  ultimately show ?thesis by simp
qed

lemma dsafe_on_substream:
  assumes "\<And>sub st1 st m r st' m'. safe_stream st \<Longrightarrow> unat (is_bytes_left st) < n \<Longrightarrow>
      pb_make_string_substream st = (Ok sub, st1) \<Longrightarrow> g sub (st1, m) = (r, (st', m')) \<Longrightarrow>
      r \<noteq> Undef \<and> advance st st' \<and> frame A m m'"
  shows "dsafe n A (seq (on_stream pb_make_string_substream) g)"
proof (rule dsafeI)
  fix st m r st' m'
  assume st: "safe_stream st" "unat (is_bytes_left st) < n"
    and e: "seq (on_stream pb_make_string_substream) g (st, m) = (r, (st', m'))"
  obtain q st1 where q: "pb_make_string_substream st = (q, st1)" by (cases "pb_make_string_substream st")
  note u = make_substream_not_Undef [OF st(1) q]
  show "r \<noteq> Undef \<and> advance st st' \<and> frame A m m'"
  proof (cases q)
    case (Ok sub)
    with e q have "g sub (st1, m) = (r, (st', m'))" by (simp add: seq_def on_stream_def)
    with assms [OF st q [unfolded Ok]] show ?thesis by blast
  qed (use e q u in \<open>auto simp: seq_def on_stream_def\<close>)
qed

lemma dsafe_submessage:
  assumes "\<And>init. dsafe n A (sub init (de_fields_at env (pb_ptr f)) a)"
  shows "dsafe n A (pb_dec_submessage env sub f a)"
  unfolding pb_dec_submessage_def
proof (rule dsafe_on_substream)
  fix ss st1 st :: "'a pb_istream" and m r st' m'
  assume st: "safe_stream st" "unat (is_bytes_left st) < n"
    and mk: "pb_make_string_substream st = (Ok ss, st1)"
    and e: "(if pb_ptr f = 0 then dec_error ''invalid field descriptor'' (st1, m)
       else close_after (sub (htype f = PB_HTYPE_REPEATED) (de_fields_at env (pb_ptr f)) a (ss, snd (st1, m)))
         (fst (st1, m))) = (r, (st', m'))"
  show "r \<noteq> Undef \<and> advance st st' \<and> frame A m m'"
  proof (cases "pb_ptr f = 0")
    case True
    with e make_substream_not_Undef(2) [OF st(1) mk] show ?thesis
      by (auto simp: dec_error_def on_stream_def is_return_error_def intro: advance_trans)
  next
    case False
    obtain q ss' m1 where q: "sub (htype f = PB_HTYPE_REPEATED) (de_fields_at env (pb_ptr f)) a (ss, m) = (q, (ss', m1))"
      by (metis prod.collapse)
    have "unat (is_bytes_left ss) < n"
      using make_substream(2) [OF st(1) mk] st(2) by (simp add: word_less_nat_alt)
    note d = dsafeD [OF assms make_substream(1) [OF st(1) mk] this q]
    have "close_after (q, (ss', m1)) st1 = (r, (st', m'))" using e False q by simp
    from close_after_safe [OF st(1) mk d(2,1) this] d(3) show ?thesis by simp
  qed
qed

section \<open>The iterator over a well-formed table\<close>

definition required :: "pb_field \<Rightarrow> bool"
  where "required f \<longleftrightarrow> htype f = PB_HTYPE_REQUIRED"

definition required_count :: "pb_field list \<Rightarrow> nat"
  where "required_count fs = length (filter required fs)"

lemma iter_next_rfi:
  assumes "wf_fields fs" "Suc i < length fs"
  shows "it_required_field_index (iter_at fs d (Suc i)) =
    it_required_field_index (iter_at fs d i) + (if required (fs ! i) then 1 else 0)"
proof -
  have "htype (fs ! i) = PB_HTYPE_ONEOF \<Longrightarrow> \<not> required (fs ! i)" by (simp add: required_def htype_defs)
  then show ?thesis
    using assms wf_fields_tag [OF assms(1), of i] wf_fields_tag [OF assms(1), of "Suc i"] iter_at_pos [OF assms(1), of i d]
    by (auto simp: pb_field_iter_next_def Let_def required_def)
qed

lemma iter_at_rfi:
  assumes "wf_fields fs" "i < length fs"
  shows "it_required_field_index (iter_at fs d i) = of_nat (required_count (take i fs))"
  using assms(2)
proof (induction i)
  case 0
  then show ?case by (simp add: required_count_def pb_field_iter_begin_def Let_def)
next
  case (Suc i)
  then have "it_required_field_index (iter_at fs d i) = of_nat (required_count (take i fs))" by simp
  with Suc.prems iter_next_rfi [OF assms(1) Suc.prems, of d] show ?case
    by (simp add: required_count_def take_Suc_conv_app_nth del: iter_at.simps)
qed

lemma seek_last_at:
  assumes "wf_fields fs" "i < length fs"
  shows "seek_last (iter_at fs d i) =
    (of_nat (required_count (butlast fs)), pb_type (last fs), iter_at fs d 0)"
  using assms(2)
proof (induction "length fs - i" arbitrary: i rule: less_induct)
  case less
  show ?case
  proof (cases "Suc i < length fs")
    case True
    then have "seek_last (iter_at fs d i) = seek_last (iter_at fs d (Suc i))"
      by (subst seek_last.simps) (simp only: iter_at_next [OF assms(1) True] prod.case bool.case)
    with True less show ?thesis by (simp del: iter_at.simps)
  next
    case False
    then have l: "Suc i = length fs" using less.prems by simp
    have i: "i = length fs - 1" "fs \<noteq> []" using l by auto
    have t: "take i fs = butlast fs" "last fs = fs ! i"
      unfolding i(1) by (rule butlast_conv_take [symmetric]) (rule last_conv_nth [OF i(2)])
    show ?thesis
      by (subst seek_last.simps)
         (simp only: iter_at_wrap [OF assms(1) l] prod.case bool.case iter_at_rfi [OF assms(1) less.prems] t
           iter_at_field [OF assms(1) less.prems])
  qed
qed

text \<open>The walk to the end of the table counts the required fields.\<close>

lemma req_field_count_at:
  assumes "wf_fields fs" "i < length fs"
  shows "req_field_count (iter_at fs d i) = of_nat (required_count fs)"
proof -
  have ne: "fs \<noteq> []" using assms(2) by auto
  have "required_count fs = required_count (butlast fs) + (if required (last fs) then 1 else 0)"
    by (subst append_butlast_last_id [OF ne, symmetric]) (simp add: required_count_def del: append_butlast_last_id)
  moreover have "pb_tag (it_field (iter_at fs d 0)) \<noteq> 0"
    using wf_fields_tag [OF assms(1), of 0] ne by simp
  ultimately show ?thesis
    by (simp add: req_field_count_def seek_last_at [OF assms] required_def del: iter_at.simps)
qed

lemma req_field_count_empty: "req_field_count (iter_at [] d 0) = 0"
  by (simp add: req_field_count_def seek_last.simps iter_next_empty pb_field_iter_begin_def Let_def field_at_def
      PB_LAST_FIELD_def)

end
