(* ===== verification/Nanopb_Message_Safety.thy ===== *)
theory Nanopb_Message_Safety
  imports Nanopb_Decode_Safety
begin

text \<open>
  Safety of decoding whole messages: well-formed message types (\<open>wf_tree\<close>), the layout of a message
  structure inside an address set (\<open>laid_out\<close>), the contract of user callbacks (locale
  \<open>input_callbacks\<close>), and the theorem that the decoder, given enough recursion depth, is safe on
  every input.
\<close>

section \<open>Well-formed message types\<close>

definition wf_field :: "(pb_field list \<Rightarrow> bool) \<Rightarrow> (addr \<Rightarrow> pb_field list) \<Rightarrow> pb_field \<Rightarrow> bool" where
  "wf_field ok fat f \<longleftrightarrow> ltype f \<noteq> PB_LTYPE_EXTENSION \<and>
    (atype f = PB_ATYPE_STATIC \<longrightarrow> ltype f \<le> PB_LTYPE_FIXED_LENGTH_BYTES \<and>
      (ltype f = PB_LTYPE_SUBMESSAGE \<longrightarrow> pb_ptr f \<noteq> 0 \<and> ok (fat (pb_ptr f))))"

text \<open>The final check of \<^verbatim>\<open>pb_decode_noinit\<close> handles up to 63 required fields, but not
  exactly 32.\<close>

definition required_ok :: "pb_field list \<Rightarrow> bool"
  where "required_ok fs \<longleftrightarrow> required_count fs < 64 \<and> required_count fs \<noteq> 32"

primrec wf_tree :: "(addr \<Rightarrow> pb_field list) \<Rightarrow> nat \<Rightarrow> pb_field list \<Rightarrow> bool" where
  "wf_tree fat 0 fs = (fs = [])"
| "wf_tree fat (Suc k) fs =
    (wf_fields fs \<and> required_ok fs \<and> list_all (wf_field (wf_tree fat k) fat) fs)"

text \<open>Where item \<open>j\<close> of a field lies, and what of the structure the decoder may write for the field
  the iterator stands on.\<close>

definition item_addr :: "pb_field_iter \<Rightarrow> nat \<Rightarrow> addr"
  where "item_addr it j = it_pData it + ucast (pb_data_size (it_field it) * of_nat j)"

definition item_count :: "pb_field \<Rightarrow> nat"
  where "item_count f = (if htype f = PB_HTYPE_REPEATED then unat (pb_array_size f) else 1)"

definition size_room :: "addr set \<Rightarrow> pb_field_iter \<Rightarrow> bool" where
  "size_room A it \<longleftrightarrow>
    (htype (it_field it) = PB_HTYPE_OPTIONAL \<and> it_pSize it \<noteq> it_pData it \<longrightarrow> it_pSize it \<in> A) \<and>
    (htype (it_field it) = PB_HTYPE_REPEATED \<or> htype (it_field it) = PB_HTYPE_ONEOF \<longrightarrow>
      range_of (it_pSize it) 4 \<subseteq> A)"

definition field_room :: "(addr \<Rightarrow> pb_field list) \<Rightarrow> addr set \<Rightarrow> (pb_field list \<Rightarrow> addr \<Rightarrow> bool) \<Rightarrow> pb_field_iter \<Rightarrow> bool" where
  "field_room fat A sub it \<longleftrightarrow>
    (let f = it_field it in
     (atype f = PB_ATYPE_STATIC \<longrightarrow> size_room A it \<and>
        (\<forall>j < item_count f. item_room A f (item_addr it j) \<and>
           (ltype f = PB_LTYPE_SUBMESSAGE \<longrightarrow> sub (fat (pb_ptr f)) (item_addr it j)))) \<and>
     (atype f = PB_ATYPE_POINTER \<longrightarrow> size_room A it \<and> range_of (it_pData it) sizeof_ptr \<subseteq> A))"

primrec laid_out :: "(addr \<Rightarrow> pb_field list) \<Rightarrow> addr set \<Rightarrow> nat \<Rightarrow> pb_field list \<Rightarrow> addr \<Rightarrow> bool" where
  "laid_out fat A 0 fs dest = True"
| "laid_out fat A (Suc k) fs dest =
    (\<forall>i < length fs. field_room fat A (laid_out fat A k) (iter_at fs dest i))"

lemma item_addr_0 [simp]: "item_addr it 0 = it_pData it"
  by (simp add: item_addr_def)

text \<open>An executable check of the layout inside one block of \<open>n\<close> bytes at \<open>b\<close>.\<close>

definition inside :: "addr \<Rightarrow> nat \<Rightarrow> addr \<Rightarrow> nat \<Rightarrow> bool"
  where "inside b n a k \<longleftrightarrow> unat (a - b) + k \<le> n"

definition field_inside :: "(addr \<Rightarrow> pb_field list) \<Rightarrow> addr \<Rightarrow> nat \<Rightarrow> (pb_field list \<Rightarrow> addr \<Rightarrow> bool) \<Rightarrow> pb_field_iter \<Rightarrow> bool" where
  "field_inside fat b n sub it \<longleftrightarrow>
    (let f = it_field it; sz = unat (pb_data_size f) in
     inside b n (it_pSize it) (if htype f = PB_HTYPE_REQUIRED \<or> htype f = PB_HTYPE_OPTIONAL then 1 else 4) \<and>
     list_all (\<lambda>j. inside b n (item_addr it j) sz \<and>
       (ltype f = PB_LTYPE_SUBMESSAGE \<longrightarrow> sub (fat (pb_ptr f)) (item_addr it j))) [0..<item_count f] \<and>
     (ltype f = PB_LTYPE_FIXED32 \<longrightarrow> 4 \<le> sz) \<and> (ltype f = PB_LTYPE_FIXED64 \<longrightarrow> 8 \<le> sz) \<and>
     (atype f = PB_ATYPE_POINTER \<longrightarrow> inside b n (it_pData it) sizeof_ptr))"

primrec fits_block :: "(addr \<Rightarrow> pb_field list) \<Rightarrow> addr \<Rightarrow> nat \<Rightarrow> nat \<Rightarrow> pb_field list \<Rightarrow> addr \<Rightarrow> bool" where
  "fits_block fat b n 0 fs dest = True"
| "fits_block fat b n (Suc k) fs dest =
    list_all (\<lambda>i. field_inside fat b n (fits_block fat b n k) (iter_at fs dest i)) [0..<length fs]"

lemma inside_range: "inside b n a k \<Longrightarrow> range_of a k \<subseteq> range_of b n"
  using range_of_sub [of "unat (a - b)" k n b] by (simp add: inside_def of_nat_unat)

lemma inside_mem: "inside b n a k \<Longrightarrow> 0 < k \<Longrightarrow> a \<in> range_of b n"
  using inside_range [of b n a k] in_range_of [of 0 k a] by auto

lemma fits_block_laid_out:
  "fits_block fat b n k fs dest \<Longrightarrow> laid_out fat (range_of b n) k fs dest"
proof (induction k arbitrary: fs dest)
  case 0
  then show ?case by simp
next
  case (Suc k)
  have "field_room fat (range_of b n) (laid_out fat (range_of b n) k) it"
    if it: "field_inside fat b n (fits_block fat b n k) it" for it
  proof -
    let ?f = "it_field it"
    have "size_room (range_of b n) it"
      using it by (auto simp: field_inside_def Let_def size_room_def htype_defs
          dest: inside_range [THEN subsetD] intro: inside_mem split: if_splits)
    moreover have "item_room (range_of b n) ?f (item_addr it j) \<and>
        (ltype ?f = PB_LTYPE_SUBMESSAGE \<longrightarrow> laid_out fat (range_of b n) k (fat (pb_ptr ?f)) (item_addr it j))"
      if "j < item_count ?f" for j
      using it that Suc.IH by (simp add: field_inside_def Let_def item_room_def list_all_iff inside_range)
    ultimately show ?thesis
      using it by (simp add: field_room_def Let_def field_inside_def inside_range)
  qed
  then show ?case using Suc.prems by (simp add: list_all_iff del: iter_at.simps)
qed

section \<open>Consuming decoders\<close>

definition dconsuming :: "('s, 'a) dec \<Rightarrow> bool"
  where "dconsuming f \<longleftrightarrow> (\<forall>st m x st' m'. safe_stream st \<and> f (st, m) = (Ok x, (st', m')) \<longrightarrow>
    is_bytes_left st' < is_bytes_left st)"

lemma dconsumingD:
  "dconsuming f \<Longrightarrow> safe_stream st \<Longrightarrow> f (st, m) = (Ok x, (st', m')) \<Longrightarrow> is_bytes_left st' < is_bytes_left st"
  unfolding dconsuming_def by blast

lemma dconsuming_seq:
  assumes g: "safe g" "consuming g" and h: "\<And>x. dsafe (2 ^ 64) UNIV (h x)"
  shows "dconsuming (seq (on_stream g) h)"
  unfolding dconsuming_def
proof (intro allI impI, elim conjE)
  fix st m y st' m' assume st: "safe_stream st" and e: "seq (on_stream g) h (st, m) = (Ok y, (st', m'))"
  then obtain x u where x: "g st = (Ok x, u)" "h x (u, m) = (Ok y, (st', m'))"
    by (auto simp: seq_eq_Ok on_stream_def split: prod.splits)
  have u: "safe_stream u" "is_bytes_left u < is_bytes_left st"
    using safeD [OF g(1) st x(1)] consumingD [OF g(2) st x(1)] by simp_all
  have "unat (is_bytes_left u) < 2 ^ 64" using unsigned_less [of "is_bytes_left u"] by simp
  from dsafeD(5) [OF h u(1) this x(2)] u(2) show "is_bytes_left st' < is_bytes_left st" by simp
qed

lemma consuming_read: "n \<noteq> 0 \<Longrightarrow> consuming (pb_read False n)"
  using consuming_read_into [of n] by (simp add: pb_read_def [abs_def])

lemma frame_UNIV [simp]: "frame UNIV m m'"
  by (simp add: frame_def)

lemma dconsuming_packable:
  assumes "ltype f \<le> PB_LTYPE_LAST_PACKABLE"
  shows "dconsuming (PB_DECODERS env sub (ltype f) f a)"
proof -
  have "ltype f = 0 \<or> ltype f = 1 \<or> ltype f = 2 \<or> ltype f = 3 \<or> ltype f = 4"
    using assms unfolding word_unat_eq_iff by (simp add: ltype_defs word_le_nat_alt, arith)
  then show ?thesis
    by (elim disjE)
       (simp_all add: PB_DECODERS_def ltype_defs pb_dec_varint_def pb_dec_uvarint_def pb_dec_svarint_def
         pb_dec_fixed32_def pb_dec_fixed64_def pb_decode_fixed32_def pb_decode_fixed64_def Let_def,
        (intro dconsuming_seq safe_varint consuming_varint safe_svarint consuming_svarint safe_read consuming_read
          dsafe_store_checked dsafe_on_mem, simp_all)+)
qed

section \<open>Default values\<close>

definition msafe :: "addr set \<Rightarrow> mem_action \<Rightarrow> bool"
  where "msafe A f \<longleftrightarrow> (\<forall>m. fst (f m) \<noteq> Undef \<and> frame A m (snd (f m)))"

lemma msafeD: "msafe A f \<Longrightarrow> f m = (r, m') \<Longrightarrow> r \<noteq> Undef \<and> frame A m m'"
  unfolding msafe_def by (metis fst_conv snd_conv)

lemma msafe_ret [simp]: "msafe A (ret ())"
  by (simp add: msafe_def)

lemma msafe_seq:
  assumes "msafe A f" "\<And>x. msafe A (g x)"
  shows "msafe A (seq f g)"
  unfolding msafe_def
proof
  fix m
  obtain r m' where r: "seq f g m = (r, m')" by (cases "seq f g m")
  then show "fst (seq f g m) \<noteq> Undef \<and> frame A m (snd (seq f g m))"
  proof (cases rule: seq_cases)
    case (1 x u)
    with msafeD [OF assms(1) 1(1)] msafeD [OF assms(2) 1(2)] r show ?thesis by (auto intro: frame_trans)
  qed (use msafeD [OF assms(1)] r in auto)
qed

lemma msafe_iter_do:
  assumes "wf_fields fs" "i < length fs" "\<And>j. j < length fs \<Longrightarrow> msafe A (body (iter_at fs d j))"
  shows "msafe A (iter_do body (iter_at fs d i))"
  using assms(2)
proof (induction "length fs - i" arbitrary: i rule: less_induct)
  case less
  have eq: "iter_do body (iter_at fs d i) = seq (body (iter_at fs d i)) (\<lambda>_. case pb_field_iter_next (iter_at fs d i) of
      (True, it') \<Rightarrow> iter_do body it' | (False, _) \<Rightarrow> ret ())"
    by (rule ext) (rule iter_do.simps)
  show ?case
  proof (cases "Suc i < length fs")
    case True
    then have "msafe A (iter_do body (iter_at fs d (Suc i)))" using less.hyps [of "Suc i"] less.prems by simp
    then show ?thesis
      unfolding eq iter_at_next [OF assms(1) True] using assms(3) less.prems
      by (intro msafe_seq) (simp_all del: iter_at.simps)
  next
    case False
    then have "Suc i = length fs" using less.prems by simp
    then show ?thesis
      unfolding eq using iter_at_wrap [OF assms(1), of i d] assms(3) less.prems
      by (intro msafe_seq) (simp_all del: iter_at.simps)
  qed
qed

lemma msafe_message_defaults:
  assumes "wf_fields fs" "\<And>j. j < length fs \<Longrightarrow> msafe A (fdef (iter_at fs dest j))"
  shows "msafe A (message_defaults fdef fs dest)"
proof (cases "fs = []")
  case True
  then show ?thesis by (simp add: message_defaults_def pb_field_iter_begin_def Let_def)
next
  case False
  then have "pb_field_iter_begin fs dest = (True, iter_at fs dest 0)"
    using wf_fields_tag [OF assms(1), of 0] by (auto simp: pb_field_iter_begin_def Let_def)
  then show ?thesis
    using msafe_iter_do [where body = fdef, OF assms(1) _ assms(2)] False
    by (simp add: message_defaults_def del: iter_at.simps)
qed

lemma item_count_1: "htype f \<noteq> PB_HTYPE_REPEATED \<Longrightarrow> item_count f = 1"
  by (simp add: item_count_def)

lemma msafe_field_default:
  assumes wf: "wf_field ok fat (it_field it)" and room: "field_room fat A sub it"
    and rec: "\<And>fs a. ok fs \<Longrightarrow> sub fs a \<Longrightarrow> msafe A (message_defaults fdef fs a)"
  shows "msafe A (field_default_step fdef fat d it)"
proof -
  let ?f = "it_field it"
  have ne: "ltype ?f \<noteq> PB_LTYPE_EXTENSION" using wf by (simp add: wf_field_def)
  consider (st) "atype ?f = PB_ATYPE_STATIC" | (pt) "atype ?f = PB_ATYPE_POINTER" "atype ?f \<noteq> PB_ATYPE_STATIC"
    | (other) "atype ?f \<noteq> PB_ATYPE_STATIC" "atype ?f \<noteq> PB_ATYPE_POINTER" by blast
  then show ?thesis
  proof cases
    case st
    let ?opt = "htype ?f = PB_HTYPE_OPTIONAL \<and> it_pSize it \<noteq> it_pData it"
    let ?cnt = "htype ?f = PB_HTYPE_REPEATED \<or> htype ?f = PB_HTYPE_ONEOF"
    let ?m1 = "\<lambda>m. if ?opt then m(it_pSize it := 0) else if ?cnt then store 4 m (it_pSize it) (0::u32) else m"
    have m1: "frame A m (?m1 m)" for m
      using room st by (auto simp: field_room_def Let_def size_room_def intro!: frame_intros)
    show ?thesis
    proof (cases "\<not> ?opt \<and> ?cnt")
      case True
      then have "field_default_step fdef fat d it m = (Ok (), ?m1 m)" for m
        using ne st by (auto simp: field_default_step_def Let_def)
      then show ?thesis using m1 by (simp add: msafe_def)
    next
      case False
      then have "htype ?f \<noteq> PB_HTYPE_REPEATED" by (auto simp: htype_defs)
      then have item: "item_room A ?f (it_pData it)"
        "ltype ?f = PB_LTYPE_SUBMESSAGE \<Longrightarrow> sub (fat (pb_ptr ?f)) (it_pData it)"
        using room st by (auto simp: field_room_def Let_def item_count_1)
      have sm: "pb_ptr ?f \<noteq> 0" "ok (fat (pb_ptr ?f))" if "ltype ?f = PB_LTYPE_SUBMESSAGE"
        using wf st that by (auto simp: wf_field_def)
      have eq: "field_default_step fdef fat d it m =
          (if ltype ?f = PB_LTYPE_SUBMESSAGE then message_defaults fdef (fat (pb_ptr ?f)) (it_pData it) (?m1 m)
           else (Ok (), mem_write (?m1 m) (it_pData it)
             (if pb_ptr ?f \<noteq> 0 then mem_read (?m1 m) (pb_ptr ?f) (unat (pb_data_size ?f))
              else replicate (unat (pb_data_size ?f)) 0)))" for m
        unfolding field_default_step_def Let_def if_not_P [OF False] if_not_P [OF ne] if_P [OF st]
        using sm(1) by (cases "ltype ?f = PB_LTYPE_SUBMESSAGE"; cases "pb_ptr ?f = 0")
          (auto simp only: if_True if_False simp_thms)
      have "fst (field_default_step fdef fat d it m) \<noteq> Undef \<and> frame A m (snd (field_default_step fdef fat d it m))" for m
      proof (cases "ltype ?f = PB_LTYPE_SUBMESSAGE")
        case True
        obtain r m' where r: "message_defaults fdef (fat (pb_ptr ?f)) (it_pData it) (?m1 m) = (r, m')"
          by (cases "message_defaults fdef (fat (pb_ptr ?f)) (it_pData it) (?m1 m)")
        have "r \<noteq> Undef" "frame A (?m1 m) m'"
          using msafeD [OF rec [OF sm(2) [OF True] item(2) [OF True]] r] by simp_all
        then have "r \<noteq> Undef \<and> frame A m m'" using frame_trans [OF m1] by blast
        then show ?thesis unfolding eq if_P [OF True] r fst_conv snd_conv .
      next
        case False
        have "frame A (?m1 m) (mem_write (?m1 m) (it_pData it) bs)" if "length bs = unat (pb_data_size ?f)" for bs
          using item(1) that by (intro frame_write) (simp add: item_room_def)
        with m1 [of m] False show ?thesis unfolding eq by (auto intro: frame_trans)
      qed
      then show ?thesis by (simp add: msafe_def)
    qed
  next
    case pt
    let ?cnt = "htype ?f = PB_HTYPE_REPEATED \<or> htype ?f = PB_HTYPE_ONEOF"
    let ?m1 = "\<lambda>m. store sizeof_ptr m (it_pData it) (0::addr)"
    have eq: "field_default_step fdef fat d it m =
        (Ok (), if ?cnt then store 4 (?m1 m) (it_pSize it) (0::u32) else ?m1 m)" for m
      unfolding field_default_step_def Let_def if_not_P [OF ne] if_not_P [OF pt(2)] if_P [OF pt(1)] ..
    have r: "range_of (it_pData it) sizeof_ptr \<subseteq> A" "?cnt \<Longrightarrow> range_of (it_pSize it) 4 \<subseteq> A"
      using room pt unfolding field_room_def Let_def size_room_def by blast+
    have "frame A m (if ?cnt then store 4 (?m1 m) (it_pSize it) (0::u32) else ?m1 m)" for m
    proof (cases ?cnt)
      case True
      show ?thesis
        unfolding if_P [OF True] by (rule frame_trans [OF frame_store [OF r(1)] frame_store [OF r(2) [OF True]]])
    next
      case False
      show ?thesis unfolding if_not_P [OF False] by (rule frame_store [OF r(1)])
    qed
    then show ?thesis unfolding msafe_def eq fst_conv snd_conv by blast
  next
    case other
    then show ?thesis using ne by (simp add: field_default_step_def Let_def msafe_def)
  qed
qed

lemma msafe_defaults:
  assumes "wf_tree fat k fs" "laid_out fat A k fs dest" "k \<le> d"
  shows "msafe A (message_defaults (pb_field_set_to_default fat d) fs dest)"
  using assms
proof (induction k arbitrary: fs dest d)
  case 0
  then show ?case using msafe_message_defaults [of "[]"] by (simp add: wf_fields_def)
next
  case (Suc k)
  then obtain d' where d: "d = Suc d'" "k \<le> d'" by (cases d) auto
  have "msafe A (pb_field_set_to_default fat d (iter_at fs dest j))" if "j < length fs" for j
  proof -
    have "wf_field (wf_tree fat k) fat (it_field (iter_at fs dest j))"
      using Suc.prems(1) that iter_at_field [of fs j dest] by (simp add: list_all_length del: iter_at.simps)
    moreover have "field_room fat A (laid_out fat A k) (iter_at fs dest j)"
      using Suc.prems(2) that by (simp del: iter_at.simps)
    ultimately show ?thesis
      unfolding d(1) pb_field_set_to_default.simps
      by (rule msafe_field_default) (rule Suc.IH [OF _ _ d(2)])
  qed
  then show ?case using Suc.prems(1) by (intro msafe_message_defaults) simp_all
qed

section \<open>Static fields\<close>

lemma known_ltype:
  assumes "ltype f \<le> PB_LTYPE_FIXED_LENGTH_BYTES" "ltype f \<noteq> PB_LTYPE_EXTENSION"
  shows "ltype f \<in> {0, 1, 2, 3, 4, 5, 6, 7, 9}"
  using assms unfolding insert_iff empty_iff word_unat_eq_iff
  by (simp add: ltype_defs word_le_nat_alt, arith)

lemma decoders_safe:
  assumes wf: "wf_field ok (de_fields_at env) f" "atype f = PB_ATYPE_STATIC" and room: "item_room A f a"
    and sub: "\<And>init. ltype f = PB_LTYPE_SUBMESSAGE \<Longrightarrow> dsafe n A (sub init (de_fields_at env (pb_ptr f)) a)"
  shows "dsafe n A (PB_DECODERS env sub (ltype f) f a)"
proof -
  have "ltype f \<in> {0, 1, 2, 3, 4, 5, 6, 7, 9}"
    using wf by (intro known_ltype) (simp_all add: wf_field_def)
  then consider "ltype f = 0" | "ltype f = 1" | "ltype f = 2" | "ltype f = 3" | "ltype f = 4" | "ltype f = 5"
    | "ltype f = 6" | "ltype f = 7" | "ltype f = 9" by blast
  then show ?thesis
  proof cases
    case 8
    then have "dsafe n A (sub init (de_fields_at env (pb_ptr f)) a)" for init
      by (intro sub) (simp add: ltype_defs)
    then show ?thesis using 8 by (simp add: PB_DECODERS_def ltype_defs dsafe_submessage)
  qed (use room in \<open>simp_all add: PB_DECODERS_def ltype_defs dsafe_varint dsafe_uvarint dsafe_svarint
        dsafe_fixed32 dsafe_fixed64 dsafe_bytes dsafe_string dsafe_fixed_length\<close>)
qed

lemma packed_loop_safe:
  assumes func: "\<And>j. j < unat (pb_array_size (it_field it)) \<Longrightarrow> dsafe n A (func (it_field it) (item_addr it j))"
    and cons: "\<And>a. dconsuming (func (it_field it) a)"
    and size: "range_of (it_pSize it) 4 \<subseteq> A"
    and st: "safe_stream st" "unat (is_bytes_left st) < n" "unat (is_bytes_left st) < k"
    and e: "packed_loop func it k (st, m) = (r, (st', m'))"
  shows "r \<noteq> Undef \<and> advance st st' \<and> frame A m m'"
  using st e
proof (induction k arbitrary: st m)
  case 0
  then show ?case by simp
next
  case (Suc k)
  let ?c = "load 4 m (it_pSize it) :: u32"
  show ?case
  proof (cases "is_bytes_left st \<noteq> 0 \<and> ?c < pb_array_size (it_field it)")
    case False
    with Suc.prems(4) show ?thesis by (auto simp: Let_def)
  next
    case True
    then have c: "unat ?c < unat (pb_array_size (it_field it))" by (simp add: word_less_nat_alt)
    obtain q st1 m1 where q: "func (it_field it) (item_addr it (unat ?c)) (st, m) = (q, (st1, m1))"
      by (metis prod.collapse)
    note d = dsafeD [OF func [OF c] Suc.prems(1,2) q]
    show ?thesis
    proof (cases q)
      case (Ok x)
      let ?m2 = "store 4 m1 (it_pSize it) (load 4 m1 (it_pSize it) + 1 :: u32)"
      have e: "packed_loop func it k (st1, ?m2) = (r, (st', m'))"
        using Suc.prems(4) True q Ok by (simp add: Let_def item_addr_def)
      have "is_bytes_left st1 < is_bytes_left st"
        using dconsumingD [OF cons Suc.prems(1)] q Ok by blast
      then have "unat (is_bytes_left st1) < k" using Suc.prems(3) by (simp add: word_less_nat_alt)
      note ih = Suc.IH [OF d(4,6) this e]
      have "frame A m m'"
        using frame_trans [OF d(3) frame_trans [OF frame_store [OF size]]] ih by blast
      with ih advance_trans [OF d(2)] show ?thesis by blast
    qed (use Suc.prems(4) True q d in \<open>auto simp: Let_def item_addr_def\<close>)
  qed
qed

lemma dsafe_packed:
  assumes func: "\<And>j. j < unat (pb_array_size (it_field it)) \<Longrightarrow> dsafe n A (func (it_field it) (item_addr it j))"
    and cons: "\<And>a. dconsuming (func (it_field it) a)"
    and size: "range_of (it_pSize it) 4 \<subseteq> A"
  shows "dsafe n A (decode_packed func it)"
  unfolding decode_packed_def
proof (rule dsafe_on_substream, unfold prod.case)
  fix sub st1 st :: "'a pb_istream" and m r st' m'
  assume st: "safe_stream st" "unat (is_bytes_left st) < n"
    and mk: "pb_make_string_substream st = (Ok sub, st1)"
    and e: "(case packed_loop func it (Suc (unat (is_bytes_left sub))) (sub, m) of
          (Undef, (_, m')) \<Rightarrow> (Undef, (st1, m'))
        | (Fail, (_, m')) \<Rightarrow> (Fail, (st1, m'))
        | (Ok status, (sub', m')) \<Rightarrow>
            if is_bytes_left sub' \<noteq> 0 then dec_error ''array overflow'' (st1, m')
            else close_after (if status then Ok () else Fail, (sub', m')) st1) = (r, (st', m'))"
  obtain q sub' m1 where q: "packed_loop func it (Suc (unat (is_bytes_left sub))) (sub, m) = (q, (sub', m1))"
    by (metis prod.collapse)
  have "unat (is_bytes_left sub) < n"
    using make_substream(2) [OF st(1) mk] st(2) by (simp add: word_less_nat_alt)
  then have p: "q \<noteq> Undef \<and> advance sub sub' \<and> frame A m m1"
    by (intro packed_loop_safe [where func = func and it = it, OF func cons size make_substream(1) [OF st(1) mk] _ _ q]) simp_all
  have mk': "advance st st1" by (rule make_substream_not_Undef(2) [OF st(1) mk])
  show "r \<noteq> Undef \<and> advance st st' \<and> frame A m m'"
  proof (cases q)
    case (Ok status)
    show ?thesis
    proof (cases "is_bytes_left sub' = 0")
      case True
      then have c: "close_after (if status then Ok () else Fail, (sub', m1)) st1 = (r, (st', m'))"
        using e q Ok by simp
      have "(if status then Ok () else Fail) \<noteq> (Undef :: unit outcome)" by simp
      from close_after_safe [OF st(1) mk _ this c] p show ?thesis by simp
    next
      case False
      then show ?thesis
        using e q Ok p mk' by (auto simp: dec_error_def on_stream_def is_return_error_def intro: advance_trans)
    qed
  qed (use e q p mk' in auto)
qed

lemma dsafe_mem_step:
  assumes "msafe A f"
  shows "dsafe n A (mem_step f)"
  by (rule dsafeI) (auto simp: mem_step_def split: prod.splits dest: msafeD [OF assms])

lemma htype_mask_values: "\<forall>x :: byte. x AND 0x30 \<in> {0, 0x10, 0x20, 0x30}"
  by code_simp

lemma htype_cases:
  "htype f = PB_HTYPE_REQUIRED \<or> htype f = PB_HTYPE_OPTIONAL \<or> htype f = PB_HTYPE_REPEATED \<or> htype f = PB_HTYPE_ONEOF"
  using htype_mask_values by (simp add: PB_HTYPE_def htype_defs)

lemma decode_static_safe:
  assumes wf: "wf_field ok (de_fields_at env) (it_field it)" "atype (it_field it) = PB_ATYPE_STATIC"
    and room: "field_room (de_fields_at env) A P it"
    and sub: "\<And>fs a init. ok fs \<Longrightarrow> P fs a \<Longrightarrow> dsafe n A (sub init fs a)"
    and defs: "\<And>fs a. ok fs \<Longrightarrow> P fs a \<Longrightarrow> msafe A (pb_message_set_to_defaults (de_fields_at env) d fs a)"
  shows "dsafe n A (decode_static_field env sub d wt it)"
proof -
  let ?f = "it_field it"
  let ?func = "PB_DECODERS env sub (ltype ?f)"
  have sz: "size_room A it" using room wf(2) by (simp add: field_room_def Let_def)
  have slot: "item_room A ?f (item_addr it j)"
    "ltype ?f = PB_LTYPE_SUBMESSAGE \<Longrightarrow> P (de_fields_at env (pb_ptr ?f)) (item_addr it j)" if "j < item_count ?f" for j
    using room wf(2) that by (simp_all add: field_room_def Let_def)
  have sm: "ok (de_fields_at env (pb_ptr ?f))" "pb_ptr ?f \<noteq> 0" if "ltype ?f = PB_LTYPE_SUBMESSAGE"
    using wf that by (simp_all add: wf_field_def)
  have item: "dsafe n A (?func ?f (item_addr it j))" if "j < item_count ?f" for j
    using slot [OF that] sub sm by (intro decoders_safe [OF wf]) simp_all
  have one: "dsafe n A (?func ?f (it_pData it))" "item_room A ?f (it_pData it)"
    "ltype ?f = PB_LTYPE_SUBMESSAGE \<Longrightarrow> P (de_fields_at env (pb_ptr ?f)) (it_pData it)"
    if "htype ?f \<noteq> PB_HTYPE_REPEATED"
    using item [of 0] slot [of 0] that by (simp_all add: item_count_1)
  consider (req) "htype ?f = PB_HTYPE_REQUIRED" | (opt) "htype ?f = PB_HTYPE_OPTIONAL"
    | (rep) "htype ?f = PB_HTYPE_REPEATED" | (union) "htype ?f = PB_HTYPE_ONEOF" using htype_cases by blast
  then show ?thesis
  proof cases
    case req
    then show ?thesis using one(1) by (simp add: decode_static_field_def Let_def htype_defs)
  next
    case opt
    have "frame A m (if it_pSize it \<noteq> it_pData it then m(it_pSize it := 1) else m)" for m
      using sz opt by (auto simp: size_room_def intro: frame_upd)
    moreover have "dsafe n A (?func ?f (it_pData it))" using opt by (intro one(1)) (simp add: htype_defs)
    ultimately have "dsafe n A (seq (on_mem (\<lambda>m. if it_pSize it \<noteq> it_pData it then m(it_pSize it := 1) else m))
        (\<lambda>_. ?func ?f (it_pData it)))" by (intro dsafe_seq dsafe_on_mem)
    then show ?thesis using opt by (simp add: decode_static_field_def Let_def htype_defs)
  next
    case rep
    have size: "range_of (it_pSize it) 4 \<subseteq> A" using sz rep by (simp add: size_room_def)
    show ?thesis
    proof (cases "wt = PB_WT_STRING \<and> ltype ?f \<le> PB_LTYPE_LAST_PACKABLE")
      case True
      have "dsafe n A (decode_packed ?func it)"
        using item rep True by (intro dsafe_packed size dconsuming_packable) (simp_all add: item_count_def)
      then show ?thesis using True rep by (simp add: decode_static_field_def Let_def htype_defs)
    next
      case False
      have "dsafe n A (\<lambda>s. let count = load 4 (snd s) (it_pSize it) :: u32 in
          if pb_array_size ?f \<le> count then dec_error ''array overflow'' s
          else seq (on_mem (\<lambda>m. store 4 m (it_pSize it) (count + 1)))
                 (\<lambda>_. ?func ?f (it_pData it + ucast (pb_data_size ?f * count))) s)" (is "dsafe n A ?g")
        unfolding dsafe_def
      proof (intro allI)
        fix st m
        let ?c = "load 4 m (it_pSize it) :: u32"
        let ?h = "if pb_array_size ?f \<le> ?c then dec_error ''array overflow''
          else seq (on_mem (\<lambda>m. store 4 m (it_pSize it) (?c + 1))) (\<lambda>_. ?func ?f (item_addr it (unat ?c)))"
        have "dsafe n A ?h"
          using item [of "unat ?c"] rep
          by (auto simp: item_count_def word_le_nat_alt not_le intro!: dsafe_seq dsafe_on_mem frame_store size)
        moreover have "?g (st, m) = ?h (st, m)" by (simp add: Let_def item_addr_def)
        ultimately show "safe_stream st \<and> unat (is_bytes_left st) < n \<longrightarrow>
            fst (?g (st, m)) \<noteq> Undef \<and> advance st (fst (snd (?g (st, m)))) \<and> frame A m (snd (snd (?g (st, m))))"
          unfolding dsafe_def by metis
      qed
      then show ?thesis using False rep by (auto simp: decode_static_field_def Let_def htype_defs)
    qed
  next
    case union
    then have h: "htype ?f \<noteq> PB_HTYPE_REPEATED" by (simp add: htype_defs)
    let ?body = "if ltype ?f = PB_LTYPE_SUBMESSAGE
        then seq (on_mem (\<lambda>m. mem_write m (it_pData it) (replicate (unat (pb_data_size ?f)) 0)))
          (\<lambda>_. if pb_ptr ?f = 0 then undefd
               else mem_step (pb_message_set_to_defaults (de_fields_at env) d (de_fields_at env (pb_ptr ?f)) (it_pData it)))
        else ret ()"
    have "dsafe n A ?body"
      using sm defs one(2,3) [OF h]
      by (auto intro!: dsafe_seq dsafe_on_mem frame_write dsafe_mem_step simp: item_room_def)
    moreover have "range_of (it_pSize it) 4 \<subseteq> A" using sz union by (simp add: size_room_def)
    ultimately have "dsafe n A (seq (on_mem (\<lambda>m. store 4 m (it_pSize it) (pb_tag ?f)))
        (\<lambda>_. seq ?body (\<lambda>_. ?func ?f (it_pData it))))"
      by (intro dsafe_seq [OF dsafe_on_mem] dsafe_seq [of n A ?body] frame_store one(1) [OF h])
    moreover have "htype ?f \<noteq> PB_HTYPE_REQUIRED" "htype ?f \<noteq> PB_HTYPE_OPTIONAL" "htype ?f \<noteq> PB_HTYPE_REPEATED"
      using union by (simp_all add: htype_defs)
    ultimately show ?thesis by (simp only: decode_static_field_def Let_def if_False)
  qed
qed

section \<open>Positions of the iterator\<close>

definition iter_ok :: "pb_field list \<Rightarrow> addr \<Rightarrow> pb_field_iter \<Rightarrow> bool" where
  "iter_ok fs dest it \<longleftrightarrow>
    (\<exists>i < length fs. it = iter_at fs dest i) \<or> fs = [] \<and> it = iter_at [] dest 0"

lemma iter_ok_begin: "iter_ok fs dest (snd (pb_field_iter_begin fs dest))"
  by (cases "fs = []") (auto simp: iter_ok_def intro!: exI [of _ 0])

lemma iter_ok_find:
  assumes "wf_fields fs" "iter_ok fs dest it" "pb_field_iter_find t it = (r, it')"
  shows "(r = Ok True \<or> r = Ok False) \<and> iter_ok fs dest it'"
proof (cases "fs = []")
  case True
  with assms(2,3) show ?thesis
    by (auto simp: iter_ok_def pb_field_iter_find_empty simp del: iter_at.simps split: if_splits)
next
  case False
  then obtain i where i: "i < length fs" "it = iter_at fs dest i" using assms(2) by (auto simp: iter_ok_def)
  from pb_field_iter_find_total [OF assms(1) i(1), of t dest] assms(3) i
  show ?thesis by (auto simp: iter_ok_def)
qed

lemma find_extension_loop_none:
  assumes "wf_fields fs" "\<forall>f \<in> set fs. ltype f \<noteq> PB_LTYPE_EXTENSION" "first < length fs" "0 < k" "k \<le> length fs"
  shows "find_extension_loop (Suc k) first (iter_at fs d ((first + (length fs - k)) mod length fs)) =
    (Ok False, iter_at fs d first)"
  using assms(4,5)
proof (induction k)
  case 0
  then show ?case by simp
next
  case (Suc k)
  let ?n = "length fs"
  let ?i = "(first + (?n - Suc k)) mod ?n"
  have n: "0 < ?n" using assms(3) by linarith
  then have i: "?i < ?n" "Suc ?i mod ?n < ?n" by simp_all
  have nxt: "Suc ?i mod ?n = (first + (?n - k)) mod ?n"
    using Suc.prems by (simp add: mod_Suc_eq Suc_diff_Suc flip: add_Suc_right)
  have "ltype (it_field (iter_at fs d ?i)) \<noteq> PB_LTYPE_EXTENSION"
    using assms(2) iter_at_field [OF assms(1) i(1), of d] i(1) by simp
  then have step: "find_extension_loop (Suc (Suc k)) first (iter_at fs d ?i) =
      (if Suc ?i mod ?n = first then (Ok False, iter_at fs d (Suc ?i mod ?n))
       else find_extension_loop (Suc k) first (iter_at fs d (Suc ?i mod ?n)))"
    using i(2) assms(1)
    by (simp only: find_extension_loop.simps(2) [of "Suc k"] Let_def iter_at_cycle [OF assms(1) i(1)] iter_at_pos if_False)
  show ?case
  proof (cases "k = 0")
    case True
    then have "Suc ?i mod ?n = first" using nxt assms(3) by simp
    then show ?thesis unfolding step by simp
  next
    case False
    then have "Suc ?i mod ?n \<noteq> first"
      using Suc.prems assms(3) unfolding nxt by (intro mod_add_neq) simp_all
    with step nxt Suc.IH False Suc.prems show ?thesis by simp
  qed
qed

lemma find_extension_none:
  assumes "wf_fields fs" "\<forall>f \<in> set fs. ltype f \<noteq> PB_LTYPE_EXTENSION" "iter_ok fs dest it"
  shows "find_extension_field it = (Ok False, it)"
proof (cases "fs = []")
  case True
  with assms(3) show ?thesis
    by (simp add: iter_ok_def find_extension_field_def iter_next_empty field_at_def PB_LAST_FIELD_def
        PB_LTYPE_def ltype_defs Let_def)
next
  case False
  then obtain i where i: "i < length fs" "it = iter_at fs dest i" using assms(3) by (auto simp: iter_ok_def)
  then show ?thesis
    using find_extension_loop_none [OF assms(1,2) i(1), of "length fs" dest] False
    by (simp add: find_extension_field_def iter_at_pos [OF assms(1) i(1)])
qed

text \<open>Without an extension range an unknown field is skipped, whatever its tag.\<close>

lemma decode_unknown_skips:
  assumes "find_extension_field it = (Ok False, it)" "unat tg < 2 ^ 29"
  shows "decode_unknown env sub d tg wt it rs =
    seq (on_stream (pb_skip_field wt)) (\<lambda>_. ret (it, if rs \<le> tg then - 1 else rs))"
proof -
  have "unat (- 1 :: u32) = 2 ^ 32 - 1" by (simp add: unsigned_minus_1_eq_mask mask_eq_exp_minus_1)
  then have "\<not> (- 1 :: u32) \<le> tg" using assms(2) by (simp add: word_le_nat_alt)
  then show ?thesis using assms(1) by (intro ext) (simp add: decode_unknown_def Let_def)
qed

lemma decode_tag_bound:
  assumes "pb_decode_tag st = (Ok tr, st')" "tr_status tr"
  shows "unat (tr_tag tr) < 2 ^ 29"
proof -
  have "unat (drop_bit 3 t) < 2 ^ 29" for t :: u32
  proof -
    have "unat t < 2 ^ LENGTH(32)" by (rule unsigned_less)
    then show ?thesis by (simp only: unat_drop_bit_div) simp
  qed
  then show ?thesis using assms by (elim decode_tag_cases) auto
qed

lemma length_mark_seen [simp]: "length (mark_seen it seen) = length seen"
  by (simp add: mark_seen_def Let_def)

lemma check_required_defined:
  assumes "length seen = 2" "n < 64" "n \<noteq> 32"
  shows "check_required seen n \<noteq> Undef"
proof (cases "n = 0")
  case False
  have "n div 32 = 0 \<or> n div 32 = 1" using assms(2) by arith
  moreover have "n mod 32 \<noteq> 0" using False assms(2,3) by presburger
  ultimately show ?thesis
    using assms(1) by (auto simp: check_required_def split: outcome.splits if_splits)
qed (simp add: check_required_def)

lemma req_field_count_ok:
  assumes "wf_fields fs" "iter_ok fs dest it" "required_count fs < 64"
  shows "unat (req_field_count it) = required_count fs"
proof (cases "fs = []")
  case True
  with assms(2) show ?thesis
    by (simp add: iter_ok_def req_field_count_empty required_count_def del: iter_at.simps)
next
  case False
  then obtain i where "i < length fs" "it = iter_at fs dest i" using assms(2) by (auto simp: iter_ok_def)
  then show ?thesis using req_field_count_at [OF assms(1)] assms(3) by (simp add: unat_of_nat del: iter_at.simps)
qed

section \<open>Callback fields\<close>

text \<open>A callback that is called on a substream until the substream is used up: with progress on
  every successful call, the bytes of the substream bound the calls.\<close>

lemma callback_loop_safe:
  assumes cb: "dsafe n A cb"
    and prog: "\<And>st m u st' m'. safe_stream st \<Longrightarrow> cb (st, m) = (Ok u, (st', m')) \<Longrightarrow> is_bytes_left st \<noteq> 0 \<Longrightarrow>
      is_bytes_left st' < is_bytes_left st"
    and st: "safe_stream st" "unat (is_bytes_left st) < n" "unat (is_bytes_left st) < k"
    and e: "callback_loop cb k (st, m) = (r, (st', m'))"
  shows "r \<noteq> Undef \<and> r \<noteq> Fail \<and> advance st st' \<and> frame A m m'"
  using st e
proof (induction k arbitrary: st m)
  case 0
  then show ?case by simp
next
  case (Suc k)
  obtain q st1 m1 where q: "cb (st, m) = (q, (st1, m1))" by (metis prod.collapse)
  note d = dsafeD [OF cb Suc.prems(1,2) q]
  show ?case
  proof (cases q)
    case (Ok x)
    show ?thesis
    proof (cases "is_bytes_left st1 = 0")
      case True
      with Suc.prems(4) q Ok d show ?thesis by auto
    next
      case False
      then have nz: "is_bytes_left st \<noteq> 0" using d(5) by auto
      have "unat (is_bytes_left st1) < k"
        using prog [OF Suc.prems(1) q [unfolded Ok] nz] Suc.prems(3) by (simp add: word_less_nat_alt)
      moreover have "callback_loop cb k (st1, m1) = (r, (st', m'))" using Suc.prems(4) q Ok False by simp
      ultimately have "r \<noteq> Undef \<and> r \<noteq> Fail \<and> advance st1 st' \<and> frame A m1 m'" by (rule Suc.IH [OF d(4,6)])
      then show ?thesis using advance_trans [OF d(2)] frame_trans [OF d(3)] by blast
    qed
  qed (use Suc.prems(4) q d in auto)
qed

text \<open>The contract of the user's decoding callbacks: they behave on any stream, write only to \<open>W\<close>,
  and a successful call on a non-empty stream consumes something.\<close>

locale input_callbacks =
  fixes env :: "'s pb_dec_env" and W :: "addr set"
  assumes callback_safe: "dsafe (2 ^ 64) W (de_callback env fn f arg)"
    and callback_progress: "safe_stream st \<Longrightarrow> de_callback env fn f arg (st, m) = (Ok u, (st', m')) \<Longrightarrow>
      is_bytes_left st \<noteq> 0 \<Longrightarrow> is_bytes_left st' < is_bytes_left st"
begin

lemma callback_field_safe:
  assumes W: "W \<subseteq> A" and n: "n \<le> d" "n \<le> 2 ^ 64"
  shows "dsafe n A (decode_callback_field env d wt it)"
proof (rule dsafeI)
  fix st :: "'s pb_istream" and m r st' m'
  assume st: "safe_stream st" "unat (is_bytes_left st) < n"
    and e: "decode_callback_field env d wt it (st, m) = (r, (st', m'))"
  define fn where "fn = (load sizeof_ptr m (it_pData it) :: addr)"
  define cb where "cb = de_callback env fn (it_field it) (it_pData it + 8)"
  have cb: "dsafe n A cb" "dsafe (2 ^ 64) A cb"
    unfolding cb_def using callback_safe W n(2) by (auto intro: dsafe_mono)
  consider (skip) "fn = 0" | (str) "fn \<noteq> 0" "wt = PB_WT_STRING" | (raw) "fn \<noteq> 0" "wt \<noteq> PB_WT_STRING" by blast
  then show "r \<noteq> Undef \<and> advance st st' \<and> frame A m m'"
  proof cases
    case skip
    then have "on_stream (pb_skip_field wt) (st, m) = (r, (st', m'))"
      using e by (simp add: decode_callback_field_def fn_def)
    then show ?thesis using dsafeD(1-3) [OF dsafe_on_stream [OF safe_skip_field] st] by blast
  next
    case str
    let ?g = "\<lambda>substream (st, m). case callback_loop cb d (substream, m) of
        (Undef, (_, m')) \<Rightarrow> (Undef, (st, m'))
      | (Ok True, r) \<Rightarrow> close_after (Ok (), r) st
      | (_, (_, m')) \<Rightarrow> dec_error ''callback failed'' (st, m')"
    have "dsafe n A (seq (on_stream pb_make_string_substream) ?g)"
    proof (rule dsafe_on_substream, unfold prod.case)
      fix sub st1 st :: "'s pb_istream" and m r st' m'
      assume st: "safe_stream st" "unat (is_bytes_left st) < n"
        and mk: "pb_make_string_substream st = (Ok sub, st1)"
        and e: "(case callback_loop cb d (sub, m) of (Undef, (_, m')) \<Rightarrow> (Undef, (st1, m'))
          | (Ok True, r) \<Rightarrow> close_after (Ok (), r) st1
          | (_, (_, m')) \<Rightarrow> dec_error ''callback failed'' (st1, m')) = (r, (st', m'))"
      obtain q sub' m1 where q: "callback_loop cb d (sub, m) = (q, (sub', m1))" by (metis prod.collapse)
      have b: "unat (is_bytes_left sub) < n" "unat (is_bytes_left sub) < d"
        using make_substream(2) [OF st(1) mk] st(2) n by (simp_all add: word_less_nat_alt)
      have p: "q \<noteq> Undef \<and> q \<noteq> Fail \<and> advance sub sub' \<and> frame A m m1"
        by (rule callback_loop_safe [OF cb(1) _ make_substream(1) [OF st(1) mk] b q])
           (use callback_progress in \<open>unfold cb_def, blast\<close>)
      have mk': "advance st st1" by (rule make_substream_not_Undef(2) [OF st(1) mk])
      show "r \<noteq> Undef \<and> advance st st' \<and> frame A m m'"
      proof (cases "q = Ok True")
        case True
        then have "close_after (Ok (), (sub', m1)) st1 = (r, (st', m'))" using e q by simp
        from close_after_safe [OF st(1) mk _ _ this] p show ?thesis by simp
      next
        case False
        then have "dec_error ''callback failed'' (st1, m1) = (r, (st', m'))"
          using e q p by (auto split: outcome.splits bool.splits)
        with p mk' show ?thesis by (auto simp: dec_error_def on_stream_def is_return_error_def intro: advance_trans)
      qed
    qed
    moreover have "seq (on_stream pb_make_string_substream) ?g (st, m) = (r, (st', m'))"
      using e str by (simp add: decode_callback_field_def Let_def fn_def cb_def)
    ultimately show ?thesis using dsafeD(1-3) [OF _ st] by blast
  next
    case raw
    let ?g = "\<lambda>buffer (st :: 's pb_istream, m). case cb (pb_istream_from_buffer buffer (of_nat (length buffer)), m) of
        (r, (_, m')) \<Rightarrow> (r, (st, m'))"
    have "dsafe n A (?g buffer)" for buffer
    proof (rule dsafeI, unfold prod.case)
      fix st :: "'s pb_istream" and m r st' m'
      assume e: "(case cb (pb_istream_from_buffer buffer (of_nat (length buffer)), m) of (r, (_, m')) \<Rightarrow> (r, (st, m'))) = (r, (st', m'))"
      let ?b = "pb_istream_from_buffer buffer (of_nat (length buffer)) :: 's pb_istream"
      obtain q b' m1 where q: "cb (?b, m) = (q, (b', m1))" by (metis prod.collapse)
      have "unat (of_nat (length buffer) :: size_t) \<le> length buffer" by (simp add: unat_of_nat)
      then have "safe_stream ?b" by (simp add: safe_stream_def pb_istream_from_buffer_def)
      moreover have "unat (is_bytes_left ?b) < 2 ^ 64" using unsigned_less [of "is_bytes_left ?b"] by simp
      ultimately have "q \<noteq> Undef" "frame A m m1" using dsafeD(1,3) [OF cb(2) _ _ q] by blast+
      then show "r \<noteq> Undef \<and> advance st st' \<and> frame A m m'" using e q by auto
    qed
    then have "dsafe n A (seq (on_stream (read_raw_value wt 10)) ?g)"
      by (intro dsafe_seq dsafe_on_stream safe_read_raw)
    moreover have "seq (on_stream (read_raw_value wt 10)) ?g (st, m) = (r, (st', m'))"
      using e raw by (simp add: decode_callback_field_def Let_def fn_def cb_def)
    ultimately show ?thesis using dsafeD(1-3) [OF _ st] by blast
  qed
qed

lemma field_safe:
  assumes wf: "wf_field ok (de_fields_at env) (it_field it)"
    and room: "field_room (de_fields_at env) A P it"
    and sub: "\<And>fs a init. ok fs \<Longrightarrow> P fs a \<Longrightarrow> dsafe n A (sub init fs a)"
    and defs: "\<And>fs a. ok fs \<Longrightarrow> P fs a \<Longrightarrow> msafe A (pb_message_set_to_defaults (de_fields_at env) d fs a)"
    and W: "W \<subseteq> A" and n: "n \<le> d" "n \<le> 2 ^ 64"
  shows "dsafe n A (decode_field env sub d wt it)"
proof -
  have "dsafe n A (decode_static_field env sub d wt it)" if "atype (it_field it) = PB_ATYPE_STATIC"
    by (rule decode_static_safe [OF wf that room sub defs])
  then show ?thesis
    using callback_field_safe [OF W n] by (simp add: decode_field_def Let_def decode_pointer_field_def)
qed

lemma decode_loop_safe:
  assumes wf: "wf_fields fs" "\<forall>f \<in> set fs. ltype f \<noteq> PB_LTYPE_EXTENSION"
    and fld: "\<And>it wt. iter_ok fs dest it \<Longrightarrow> dsafe n A (decode_field env sub d wt it)"
    and st: "safe_stream st" "unat (is_bytes_left st) \<le> n" "unat (is_bytes_left st) < k" and it: "iter_ok fs dest it"
    and e: "decode_loop env sub d k it seen rs (st, m) = (r, (st', m'))"
  shows "r \<noteq> Undef \<and> advance st st' \<and> frame A m m' \<and>
    (\<forall>it' seen'. r = Ok (it', seen') \<longrightarrow> iter_ok fs dest it' \<and> length seen' = length seen)"
  using st it e
proof (induction k arbitrary: it seen rs st m)
  case 0
  then show ?case by simp
next
  case (Suc k)
  show ?case
  proof (cases "is_bytes_left st = 0")
    case True
    with Suc.prems show ?thesis by auto
  next
    case False
    obtain q st1 where q: "pb_decode_tag st = (q, st1)" by (cases "pb_decode_tag st")
    note t = safeD [OF safe_decode_tag Suc.prems(1) q]
    obtain tr where tr: "q = Ok tr" using q by (elim decode_tag_cases) (use t in auto)
    have "on_stream pb_decode_tag (st, m) = (Ok tr, (st1, m))" by (simp add: on_stream_def q tr)
    note e = Suc.prems(5) [unfolded decode_loop.simps fst_conv if_not_P [OF False] seq_Ok [where m = "on_stream pb_decode_tag" and s = "(st, m)", OF this]]
    show ?thesis
    proof (cases "tr_status tr")
      case False
      with e t show ?thesis using Suc.prems(4) by (auto split: if_splits)
    next
      case True
      have bl: "is_bytes_left st1 < is_bytes_left st" using decode_tag_consumes [OF Suc.prems(1) _ True] q tr by blast
      then have st1: "safe_stream st1" "unat (is_bytes_left st1) < n" "unat (is_bytes_left st1) < k" "advance st st1"
        using t Suc.prems(2,3) by (simp_all add: word_less_nat_alt)
      have next_round: "r \<noteq> Undef \<and> advance st st' \<and> frame A m m' \<and>
          (\<forall>it' seen'. r = Ok (it', seen') \<longrightarrow> iter_ok fs dest it' \<and> length seen' = length seen)"
        if g: "dsafe n A g" and it2: "\<And>x st2 m2. g (st1, m) = (Ok x, (st2, m2)) \<Longrightarrow> iter_ok fs dest (nit x)"
          and sl: "\<And>x. length (nseen x) = length seen"
          and eg: "seq g (\<lambda>x. decode_loop env sub d k (nit x) (nseen x) (nrs x)) (st1, m) = (r, (st', m'))"
        for g :: "('s, 'x) dec" and nit nseen nrs
        using eg
      proof (cases rule: seq_cases)
        case (1 x u)
        obtain st2 m2 where u: "u = (st2, m2)" by (cases u)
        note d2 = dsafeD [OF g st1(1,2) 1(1) [unfolded u]]
        have "unat (is_bytes_left st2) < k" using d2(5) st1(3) by (simp add: word_le_nat_alt)
        from Suc.IH [OF d2(4) _ this it2 [OF 1(1) [unfolded u]] 1(2) [unfolded u]] d2(6) sl [of x]
        have ih: "r \<noteq> Undef" "advance st2 st'" "frame A m2 m'"
          "\<forall>it' seen'. r = Ok (it', seen') \<longrightarrow> iter_ok fs dest it' \<and> length seen' = length seen" by auto
        have "advance st st'" by (rule advance_trans [OF st1(4) advance_trans [OF d2(2) ih(2)]])
        moreover have "frame A m m'" by (rule frame_trans [OF d2(3) ih(3)])
        ultimately show ?thesis using ih(1,4) by blast
      next
        case 2
        with dsafeD(2,3) [OF g st1(1,2)] advance_trans [OF st1(4)] show ?thesis by auto
      next
        case 3
        with dsafeD(1) [OF g st1(1,2)] show ?thesis by auto
      qed
      obtain fr it1 where fr: "pb_field_iter_find (tr_tag tr) it = (fr, it1)"
        by (cases "pb_field_iter_find (tr_tag tr) it")
      from iter_ok_find [OF wf(1) Suc.prems(4) fr] have it1: "iter_ok fs dest it1" and "fr = Ok True \<or> fr = Ok False" by auto
      then consider (found) "fr = Ok True" | (unknown) "fr = Ok False" by blast
      then show ?thesis
      proof cases
        case found
        then have "seq (decode_field env sub d (tr_wire_type tr) it1)
            (\<lambda>_. decode_loop env sub d k it1 (mark_seen it1 seen) rs) (st1, m) = (r, (st', m'))"
          using e True fr by simp
        then show ?thesis by (rule next_round [OF fld [OF it1], rotated 2]) (simp_all add: it1)
      next
        case unknown
        have eq: "decode_unknown env sub d (tr_tag tr) (tr_wire_type tr) it1 rs =
            seq (on_stream (pb_skip_field (tr_wire_type tr))) (\<lambda>_. ret (it1, if rs \<le> tr_tag tr then - 1 else rs))"
          using decode_tag_bound q tr True
          by (intro decode_unknown_skips find_extension_none [OF wf it1]) blast
        have "seq (decode_unknown env sub d (tr_tag tr) (tr_wire_type tr) it1 rs)
            (\<lambda>x. decode_loop env sub d k (fst x) seen (snd x)) (st1, m) = (r, (st', m'))"
          using e True fr unknown by (simp add: case_prod_beta')
        moreover have "dsafe n A (decode_unknown env sub d (tr_tag tr) (tr_wire_type tr) it1 rs)"
          unfolding eq by (intro dsafe_seq dsafe_on_stream safe_skip_field) simp
        ultimately show ?thesis
          by (intro next_round) (auto simp: eq seq_eq_Ok it1)
      qed
    qed
  qed
qed

lemma noinit_safe:
  assumes wf: "wf_fields fs" "\<forall>f \<in> set fs. ltype f \<noteq> PB_LTYPE_EXTENSION" "required_ok fs"
    and fld: "\<And>it wt. iter_ok fs dest it \<Longrightarrow> dsafe n A (decode_field env sub d wt it)"
  shows "dsafe (Suc n) A (noinit_body env sub d fs dest)"
proof (rule dsafeI)
  fix st :: "'s pb_istream" and m r st' m'
  assume st: "safe_stream st" "unat (is_bytes_left st) < Suc n" and e: "noinit_body env sub d fs dest (st, m) = (r, (st', m'))"
  let ?loop = "decode_loop env sub d (Suc (unat (is_bytes_left st))) (snd (pb_field_iter_begin fs dest)) [0, 0] 0"
  have "unat (is_bytes_left st) \<le> n" using st(2) by simp
  note loop = decode_loop_safe [OF wf(1,2) fld st(1) this _ iter_ok_begin]
  from e [unfolded noinit_body_def fst_conv] show "r \<noteq> Undef \<and> advance st st' \<and> frame A m m'"
  proof (cases rule: seq_cases)
    case (1 x u)
    obtain it seen st1 m1 where x: "x = (it, seen)" "u = (st1, m1)" by (cases x, cases u)
    have l: "advance st st1 \<and> frame A m m1 \<and> iter_ok fs dest it \<and> length seen = 2"
      using loop [OF _ _ 1(1) [unfolded x]] by simp
    have "unat (req_field_count it) = required_count fs"
      using req_field_count_ok [OF wf(1)] l wf(3) by (auto simp: required_ok_def)
    then have "check_required seen (unat (req_field_count it)) \<noteq> Undef"
      using l wf(3) by (intro check_required_defined) (simp_all add: required_ok_def)
    then show ?thesis
      using 1(2) x l
      by (cases "check_required seen (unat (req_field_count it))")
         (auto simp: dec_error_def on_stream_def is_return_error_def intro: advance_trans)
  next
    case 2
    from loop [OF _ _ 2(1)] 2(2) show ?thesis by simp
  next
    case 3
    from loop [OF _ _ 3(1)] show ?thesis by simp
  qed
qed

lemma last_field_wf: "wf_field ok fat PB_LAST_FIELD"
  by (simp add: wf_field_def PB_LAST_FIELD_def pb_type_defs)

lemma last_field_room: "field_room fat A P (iter_at [] dest 0)"
  by (simp add: field_room_def Let_def field_at_def PB_LAST_FIELD_def pb_type_defs size_room_def item_room_def)

text \<open>Decoding a message of a well-formed type, laid out in \<open>A\<close>, with recursion depth \<open>d\<close>, is safe on
  every stream with fewer than \<open>d\<close> bytes.\<close>

lemma message_safe:
  assumes "wf_tree (de_fields_at env) k fs" "laid_out (de_fields_at env) A k fs dest" "k \<le> d" "d \<le> 2 ^ 64" "W \<subseteq> A"
  shows "dsafe d A (decode_message env d init fs dest)"
  using assms
proof (induction d arbitrary: k fs dest init)
  case 0
  then show ?case by (simp add: dsafe_def)
next
  case (Suc d)
  let ?fat = "de_fields_at env"
  have base: "wf_fields fs" "\<forall>f \<in> set fs. ltype f \<noteq> PB_LTYPE_EXTENSION" "required_ok fs"
    using Suc.prems(1)
    by (cases k; auto simp: wf_fields_def required_ok_def required_count_def list_all_iff wf_field_def)+
  have fld: "dsafe d A (decode_field env (decode_message env d) d wt it)" if it: "iter_ok fs dest it" for it wt
  proof (cases k)
    case 0
    then have "fs = []" using Suc.prems(1) by simp
    then have "it = iter_at [] dest 0" using it by (auto simp: iter_ok_def)
    then show ?thesis
      using Suc.prems last_field_wf [of "\<lambda>_. False" ?fat] last_field_room [of ?fat A "\<lambda>_ _. False" dest]
      by (intro field_safe [where ok = "\<lambda>_. False" and P = "\<lambda>_ _. False"]) (simp_all add: field_at_def)
  next
    case (Suc k')
    let ?P = "laid_out ?fat A k'" and ?ok = "wf_tree ?fat k'"
    have w: "wf_field ?ok ?fat (it_field it)" and r: "field_room ?fat A ?P it"
    proof -
      show "wf_field ?ok ?fat (it_field it)"
        using it Suc.prems(1) Suc iter_at_field [OF base(1)] last_field_wf
        by (auto simp: iter_ok_def list_all_length field_at_def)
      show "field_room ?fat A ?P it"
        using it Suc.prems(2) Suc last_field_room by (auto simp: iter_ok_def simp del: iter_at.simps)
    qed
    have k': "k' \<le> d" "d \<le> 2 ^ 64" using Suc.prems(3,4) Suc by simp_all
    show ?thesis
      using Suc.IH [OF _ _ k' Suc.prems(5)] msafe_defaults [OF _ _ k'(1)] Suc.prems(5) k'(2)
      by (intro field_safe [OF w r]) (simp_all add: pb_message_set_to_defaults_def)
  qed
  have "msafe A (pb_message_set_to_defaults ?fat (Suc d) fs dest)"
    unfolding pb_message_set_to_defaults_def by (rule msafe_defaults [OF Suc.prems(1-3)])
  then show ?case
    by (auto intro!: dsafe_seq dsafe_mem_step noinit_safe base fld)
qed

end

end
