(* ===== verification/Nanopb_Properties.thy ===== *)
theory Nanopb_Properties
  imports Nanopb_Roundtrip Nanopb_Message_Safety
begin

text \<open>
  The properties of nanopb: the size pass against the writing pass, the round trips of the
  primitive encodings.
\<close>

section \<open>Callbacks that write strings\<close>

text \<open>The environment of a program whose callback fields each write one string, as the callbacks of
  the generated gRPC and Firebase messages do, and whose extensions use the default encoder: \<open>cbs\<close>
  gives the string for a callback function pointer and its argument.\<close>

definition string_callback :: "(addr \<Rightarrow> addr \<Rightarrow> byte list) \<Rightarrow> addr \<Rightarrow> pb_field \<Rightarrow> addr \<Rightarrow> 'o enc" where
  "string_callback cbs fn f arg =
    seq (pb_encode_tag_for_field f)
      (\<lambda>_. pb_encode_string (cbs fn arg) (of_nat (length (cbs fn arg))))"

definition string_env :: "(addr \<Rightarrow> pb_field list) \<Rightarrow> (addr \<Rightarrow> addr \<Rightarrow> byte list) \<Rightarrow> 'o pb_enc_env" where
  "string_env fat cbs =
    \<lparr>en_fields_at = fat, en_callback = string_callback cbs, en_extension = (\<lambda>_ _. undefd)\<rparr>"

interpretation strings: repeatable_callbacks "string_env fat cbs"
  by unfold_locales
     (auto simp: string_env_def string_callback_def intro!: uniform_seq uniform_string unat_of_nat_le)

lemma plain_buffer [simp]: "plain (pb_ostream_from_buffer cap)"
  by (simp add: plain_def pb_ostream_from_buffer_def)

lemma fits_buffer_stream [simp]: "fits n (pb_ostream_from_buffer cap) \<longleftrightarrow> n \<le> unat cap"
  by (simp add: fits_def pb_ostream_from_buffer_def)

lemma append_buffer_stream:
  "os_append bs (pb_ostream_from_buffer cap) =
    \<lparr>os_sink = Buf_sink bs, os_max_size = cap, os_bytes_written = of_nat (length bs), os_errmsg = None\<rparr>"
  by (simp add: os_append_def pb_ostream_from_buffer_def sink_append_def)

text \<open>What a partial write into a fresh buffer leaves there.\<close>

lemma partial_write_buffer:
  assumes "partial_write bs (pb_ostream_from_buffer cap) os'"
  shows "\<exists>p. os_sink os' = Buf_sink p \<and> length p \<le> unat cap \<and> p = take (length p) bs"
proof -
  from assms obtain p q where p: "bs = p @ q" "length p \<le> unat cap"
    and e: "os' = (os_append p (pb_ostream_from_buffer cap))\<lparr>os_errmsg := os_errmsg os'\<rparr>"
    by (auto simp: partial_write_def)
  have "os_sink os' = Buf_sink p" by (subst e) (simp add: append_buffer_stream)
  with p show ?thesis by auto
qed

text \<open>C1: \<^verbatim>\<open>pb_get_encoded_size\<close> is exact.  If the sizing pass of a message succeeds with size
  \<open>n\<close>, there is one byte string of that length such that encoding into a buffer of any capacity at least
  its length succeeds and stores exactly that string, and encoding into a smaller buffer fails
  after having stored at most the capacity, a prefix of the same string: no capacity makes the encoder
  overrun the buffer or emit something else.\<close>

theorem pb_encoded_size_exact:
  fixes fat :: "addr \<Rightarrow> pb_field list" and cbs :: "addr \<Rightarrow> addr \<Rightarrow> byte list"
  assumes "pb_get_encoded_size (string_env fat cbs :: 'o pb_enc_env) m d flds src = Ok n"
  shows "\<exists>bs. n = of_nat (length bs) \<and>
    (\<forall>cap. length bs \<le> unat cap \<longrightarrow>
      pb_encode (string_env fat cbs :: 'o pb_enc_env) m d flds src (pb_ostream_from_buffer cap) =
        (Ok (), \<lparr>os_sink = Buf_sink bs, os_max_size = cap, os_bytes_written = n, os_errmsg = None\<rparr>)) \<and>
    (\<forall>cap. unat cap < length bs \<and> length bs < 2 ^ 64 \<longrightarrow>
      (\<exists>os' p. pb_encode (string_env fat cbs :: 'o pb_enc_env) m d flds src (pb_ostream_from_buffer cap) =
          (Fail, os') \<and>
        os_sink os' = Buf_sink p \<and> length p \<le> unat cap \<and> p = take (length p) bs))"
proof -
  from strings.size_is_emitted [OF assms] obtain bs where n: "n = of_nat (length bs)"
    and e: "emits (pb_encode (string_env fat cbs :: 'o pb_enc_env) m d flds src) bs" by blast
  have "\<exists>os' p. pb_encode (string_env fat cbs :: 'o pb_enc_env) m d flds src (pb_ostream_from_buffer cap) =
        (Fail, os') \<and> os_sink os' = Buf_sink p \<and> length p \<le> unat cap \<and> p = take (length p) bs"
    if "unat cap < length bs" "length bs < 2 ^ 64" for cap
  proof -
    have "unat (os_bytes_written (pb_ostream_from_buffer cap :: 'o pb_ostream)) = 0"
      by (simp add: pb_ostream_from_buffer_def)
    with emitsD_full [OF e plain_buffer, of cap] that partial_write_buffer [of bs cap]
    show ?thesis by fastforce
  qed
  then show ?thesis
    using n emitsD_fits [OF e plain_buffer] by (intro exI [of _ bs]) (simp add: append_buffer_stream)
qed

definition demo_field :: pb_field where
  "demo_field = \<lparr>pb_tag = 1, pb_type = 0x01, pb_data_offset = 0, pb_size_offset = 0,
    pb_data_size = 4, pb_array_size = 0, pb_ptr = 0\<rparr>"

text \<open>A message with one required \<^verbatim>\<open>uint32\<close> field of value 300, at address \<open>0x1000\<close>.\<close>

definition demo_mem :: mem
  where "demo_mem = (\<lambda>_. 0)(0x1000 := 0x2C, 0x1001 := 0x01)"

theorem pb_encoded_size_exact_witness:
  "pb_get_encoded_size (string_env (\<lambda>_. []) (\<lambda>_ _. []) :: unit pb_enc_env) demo_mem 1 [demo_field] 0x1000 = Ok 3 \<and>
   (\<exists>bs. 3 = (of_nat (length bs) :: size_t) \<and>
    (\<forall>cap. length bs \<le> unat cap \<longrightarrow>
      pb_encode (string_env (\<lambda>_. []) (\<lambda>_ _. []) :: unit pb_enc_env) demo_mem 1 [demo_field] 0x1000 (pb_ostream_from_buffer cap) =
        (Ok (), \<lparr>os_sink = Buf_sink bs, os_max_size = cap, os_bytes_written = 3, os_errmsg = None\<rparr>)))"
proof -
  have "pb_get_encoded_size (string_env (\<lambda>_. []) (\<lambda>_ _. []) :: unit pb_enc_env) demo_mem 1 [demo_field] 0x1000 = Ok 3"
    by code_simp
  with pb_encoded_size_exact [OF this] show ?thesis by blast
qed

section \<open>Decoding arbitrary input\<close>

text \<open>The environment of a program whose decoding callbacks copy a string or raw value of at most
  \<open>cap\<close> bytes to a buffer of their own (\<open>buf\<close> of the function pointer and its argument) and refuse
  longer ones.\<close>

definition copy_callback :: "nat \<Rightarrow> (addr \<Rightarrow> addr \<Rightarrow> addr) \<Rightarrow> addr \<Rightarrow> pb_field \<Rightarrow> addr \<Rightarrow> ('s, unit) dec" where
  "copy_callback cap buf fn f arg s =
    (if cap < unat (is_bytes_left (fst s)) then fails s
     else seq (on_stream (pb_read False (is_bytes_left (fst s))))
            (\<lambda>bs. on_mem (\<lambda>m. mem_write m (buf fn arg) bs)) s)"

definition copy_env :: "(addr \<Rightarrow> pb_field list) \<Rightarrow> nat \<Rightarrow> (addr \<Rightarrow> addr \<Rightarrow> addr) \<Rightarrow> 's pb_dec_env" where
  "copy_env fat cap buf =
    \<lparr>de_fields_at = fat, de_callback = copy_callback cap buf, de_extension = (\<lambda>_ _ _ _. undefd)\<rparr>"

definition copy_buffers :: "nat \<Rightarrow> (addr \<Rightarrow> addr \<Rightarrow> addr) \<Rightarrow> addr set"
  where "copy_buffers cap buf = (\<Union>fn arg. range_of (buf fn arg) cap)"

lemma copy_callback_safe: "dsafe n (copy_buffers cap buf) (copy_callback cap buf fn f arg)"
proof (rule dsafeI)
  fix st :: "'a pb_istream" and m r st' m'
  let ?W = "copy_buffers cap buf"
  assume st: "safe_stream st" "unat (is_bytes_left st) < n" and e: "copy_callback cap buf fn f arg (st, m) = (r, (st', m'))"
  have "dsafe n ?W (seq (on_stream (pb_read False k)) (\<lambda>bs. on_mem (\<lambda>m. mem_write m (buf fn arg) bs)) :: ('a, unit) dec)"
    if "unat k \<le> cap" for k
  proof (intro dsafe_read_then safe_read dsafe_on_mem frame_write)
    fix st0 st1 :: "'a pb_istream" and bs assume "pb_read False k st0 = (Ok bs, st1)"
    then have "length bs \<le> cap" using that by (simp add: read_length)
    then show "range_of (buf fn arg) (length bs) \<subseteq> ?W"
      using range_of_mono by (fastforce simp: copy_buffers_def)
  qed
  from dsafeD(1-3) [OF this st] e show "r \<noteq> Undef \<and> advance st st' \<and> frame ?W m m'"
    by (auto simp: copy_callback_def not_less split: if_splits)
qed

lemma copy_callback_progress:
  assumes "safe_stream st" "copy_callback cap buf fn f arg (st, m) = (Ok u, (st', m'))" "is_bytes_left st \<noteq> 0"
  shows "is_bytes_left st' < is_bytes_left st"
proof -
  from assms(2) obtain bs where r: "pb_read False (is_bytes_left st) st = (Ok bs, st')"
    by (auto simp: copy_callback_def seq_eq_Ok on_stream_def on_mem_def split: if_splits prod.splits)
  show ?thesis by (rule consumingD [OF consuming_read [OF assms(3)] assms(1) r])
qed

interpretation copying: input_callbacks "copy_env fat cap buf" "copy_buffers cap buf"
  by unfold_locales (simp_all add: copy_env_def copy_callback_safe copy_callback_progress)

text \<open>C2: memory safety of \<^verbatim>\<open>pb_decode\<close> on hostile input.  Take any message type without
  extension range whose static fields nest at most \<open>k\<close> deep and whose structure (with the buffers
  of its callbacks) lies in the address set \<open>A\<close>.  Decoding any byte string whatsoever ends, with
  success or with a reported failure; it never reads past the end of the input nor does anything
  else undefined, and it writes no byte outside \<open>A\<close>.  A recursion depth above the input length
  suffices, because every level of nesting costs a byte of input.\<close>

theorem pb_decode_memory_safe:
  fixes fat :: "addr \<Rightarrow> pb_field list" and m :: mem and bs :: "byte list"
  assumes "wf_tree fat k flds" "laid_out fat A k flds dest" "copy_buffers cap buf \<subseteq> A"
    and "k \<le> d" "length bs < d" "d \<le> 2 ^ 64"
  shows "\<exists>r st' m'.
    pb_decode (copy_env fat cap buf :: unit pb_dec_env) d flds dest (pb_istream_from_buffer bs (of_nat (length bs)), m) =
      (r, (st', m')) \<and>
    (r = Ok () \<or> r = Fail) \<and> (\<exists>i. is_source st' = Buf_source (drop i bs)) \<and> (\<forall>a. a \<notin> A \<longrightarrow> m' a = m a)"
proof -
  let ?st = "pb_istream_from_buffer bs (of_nat (length bs)) :: unit pb_istream"
  have "de_fields_at (copy_env fat cap buf :: unit pb_dec_env) = fat" by (simp add: copy_env_def)
  then have d: "dsafe d A (pb_decode (copy_env fat cap buf :: unit pb_dec_env) d flds dest)"
    unfolding pb_decode_def using assms by (intro copying.message_safe) simp_all
  have len: "unat (of_nat (length bs) :: size_t) = length bs" using assms(5,6) by (simp add: unat_of_nat)
  have st: "safe_stream ?st" "unat (is_bytes_left ?st) < d"
    using len assms(5) by (simp_all add: safe_stream_def pb_istream_from_buffer_def)
  obtain r st' m' where e: "pb_decode (copy_env fat cap buf :: unit pb_dec_env) d flds dest (?st, m) = (r, (st', m'))"
    by (metis prod.collapse)
  note s = dsafeD(1-3) [OF d st e]
  have "\<exists>i. is_source st' = Buf_source (drop i bs)"
    using s(2) by (auto simp: advance_def pb_istream_from_buffer_def)
  moreover have "r = Ok () \<or> r = Fail" using s(1) by (cases r) simp_all
  ultimately show ?thesis using e s(3) by (auto simp: frame_def)
qed

text \<open>A message with an optional string of at most six characters, a repeated \<^verbatim>\<open>uint32\<close> of at
  most three entries and a required submessage, in a structure of 28 bytes; the input is a string
  that is too long.\<close>

definition demo_table :: "pb_field list" where
  "demo_table =
    [\<lparr>pb_tag = 1, pb_type = 0x16, pb_data_offset = 1, pb_size_offset = 0xFFFFFFFF, pb_data_size = 7, pb_array_size = 0, pb_ptr = 0\<rparr>,
     \<lparr>pb_tag = 2, pb_type = 0x21, pb_data_offset = 4, pb_size_offset = 0xFFFFFFFC, pb_data_size = 4, pb_array_size = 3, pb_ptr = 0\<rparr>,
     \<lparr>pb_tag = 3, pb_type = 0x07, pb_data_offset = 0, pb_size_offset = 0, pb_data_size = 4, pb_array_size = 0, pb_ptr = 1\<rparr>]"

definition demo_fields_at :: "addr \<Rightarrow> pb_field list"
  where "demo_fields_at a = (if a = 1 then [demo_field] else [])"

theorem pb_decode_memory_safe_witness:
  "\<exists>r st' m'.
    pb_decode (copy_env demo_fields_at 0 (\<lambda>_ _. 0) :: unit pb_dec_env) 12 demo_table 0x1000
      (pb_istream_from_buffer [0x0A, 0x07, 0x41, 0x41, 0x41, 0x41, 0x41, 0x41, 0x41] 9, \<lambda>_. 0) = (r, (st', m')) \<and>
    (r = Ok () \<or> r = Fail) \<and>
    (\<exists>i. is_source st' = Buf_source (drop i [0x0A, 0x07, 0x41, 0x41, 0x41, 0x41, 0x41, 0x41, 0x41])) \<and>
    (\<forall>a. a \<notin> range_of 0x1000 28 \<longrightarrow> m' a = 0)"
proof -
  have w: "wf_tree demo_fields_at 2 demo_table" by code_simp
  have l: "laid_out demo_fields_at (range_of 0x1000 28) 2 demo_table 0x1000"
    by (rule fits_block_laid_out) code_simp
  have c: "copy_buffers 0 (\<lambda>_ _. 0) \<subseteq> range_of 0x1000 28" by (simp add: copy_buffers_def)
  show ?thesis
    using pb_decode_memory_safe [OF w l c, of 12 "[0x0A, 0x07, 0x41, 0x41, 0x41, 0x41, 0x41, 0x41, 0x41]" "\<lambda>_. 0"]
    by simp
qed

section \<open>Round trips of the primitive encodings\<close>

text \<open>C3: every 64-bit value is encoded as one to ten bytes which \<^verbatim>\<open>pb_decode_varint\<close>, in front
  of any further input, reads back as the same value, consuming exactly those bytes.\<close>

theorem varint_roundtrip:
  "\<exists>bs. 1 \<le> length bs \<and> length bs \<le> 10 \<and> emits (pb_encode_varint v) bs \<and> parses pb_decode_varint bs v"
  using varint_bytes_length [of v]
  by (intro exI [of _ "varint_bytes v"]) (simp add: emits_varint parses_varint Suc_le_eq)

text \<open>C4: the zigzag encoding of a signed 64-bit value is undone by \<^verbatim>\<open>pb_decode_svarint\<close>, also
  for the most negative value.\<close>

theorem svarint_roundtrip:
  "\<exists>bs. emits (pb_encode_svarint v) bs \<and> parses pb_decode_svarint bs v"
  by (rule exI, rule conjI [OF _ parses_svarint])
     (cases "sint v < 0"; simp add: pb_encode_svarint_def emits_varint)

text \<open>C5: a field tag written by \<^verbatim>\<open>pb_encode_tag\<close> is read back by \<^verbatim>\<open>pb_decode_tag\<close> with the
  same field number and wire type, for every field number protocol buffers allow.\<close>

theorem tag_roundtrip:
  assumes "n \<noteq> 0" "unat n < 2 ^ 29" "unat wt < 8"
  shows "\<exists>bs. emits (pb_encode_tag wt n) bs \<and>
    parses pb_decode_tag bs \<lparr>tr_status = True, tr_eof = False, tr_wire_type = wt, tr_tag = n\<rparr>"
  using emits_tag parses_tag [OF assms(2,3,1)] by blast

theorem tag_roundtrip_witness:
  "\<exists>bs. emits (pb_encode_tag PB_WT_STRING 536870911) bs \<and>
    parses pb_decode_tag bs \<lparr>tr_status = True, tr_eof = False, tr_wire_type = PB_WT_STRING, tr_tag = 536870911\<rparr>"
  by (rule tag_roundtrip) (simp_all add: wt_defs)

end
