(* ===== verification/Boring_Mem.thy ===== *)
theory Boring_Mem
  imports Bytes_Prelude
begin

text \<open>
  BoringSSL's memory functions (\<^verbatim>\<open>crypto/mem.c\<close>) and the small string and buffer helpers on top
  of them (\<^verbatim>\<open>crypto/buf/buf.c\<close>).  The C library's \<^verbatim>\<open>malloc\<close> is the parameter \<open>malloc\<close>:
  \<open>None\<close> is the null pointer, \<open>Some raw\<close> a fresh block with whatever bytes were there.  What the code
  relies on is \<open>malloc_ok\<close>, that a block has the requested size.  A block handed out by
  \<^verbatim>\<open>OPENSSL_malloc\<close> is the list of its bytes behind the eight-byte size prefix; writing that
  prefix into a smaller block is \<open>Undef\<close>.
\<close>

type_synonym c_malloc = "size_t \<Rightarrow> byte list option"

definition malloc_ok :: "c_malloc \<Rightarrow> bool"
  where "malloc_ok malloc \<longleftrightarrow> (\<forall>n raw. malloc n = Some raw \<longrightarrow> length raw = unat n)"

text \<open>The allocator of the examples: it never fails and returns zeroed blocks.\<close>

definition calloc :: c_malloc
  where "calloc n = Some (replicate (unat n) 0)"

lemma calloc_ok: "malloc_ok calloc" "\<forall>k. calloc k \<noteq> None"
  by (simp_all add: malloc_ok_def calloc_def)

section \<open>Allocation\<close>

definition OPENSSL_MALLOC_PREFIX :: size_t where "OPENSSL_MALLOC_PREFIX = 8"

definition OPENSSL_malloc :: "c_malloc \<Rightarrow> size_t \<Rightarrow> byte list option outcome" where
  "OPENSSL_malloc malloc sz =
    (case malloc (sz + OPENSSL_MALLOC_PREFIX) of
       None \<Rightarrow> Ok None
     | Some raw \<Rightarrow>
         if length raw < unat OPENSSL_MALLOC_PREFIX then Undef
         else Ok (Some (drop (unat OPENSSL_MALLOC_PREFIX) raw)))"

text \<open>The old size comes from the prefix of the old block; \<^verbatim>\<open>memcpy\<close> may not overrun the new
  one.\<close>

definition OPENSSL_realloc :: "c_malloc \<Rightarrow> byte list option \<Rightarrow> size_t \<Rightarrow> byte list option outcome" where
  "OPENSSL_realloc malloc orig new_size =
    (case orig of
       None \<Rightarrow> OPENSSL_malloc malloc new_size
     | Some old \<Rightarrow>
         (case OPENSSL_malloc malloc new_size of
            Ok (Some new) \<Rightarrow>
              let to_copy = (if length old < unat new_size then length old else unat new_size)
              in if length new < to_copy then Undef
                 else Ok (Some (take to_copy old @ drop to_copy new))
          | r \<Rightarrow> r))"

definition OPENSSL_cleanse :: "byte list \<Rightarrow> byte list"
  where "OPENSSL_cleanse p = replicate (length p) 0"

text \<open>\<^verbatim>\<open>CRYPTO_memcmp\<close> accumulates the differences of all bytes.\<close>

definition CRYPTO_memcmp :: "byte list \<Rightarrow> byte list \<Rightarrow> byte"
  where "CRYPTO_memcmp a b = foldl (\<lambda>x (p, q). x OR (p XOR q)) 0 (zip a b)"

definition OPENSSL_hash32 :: "byte list \<Rightarrow> u32"
  where "OPENSSL_hash32 p = foldl (\<lambda>h b. (h XOR ucast b) * 16777619) 2166136261 p"

text \<open>Reading a C string of at most \<open>len\<close> bytes: \<open>Undef\<close> when neither a zero byte nor the limit comes
  before the end of the object.\<close>

fun OPENSSL_strnlen :: "byte list \<Rightarrow> nat \<Rightarrow> nat outcome" where
  "OPENSSL_strnlen s 0 = Ok 0"
| "OPENSSL_strnlen [] (Suc n) = Undef"
| "OPENSSL_strnlen (c # s) (Suc n) =
    (if c = 0 then Ok 0
     else case OPENSSL_strnlen s n of Ok i \<Rightarrow> Ok (Suc i) | Fail \<Rightarrow> Fail | Undef \<Rightarrow> Undef)"

section \<open>Buffers\<close>

text \<open>\<^verbatim>\<open>BUF_MEM\<close>: the block (none: a null pointer), the used length and the capacity.\<close>

record buf_mem =
  bm_data :: "byte list option"
  bm_length :: size_t
  bm_max :: size_t

definition sizeof_BUF_MEM :: size_t where "sizeof_BUF_MEM = 24"

definition BUF_MEM_new :: "c_malloc \<Rightarrow> buf_mem option outcome" where
  "BUF_MEM_new malloc =
    (case OPENSSL_malloc malloc sizeof_BUF_MEM of
       Ok (Some _) \<Rightarrow> Ok (Some \<lparr>bm_data = None, bm_length = 0, bm_max = 0\<rparr>)
     | Ok None \<Rightarrow> Ok None | Fail \<Rightarrow> Fail | Undef \<Rightarrow> Undef)"

definition BUF_MEM_reserve :: "c_malloc \<Rightarrow> size_t \<Rightarrow> buf_mem \<Rightarrow> unit outcome \<times> buf_mem" where
  "BUF_MEM_reserve malloc cap b =
    (if cap \<le> bm_max b then (Ok (), b)
     else if cap + 3 < cap then (Fail, b)
     else
       let n = (cap + 3) div 3; alloc_size = n * 4 in
       if alloc_size div 4 \<noteq> n then (Fail, b)
       else (case OPENSSL_realloc malloc (bm_data b) alloc_size of
               Ok (Some new_buf) \<Rightarrow> (Ok (), b\<lparr>bm_data := Some new_buf, bm_max := alloc_size\<rparr>)
             | Undef \<Rightarrow> (Undef, b)
             | _ \<Rightarrow> (Fail, b)))"

text \<open>Overwriting \<open>bs\<close> at position \<open>i\<close> of a block.\<close>

definition put_bytes :: "nat \<Rightarrow> byte list \<Rightarrow> byte list \<Rightarrow> byte list option" where
  "put_bytes i bs blk =
    (if i + length bs \<le> length blk then Some (take i blk @ bs @ drop (i + length bs) blk) else None)"

definition BUF_MEM_grow :: "c_malloc \<Rightarrow> size_t \<Rightarrow> buf_mem \<Rightarrow> size_t outcome \<times> buf_mem" where
  "BUF_MEM_grow malloc len b =
    seq (BUF_MEM_reserve malloc len)
      (\<lambda>_ b. if bm_length b < len
              then (case bm_data b of
                      None \<Rightarrow> (Undef, b)
                    | Some blk \<Rightarrow>
                        (case put_bytes (unat (bm_length b)) (replicate (unat (len - bm_length b)) 0) blk of
                           None \<Rightarrow> (Undef, b)
                         | Some blk' \<Rightarrow> (Ok len, b\<lparr>bm_data := Some blk', bm_length := len\<rparr>)))
              else (Ok len, b\<lparr>bm_length := len\<rparr>)) b"

definition BUF_MEM_grow_clean :: "c_malloc \<Rightarrow> size_t \<Rightarrow> buf_mem \<Rightarrow> size_t outcome \<times> buf_mem"
  where "BUF_MEM_grow_clean = BUF_MEM_grow"

fun BUF_strnlen :: "byte list \<Rightarrow> nat \<Rightarrow> nat outcome" where
  "BUF_strnlen str 0 = Ok 0"
| "BUF_strnlen [] (Suc n) = Undef"
| "BUF_strnlen (c # str) (Suc n) =
    (if c = 0 then Ok 0
     else case BUF_strnlen str n of Ok i \<Rightarrow> Ok (Suc i) | Fail \<Rightarrow> Fail | Undef \<Rightarrow> Undef)"

definition BUF_strndup :: "c_malloc \<Rightarrow> byte list option \<Rightarrow> size_t \<Rightarrow> byte list option outcome" where
  "BUF_strndup malloc str sz =
    (case str of
       None \<Rightarrow> Ok None
     | Some s \<Rightarrow>
         (case BUF_strnlen s (unat sz) of
            Ok n \<Rightarrow>
              let n' = of_nat n :: size_t; alloc_size = n' + 1 in
              if alloc_size < n' then Ok None
              else (case OPENSSL_malloc malloc alloc_size of
                      Ok (Some r) \<Rightarrow>
                        (case put_bytes 0 (take n s @ [0]) r of None \<Rightarrow> Undef | Some r' \<Rightarrow> Ok (Some r'))
                    | r \<Rightarrow> r)
          | Fail \<Rightarrow> Fail | Undef \<Rightarrow> Undef))"

text \<open>\<^verbatim>\<open>strlen\<close> of the C library: the bytes before the first zero.\<close>

fun c_strlen :: "byte list \<Rightarrow> nat outcome" where
  "c_strlen [] = Undef"
| "c_strlen (c # s) =
    (if c = 0 then Ok 0 else case c_strlen s of Ok i \<Rightarrow> Ok (Suc i) | Fail \<Rightarrow> Fail | Undef \<Rightarrow> Undef)"

definition BUF_strdup :: "c_malloc \<Rightarrow> byte list option \<Rightarrow> byte list option outcome" where
  "BUF_strdup malloc str =
    (case str of
       None \<Rightarrow> Ok None
     | Some s \<Rightarrow> (case c_strlen s of Ok n \<Rightarrow> BUF_strndup malloc str (of_nat n) | Fail \<Rightarrow> Fail | Undef \<Rightarrow> Undef))"

text \<open>The copy loop of \<^verbatim>\<open>BUF_strlcpy\<close>: the bytes written before the terminator, and the rest of
  the source.\<close>

fun strlcpy_loop :: "byte list \<Rightarrow> nat \<Rightarrow> (byte list \<times> byte list) option" where
  "strlcpy_loop [] dst_size = (if 1 < dst_size then None else Some ([], []))"
| "strlcpy_loop (c # src) dst_size =
    (if 1 < dst_size \<and> c \<noteq> 0
     then map_option (\<lambda>(w, rest). (c # w, rest)) (strlcpy_loop src (dst_size - 1))
     else Some ([], c # src))"

definition BUF_strlcpy :: "byte list \<Rightarrow> byte list \<Rightarrow> nat \<Rightarrow> (nat \<times> byte list) outcome" where
  "BUF_strlcpy dst src dst_size =
    (case strlcpy_loop src dst_size of
       None \<Rightarrow> Undef
     | Some (w, rest) \<Rightarrow>
         (case c_strlen rest of
            Ok n \<Rightarrow>
              (case put_bytes 0 (if dst_size = 0 then [] else w @ [0]) dst of
                 None \<Rightarrow> Undef | Some dst' \<Rightarrow> Ok (length w + n, dst'))
          | Fail \<Rightarrow> Fail | Undef \<Rightarrow> Undef))"

text \<open>\<^verbatim>\<open>BUF_strlcat\<close>: find the end of the string in \<open>dst\<close>, then copy behind it.\<close>

fun strlcat_loop :: "byte list \<Rightarrow> nat \<Rightarrow> (nat \<times> byte list) option" where
  "strlcat_loop [] dst_size = (if 0 < dst_size then None else Some (0, []))"
| "strlcat_loop (c # dst) dst_size =
    (if 0 < dst_size \<and> c \<noteq> 0 then map_option (\<lambda>(l, rest). (Suc l, rest)) (strlcat_loop dst (dst_size - 1))
     else Some (0, c # dst))"

definition BUF_strlcat :: "byte list \<Rightarrow> byte list \<Rightarrow> nat \<Rightarrow> (nat \<times> byte list) outcome" where
  "BUF_strlcat dst src dst_size =
    (case strlcat_loop dst dst_size of
       None \<Rightarrow> Undef
     | Some (l, rest) \<Rightarrow>
         (case BUF_strlcpy rest src (dst_size - l) of
            Ok (n, rest') \<Rightarrow> Ok (l + n, take l dst @ rest')
          | Fail \<Rightarrow> Fail | Undef \<Rightarrow> Undef))"

definition BUF_memdup :: "c_malloc \<Rightarrow> byte list \<Rightarrow> byte list option outcome" where
  "BUF_memdup malloc data =
    (if data = [] then Ok None
     else case OPENSSL_malloc malloc (of_nat (length data)) of
         Ok (Some r) \<Rightarrow> (case put_bytes 0 data r of None \<Rightarrow> Undef | Some r' \<Rightarrow> Ok (Some r'))
       | r \<Rightarrow> r)"

section \<open>Strings of \<^verbatim>\<open>mem.c\<close>\<close>

definition OPENSSL_strdup :: "c_malloc \<Rightarrow> byte list \<Rightarrow> byte list option outcome" where
  "OPENSSL_strdup malloc s =
    (case c_strlen s of
       Ok n \<Rightarrow>
         let len = n + 1 in
         (case OPENSSL_malloc malloc (of_nat len) of
            Ok (Some r) \<Rightarrow> (case put_bytes 0 (take len s) r of None \<Rightarrow> Undef | Some r' \<Rightarrow> Ok (Some r'))
          | r \<Rightarrow> r)
     | Fail \<Rightarrow> Fail | Undef \<Rightarrow> Undef)"

definition OPENSSL_tolower :: "int \<Rightarrow> int"
  where "OPENSSL_tolower c = (if 65 \<le> c \<and> c \<le> 90 then c + 32 else c)"

text \<open>A \<^verbatim>\<open>char\<close> is signed on the target; running off either string is \<open>Undef\<close>.\<close>

fun OPENSSL_strcasecmp :: "byte list \<Rightarrow> byte list \<Rightarrow> int outcome" where
  "OPENSSL_strcasecmp (a # as) (b # bs) =
    (let aa = OPENSSL_tolower (sint a); bb = OPENSSL_tolower (sint b) in
     if aa < bb then Ok (-1) else if bb < aa then Ok 1 else if aa = 0 then Ok 0
     else OPENSSL_strcasecmp as bs)"
| "OPENSSL_strcasecmp _ _ = Undef"

fun OPENSSL_strncasecmp :: "byte list \<Rightarrow> byte list \<Rightarrow> nat \<Rightarrow> int outcome" where
  "OPENSSL_strncasecmp _ _ 0 = Ok 0"
| "OPENSSL_strncasecmp (a # as) (b # bs) (Suc n) =
    (let aa = OPENSSL_tolower (sint a); bb = OPENSSL_tolower (sint b) in
     if aa < bb then Ok (-1) else if bb < aa then Ok 1 else if aa = 0 then Ok 0
     else OPENSSL_strncasecmp as bs n)"
| "OPENSSL_strncasecmp _ _ (Suc n) = Undef"

end
