(* ===== verification/Boring_CBS.thy ===== *)
theory Boring_CBS
  imports Boring_Mem
begin

text \<open>
  BoringSSL's byte-string parser (\<^verbatim>\<open>crypto/bytestring/cbs.c\<close>).  A \<^verbatim>\<open>CBS\<close> is a pointer
  and a length; the model is the list of the bytes it covers.  A function that advances a
  \<^verbatim>\<open>CBS\<close> takes the list and returns its outcome with the list that is left; returning
  zero is \<open>Fail\<close>, and \<open>Undef\<close> is a read outside the covered bytes or a failed
  \<^verbatim>\<open>assert\<close>.  Output parameters are results; what a failing call leaves in them is not
  modelled.  Where the C computes a length it is a \<^verbatim>\<open>size_t\<close> here.
\<close>

section \<open>Reading bytes\<close>

type_synonym cbs = "byte list"

type_synonym 'a cbsm = "cbs \<Rightarrow> 'a outcome \<times> cbs"

definition CBS_init :: "byte list \<Rightarrow> nat \<Rightarrow> cbs"
  where "CBS_init data len = take len data"

definition cbs_get :: "nat \<Rightarrow> byte list cbsm" where
  "cbs_get n c = (if length c < n then (Fail, c) else (Ok (take n c), drop n c))"

definition CBS_skip :: "nat \<Rightarrow> unit cbsm"
  where "CBS_skip n = seq (cbs_get n) (\<lambda>_. ret ())"

definition CBS_len :: "cbs \<Rightarrow> nat"
  where "CBS_len c = length c"

text \<open>\<open>byte_at c i\<close> is \<^verbatim>\<open>CBS_data(cbs)[i]\<close>.\<close>

definition byte_at :: "cbs \<Rightarrow> nat \<Rightarrow> byte outcome"
  where "byte_at c i = (if i < length c then Ok (c ! i) else Undef)"

definition CBS_stow :: "c_malloc \<Rightarrow> cbs \<Rightarrow> byte list option outcome" where
  "CBS_stow malloc c =
    (if c = [] then Ok None
     else case BUF_memdup malloc c of
         Ok (Some p) \<Rightarrow> Ok (Some p) | Ok None \<Rightarrow> Fail | Fail \<Rightarrow> Fail | Undef \<Rightarrow> Undef)"

definition CBS_strdup :: "c_malloc \<Rightarrow> cbs \<Rightarrow> byte list outcome" where
  "CBS_strdup malloc c =
    (case BUF_strndup malloc (Some c) (of_nat (length c)) of
       Ok (Some p) \<Rightarrow> Ok p | Ok None \<Rightarrow> Fail | Fail \<Rightarrow> Fail | Undef \<Rightarrow> Undef)"

definition CBS_contains_zero_byte :: "cbs \<Rightarrow> bool"
  where "CBS_contains_zero_byte c = list_ex (\<lambda>b. b = 0) c"

definition CBS_mem_equal :: "cbs \<Rightarrow> byte list \<Rightarrow> bool" where
  "CBS_mem_equal c data = (length data = length c \<and> CRYPTO_memcmp c data = 0)"

definition cbs_get_u :: "nat \<Rightarrow> u32 cbsm" where
  "cbs_get_u n = seq (cbs_get n) (\<lambda>data. ret (foldl (\<lambda>r b. push_bit 8 r OR ucast b) 0 data))"

definition CBS_get_u8 :: "byte cbsm"
  where "CBS_get_u8 = seq (cbs_get 1) (\<lambda>v. ret (hd v))"

definition CBS_get_u16 :: "u16 cbsm"
  where "CBS_get_u16 = seq (cbs_get_u 2) (\<lambda>v. ret (ucast v))"

definition CBS_get_u24 :: "u32 cbsm" where "CBS_get_u24 = cbs_get_u 3"

definition CBS_get_u32 :: "u32 cbsm" where "CBS_get_u32 = cbs_get_u 4"

definition CBS_get_last_u8 :: "byte cbsm" where
  "CBS_get_last_u8 c = (if c = [] then (Fail, c) else (Ok (last c), butlast c))"

definition CBS_get_bytes :: "nat \<Rightarrow> cbs cbsm"
  where "CBS_get_bytes n = seq (cbs_get n) (\<lambda>v. ret (CBS_init v n))"

definition CBS_copy_bytes :: "nat \<Rightarrow> byte list cbsm"
  where "CBS_copy_bytes n = cbs_get n"

definition cbs_get_length_prefixed :: "nat \<Rightarrow> cbs cbsm" where
  "cbs_get_length_prefixed len_len = seq (cbs_get_u len_len) (\<lambda>len. CBS_get_bytes (unat len))"

definition CBS_get_u8_length_prefixed :: "cbs cbsm"
  where "CBS_get_u8_length_prefixed = cbs_get_length_prefixed 1"

definition CBS_get_u16_length_prefixed :: "cbs cbsm"
  where "CBS_get_u16_length_prefixed = cbs_get_length_prefixed 2"

definition CBS_get_u24_length_prefixed :: "cbs cbsm"
  where "CBS_get_u24_length_prefixed = cbs_get_length_prefixed 3"

section \<open>ASN.1 elements\<close>

definition CBS_ASN1_CONSTRUCTED :: u32 where "CBS_ASN1_CONSTRUCTED = 0x20"
definition CBS_ASN1_BOOLEAN :: u32 where "CBS_ASN1_BOOLEAN = 1"
definition CBS_ASN1_INTEGER :: u32 where "CBS_ASN1_INTEGER = 2"
definition CBS_ASN1_OCTETSTRING :: u32 where "CBS_ASN1_OCTETSTRING = 4"

lemmas asn1_tags = CBS_ASN1_CONSTRUCTED_def CBS_ASN1_BOOLEAN_def CBS_ASN1_INTEGER_def
  CBS_ASN1_OCTETSTRING_def

text \<open>The length field: with the header after tag and first length byte, the total length of the
  element and the length of its header.  Every exit that fails leaves the caller's \<^verbatim>\<open>CBS\<close>
  alone, since only the copy \<^verbatim>\<open>header\<close> has been advanced.\<close>

definition asn1_element_length :: "bool \<Rightarrow> byte \<Rightarrow> byte \<Rightarrow> cbs \<Rightarrow> (size_t \<times> nat) option" where
  "asn1_element_length ber_ok tag length_byte header =
    (if length_byte AND 0x80 = 0 then Some (ucast length_byte + 2, 2)
     else
       let num_bytes = unat (length_byte AND 0x7F) in
       if ber_ok \<and> ucast tag AND CBS_ASN1_CONSTRUCTED \<noteq> 0 \<and> num_bytes = 0 then Some (2, 2)
       else if num_bytes = 0 \<or> 4 < num_bytes then None
       else case cbs_get_u num_bytes header of
           (Ok len32, _) \<Rightarrow>
             if len32 < 128 then None
             else if drop_bit ((num_bytes - 1) * 8) len32 = 0 then None
             else
               let len = ucast len32 :: size_t in
               if len + 2 + of_nat num_bytes < len then None
               else Some (len + 2 + of_nat num_bytes, 2 + num_bytes)
         | (_, _) \<Rightarrow> None)"

definition cbs_get_any_asn1_element :: "bool \<Rightarrow> (u32 \<times> nat \<times> cbs) cbsm" where
  "cbs_get_any_asn1_element ber_ok c =
    (case seq CBS_get_u8 (\<lambda>tag. seq CBS_get_u8 (\<lambda>length_byte. ret (tag, length_byte))) c of
       (Ok (tag, length_byte), header) \<Rightarrow>
         if tag AND 0x1F = 0x1F then (Fail, c)
         else
           (case asn1_element_length ber_ok tag length_byte header of
              None \<Rightarrow> (Fail, c)
            | Some (len, header_len) \<Rightarrow>
                seq (CBS_get_bytes (unat len)) (\<lambda>out. ret (ucast tag, header_len, out)) c)
     | (_, _) \<Rightarrow> (Fail, c))"

definition CBS_get_any_asn1_element :: "(u32 \<times> nat \<times> cbs) cbsm"
  where "CBS_get_any_asn1_element = cbs_get_any_asn1_element False"

definition CBS_get_any_ber_asn1_element :: "(u32 \<times> nat \<times> cbs) cbsm"
  where "CBS_get_any_ber_asn1_element = cbs_get_any_asn1_element True"

text \<open>Skipping the header of an element that was just cut out cannot fail: the
  \<^verbatim>\<open>assert(0)\<close> is \<open>Undef\<close>.\<close>

definition skip_header :: "nat \<Rightarrow> cbs \<Rightarrow> cbs cbsm" where
  "skip_header header_len out c =
    (case CBS_skip header_len out of (Ok _, out') \<Rightarrow> (Ok out', c) | (_, _) \<Rightarrow> (Undef, c))"

definition CBS_get_any_asn1 :: "(u32 \<times> cbs) cbsm" where
  "CBS_get_any_asn1 =
    seq CBS_get_any_asn1_element
      (\<lambda>(tag, header_len, out). seq (skip_header header_len out) (\<lambda>out. ret (tag, out)))"

text \<open>A wrong tag is noticed only after the element has been taken off.\<close>

definition cbs_get_asn1 :: "u32 \<Rightarrow> bool \<Rightarrow> cbs cbsm" where
  "cbs_get_asn1 tag_value skip =
    seq CBS_get_any_asn1_element
      (\<lambda>(tag, header_len, out).
         if tag \<noteq> tag_value then fails
         else if skip then skip_header header_len out else ret out)"

definition CBS_get_asn1 :: "u32 \<Rightarrow> cbs cbsm"
  where "CBS_get_asn1 tag_value = cbs_get_asn1 tag_value True"

definition CBS_get_asn1_element :: "u32 \<Rightarrow> cbs cbsm"
  where "CBS_get_asn1_element tag_value = cbs_get_asn1 tag_value False"

definition CBS_peek_asn1_tag :: "cbs \<Rightarrow> u32 \<Rightarrow> bool" where
  "CBS_peek_asn1_tag c tag_value =
    (if CBS_len c < 1 then False else ucast (hd c) = tag_value)"

fun uint64_loop :: "u64 \<Rightarrow> byte list \<Rightarrow> u64 option" where
  "uint64_loop out [] = Some out"
| "uint64_loop out (b # bs) =
    (if drop_bit 56 out \<noteq> 0 then None else uint64_loop (push_bit 8 out OR ucast b) bs)"

definition asn1_uint64_value :: "cbs \<Rightarrow> u64 option" where
  "asn1_uint64_value bytes =
    (if bytes = [] then None
     else if bytes ! 0 AND 0x80 \<noteq> 0 then None
     else if bytes ! 0 = 0 \<and> 1 < length bytes \<and> bytes ! 1 AND 0x80 = 0 then None
     else uint64_loop 0 bytes)"

definition CBS_get_asn1_uint64 :: "u64 cbsm" where
  "CBS_get_asn1_uint64 =
    seq (CBS_get_asn1 CBS_ASN1_INTEGER)
      (\<lambda>bytes. case asn1_uint64_value bytes of None \<Rightarrow> fails | Some v \<Rightarrow> ret v)"

definition CBS_get_optional_asn1 :: "u32 \<Rightarrow> cbs option cbsm" where
  "CBS_get_optional_asn1 tag c =
    (if CBS_peek_asn1_tag c tag then seq (CBS_get_asn1 tag) (\<lambda>out. ret (Some out)) c
     else (Ok None, c))"

text \<open>Parsing the whole of an inner string \<open>child\<close> with \<open>f\<close>: something left over is an error.\<close>

definition whole :: "'a cbsm \<Rightarrow> cbs \<Rightarrow> 'a outcome" where
  "whole f child =
    (case f child of (Ok x, rest) \<Rightarrow> if CBS_len rest \<noteq> 0 then Fail else Ok x
     | (Fail, _) \<Rightarrow> Fail | (Undef, _) \<Rightarrow> Undef)"

definition optional_inner :: "u32 \<Rightarrow> (cbs \<Rightarrow> 'a outcome) \<Rightarrow> 'a \<Rightarrow> 'a cbsm" where
  "optional_inner tag f dflt =
    seq (CBS_get_optional_asn1 tag)
      (\<lambda>child c. case child of None \<Rightarrow> (Ok dflt, c) | Some child \<Rightarrow> (f child, c))"

definition CBS_get_optional_asn1_octet_string :: "u32 \<Rightarrow> (bool \<times> cbs) cbsm" where
  "CBS_get_optional_asn1_octet_string tag =
    optional_inner tag
      (\<lambda>child. case whole (CBS_get_asn1 CBS_ASN1_OCTETSTRING) child of
                 Ok out \<Rightarrow> Ok (True, out) | Fail \<Rightarrow> Fail | Undef \<Rightarrow> Undef)
      (False, [])"

definition CBS_get_optional_asn1_uint64 :: "u32 \<Rightarrow> u64 \<Rightarrow> u64 cbsm" where
  "CBS_get_optional_asn1_uint64 tag default_value =
    optional_inner tag (whole CBS_get_asn1_uint64) default_value"

definition asn1_bool_value :: "cbs \<Rightarrow> int outcome" where
  "asn1_bool_value child =
    (case whole (CBS_get_asn1 CBS_ASN1_BOOLEAN) child of
       Ok child2 \<Rightarrow>
         if CBS_len child2 \<noteq> 1 then Fail
         else (case byte_at child2 0 of
                 Ok b \<Rightarrow> if b = 0 then Ok 0 else if b = 0xFF then Ok 1 else Fail
               | Fail \<Rightarrow> Fail | Undef \<Rightarrow> Undef)
     | Fail \<Rightarrow> Fail | Undef \<Rightarrow> Undef)"

definition CBS_get_optional_asn1_bool :: "u32 \<Rightarrow> int \<Rightarrow> int cbsm" where
  "CBS_get_optional_asn1_bool tag default_value = optional_inner tag asn1_bool_value default_value"

definition CBS_is_valid_asn1_bitstring :: "cbs \<Rightarrow> bool" where
  "CBS_is_valid_asn1_bitstring c =
    (case CBS_get_u8 c of
       (Ok num_unused_bits, rest) \<Rightarrow>
         if 7 < num_unused_bits then False
         else if num_unused_bits = 0 then True
         else (case CBS_get_last_u8 rest of
                 (Ok final, _) \<Rightarrow> ucast final AND (push_bit (unat num_unused_bits) 1 - 1 :: u32) = 0
               | (_, _) \<Rightarrow> False)
     | (_, _) \<Rightarrow> False)"

definition CBS_asn1_bitstring_has_bit :: "cbs \<Rightarrow> u32 \<Rightarrow> bool outcome" where
  "CBS_asn1_bitstring_has_bit c bitno =
    (if \<not> CBS_is_valid_asn1_bitstring c then Ok False
     else
       let byte_num = drop_bit 3 bitno + 1; bit_num = 7 - (bitno AND 7) in
       if \<not> unat byte_num < CBS_len c then Ok False
       else (case byte_at c (unat byte_num) of
               Ok b \<Rightarrow> Ok (ucast b AND (push_bit (unat bit_num) 1 :: u32) \<noteq> 0)
             | Fail \<Rightarrow> Fail | Undef \<Rightarrow> Undef))"

end
