(* ===== verification/Boring_CBB.thy ===== *)
theory Boring_CBB
  imports Boring_Mem Boring_CBS
begin

text \<open>
  BoringSSL's byte-string builder (\<^verbatim>\<open>crypto/bytestring/cbb.c\<close>).  All \<^verbatim>\<open>CBB\<close>s of one
  serialisation share the buffer \<^verbatim>\<open>base\<close>; each has at most one open child, so the open ones
  form a chain.  The state is the buffer and the list of open children, outermost first; a handle
  is a depth: \<open>0\<close> is the top-level \<^verbatim>\<open>CBB\<close>, \<open>k\<close> the child at position \<open>k - 1\<close>.  A handle deeper
  than the chain is one whose parent has been flushed: its \<^verbatim>\<open>base\<close> is null.  A child that is
  re-opened at the same depth is a new \<^verbatim>\<open>CBB\<close> with the same handle.

  Writing outside the buffer, dereferencing a null \<^verbatim>\<open>base\<close> and a failed
  \<^verbatim>\<open>assert\<close> are \<open>Undef\<close>.
\<close>

record cbb_buffer =
  bb_buf :: "byte list"
  bb_len :: size_t
  bb_cap :: size_t
  bb_can_resize :: bool
  bb_error :: bool

record cbb_child =
  ch_offset :: size_t
  ch_pending_len_len :: byte
  ch_pending_is_asn1 :: bool

record cbb =
  cb_base :: "cbb_buffer option"
  cb_children :: "cbb_child list"

section \<open>The buffer\<close>

definition sizeof_cbb_buffer :: size_t where "sizeof_cbb_buffer = 32"

definition cbb_err :: "cbb_buffer \<Rightarrow> 'a outcome \<times> cbb_buffer"
  where "cbb_err b = (Fail, b\<lparr>bb_error := True\<rparr>)"

definition cbb_buffer_reserve :: "c_malloc \<Rightarrow> size_t \<Rightarrow> cbb_buffer \<Rightarrow> unit outcome \<times> cbb_buffer" where
  "cbb_buffer_reserve malloc len b =
    (let newlen = bb_len b + len in
     if newlen < bb_len b then cbb_err b
     else if bb_cap b < newlen then
       (if \<not> bb_can_resize b then cbb_err b
        else
          let newcap0 = bb_cap b * 2;
              newcap = (if newcap0 < bb_cap b \<or> newcap0 < newlen then newlen else newcap0)
          in case OPENSSL_realloc malloc (Some (bb_buf b)) newcap of
               Ok (Some newbuf) \<Rightarrow> (Ok (), b\<lparr>bb_buf := newbuf, bb_cap := newcap\<rparr>)
             | Ok None \<Rightarrow> cbb_err b
             | Fail \<Rightarrow> cbb_err b
             | Undef \<Rightarrow> (Undef, b))
     else (Ok (), b))"

text \<open>The result is the position of the new space.\<close>

definition cbb_buffer_add :: "c_malloc \<Rightarrow> size_t \<Rightarrow> cbb_buffer \<Rightarrow> nat outcome \<times> cbb_buffer" where
  "cbb_buffer_add malloc len =
    seq (cbb_buffer_reserve malloc len)
      (\<lambda>_ b. (Ok (unat (bb_len b)), b\<lparr>bb_len := bb_len b + len\<rparr>))"

definition bb_put :: "nat \<Rightarrow> byte list \<Rightarrow> cbb_buffer \<Rightarrow> unit outcome \<times> cbb_buffer" where
  "bb_put i bs b =
    (case put_bytes i bs (bb_buf b) of None \<Rightarrow> (Undef, b) | Some blk \<Rightarrow> (Ok (), b\<lparr>bb_buf := blk\<rparr>))"

text \<open>Storing the low bytes of \<open>v\<close> from the highest index down; what is left of \<open>v\<close> is returned.\<close>

fun store_be :: "nat \<Rightarrow> nat \<Rightarrow> 'a::len word \<Rightarrow> cbb_buffer \<Rightarrow> 'a word outcome \<times> cbb_buffer" where
  "store_be pos 0 v b = (Ok v, b)"
| "store_be pos (Suc i) v b =
    seq (bb_put (pos + i) [ucast v]) (\<lambda>_. store_be pos i (drop_bit 8 v)) b"

definition cbb_buffer_add_u :: "c_malloc \<Rightarrow> u32 \<Rightarrow> nat \<Rightarrow> cbb_buffer \<Rightarrow> unit outcome \<times> cbb_buffer" where
  "cbb_buffer_add_u malloc v len_len =
    (if len_len = 0 then ret ()
     else seq (cbb_buffer_add malloc (of_nat len_len))
       (\<lambda>pos. seq (store_be pos len_len v) (\<lambda>v b. if v \<noteq> 0 then cbb_err b else (Ok (), b))))"

section \<open>Life cycle\<close>

definition CBB_zero :: cbb
  where "CBB_zero = \<lparr>cb_base = None, cb_children = []\<rparr>"

definition cbb_init :: "c_malloc \<Rightarrow> byte list \<Rightarrow> size_t \<Rightarrow> unit outcome \<times> cbb" where
  "cbb_init malloc buf cap =
    (case OPENSSL_malloc malloc sizeof_cbb_buffer of
       Ok (Some _) \<Rightarrow>
         (Ok (), CBB_zero\<lparr>cb_base := Some \<lparr>bb_buf = buf, bb_len = 0, bb_cap = cap, bb_can_resize = True,
           bb_error = False\<rparr>\<rparr>)
     | Ok None \<Rightarrow> (Fail, CBB_zero) | Fail \<Rightarrow> (Fail, CBB_zero) | Undef \<Rightarrow> (Undef, CBB_zero))"

definition CBB_init :: "c_malloc \<Rightarrow> size_t \<Rightarrow> unit outcome \<times> cbb" where
  "CBB_init malloc initial_capacity =
    (case OPENSSL_malloc malloc initial_capacity of
       Ok None \<Rightarrow> if 0 < initial_capacity then (Fail, CBB_zero) else cbb_init malloc [] initial_capacity
     | Ok (Some buf) \<Rightarrow> cbb_init malloc buf initial_capacity
     | Fail \<Rightarrow> (Fail, CBB_zero) | Undef \<Rightarrow> (Undef, CBB_zero))"

definition CBB_init_fixed :: "c_malloc \<Rightarrow> byte list \<Rightarrow> size_t \<Rightarrow> unit outcome \<times> cbb" where
  "CBB_init_fixed malloc buf len =
    (case cbb_init malloc buf len of
       (Ok _, c) \<Rightarrow> (Ok (), c\<lparr>cb_base := map_option (\<lambda>b. b\<lparr>bb_can_resize := False\<rparr>) (cb_base c)\<rparr>)
     | r \<Rightarrow> r)"

definition CBB_cleanup :: "cbb \<Rightarrow> cbb"
  where "CBB_cleanup c = c\<lparr>cb_base := None\<rparr>"

section \<open>Flushing\<close>

text \<open>Closing the innermost open child \<open>c\<close> of a buffer whose contents for that child start at
  \<open>child_start\<close>: the second half of \<^verbatim>\<open>CBB_flush\<close>.\<close>

definition asn1_len_len :: "size_t \<Rightarrow> nat" where
  "asn1_len_len len =
    (if 0xffffff < len then 5 else if 0xffff < len then 4 else if 0xff < len then 3
     else if 0x7f < len then 2 else 1)"

definition move_contents :: "c_malloc \<Rightarrow> nat \<Rightarrow> nat \<Rightarrow> nat \<Rightarrow> cbb_buffer \<Rightarrow> unit outcome \<times> cbb_buffer" where
  "move_contents malloc child_start extra_bytes len =
    seq (cbb_buffer_add malloc (of_nat extra_bytes))
      (\<lambda>_ b. if length (bb_buf b) < child_start + len then (Undef, b)
              else bb_put (child_start + extra_bytes) (take len (drop child_start (bb_buf b))) b)"

definition write_length :: "nat \<Rightarrow> nat \<Rightarrow> size_t \<Rightarrow> cbb_buffer \<Rightarrow> unit outcome \<times> cbb_buffer" where
  "write_length offset n len =
    seq (store_be offset n len) (\<lambda>rest b. if rest \<noteq> 0 then cbb_err b else (Ok (), b))"

definition close_child :: "c_malloc \<Rightarrow> cbb_child \<Rightarrow> cbb_buffer \<Rightarrow> unit outcome \<times> cbb_buffer" where
  "close_child malloc c b =
    (let child_start = ch_offset c + ucast (ch_pending_len_len c); len = bb_len b - child_start in
     if child_start < ch_offset c \<or> bb_len b < child_start then cbb_err b
     else if ch_pending_is_asn1 c then
       (if ch_pending_len_len c \<noteq> 1 then (Undef, b)
        else if 0xfffffffe < len then cbb_err b
        else
          let len_len = asn1_len_len len;
              initial_length_byte = (if len_len = 1 then ucast len else 0x80 OR of_nat (len_len - 1));
              rest = (if len_len = 1 then 0 else len)
          in seq (if len_len \<noteq> 1 then move_contents malloc (unat child_start) (len_len - 1) (unat len) else ret ())
               (\<lambda>_. seq (bb_put (unat (ch_offset c)) [initial_length_byte])
                 (\<lambda>_. write_length (unat (ch_offset c) + 1) (len_len - 1) rest)) b)
     else write_length (unat (ch_offset c)) (unat (ch_pending_len_len c)) len b)"

text \<open>The recursion of \<^verbatim>\<open>CBB_flush\<close> over the open children of one \<^verbatim>\<open>CBB\<close>; the result is
  the children still open.  Any failure marks the buffer.\<close>

fun flush_children :: "c_malloc \<Rightarrow> cbb_child list \<Rightarrow> cbb_buffer \<Rightarrow> cbb_child list outcome \<times> cbb_buffer" where
  "flush_children malloc [] b = (if bb_error b then (Fail, b) else (Ok [], b))"
| "flush_children malloc (c # cs) b =
    (if bb_error b then (Fail, b)
     else if ch_pending_len_len c = 0 then (Ok (c # cs), b)
     else case flush_children malloc cs b of
         (Ok _, b') \<Rightarrow>
           (case close_child malloc c b' of
              (Ok _, b'') \<Rightarrow> (Ok [], b'') | (Fail, b'') \<Rightarrow> cbb_err b'' | (Undef, b'') \<Rightarrow> (Undef, b''))
       | (Fail, b') \<Rightarrow> cbb_err b'
       | (Undef, b') \<Rightarrow> (Undef, b'))"

definition CBB_flush :: "c_malloc \<Rightarrow> nat \<Rightarrow> cbb \<Rightarrow> unit outcome \<times> cbb" where
  "CBB_flush malloc k c =
    (case cb_base c of
       None \<Rightarrow> (Fail, c)
     | Some b \<Rightarrow>
         if length (cb_children c) < k then (Fail, c)
         else (case flush_children malloc (drop k (cb_children c)) b of
                 (Ok cs, b') \<Rightarrow> (Ok (), \<lparr>cb_base = Some b', cb_children = take k (cb_children c) @ cs\<rparr>)
               | (Fail, b') \<Rightarrow> (Fail, c\<lparr>cb_base := Some b'\<rparr>)
               | (Undef, b') \<Rightarrow> (Undef, c\<lparr>cb_base := Some b'\<rparr>)))"

text \<open>Running a buffer operation on the base of handle \<open>k\<close>.\<close>

definition on_base :: "nat \<Rightarrow> (cbb_buffer \<Rightarrow> 'a outcome \<times> cbb_buffer) \<Rightarrow> cbb \<Rightarrow> 'a outcome \<times> cbb" where
  "on_base k f c =
    (case cb_base c of
       None \<Rightarrow> (Undef, c)
     | Some b \<Rightarrow>
         if length (cb_children c) < k then (Undef, c)
         else (case f b of (r, b') \<Rightarrow> (r, c\<lparr>cb_base := Some b'\<rparr>)))"

definition flush_then :: "c_malloc \<Rightarrow> nat \<Rightarrow> (cbb_buffer \<Rightarrow> 'a outcome \<times> cbb_buffer) \<Rightarrow> cbb \<Rightarrow> 'a outcome \<times> cbb"
  where "flush_then malloc k f = seq (CBB_flush malloc k) (\<lambda>_. on_base k f)"

definition CBB_finish :: "c_malloc \<Rightarrow> nat \<Rightarrow> bool \<Rightarrow> cbb \<Rightarrow> byte list outcome \<times> cbb" where
  "CBB_finish malloc k want_data c =
    (if k \<noteq> 0 then (Fail, c)
     else seq (CBB_flush malloc 0)
       (\<lambda>_ c. case cb_base c of
          None \<Rightarrow> (Undef, c)
        | Some b \<Rightarrow>
            if bb_can_resize b \<and> \<not> want_data then (Fail, c)
            else (Ok (take (unat (bb_len b)) (bb_buf b)), CBB_cleanup c)) c)"

section \<open>Adding data\<close>

text \<open>Where the contents of handle \<open>k\<close> start: after its own length prefix.\<close>

definition contents_start :: "nat \<Rightarrow> cbb \<Rightarrow> nat" where
  "contents_start k c =
    (if k = 0 then 0
     else let ch = cb_children c ! (k - 1) in unat (ch_offset ch + ucast (ch_pending_len_len ch)))"

definition CBB_len :: "nat \<Rightarrow> cbb \<Rightarrow> nat outcome" where
  "CBB_len k c =
    (case cb_base c of
       None \<Rightarrow> Undef
     | Some b \<Rightarrow>
         if length (cb_children c) \<noteq> k then Undef
         else if unat (bb_len b) < contents_start k c then Undef
         else Ok (unat (bb_len b) - contents_start k c))"

definition CBB_data :: "nat \<Rightarrow> cbb \<Rightarrow> byte list outcome" where
  "CBB_data k c =
    (case cb_base c of
       None \<Rightarrow> Undef
     | Some b \<Rightarrow> if length (cb_children c) \<noteq> k then Undef else Ok (drop (contents_start k c) (bb_buf b)))"

definition push_child :: "nat \<Rightarrow> cbb_child \<Rightarrow> cbb \<Rightarrow> unit outcome \<times> cbb"
  where "push_child k ch c = (Ok (), c\<lparr>cb_children := take k (cb_children c) @ [ch]\<rparr>)"

definition cbb_add_length_prefixed :: "c_malloc \<Rightarrow> nat \<Rightarrow> byte \<Rightarrow> cbb \<Rightarrow> unit outcome \<times> cbb" where
  "cbb_add_length_prefixed malloc k len_len =
    seq (flush_then malloc k
          (\<lambda>b. seq (cbb_buffer_add malloc (ucast len_len))
                 (\<lambda>pos. seq (bb_put pos (replicate (unat len_len) 0)) (\<lambda>_. ret (bb_len b))) b))
      (\<lambda>offset. push_child k
        \<lparr>ch_offset = offset, ch_pending_len_len = len_len, ch_pending_is_asn1 = False\<rparr>)"

definition CBB_add_u8_length_prefixed :: "c_malloc \<Rightarrow> nat \<Rightarrow> cbb \<Rightarrow> unit outcome \<times> cbb"
  where "CBB_add_u8_length_prefixed malloc k = cbb_add_length_prefixed malloc k 1"

definition CBB_add_u16_length_prefixed :: "c_malloc \<Rightarrow> nat \<Rightarrow> cbb \<Rightarrow> unit outcome \<times> cbb"
  where "CBB_add_u16_length_prefixed malloc k = cbb_add_length_prefixed malloc k 2"

definition CBB_add_u24_length_prefixed :: "c_malloc \<Rightarrow> nat \<Rightarrow> cbb \<Rightarrow> unit outcome \<times> cbb"
  where "CBB_add_u24_length_prefixed malloc k = cbb_add_length_prefixed malloc k 3"

definition CBB_add_bytes :: "c_malloc \<Rightarrow> nat \<Rightarrow> byte list \<Rightarrow> cbb \<Rightarrow> unit outcome \<times> cbb" where
  "CBB_add_bytes malloc k data =
    flush_then malloc k (seq (cbb_buffer_add malloc (of_nat (length data))) (\<lambda>pos. bb_put pos data))"

text \<open>\<^verbatim>\<open>CBB_add_space\<close> and \<^verbatim>\<open>CBB_reserve\<close> return the position of the space.\<close>

definition CBB_add_space :: "c_malloc \<Rightarrow> nat \<Rightarrow> size_t \<Rightarrow> cbb \<Rightarrow> nat outcome \<times> cbb"
  where "CBB_add_space malloc k len = flush_then malloc k (cbb_buffer_add malloc len)"

definition CBB_reserve :: "c_malloc \<Rightarrow> nat \<Rightarrow> size_t \<Rightarrow> cbb \<Rightarrow> nat outcome \<times> cbb" where
  "CBB_reserve malloc k len =
    flush_then malloc k (seq (cbb_buffer_reserve malloc len) (\<lambda>_ b. (Ok (unat (bb_len b)), b)))"

definition CBB_did_write :: "nat \<Rightarrow> size_t \<Rightarrow> cbb \<Rightarrow> unit outcome \<times> cbb" where
  "CBB_did_write k len c =
    (case cb_base c of
       None \<Rightarrow> (Undef, c)
     | Some b \<Rightarrow>
         let newlen = bb_len b + len in
         if length (cb_children c) < k then (Undef, c)
         else if k < length (cb_children c) \<or> newlen < bb_len b \<or> bb_cap b < newlen then (Fail, c)
         else (Ok (), c\<lparr>cb_base := Some (b\<lparr>bb_len := newlen\<rparr>)\<rparr>))"

definition CBB_add_u8 :: "c_malloc \<Rightarrow> nat \<Rightarrow> byte \<Rightarrow> cbb \<Rightarrow> unit outcome \<times> cbb"
  where "CBB_add_u8 malloc k v = flush_then malloc k (cbb_buffer_add_u malloc (ucast v) 1)"

definition CBB_add_u16 :: "c_malloc \<Rightarrow> nat \<Rightarrow> u16 \<Rightarrow> cbb \<Rightarrow> unit outcome \<times> cbb"
  where "CBB_add_u16 malloc k v = flush_then malloc k (cbb_buffer_add_u malloc (ucast v) 2)"

definition CBB_add_u24 :: "c_malloc \<Rightarrow> nat \<Rightarrow> u32 \<Rightarrow> cbb \<Rightarrow> unit outcome \<times> cbb"
  where "CBB_add_u24 malloc k v = flush_then malloc k (cbb_buffer_add_u malloc v 3)"

definition CBB_add_u32 :: "c_malloc \<Rightarrow> nat \<Rightarrow> u32 \<Rightarrow> cbb \<Rightarrow> unit outcome \<times> cbb"
  where "CBB_add_u32 malloc k v = flush_then malloc k (cbb_buffer_add_u malloc v 4)"

definition CBB_add_asn1 :: "c_malloc \<Rightarrow> nat \<Rightarrow> u32 \<Rightarrow> cbb \<Rightarrow> unit outcome \<times> cbb" where
  "CBB_add_asn1 malloc k tag =
    (if 0xff < tag \<or> tag AND 0x1F = 0x1F then on_base k cbb_err
     else seq (CBB_flush malloc k)
       (\<lambda>_. seq (CBB_add_u8 malloc k (ucast tag))
         (\<lambda>_. seq (on_base k (\<lambda>b. (Ok (bb_len b), b)))
           (\<lambda>offset. seq (CBB_add_u8 malloc k 0)
             (\<lambda>_. push_child k
               \<lparr>ch_offset = offset, ch_pending_len_len = 1, ch_pending_is_asn1 = True\<rparr>)))))"

definition CBB_discard_child :: "nat \<Rightarrow> cbb \<Rightarrow> cbb outcome" where
  "CBB_discard_child k c =
    (if length (cb_children c) \<le> k then Ok c
     else case cb_base c of
         None \<Rightarrow> Undef
       | Some b \<Rightarrow>
           Ok \<lparr>cb_base = Some (b\<lparr>bb_len := ch_offset (cb_children c ! k)\<rparr>),
               cb_children = take k (cb_children c)\<rparr>)"

text \<open>The eight rounds of \<^verbatim>\<open>CBB_add_asn1_uint64\<close>, most significant byte first; the result is
  \<^verbatim>\<open>started\<close>.\<close>

fun uint64_bytes_loop :: "c_malloc \<Rightarrow> nat \<Rightarrow> u64 \<Rightarrow> nat \<Rightarrow> bool \<Rightarrow> cbb \<Rightarrow> bool outcome \<times> cbb" where
  "uint64_bytes_loop malloc k v 0 started = ret started"
| "uint64_bytes_loop malloc k v (Suc i) started =
    (let b = ucast (drop_bit (8 * i) v) :: byte in
     if \<not> started \<and> b = 0 then uint64_bytes_loop malloc k v i False
     else seq (if \<not> started \<and> b AND 0x80 \<noteq> 0 then CBB_add_u8 malloc k 0 else ret ())
       (\<lambda>_. seq (CBB_add_u8 malloc k b) (\<lambda>_. uint64_bytes_loop malloc k v i True)))"

definition CBB_add_asn1_uint64 :: "c_malloc \<Rightarrow> nat \<Rightarrow> u64 \<Rightarrow> cbb \<Rightarrow> unit outcome \<times> cbb" where
  "CBB_add_asn1_uint64 malloc k v =
    seq (CBB_add_asn1 malloc k CBS_ASN1_INTEGER)
      (\<lambda>_. seq (uint64_bytes_loop malloc (Suc k) v 8 False)
        (\<lambda>started. seq (if \<not> started then CBB_add_u8 malloc (Suc k) 0 else ret ())
          (\<lambda>_. CBB_flush malloc k)))"

end
