(* ===== verification/Byte_Numbers.thy ===== *)
theory Byte_Numbers
  imports Bytes_Prelude
begin

text \<open>
  Numbers as big-endian byte strings of any length: \<open>nat_of_bytes\<close> reads one, \<open>nat_bytes\<close> writes the
  shortest one, and \<open>be_word\<close> on short strings agrees with both.
\<close>

section \<open>Numbers as big-endian bytes\<close>

definition nat_of_bytes :: "byte list \<Rightarrow> nat"
  where "nat_of_bytes bs = foldl (\<lambda>n b. n * 256 + unat b) 0 bs"

fun nat_bytes :: "nat \<Rightarrow> byte list" where
  "nat_bytes n = (if n = 0 then [] else nat_bytes (n div 256) @ [of_nat n])"

declare nat_bytes.simps [simp del]

lemma nat_of_bytes_Nil [simp]: "nat_of_bytes [] = 0"
  by (simp add: nat_of_bytes_def)

lemma nat_of_bytes_snoc [simp]: "nat_of_bytes (bs @ [b]) = nat_of_bytes bs * 256 + unat b"
  by (simp add: nat_of_bytes_def)

lemma byte_less: "unat (b :: byte) < 256"
  using unsigned_less [of b] by simp

lemma nat_of_bytes_less: "nat_of_bytes bs < 256 ^ length bs"
proof (induction bs rule: rev_induct)
  case (snoc b bs)
  then show ?case using byte_less [of b] by simp
qed simp

lemma unat_of_nat_byte: "unat (of_nat n :: byte) = n mod 256"
  by (simp add: unat_of_nat)

lemma nat_of_bytes_nat_bytes: "nat_of_bytes (nat_bytes n) = n"
proof (induction n rule: nat_bytes.induct)
  case (1 n)
  then show ?case by (simp add: nat_bytes.simps [of n] unat_of_nat_byte)
qed

lemma nat_of_bytes_Cons: "nat_of_bytes (b # bs) = unat b * 256 ^ length bs + nat_of_bytes bs"
proof (induction bs rule: rev_induct)
  case Nil
  then show ?case by (simp add: nat_of_bytes_def)
next
  case (snoc c bs)
  have "nat_of_bytes (b # bs @ [c]) = nat_of_bytes (b # bs) * 256 + unat c"
    using nat_of_bytes_snoc [of "b # bs" c] by simp
  with snoc show ?case by (simp add: algebra_simps)
qed

lemma nat_bytes_nat_of_bytes:
  assumes "bs = [] \<or> hd bs \<noteq> 0"
  shows "nat_bytes (nat_of_bytes bs) = bs"
  using assms
proof (induction bs rule: rev_induct)
  case Nil
  then show ?case by (simp add: nat_bytes.simps)
next
  case (snoc b bs)
  have pos: "0 < nat_of_bytes (bs @ [b])"
  proof (cases bs)
    case Nil
    with snoc.prems show ?thesis by (simp add: unat_gt_0 nat_of_bytes_Cons)
  next
    case (Cons c cs)
    with snoc.prems have "0 < unat c" by (simp add: unat_gt_0)
    then show ?thesis unfolding Cons by (simp add: nat_of_bytes_Cons)
  qed
  have "bs = [] \<or> hd bs \<noteq> 0" using snoc.prems by (cases bs) auto
  then have ih: "nat_bytes (nat_of_bytes bs) = bs" by (rule snoc.IH)
  have "nat_bytes (nat_of_bytes (bs @ [b])) =
      nat_bytes (nat_of_bytes (bs @ [b]) div 256) @ [of_nat (nat_of_bytes (bs @ [b]))]"
    using pos by (subst nat_bytes.simps) simp
  also have "nat_of_bytes (bs @ [b]) div 256 = nat_of_bytes bs" using byte_less [of b] by simp
  also have "of_nat (nat_of_bytes (bs @ [b])) = b"
    using byte_less [of b] by (intro word_unat_eq_iff [THEN iffD2]) (simp add: unat_of_nat_byte del: of_nat_add)
  finally show ?case using ih by simp
qed

lemma hd_nat_bytes: "0 < n \<Longrightarrow> nat_bytes n \<noteq> [] \<and> hd (nat_bytes n) \<noteq> 0"
proof (induction n rule: nat_bytes.induct)
  case (1 n)
  show ?case
  proof (cases "n div 256 = 0")
    case True
    then have "unat (of_nat n :: byte) = n" by (simp add: unat_of_nat_byte div_eq_0_iff)
    with 1 have "(of_nat n :: byte) \<noteq> 0" by auto
    moreover have "nat_bytes n = [of_nat n]" using 1 True by (simp add: nat_bytes.simps [of n] nat_bytes.simps [of 0])
    ultimately show ?thesis by simp
  next
    case False
    with 1 show ?thesis by (simp add: nat_bytes.simps [of n])
  qed
qed

lemma length_nat_bytes: "length (nat_bytes n) \<le> k \<longleftrightarrow> n < 256 ^ k"
proof (induction n arbitrary: k rule: nat_bytes.induct)
  case (1 n)
  show ?case
  proof (cases "n = 0")
    case True
    then show ?thesis by (simp add: nat_bytes.simps)
  next
    case False
    then have l: "length (nat_bytes n) = Suc (length (nat_bytes (n div 256)))" by (simp add: nat_bytes.simps [of n])
    show ?thesis
    proof (cases k)
      case 0
      with False l show ?thesis by simp
    next
      case (Suc j)
      have "n div 256 < 256 ^ j \<longleftrightarrow> n < 256 ^ Suc j" by (simp add: div_less_iff_less_mult mult.commute)
      with 1 False l Suc show ?thesis by simp
    qed
  qed
qed

lemma unat_be_word:
  assumes "8 * length bs \<le> LENGTH('a)"
  shows "unat (be_word bs :: 'a::len word) = nat_of_bytes bs"
  using assms
proof (induction bs rule: rev_induct)
  case Nil
  then show ?case by (simp add: be_word_def)
next
  case (snoc b bs)
  let ?w = "be_word bs :: 'a word"
  have ih: "unat ?w = nat_of_bytes bs" using snoc by simp
  have l: "8 * Suc (length bs) \<le> LENGTH('a)" using snoc.prems by simp
  have "nat_of_bytes (bs @ [b]) < 256 ^ Suc (length bs)" using nat_of_bytes_less [of "bs @ [b]"] by simp
  also have "(256 :: nat) ^ Suc (length bs) = 2 ^ (8 * Suc (length bs))" by (simp add: power_add power_mult)
  also have "\<dots> \<le> 2 ^ LENGTH('a)" using l by (intro power_increasing) simp_all
  finally have less: "nat_of_bytes (bs @ [b]) < 2 ^ LENGTH('a)" .
  have "push_bit 8 ?w OR ucast b = push_bit 8 ?w + ucast b"
  proof (rule disjunctive_add [symmetric])
    show "\<not> bit (push_bit 8 ?w) n \<or> \<not> bit (ucast b :: 'a word) n" for n
      by (auto simp: bit_push_bit_iff bit_unsigned_iff dest: bit_imp_le_length)
  qed
  then have "unat (be_word (bs @ [b]) :: 'a word) = unat (push_bit 8 ?w + ucast b)"
    by (simp add: be_word_snoc)
  also have "push_bit 8 ?w + ucast b = (of_nat (unat ?w * 256 + unat b) :: 'a word)"
    by (simp add: push_bit_eq_mult of_nat_unat)
  also have "unat \<dots> = nat_of_bytes (bs @ [b])"
    using less ih by (simp add: unat_of_nat del: of_nat_add of_nat_mult)
  finally show ?case .
qed

end
