(* ===== verification/Boring_CBS_Laws.thy ===== *)
theory Boring_CBS_Laws
  imports Boring_CBS Byte_Numbers
begin

text \<open>
  What the \<^verbatim>\<open>CBS\<close> functions accept.  \<open>der_encode\<close> is the distinguished encoding of an element
  with a one-byte tag: the length in one byte below 128, else in the shortest big-endian form.
  The parser is shown to accept exactly these encodings, and the integer reader exactly the
  shortest two's complement form.  No function of \<^verbatim>\<open>cbs.c\<close> is ever undefined.
\<close>

section \<open>The distinguished encoding\<close>

definition der_length :: "nat \<Rightarrow> byte list" where
  "der_length n =
    (if n < 128 then [of_nat n] else of_nat (128 + length (nat_bytes n)) # nat_bytes n)"

definition der_encode :: "byte \<Rightarrow> byte list \<Rightarrow> byte list"
  where "der_encode tag body = tag # der_length (length body) @ body"

lemma bit7_iff: "(b :: byte) AND 0x80 = 0 \<longleftrightarrow> unat b < 128"
proof -
  have "\<forall>b :: byte. (b AND 0x80 = 0) = (b < 128)" by code_simp
  then show ?thesis by (simp add: word_less_nat_alt)
qed

lemma low7: "unat (b :: byte) = (if b AND 0x80 = 0 then 0 else 128) + unat (b AND 0x7F)"
proof -
  have "\<forall>b :: byte. unat b = (if b AND 0x80 = 0 then 0 else 128) + unat (b AND 0x7F)" by code_simp
  then show ?thesis by blast
qed

lemma low7_less: "unat ((b :: byte) AND 0x7F) < 128"
proof -
  have "\<forall>b :: byte. b AND 0x7F < 128" by code_simp
  then show ?thesis by (simp add: word_less_nat_alt)
qed

section \<open>Reading numbers\<close>

lemma cbs_get_iff: "cbs_get n c = (Ok v, c') \<longleftrightarrow> length v = n \<and> c = v @ c'"
  by (auto simp: cbs_get_def)

lemma cbs_get_u_iff:
  assumes "n \<le> 4"
  shows "cbs_get_u n c = (Ok v, c') \<longleftrightarrow>
    (\<exists>bs. length bs = n \<and> c = bs @ c' \<and> unat v = nat_of_bytes bs)"
proof -
  have "(be_word bs = v) = (unat v = nat_of_bytes bs)" if "length bs = n" for bs
    using unat_be_word [of bs, where 'a = 32] that assms by (auto simp: word_unat_eq_iff)
  then show ?thesis
    by (auto simp: cbs_get_u_def seq_eq_Ok cbs_get_iff foldl_be_word)
qed

lemma CBS_get_u8_iff: "CBS_get_u8 c = (Ok b, c') \<longleftrightarrow> c = b # c'"
  by (cases c) (auto simp: CBS_get_u8_def seq_eq_Ok cbs_get_def)

lemma CBS_get_bytes_eq: "CBS_get_bytes n = cbs_get n"
  by (rule ext) (auto simp: CBS_get_bytes_def CBS_init_def seq_def cbs_get_def)

text \<open>The length field in the distinguished form, and nothing else, is accepted.\<close>

lemma der_length_long:
  assumes "128 \<le> n" "n < 2 ^ 32"
  shows "der_length n = of_nat (128 + length (nat_bytes n)) # nat_bytes n"
    "length (nat_bytes n) \<in> {1..4}" "unat (of_nat (128 + length (nat_bytes n)) :: byte) = 128 + length (nat_bytes n)"
proof -
  have "length (nat_bytes n) \<le> 4" using assms by (simp add: length_nat_bytes)
  moreover have "\<not> length (nat_bytes n) \<le> 0" using assms by (subst length_nat_bytes) simp
  ultimately show "length (nat_bytes n) \<in> {1..4}" by (simp add: Suc_le_eq)
  then show "unat (of_nat (128 + length (nat_bytes n)) :: byte) = 128 + length (nat_bytes n)"
    by (subst unat_of_nat_byte) simp
  show "der_length n = of_nat (128 + length (nat_bytes n)) # nat_bytes n" using assms by (simp add: der_length_def)
qed

lemma total_length:
  assumes "k \<le> 4"
  shows "unat (ucast (w :: u32) + 2 + of_nat k :: size_t) = unat w + 2 + k"
    "\<not> (ucast w + 2 + of_nat k :: size_t) < ucast w"
proof -
  have w: "unat w < 2 ^ LENGTH(32)" by (rule unsigned_less)
  have "(ucast w + 2 + of_nat k :: size_t) = of_nat (unat w + 2 + k)" by (simp add: of_nat_unat)
  also have "unat \<dots> = unat w + 2 + k" using w assms by (subst unat_of_nat) (simp add: unat_of_nat)
  finally show u: "unat (ucast w + 2 + of_nat k :: size_t) = unat w + 2 + k" .
  show "\<not> (ucast w + 2 + of_nat k :: size_t) < ucast w" by (simp only: word_less_nat_alt u unat_ucast_u32)
qed

lemma element_length_long:
  assumes lb: "lb AND 0x80 \<noteq> 0"
  shows "asn1_element_length False tag lb header = Some (len, hl) \<longleftrightarrow>
    (\<exists>n rest. 128 \<le> n \<and> n < 2 ^ 32 \<and> lb # header = der_length n @ rest \<and>
      hl = 1 + length (der_length n) \<and> unat len = hl + n)" (is "?l = ?r")
proof
  let ?k = "unat (lb AND 0x7F)"
  assume ?l
  then obtain w header' where k: "?k \<noteq> 0" "?k \<le> 4" and g: "cbs_get_u ?k header = (Ok w, header')"
    and w: "128 \<le> w" "drop_bit ((?k - 1) * 8) w \<noteq> 0" and len: "len = ucast w + 2 + of_nat ?k" "hl = 2 + ?k"
    using lb by (auto simp: asn1_element_length_def Let_def not_less split: if_splits prod.splits outcome.splits)
  from g k(2) obtain bs where bs: "length bs = ?k" "header = bs @ header'" "unat w = nat_of_bytes bs"
    by (auto simp: cbs_get_u_iff)
  obtain b bs' where b: "bs = b # bs'" using bs(1) k(1) by (cases bs) auto
  have "hd bs \<noteq> 0"
  proof
    assume "hd bs = 0"
    then have "nat_of_bytes bs < 256 ^ length bs'" using b nat_of_bytes_less [of bs'] by (simp add: nat_of_bytes_Cons)
    moreover have "length bs' = ?k - 1" using b bs(1) by simp
    ultimately have "nat_of_bytes bs < 256 ^ (?k - 1)" by simp
    then have "unat w div 2 ^ ((?k - 1) * 8) = 0" using bs(3) by (simp add: power_mult [symmetric] mult.commute power_mult)
    then have "unat (drop_bit ((?k - 1) * 8) w) = 0" by (simp only: unat_drop_bit_div)
    with w(2) show False by (simp add: unat_eq_0)
  qed
  then have nb: "nat_bytes (unat w) = bs" unfolding bs(3) by (intro nat_bytes_nat_of_bytes) simp
  have n: "128 \<le> unat w" "unat w < 2 ^ 32" using w(1) unsigned_less [of w] by (simp_all add: word_le_nat_alt)
  have "lb = of_nat (128 + length bs)"
    using low7 [of lb] lb bs(1) k by (auto simp: word_unat_eq_iff unat_of_nat_byte simp del: of_nat_add)
  then have d: "der_length (unat w) = lb # bs" using der_length_long(1) [OF n] nb by simp
  show ?r
    using d n bs(2) len total_length(1) [OF k(2)] bs(1)
    by (intro exI [of _ "unat w"] exI [of _ header']) simp
next
  assume ?r
  then obtain n rest where n: "128 \<le> n" "n < 2 ^ 32" and e: "lb # header = der_length n @ rest"
    and hl: "hl = 1 + length (der_length n)" "unat len = hl + n" by blast
  note d = der_length_long [OF n]
  let ?bs = "nat_bytes n"
  have lb': "unat lb = 128 + length ?bs" and h: "header = ?bs @ rest" using e d by simp_all
  have k: "unat (lb AND 0x7F) = length ?bs" using low7 [of lb] lb lb' by simp
  have g: "cbs_get_u (length ?bs) header = (Ok (of_nat n), rest)"
    using d(2) h n by (subst cbs_get_u_iff) (auto simp: nat_of_bytes_nat_bytes unat_of_nat)
  have u: "unat (of_nat n :: u32) = n" using n by (simp add: unat_of_nat)
  have "\<not> length ?bs \<le> length ?bs - 1" using d(2) by (simp, linarith)
  then have "\<not> n < 256 ^ (length ?bs - 1)" unfolding length_nat_bytes .
  then have "n div 2 ^ ((length ?bs - 1) * 8) \<noteq> 0" by (simp add: power_mult [symmetric] mult.commute power_mult div_eq_0_iff)
  then have "unat (drop_bit ((length ?bs - 1) * 8) (of_nat n :: u32)) \<noteq> 0" by (simp only: unat_drop_bit_div u) simp
  then have nz: "drop_bit ((length ?bs - 1) * 8) (of_nat n :: u32) \<noteq> 0" by auto
  have ne: "?bs \<noteq> []" using d(2) by auto
  have "\<not> (of_nat n :: u32) < 128" using n u by (simp add: word_less_nat_alt)
  moreover have "len = ucast (of_nat n :: u32) + 2 + of_nat (length ?bs)"
    using total_length(1) [of "length ?bs" "of_nat n"] d(1,2) hl u by (simp add: word_unat_eq_iff)
  ultimately show ?l
    using lb k g nz ne d(1,2) hl(1) total_length(2) [of "length ?bs" "of_nat n"]
    by (simp add: asn1_element_length_def Let_def)
qed

lemma element_length_iff:
  "asn1_element_length False tag lb header = Some (len, hl) \<longleftrightarrow>
    (\<exists>n rest. n < 2 ^ 32 \<and> lb # header = der_length n @ rest \<and> hl = 1 + length (der_length n) \<and> unat len = hl + n)"
proof (cases "lb AND 0x80 = 0")
  case True
  then have lb: "unat lb < 128" by (simp add: bit7_iff)
  have u: "unat (ucast lb + 2 :: size_t) = unat lb + 2"
    using lb by (simp add: unat_word_ariths unsigned_ucast_eq take_bit_nat_eq_self)
  have eq: "asn1_element_length False tag lb header = Some (ucast lb + 2, 2)"
    using True by (simp add: asn1_element_length_def)
  have short: "lb = of_nat n" "n < 128" if "n < 2 ^ 32" "lb # header = der_length n @ rest" for n rest
  proof -
    show "n < 128"
      using that lb der_length_long(1,3) [of n] by (cases "n < 128") (auto simp del: of_nat_add)
    with that(2) show "lb = of_nat n" by (simp add: der_length_def)
  qed
  show ?thesis
  proof
    assume "asn1_element_length False tag lb header = Some (len, hl)"
    then show "\<exists>n rest. n < 2 ^ 32 \<and> lb # header = der_length n @ rest \<and> hl = 1 + length (der_length n) \<and> unat len = hl + n"
      using eq lb u by (intro exI [of _ "unat lb"] exI [of _ header]) (auto simp: der_length_def of_nat_unat)
  next
    assume "\<exists>n rest. n < 2 ^ 32 \<and> lb # header = der_length n @ rest \<and> hl = 1 + length (der_length n) \<and> unat len = hl + n"
    then obtain n rest where n: "n < 2 ^ 32" "lb # header = der_length n @ rest"
      and hl: "hl = 1 + length (der_length n)" "unat len = hl + n" by blast
    note s = short [OF n]
    have "unat lb = n" using s by (simp add: unat_of_nat_byte)
    then have "len = ucast lb + 2" "hl = 2" using hl s u by (simp_all add: word_unat_eq_iff der_length_def)
    then show "asn1_element_length False tag lb header = Some (len, hl)" using eq by simp
  qed
next
  case False
  then have "\<not> unat lb < 128" by (simp add: bit7_iff)
  then have "128 \<le> n" if "lb # header = der_length n @ rest" for n rest
    using that by (auto simp: der_length_def unat_of_nat_byte not_less split: if_splits)
  then show ?thesis using element_length_long [OF False] by metis
qed

text \<open>An element is accepted exactly when it is a distinguished encoding with a one-byte tag and
  fewer than $2^{32}$ bytes of contents.\<close>

lemma any_element_iff:
  "CBS_get_any_asn1_element c = (Ok (tag, hl, out), c') \<longleftrightarrow>
    (\<exists>t body. tag = ucast t \<and> t AND 0x1F \<noteq> 0x1F \<and> length body < 2 ^ 32 \<and>
      out = der_encode t body \<and> c = out @ c' \<and> hl = 1 + length (der_length (length body)))" (is "?l \<longleftrightarrow> ?r")
proof
  assume ?l
  then obtain t lb header len where c: "c = t # lb # header" and t: "t AND 0x1F \<noteq> 0x1F" "tag = ucast t"
    and e: "asn1_element_length False t lb header = Some (len, hl)" and g: "cbs_get (unat len) c = (Ok out, c')"
    by (auto simp: CBS_get_any_asn1_element_def cbs_get_any_asn1_element_def seq_eq_Ok CBS_get_u8_iff CBS_get_bytes_eq
        split: prod.splits outcome.splits if_splits option.splits)
  from e obtain n rest where n: "n < 2 ^ 32" "lb # header = der_length n @ rest" "hl = 1 + length (der_length n)"
    "unat len = hl + n" by (auto simp: element_length_iff)
  from g have out: "length out = hl + n" "c = out @ c'" using n(4) by (simp_all add: cbs_get_iff)
  then have "out = take (hl + n) c" by simp
  also have "\<dots> = t # der_length n @ take n rest" using c n(2,3) by simp
  finally have o: "out = t # der_length n @ take n rest" .
  then have "length (take n rest) = n" using out(1) n(3) by simp
  then show ?r using o t n out(2) by (intro exI [of _ t] exI [of _ "take n rest"]) (simp add: der_encode_def)
next
  assume ?r
  then obtain t body where t: "tag = ucast t" "t AND 0x1F \<noteq> 0x1F" "length body < 2 ^ 32"
    and out: "out = der_encode t body" "c = out @ c'" "hl = 1 + length (der_length (length body))" by blast
  have "der_length (length body) \<noteq> []" by (simp add: der_length_def)
  then obtain lb l where l: "der_length (length body) = lb # l" by (cases "der_length (length body)") auto
  let ?n = "hl + length body"
  have len: "unat (of_nat ?n :: size_t) = ?n"
  proof -
    have "length (der_length (length body)) \<le> 5"
      using der_length_long(1,2) [of "length body"] t(3) by (cases "length body < 128") (auto simp: der_length_def)
    then have "?n < 2 ^ 64" using t(3) out(3) by simp
    then show ?thesis by (simp add: unat_of_nat del: of_nat_add)
  qed
  have "asn1_element_length False t lb (l @ body @ c') = Some (of_nat ?n, hl)"
    using t l out(3) len by (subst element_length_iff) (intro exI [of _ "length body"] exI [of _ "body @ c'"], simp)
  moreover have "cbs_get (unat (of_nat ?n :: size_t)) c = (Ok out, c')"
    unfolding len cbs_get_iff using out l by (simp add: der_encode_def)
  moreover have "c = t # lb # l @ body @ c'" using out l by (simp add: der_encode_def)
  ultimately show ?l
    using t by (simp add: CBS_get_any_asn1_element_def cbs_get_any_asn1_element_def CBS_get_bytes_eq seq_def
        CBS_get_u8_def cbs_get_def)
qed

section \<open>Elements and their contents\<close>

lemma skip_header_element:
  "hl = 1 + length (der_length (length body)) \<Longrightarrow> skip_header hl (der_encode t body) c = (Ok body, c)"
  by (simp add: skip_header_def CBS_skip_def cbs_get_def seq_def der_encode_def)

lemma any_element_accept:
  "t AND 0x1F \<noteq> 0x1F \<Longrightarrow> length body < 2 ^ 32 \<Longrightarrow>
    CBS_get_any_asn1_element (der_encode t body @ c') =
      (Ok (ucast t, 1 + length (der_length (length body)), der_encode t body), c')"
  unfolding any_element_iff by blast

lemma any_element_cases:
  assumes "CBS_get_any_asn1_element c = (r, c')"
  obtains t body where "r = Ok (ucast t, 1 + length (der_length (length body)), der_encode t body)"
      "t AND 0x1F \<noteq> 0x1F" "length body < 2 ^ 32" "c = der_encode t body @ c'"
    | "r = Fail" "c' = c"
proof (cases r)
  case (Ok x)
  obtain tag hl out where x: "x = (tag, hl, out)" by (cases x)
  with assms Ok have "CBS_get_any_asn1_element c = (Ok (tag, hl, out), c')" by simp
  then show ?thesis unfolding any_element_iff using that(1) Ok x by blast
next
  case Fail
  have "c' = c" using assms Fail
    by (auto simp: CBS_get_any_asn1_element_def cbs_get_any_asn1_element_def CBS_get_bytes_eq seq_def cbs_get_def
        split: prod.splits outcome.splits if_splits option.splits)
  then show ?thesis using that(2) Fail by simp
next
  case Undef
  have "False" using assms Undef
    by (auto simp: CBS_get_any_asn1_element_def cbs_get_any_asn1_element_def CBS_get_bytes_eq CBS_get_u8_def seq_def cbs_get_def
        split: prod.splits outcome.splits if_splits option.splits)
  then show ?thesis ..
qed

lemma any_asn1_iff:
  "CBS_get_any_asn1 c = (Ok (tag, body), c') \<longleftrightarrow>
    (\<exists>t. tag = ucast t \<and> t AND 0x1F \<noteq> 0x1F \<and> length body < 2 ^ 32 \<and> c = der_encode t body @ c')" (is "?l \<longleftrightarrow> ?r")
proof
  assume ?r
  then show ?l by (auto simp: CBS_get_any_asn1_def seq_def any_element_accept skip_header_element)
next
  assume ?l
  then obtain x u where x: "CBS_get_any_asn1_element c = (Ok x, u)" by (auto simp: CBS_get_any_asn1_def seq_eq_Ok)
  then show ?r
    by (cases rule: any_element_cases) (use \<open>?l\<close> x in \<open>auto simp: CBS_get_any_asn1_def seq_eq_Ok skip_header_element\<close>)
qed

lemma get_asn1_iff:
  "CBS_get_asn1 tag c = (Ok body, c') \<longleftrightarrow>
    (\<exists>t. tag = ucast t \<and> t AND 0x1F \<noteq> 0x1F \<and> length body < 2 ^ 32 \<and> c = der_encode t body @ c')" (is "?l \<longleftrightarrow> ?r")
proof
  assume ?r
  then show ?l by (auto simp: CBS_get_asn1_def cbs_get_asn1_def seq_def any_element_accept skip_header_element)
next
  assume ?l
  then obtain x u where x: "CBS_get_any_asn1_element c = (Ok x, u)" by (auto simp: CBS_get_asn1_def cbs_get_asn1_def seq_eq_Ok)
  then show ?r
    by (cases rule: any_element_cases)
       (use \<open>?l\<close> x in \<open>auto simp: CBS_get_asn1_def cbs_get_asn1_def seq_eq_Ok skip_header_element split: if_splits\<close>)
qed

lemma get_asn1_not_Undef: "fst (CBS_get_asn1 tag c) \<noteq> Undef"
proof -
  obtain r c' where r: "CBS_get_any_asn1_element c = (r, c')" by (cases "CBS_get_any_asn1_element c")
  then show ?thesis
    by (cases rule: any_element_cases)
       (auto simp: CBS_get_asn1_def cbs_get_asn1_def seq_def skip_header_element any_element_accept r)
qed

lemma get_any_asn1_not_Undef: "fst (CBS_get_any_asn1 c) \<noteq> Undef"
proof -
  obtain r c' where r: "CBS_get_any_asn1_element c = (r, c')" by (cases "CBS_get_any_asn1_element c")
  then show ?thesis
    by (cases rule: any_element_cases) (auto simp: CBS_get_any_asn1_def seq_def skip_header_element any_element_accept r)
qed

section \<open>Integers\<close>

text \<open>The contents of a non-negative INTEGER: a leading zero byte exactly when it is needed.\<close>

definition integer_bytes :: "nat \<Rightarrow> byte list" where
  "integer_bytes n =
    (let bs = nat_bytes n in if bs = [] \<or> hd bs AND 0x80 \<noteq> 0 then 0 # bs else bs)"

lemma uint64_loop_Some:
  "uint64_loop out bs = Some v \<longleftrightarrow>
    unat out * 256 ^ length bs + nat_of_bytes bs < 2 ^ 64 \<and>
    unat v = unat out * 256 ^ length bs + nat_of_bytes bs"
proof (induction bs arbitrary: out)
  case Nil
  then show ?case using unsigned_less [of out] by (auto simp: word_unat_eq_iff)
next
  case (Cons b bs)
  let ?n = "length bs"
  have eq: "unat out * 256 ^ length (b # bs) + nat_of_bytes (b # bs) =
      (unat out * 256 + unat b) * 256 ^ ?n + nat_of_bytes bs"
    by (simp add: nat_of_bytes_Cons algebra_simps)
  have top: "drop_bit 56 out = 0 \<longleftrightarrow> unat out < 2 ^ 56"
  proof -
    have "drop_bit 56 out = 0 \<longleftrightarrow> unat (drop_bit 56 out) = 0" by (simp only: unat_eq_0)
    also have "\<dots> \<longleftrightarrow> unat out < 2 ^ 56" unfolding unat_drop_bit_div by (simp add: div_eq_0_iff)
    finally show ?thesis .
  qed
  show ?case
  proof (cases "unat out < 2 ^ 56")
    case True
    have "push_bit 8 out OR ucast b = push_bit 8 out + ucast b"
      by (rule disjunctive_add [symmetric])
         (auto simp: bit_push_bit_iff bit_unsigned_iff dest: bit_imp_le_length)
    then have "unat (push_bit 8 out OR ucast b) = unat (of_nat (unat out * 256 + unat b) :: u64)"
      by (simp add: push_bit_eq_mult of_nat_unat)
    also have "\<dots> = unat out * 256 + unat b" using True byte_less [of b] by (simp add: unat_of_nat del: of_nat_add of_nat_mult)
    finally have u: "unat (push_bit 8 out OR ucast b) = unat out * 256 + unat b" .
    have "uint64_loop out (b # bs) = uint64_loop (push_bit 8 out OR ucast b) bs" using True top by simp
    then show ?thesis unfolding eq by (simp only: Cons.IH u)
  next
    case False
    have "2 ^ 56 * 256 \<le> unat out * 256" using False by simp
    also have "\<dots> \<le> (unat out * 256 + unat b) * 256 ^ ?n"
      using mult_le_mono [of "unat out * 256" "unat out * 256 + unat b" 1 "256 ^ ?n"] by simp
    finally have "\<not> (unat out * 256 + unat b) * 256 ^ ?n + nat_of_bytes bs < 2 ^ 64" by simp
    then show ?thesis using False top by (simp only: uint64_loop.simps eq) simp
  qed
qed

lemma hd_nth_0: "bs \<noteq> [] \<Longrightarrow> bs ! 0 = hd bs"
  by (cases bs) simp_all

text \<open>The integer reader accepts the shortest encoding of every 64-bit value and nothing else.\<close>

lemma uint64_value_iff: "asn1_uint64_value bytes = Some v \<longleftrightarrow> bytes = integer_bytes (unat v)"
proof
  assume l: "asn1_uint64_value bytes = Some v"
  then have ne: "bytes \<noteq> []" and pos: "bytes ! 0 AND 0x80 = 0"
    and min: "\<not> (bytes ! 0 = 0 \<and> 1 < length bytes \<and> bytes ! 1 AND 0x80 = 0)" and v: "unat v = nat_of_bytes bytes"
    by (auto simp: asn1_uint64_value_def uint64_loop_Some split: if_splits)
  obtain b bs where b: "bytes = b # bs" using ne by (cases bytes) auto
  show "bytes = integer_bytes (unat v)"
  proof (cases "b = 0")
    case True
    then have "nat_of_bytes bytes = nat_of_bytes bs" using b by (simp add: nat_of_bytes_Cons)
    moreover have "bs = [] \<or> hd bs AND 0x80 \<noteq> 0" using min b True by (cases bs) auto
    moreover from this have "nat_bytes (nat_of_bytes bs) = bs" by (intro nat_bytes_nat_of_bytes) auto
    ultimately show ?thesis using v b True by (simp add: integer_bytes_def Let_def)
  next
    case False
    then have "nat_bytes (nat_of_bytes bytes) = bytes" using b by (intro nat_bytes_nat_of_bytes) simp
    then show ?thesis using v b pos by (simp add: integer_bytes_def)
  qed
next
  assume r: "bytes = integer_bytes (unat v)"
  let ?bs = "nat_bytes (unat v)"
  have n: "nat_of_bytes bytes = unat v"
    using r by (simp add: integer_bytes_def Let_def nat_of_bytes_nat_bytes nat_of_bytes_Cons)
  have loop: "uint64_loop 0 bytes = Some v"
    using n unsigned_less [of v] by (simp add: uint64_loop_Some)
  have hd: "?bs \<noteq> [] \<Longrightarrow> hd ?bs \<noteq> 0"
    using hd_nat_bytes [of "unat v"] by (cases "unat v = 0") (simp_all add: nat_bytes.simps)
  show "asn1_uint64_value bytes = Some v"
  proof (cases "?bs = [] \<or> hd ?bs AND 0x80 \<noteq> 0")
    case True
    then have "bytes = 0 # ?bs" using r by (simp add: integer_bytes_def Let_def)
    then show ?thesis using loop True by (cases ?bs) (auto simp: asn1_uint64_value_def)
  next
    case False
    then have "bytes = ?bs" using r by (simp add: integer_bytes_def Let_def)
    then show ?thesis using loop False hd by (simp add: asn1_uint64_value_def hd_nth_0)
  qed
qed

lemma get_uint64_iff:
  "CBS_get_asn1_uint64 c = (Ok v, c') \<longleftrightarrow> c = der_encode 2 (integer_bytes (unat v)) @ c'"
proof -
  have len: "length (integer_bytes (unat v)) < 2 ^ 32"
  proof -
    have "unat v < 256 ^ 8" using unsigned_less [of v] by simp
    then have "length (nat_bytes (unat v)) \<le> 8" by (simp only: length_nat_bytes)
    then show ?thesis by (simp add: integer_bytes_def Let_def)
  qed
  have tag: "(CBS_ASN1_INTEGER = ucast t) = (t = 2)" for t :: byte
  proof
    assume "CBS_ASN1_INTEGER = ucast t"
    then have "(ucast (CBS_ASN1_INTEGER) :: byte) = ucast (ucast t :: u32)" by simp
    moreover have "ucast (ucast t :: u32) = t" by (rule bit_word_eqI) (simp add: bit_unsigned_iff)
    ultimately show "t = 2" by (simp add: CBS_ASN1_INTEGER_def)
  qed (simp add: CBS_ASN1_INTEGER_def)
  show ?thesis
  proof
    assume "CBS_get_asn1_uint64 c = (Ok v, c')"
    then show "c = der_encode 2 (integer_bytes (unat v)) @ c'"
      by (auto simp: CBS_get_asn1_uint64_def seq_eq_Ok get_asn1_iff tag uint64_value_iff split: option.splits)
  next
    assume "c = der_encode 2 (integer_bytes (unat v)) @ c'"
    then have "CBS_get_asn1 CBS_ASN1_INTEGER c = (Ok (integer_bytes (unat v)), c')"
      unfolding get_asn1_iff tag using len by simp
    moreover have "asn1_uint64_value (integer_bytes (unat v)) = Some v" unfolding uint64_value_iff ..
    ultimately show "CBS_get_asn1_uint64 c = (Ok v, c')"
      by (simp add: CBS_get_asn1_uint64_def seq_def)
  qed
qed

section \<open>Length prefixes, booleans, bit strings\<close>

lemma length_prefixed_iff:
  assumes "k \<le> 4"
  shows "cbs_get_length_prefixed k c = (Ok body, c') \<longleftrightarrow>
    (\<exists>p. length p = k \<and> nat_of_bytes p = length body \<and> c = p @ body @ c')"
proof
  assume "cbs_get_length_prefixed k c = (Ok body, c')"
  then show "\<exists>p. length p = k \<and> nat_of_bytes p = length body \<and> c = p @ body @ c'"
    using assms by (auto simp: cbs_get_length_prefixed_def seq_eq_Ok cbs_get_u_iff CBS_get_bytes_eq cbs_get_iff)
next
  assume "\<exists>p. length p = k \<and> nat_of_bytes p = length body \<and> c = p @ body @ c'"
  then obtain p where p: "length p = k" "nat_of_bytes p = length body" "c = p @ body @ c'" by blast
  have "unat (be_word p :: u32) = length body" using p assms by (simp add: unat_be_word)
  then have "cbs_get_u k c = (Ok (be_word p), body @ c')"
    using p assms by (subst cbs_get_u_iff) auto
  then show "cbs_get_length_prefixed k c = (Ok body, c')"
    using \<open>unat (be_word p :: u32) = length body\<close>
    by (simp add: cbs_get_length_prefixed_def seq_def CBS_get_bytes_eq cbs_get_iff)
qed

lemma whole_Ok: "whole f child = Ok x \<longleftrightarrow> f child = (Ok x, [])"
  by (auto simp: whole_def CBS_len_def split: prod.splits outcome.splits)

lemma bool_value_iff:
  "asn1_bool_value child = Ok x \<longleftrightarrow>
    x = 0 \<and> child = [1, 1, 0] \<or> x = 1 \<and> child = [1, 1, 0xFF]"
proof -
  have tag: "(CBS_ASN1_BOOLEAN = ucast t) = (t = 1)" for t :: byte
  proof
    assume "CBS_ASN1_BOOLEAN = ucast t"
    moreover have "ucast (ucast t :: u32) = t" by (rule bit_word_eqI) (simp add: bit_unsigned_iff)
    ultimately show "t = 1" by (metis CBS_ASN1_BOOLEAN_def unsigned_1)
  qed (simp add: CBS_ASN1_BOOLEAN_def)
  have single: "whole (CBS_get_asn1 CBS_ASN1_BOOLEAN) child = Ok [b] \<longleftrightarrow> child = [1, 1, b]" for b
    by (auto simp: whole_Ok get_asn1_iff tag der_encode_def der_length_def)
  show ?thesis
  proof
    assume l: "asn1_bool_value child = Ok x"
    then obtain c2 where c2: "whole (CBS_get_asn1 CBS_ASN1_BOOLEAN) child = Ok c2" "length c2 = 1"
      by (auto simp: asn1_bool_value_def CBS_len_def split: outcome.splits if_splits)
    then obtain b where "c2 = [b]" by (auto simp: length_Suc_conv)
    with l c2 single show "x = 0 \<and> child = [1, 1, 0] \<or> x = 1 \<and> child = [1, 1, 0xFF]"
      by (auto simp: asn1_bool_value_def CBS_len_def byte_at_def split: if_splits)
  next
    assume "x = 0 \<and> child = [1, 1, 0] \<or> x = 1 \<and> child = [1, 1, 0xFF]"
    then obtain b where b: "child = [1, 1, b]" "x = 0 \<and> b = 0 \<or> x = 1 \<and> b = 0xFF" by blast
    have w: "whole (CBS_get_asn1 CBS_ASN1_BOOLEAN) child = Ok [b]" using single b(1) by blast
    show "asn1_bool_value child = Ok x"
      unfolding asn1_bool_value_def w using b(2) by (auto simp: CBS_len_def byte_at_def)
  qed
qed

lemma memcmp_foldl: "foldl (\<lambda>x (p, q). x OR (p XOR q)) a (zip xs ys) = a OR CRYPTO_memcmp xs ys"
proof (induction xs ys arbitrary: a rule: list_induct2')
  case (4 x xs y ys)
  have "foldl (\<lambda>x (p, q). x OR (p XOR q)) a (zip (x # xs) (y # ys)) = (a OR (x XOR y)) OR CRYPTO_memcmp xs ys"
    using 4 by simp
  moreover have "CRYPTO_memcmp (x # xs) (y # ys) = (x XOR y) OR CRYPTO_memcmp xs ys"
    using "4.IH" [of "x XOR y"] by (simp add: CRYPTO_memcmp_def)
  ultimately show ?case by (simp only: or.assoc)
qed (simp_all add: CRYPTO_memcmp_def)

lemma or_eq_0: "a OR b = 0 \<longleftrightarrow> a = 0 \<and> b = (0 :: 'a::len word)"
  by (auto simp: bit_eq_iff bit_or_iff)

lemma xor_eq_0: "a XOR b = 0 \<longleftrightarrow> a = (b :: 'a::len word)"
  by (auto simp: bit_eq_iff bit_xor_iff)

text \<open>The constant-time comparison decides equality.\<close>

lemma memcmp_zero_iff: "length a = length b \<Longrightarrow> CRYPTO_memcmp a b = 0 \<longleftrightarrow> a = b"
proof (induction a b rule: list_induct2)
  case Nil
  then show ?case by (simp add: CRYPTO_memcmp_def)
next
  case (Cons x xs y ys)
  have "CRYPTO_memcmp (x # xs) (y # ys) = (x XOR y) OR CRYPTO_memcmp xs ys"
    using memcmp_foldl [of "x XOR y" xs ys] by (simp add: CRYPTO_memcmp_def)
  with Cons show ?case by (simp add: or_eq_0 xor_eq_0)
qed

end
