(* ===== verification/Boring_CBB_Laws.thy ===== *)
theory Boring_CBB_Laws
  imports Boring_CBB Boring_CBS_Laws
begin

text \<open>
  The builder refines a chain of byte strings: \<open>(b, [(p\<^sub>1, b\<^sub>1), \<dots>])\<close> is what has been added to the
  top-level \<^verbatim>\<open>CBB\<close> and to each open child, with the kind of length prefix the child will get.
  Flushing closes children from the inside out.  The lemmas show that each operation of the code
  performs the abstract operation, stays inside its buffer, and never is undefined below a total
  size of $2^{62}$ bytes.
\<close>

section \<open>Fixed-width numbers\<close>

lemma nat_of_bytes_append: "nat_of_bytes (a @ b) = nat_of_bytes a * 256 ^ length b + nat_of_bytes b"
proof (induction b rule: rev_induct)
  case (snoc x b)
  have "nat_of_bytes (a @ b @ [x]) = nat_of_bytes (a @ b) * 256 + unat x"
    using nat_of_bytes_snoc [of "a @ b" x] by simp
  with snoc show ?case by (simp add: algebra_simps)
qed simp

lemma nat_of_bytes_inj:
  assumes "length a = length b" "nat_of_bytes a = nat_of_bytes b"
  shows "a = b"
  using assms
proof (induction a b rule: list_induct2)
  case (Cons x xs y ys)
  have l: "nat_of_bytes xs < 256 ^ length xs" "nat_of_bytes ys < 256 ^ length xs"
    using nat_of_bytes_less [of xs] nat_of_bytes_less [of ys] Cons.hyps by simp_all
  have "unat x = nat_of_bytes (x # xs) div 256 ^ length xs" using l by (simp add: nat_of_bytes_Cons)
  also have "\<dots> = unat y" using l Cons.hyps Cons.prems by (simp add: nat_of_bytes_Cons)
  finally have "x = y" by (simp add: word_unat_eq_iff)
  with Cons show ?case by (simp add: nat_of_bytes_Cons)
qed simp

lemma be_bytes_Suc: "be_bytes (Suc n) v = ucast (drop_bit (8 * n) v) # be_bytes n v"
  by (simp add: be_bytes_def le_bytes_def)

lemma unat_ucast_byte: "unat (ucast (x :: 'a::len word) :: byte) = unat x mod 256" if "8 \<le> LENGTH('a)"
  using that by (simp add: unsigned_ucast_eq take_bit_eq_mod)

lemma nat_of_be_bytes:
  assumes "8 \<le> LENGTH('a)"
  shows "nat_of_bytes (be_bytes n (v :: 'a::len word)) = unat v mod 256 ^ n"
proof (induction n)
  case 0
  then show ?case by (simp add: be_bytes_def le_bytes_def)
next
  case (Suc n)
  have "unat (ucast (drop_bit (8 * n) v) :: byte) = unat v div 256 ^ n mod 256"
    unfolding unat_ucast_byte [OF assms] unat_drop_bit_div by (simp add: power_mult)
  then have "nat_of_bytes (be_bytes (Suc n) v) = (unat v div 256 ^ n mod 256) * 256 ^ n + unat v mod 256 ^ n"
    by (simp add: be_bytes_Suc nat_of_bytes_Cons Suc)
  also have "\<dots> = unat v mod 256 ^ Suc n"
    using mod_mult2_eq [of "unat v" "256 ^ n" 256] by (simp add: mult.commute)
  finally show ?case .
qed

text \<open>The \<open>n\<close>-byte big-endian form of a number below $256^n$.\<close>

definition fixed_bytes :: "nat \<Rightarrow> nat \<Rightarrow> byte list"
  where "fixed_bytes n x = replicate (n - length (nat_bytes x)) 0 @ nat_bytes x"

lemma nat_of_zeros: "nat_of_bytes (replicate k 0) = 0"
  by (induction k) (simp_all add: nat_of_bytes_Cons)

lemma fixed_bytes_props:
  assumes "x < 256 ^ n"
  shows "length (fixed_bytes n x) = n" "nat_of_bytes (fixed_bytes n x) = x"
  using assms length_nat_bytes [of x n]
  by (simp_all add: fixed_bytes_def nat_of_bytes_append nat_of_zeros nat_of_bytes_nat_bytes)

lemma be_bytes_fixed:
  assumes "8 \<le> LENGTH('a)" "unat v < 256 ^ n"
  shows "be_bytes n (v :: 'a::len word) = fixed_bytes n (unat v)"
  using assms fixed_bytes_props [OF assms(2)]
  by (intro nat_of_bytes_inj) (simp_all add: nat_of_be_bytes)

section \<open>Writing into the buffer\<close>

definition buf_ok :: "cbb_buffer \<Rightarrow> bool"
  where "buf_ok b \<longleftrightarrow> length (bb_buf b) = unat (bb_cap b) \<and> bb_len b \<le> bb_cap b"

definition written :: "cbb_buffer \<Rightarrow> byte list"
  where "written b = take (unat (bb_len b)) (bb_buf b)"

lemma length_written: "buf_ok b \<Longrightarrow> length (written b) = unat (bb_len b)"
  by (simp add: buf_ok_def written_def word_le_nat_alt)

lemma put_bytes_Some:
  "put_bytes i bs blk = Some r \<longleftrightarrow> i + length bs \<le> length blk \<and> r = take i blk @ bs @ drop (i + length bs) blk"
  by (auto simp: put_bytes_def)

lemma store_be_eq:
  "pos + n \<le> length (bb_buf b) \<Longrightarrow>
    store_be pos n v b = (Ok (drop_bit (8 * n) v),
      b\<lparr>bb_buf := take pos (bb_buf b) @ be_bytes n v @ drop (pos + n) (bb_buf b)\<rparr>)"
proof (induction n arbitrary: v b)
  case 0
  then show ?case by (simp add: be_bytes_def le_bytes_def)
next
  case (Suc n)
  let ?buf = "take (pos + n) (bb_buf b) @ [ucast v] @ drop (pos + n + 1) (bb_buf b)"
  have "bb_put (pos + n) [ucast v] b = (Ok (), b\<lparr>bb_buf := ?buf\<rparr>)"
    using Suc.prems by (simp add: bb_put_def put_bytes_def)
  then have "store_be pos (Suc n) v b = store_be pos n (drop_bit 8 v) (b\<lparr>bb_buf := ?buf\<rparr>)" by (simp add: seq_def)
  also have "\<dots> = (Ok (drop_bit (8 * n) (drop_bit 8 v)),
      b\<lparr>bb_buf := take pos ?buf @ be_bytes n (drop_bit 8 v) @ drop (pos + n) ?buf\<rparr>)"
    using Suc.prems by (subst Suc.IH) simp_all
  also have "drop_bit (8 * n) (drop_bit 8 v) = drop_bit (8 * Suc n) v" by (simp add: add.commute)
  also have "take pos ?buf @ be_bytes n (drop_bit 8 v) @ drop (pos + n) ?buf =
      take pos (bb_buf b) @ be_bytes (Suc n) v @ drop (pos + Suc n) (bb_buf b)"
  proof -
    have "be_bytes (Suc n) v = be_bytes n (drop_bit 8 v) @ [ucast v]"
      by (simp add: be_bytes_def le_bytes_def upt_conv_Cons map_Suc_upt [symmetric] add.commute del: upt_Suc)
    then show ?thesis using Suc.prems by simp
  qed
  finally show ?case .
qed

lemma malloc_block:
  assumes "malloc_ok malloc" "OPENSSL_malloc malloc n = Ok (Some blk)"
  shows "length blk = unat n"
proof -
  from assms(2) obtain raw where raw: "malloc (n + 8) = Some raw" "8 \<le> length raw" "blk = drop 8 raw"
    by (auto simp: OPENSSL_malloc_def OPENSSL_MALLOC_PREFIX_def split: option.splits if_splits)
  then have l: "length raw = unat (n + 8)" using assms(1) by (simp add: malloc_ok_def)
  have "unat n < 2 ^ 64" using unsigned_less [of n] by simp
  then have "unat (n + 8) = (if unat n + 8 < 2 ^ 64 then unat n + 8 else unat n + 8 - 2 ^ 64)"
    by (simp add: unat_word_ariths mod_if)
  with l raw \<open>unat n < 2 ^ 64\<close> show ?thesis by (simp split: if_splits)
qed

lemma malloc_defined:
  assumes "malloc_ok malloc" "unat n < 2 ^ 63"
  shows "OPENSSL_malloc malloc n \<noteq> Undef" "OPENSSL_malloc malloc n \<noteq> Fail"
proof -
  have "unat (n + 8) = unat n + 8" using assms(2) by (simp add: unat_word_ariths)
  then show "OPENSSL_malloc malloc n \<noteq> Undef" "OPENSSL_malloc malloc n \<noteq> Fail"
    using assms(1) by (auto simp: OPENSSL_malloc_def OPENSSL_MALLOC_PREFIX_def malloc_ok_def split: option.splits)
qed

lemma realloc_block:
  assumes "malloc_ok malloc" "OPENSSL_realloc malloc (Some old) n = Ok (Some new)" "length old \<le> unat n"
  shows "length new = unat n" "take (length old) new = old"
proof -
  obtain blk where blk: "OPENSSL_malloc malloc n = Ok (Some blk)"
    "new = take (if length old < unat n then length old else unat n) old @
      drop (if length old < unat n then length old else unat n) blk"
    using assms(2) by (auto simp: OPENSSL_realloc_def Let_def split: outcome.splits option.splits if_splits)
  with malloc_block [OF assms(1) blk(1)] assms(3)
  show "length new = unat n" "take (length old) new = old" by auto
qed

lemma realloc_defined:
  assumes "malloc_ok malloc" "unat n < 2 ^ 63"
  shows "OPENSSL_realloc malloc (Some old) n \<noteq> Undef" "OPENSSL_realloc malloc (Some old) n \<noteq> Fail"
  using malloc_defined [OF assms] malloc_block [OF assms(1)]
  by (auto simp: OPENSSL_realloc_def Let_def split: outcome.splits option.splits)

text \<open>What a buffer operation keeps: the mode and, except on failure, the error flag; the capacity
  never shrinks, and that of a fixed buffer never changes.\<close>

definition same_mode :: "cbb_buffer \<Rightarrow> cbb_buffer \<Rightarrow> bool"
  where "same_mode b b' \<longleftrightarrow> bb_can_resize b' = bb_can_resize b \<and> bb_error b' = bb_error b \<and>
    bb_cap b \<le> bb_cap b' \<and> (\<not> bb_can_resize b \<longrightarrow> bb_cap b' = bb_cap b)"

lemma same_mode_refl [simp]: "same_mode b b"
  by (simp add: same_mode_def)

lemma same_mode_trans: "same_mode a b \<Longrightarrow> same_mode b c \<Longrightarrow> same_mode a c"
  by (auto simp: same_mode_def)

lemma unat_add_size:
  assumes "\<not> a + n < (a :: size_t)"
  shows "unat (a + n) = unat a + unat n"
proof (cases "unat a + unat n < 2 ^ 64")
  case True
  then show ?thesis by (simp add: unat_word_ariths)
next
  case False
  have "unat a < 2 ^ 64" "unat n < 2 ^ 64" using unsigned_less [of a] unsigned_less [of n] by simp_all
  with False have "(unat a + unat n) mod 2 ^ 64 = unat a + unat n - 2 ^ 64" by (subst mod_if) simp
  then have "unat (a + n) = unat a + unat n - 2 ^ 64" by (simp add: unat_word_ariths)
  with \<open>unat n < 2 ^ 64\<close> False have "unat (a + n) < unat a" by linarith
  with assms show ?thesis by (simp add: word_less_nat_alt)
qed

lemma reserve_Ok:
  assumes ok: "malloc_ok malloc" "buf_ok b" and r: "cbb_buffer_reserve malloc n b = (Ok u, b')"
  shows "buf_ok b'" "bb_len b' = bb_len b" "written b' = written b" "same_mode b b'"
    "unat (bb_len b) + unat n \<le> unat (bb_cap b')" "unat (bb_len b + n) = unat (bb_len b) + unat n"
proof -
  let ?new = "bb_len b + n"
  have nw: "\<not> ?new < bb_len b" using r by (auto simp: cbb_buffer_reserve_def Let_def cbb_err_def split: if_splits)
  then show u: "unat ?new = unat (bb_len b) + unat n" by (rule unat_add_size)
  have all: "buf_ok b' \<and> bb_len b' = bb_len b \<and> written b' = written b \<and> same_mode b b' \<and>
      unat (bb_len b) + unat n \<le> unat (bb_cap b')"
  proof (cases "bb_cap b < ?new")
    case False
    with r nw have "b' = b" by (auto simp: cbb_buffer_reserve_def Let_def)
    with False ok(2) u show ?thesis by (simp add: not_less word_le_nat_alt)
  next
    case True
    let ?cap = "if bb_cap b * 2 < bb_cap b \<or> bb_cap b * 2 < ?new then ?new else bb_cap b * 2"
    obtain newbuf where nb: "OPENSSL_realloc malloc (Some (bb_buf b)) ?cap = Ok (Some newbuf)"
      and b': "b' = b\<lparr>bb_buf := newbuf, bb_cap := ?cap\<rparr>"
      using r nw True by (auto simp: cbb_buffer_reserve_def Let_def cbb_err_def split: if_splits outcome.splits option.splits)
    have le: "?new \<le> ?cap" "bb_cap b \<le> ?cap" using True by auto
    then have lo: "length (bb_buf b) \<le> unat ?cap" using ok(2) by (simp only: buf_ok_def word_le_nat_alt)
    note nbp = realloc_block [OF ok(1) nb lo]
    have lc: "bb_len b \<le> ?cap" using ok(2) le(2) by (auto simp only: buf_ok_def intro: order_trans)
    have "take (unat (bb_len b)) newbuf = take (unat (bb_len b)) (take (length (bb_buf b)) newbuf)"
      using ok(2) by (simp add: buf_ok_def word_le_nat_alt min_def)
    also have "\<dots> = written b" unfolding nbp(2) by (simp add: written_def)
    finally have w: "take (unat (bb_len b)) newbuf = written b" .
    have "unat ?new \<le> unat ?cap" using le(1) by (simp only: word_le_nat_alt)
    moreover have "bb_can_resize b" using r nw True by (auto simp: cbb_buffer_reserve_def Let_def cbb_err_def split: if_splits)
    ultimately show ?thesis unfolding b' using nbp(1) lc w u le(2) by (simp add: buf_ok_def written_def same_mode_def)
  qed
  then show "buf_ok b'" "bb_len b' = bb_len b" "written b' = written b" "same_mode b b'"
    "unat (bb_len b) + unat n \<le> unat (bb_cap b')" by simp_all
qed

lemma reserve_Fail: "cbb_buffer_reserve malloc n b = (Fail, b') \<Longrightarrow> bb_error b'"
  by (auto simp: cbb_buffer_reserve_def Let_def cbb_err_def split: if_splits outcome.splits option.splits)

text \<open>Room for \<open>n\<close> more bytes: within the capacity, or in a growing buffer whose \<^verbatim>\<open>malloc\<close> does
  not fail.\<close>

definition has_room :: "c_malloc \<Rightarrow> nat \<Rightarrow> cbb_buffer \<Rightarrow> bool" where
  "has_room malloc n b \<longleftrightarrow> unat (bb_len b) + n < 2 ^ 62 \<and>
    (unat (bb_len b) + n \<le> unat (bb_cap b) \<or> bb_can_resize b \<and> (\<forall>k. malloc k \<noteq> None))"

lemma reserve_defined:
  assumes ok: "malloc_ok malloc" "buf_ok b" and n: "unat (bb_len b) + unat n < 2 ^ 62"
  shows "fst (cbb_buffer_reserve malloc n b) \<noteq> Undef"
    and "has_room malloc (unat n) b \<Longrightarrow> fst (cbb_buffer_reserve malloc n b) = Ok ()"
proof -
  let ?new = "bb_len b + n"
  have u: "unat ?new = unat (bb_len b) + unat n" using n by (simp add: unat_word_ariths)
  then have nw: "\<not> ?new < bb_len b" by (simp add: word_less_nat_alt)
  let ?cap = "if bb_cap b * 2 < bb_cap b \<or> bb_cap b * 2 < ?new then ?new else bb_cap b * 2"
  have cap: "unat ?cap < 2 ^ 63" if "bb_cap b < ?new"
  proof -
    have "unat (bb_cap b) < 2 ^ 62" using that n u by (simp add: word_less_nat_alt)
    then have "unat (bb_cap b * 2) < 2 ^ 63" by (simp add: unat_word_ariths)
    then show ?thesis using n u by simp
  qed
  show "fst (cbb_buffer_reserve malloc n b) \<noteq> Undef"
    using nw realloc_defined(1) [OF ok(1) cap, of "bb_buf b"]
    by (auto simp: cbb_buffer_reserve_def Let_def cbb_err_def split: outcome.splits option.splits)
  assume room: "has_room malloc (unat n) b"
  show "fst (cbb_buffer_reserve malloc n b) = Ok ()"
  proof (cases "bb_cap b < ?new")
    case False
    with nw show ?thesis by (simp add: cbb_buffer_reserve_def Let_def)
  next
    case True
    then have g: "bb_can_resize b" "\<forall>k. malloc k \<noteq> None"
      using room u by (auto simp: has_room_def word_less_nat_alt)
    have "OPENSSL_malloc malloc m \<noteq> Ok None" for m
      using g(2) by (auto simp: OPENSSL_malloc_def split: option.splits)
    then have "OPENSSL_realloc malloc (Some (bb_buf b)) ?cap \<noteq> Ok None"
      by (auto simp: OPENSSL_realloc_def Let_def split: outcome.splits option.splits)
    then obtain newbuf where "OPENSSL_realloc malloc (Some (bb_buf b)) ?cap = Ok (Some newbuf)"
      using realloc_defined [OF ok(1) cap [OF True], of "bb_buf b"]
      by (cases "OPENSSL_realloc malloc (Some (bb_buf b)) ?cap") auto
    then show ?thesis using nw True g(1) by (simp add: cbb_buffer_reserve_def Let_def)
  qed
qed

lemma add_Ok:
  assumes "malloc_ok malloc" "buf_ok b" and r: "cbb_buffer_add malloc n b = (Ok pos, b')"
  shows "pos = unat (bb_len b)" "buf_ok b'" "unat (bb_len b') = unat (bb_len b) + unat n"
    "take (unat (bb_len b)) (bb_buf b') = written b" "same_mode b b'" "unat (bb_len b) + unat n \<le> length (bb_buf b')"
proof -
  obtain b1 where b1: "cbb_buffer_reserve malloc n b = (Ok (), b1)" "pos = unat (bb_len b1)"
    "b' = b1\<lparr>bb_len := bb_len b1 + n\<rparr>"
    using r by (auto simp: cbb_buffer_add_def seq_eq_Ok)
  note R = reserve_Ok [OF assms(1,2) b1(1)]
  have len: "length (bb_buf b1) = unat (bb_cap b1)" using R(1) by (simp add: buf_ok_def)
  have le: "bb_len b1 + n \<le> bb_cap b1" using R(2,5,6) by (simp add: word_le_nat_alt)
  show "pos = unat (bb_len b)" "unat (bb_len b') = unat (bb_len b) + unat n" "same_mode b b'"
    "unat (bb_len b) + unat n \<le> length (bb_buf b')" "take (unat (bb_len b)) (bb_buf b') = written b"
    using b1(2,3) R(2-6) len by (simp_all add: same_mode_def written_def)
  show "buf_ok b'" using b1(3) len le by (simp add: buf_ok_def)
qed

lemma add_Fail: "cbb_buffer_add malloc n b = (Fail, b') \<Longrightarrow> bb_error b'"
  using reserve_Fail [of malloc n b] by (auto simp: cbb_buffer_add_def seq_def split: prod.splits outcome.splits)

lemma add_defined:
  assumes ok: "malloc_ok malloc" "buf_ok b" and n: "unat (bb_len b) + unat n < 2 ^ 62"
  shows "fst (cbb_buffer_add malloc n b) \<noteq> Undef"
    and "has_room malloc (unat n) b \<Longrightarrow> \<exists>pos b'. cbb_buffer_add malloc n b = (Ok pos, b')"
proof -
  obtain r b1 where r: "cbb_buffer_reserve malloc n b = (r, b1)" by (cases "cbb_buffer_reserve malloc n b")
  with reserve_defined [OF ok n] show "fst (cbb_buffer_add malloc n b) \<noteq> Undef"
    "has_room malloc (unat n) b \<Longrightarrow> \<exists>pos b'. cbb_buffer_add malloc n b = (Ok pos, b')"
    by (cases r; simp add: cbb_buffer_add_def seq_def)+
qed

section \<open>Length prefixes\<close>

datatype cbb_prefix = Fixed_prefix nat | Der_prefix

fun prefix_size :: "cbb_prefix \<Rightarrow> nat" where
  "prefix_size (Fixed_prefix n) = n"
| "prefix_size Der_prefix = 1"

fun prefix_fits :: "cbb_prefix \<Rightarrow> nat \<Rightarrow> bool" where
  "prefix_fits (Fixed_prefix n) x = (x < 256 ^ n)"
| "prefix_fits Der_prefix x = (x \<le> 0xfffffffe)"

fun prefix_bytes :: "cbb_prefix \<Rightarrow> nat \<Rightarrow> byte list" where
  "prefix_bytes (Fixed_prefix n) x = fixed_bytes n x"
| "prefix_bytes Der_prefix x = der_length x"

definition child_matches :: "cbb_child \<Rightarrow> cbb_prefix \<Rightarrow> bool" where
  "child_matches c p \<longleftrightarrow> ch_pending_len_len c = of_nat (prefix_size p) \<and> prefix_size p \<in> {1..3} \<and>
    ch_pending_is_asn1 c = (p = Der_prefix)"

lemma write_length_eq:
  assumes "pos + n \<le> length (bb_buf b)"
  shows "write_length pos n len b =
    (let b' = b\<lparr>bb_buf := take pos (bb_buf b) @ be_bytes n len @ drop (pos + n) (bb_buf b)\<rparr>
     in if unat len < 256 ^ n then (Ok (), b') else cbb_err b')"
proof -
  have "drop_bit (8 * n) len = 0 \<longleftrightarrow> unat (drop_bit (8 * n) len) = 0" by (simp only: unat_eq_0)
  also have "\<dots> \<longleftrightarrow> unat len < 256 ^ n" unfolding unat_drop_bit_div by (simp add: div_eq_0_iff power_mult)
  finally show ?thesis by (simp add: write_length_def seq_def store_be_eq [OF assms] Let_def)
qed

lemma asn1_len_len_eq:
  assumes "unat len \<le> 0xffffffff"
  shows "asn1_len_len len = (if unat len < 128 then 1 else 1 + length (nat_bytes (unat len)))"
proof -
  have l: "length (nat_bytes (unat len)) \<le> k \<longleftrightarrow> unat len < 256 ^ k" for k by (rule length_nat_bytes)
  have "unat len < 256 ^ 4" using assms by simp
  moreover have "length (nat_bytes (unat len)) = k" if "unat len < 256 ^ k" "\<not> unat len < 256 ^ (k - 1)" "0 < k" for k
    using that l [of k] l [of "k - 1"] by simp
  from this [of 4] this [of 3] this [of 2] this [of 1] calculation
  show ?thesis by (auto simp: asn1_len_len_def word_less_nat_alt not_less)
qed

lemma asn1_first_byte: "k \<le> 4 \<Longrightarrow> 0x80 OR of_nat k = (of_nat (128 + k) :: byte)"
proof -
  assume "k \<le> 4"
  then have "k = 0 \<or> k = 1 \<or> k = 2 \<or> k = 3 \<or> k = 4" by arith
  then show ?thesis by (elim disjE) simp_all
qed

definition closing :: "cbb_child \<Rightarrow> cbb_prefix \<Rightarrow> byte list \<Rightarrow> byte list \<Rightarrow> cbb_buffer \<Rightarrow> bool" where
  "closing c p pre body b \<longleftrightarrow> buf_ok b \<and> child_matches c p \<and> unat (ch_offset c) = length pre \<and>
    (\<exists>z. written b = pre @ z @ body \<and> length z = prefix_size p)"

definition closed :: "cbb_prefix \<Rightarrow> byte list \<Rightarrow> byte list \<Rightarrow> cbb_buffer \<Rightarrow> cbb_buffer \<Rightarrow> bool" where
  "closed p pre body b b' \<longleftrightarrow> buf_ok b' \<and> same_mode b b' \<and>
    written b' = pre @ prefix_bytes p (length body) @ body"

lemma closing_start:
  assumes "closing c p pre body b"
  shows "unat (ch_offset c + ucast (ch_pending_len_len c)) = length pre + prefix_size p"
    "unat (bb_len b) = length pre + prefix_size p + length body"
    "\<not> ch_offset c + ucast (ch_pending_len_len c) < ch_offset c"
    "\<not> bb_len b < ch_offset c + ucast (ch_pending_len_len c)"
    "unat (bb_len b - (ch_offset c + ucast (ch_pending_len_len c))) = length body"
proof -
  show l: "unat (bb_len b) = length pre + prefix_size p + length body"
    using assms length_written [of b] by (auto simp: closing_def)
  have *: "unat (ch_pending_len_len c) = prefix_size p"
    using assms by (auto simp: closing_def child_matches_def unat_of_nat_byte)
  have bl: "unat (bb_len b) < 2 ^ 64" using unsigned_less [of "bb_len b"] by simp
  from * have u: "unat (ucast (ch_pending_len_len c) :: size_t) = prefix_size p" by simp
  have "unat (ch_offset c) = length pre" using assms by (simp add: closing_def)
  with u show s: "unat (ch_offset c + ucast (ch_pending_len_len c)) = length pre + prefix_size p"
    using l bl by (simp add: unat_word_ariths)
  then show "\<not> ch_offset c + ucast (ch_pending_len_len c) < ch_offset c"
    using \<open>unat (ch_offset c) = length pre\<close> by (simp add: word_less_nat_alt)
  show nl: "\<not> bb_len b < ch_offset c + ucast (ch_pending_len_len c)" using s l by (simp add: word_less_nat_alt)
  then show "unat (bb_len b - (ch_offset c + ucast (ch_pending_len_len c))) = length body"
    using s l by (simp add: unat_sub not_less)
qed

lemma written_split:
  assumes "buf_ok b" "written b = x"
  shows "bb_buf b = x @ drop (length x) (bb_buf b)"
proof -
  have "length x = unat (bb_len b)" using assms length_written by auto
  moreover have "take (unat (bb_len b)) (bb_buf b) = x" using assms(2) by (simp add: written_def)
  ultimately show ?thesis using append_take_drop_id [of "unat (bb_len b)" "bb_buf b"] by simp
qed

lemma close_fixed:
  assumes c: "closing c (Fixed_prefix n) pre body b"
  shows "(if length body < 256 ^ n then \<exists>b'. close_child malloc c b = (Ok (), b') \<and> closed (Fixed_prefix n) pre body b b'
     else \<exists>b'. close_child malloc c b = (Fail, b'))"
proof -
  let ?len = "bb_len b - (ch_offset c + ucast (ch_pending_len_len c))"
  note st = closing_start [OF c]
  obtain z where z: "written b = pre @ z @ body" "length z = n" using c by (auto simp: closing_def)
  have ok: "buf_ok b" using c by (simp add: closing_def)
  have pend: "unat (ch_pending_len_len c) = n" "\<not> ch_pending_is_asn1 c" "unat (ch_offset c) = length pre"
    using c by (auto simp: closing_def child_matches_def unat_of_nat_byte)
  obtain R where R: "bb_buf b = pre @ z @ body @ R" using written_split [OF ok z(1)] by auto
  have "close_child malloc c b = write_length (length pre) n ?len b"
    using st pend by (simp add: close_child_def Let_def)
  also have "\<dots> = (let b' = b\<lparr>bb_buf := pre @ be_bytes n ?len @ body @ R\<rparr>
      in if length body < 256 ^ n then (Ok (), b') else cbb_err b')"
    using R z st by (subst write_length_eq) simp_all
  finally have eq: "close_child malloc c b = (let b' = b\<lparr>bb_buf := pre @ be_bytes n ?len @ body @ R\<rparr>
      in if length body < 256 ^ n then (Ok (), b') else cbb_err b')" .
  have "closed (Fixed_prefix n) pre body b (b\<lparr>bb_buf := pre @ be_bytes n ?len @ body @ R\<rparr>)" if "length body < 256 ^ n"
    using ok R z st that fixed_bytes_props(1) [OF that]
    by (simp add: closed_def buf_ok_def same_mode_def written_def be_bytes_fixed)
  then show ?thesis unfolding eq by (auto simp: Let_def cbb_err_def)
qed

lemma close_der_long:
  assumes ok: "buf_ok b" "malloc_ok malloc" and b: "written b = pre @ z # body" and n: "length body = unat len"
    and k: "unat len \<le> 0xfffffffe" "128 \<le> unat len" "k = length (nat_bytes (unat len))"
    and r: "seq (move_contents malloc (Suc (length pre)) k (unat len))
      (\<lambda>_. seq (bb_put (length pre) [0x80 OR of_nat k]) (\<lambda>_. write_length (Suc (length pre)) k len)) b = (r, b')"
    and that: "unat (bb_len b) + 4 < 2 ^ 62"
  shows "(case r of Ok _ \<Rightarrow> closed Der_prefix pre body b b' | Fail \<Rightarrow> True | Undef \<Rightarrow> False) \<and>
      (has_room malloc 4 b \<longrightarrow> r = Ok ())"
proof -
  note d = der_length_long [of "length body"]
  have k4: "1 \<le> k" "k \<le> 4" using d(2) k n by auto
  obtain q b1 where q: "cbb_buffer_add malloc (of_nat k) b = (q, b1)" by (cases "cbb_buffer_add malloc (of_nat k) b")
  have uk: "unat (of_nat k :: size_t) = k" using k4 by (simp add: unat_of_nat)
  note def = add_defined [OF ok(2,1), of "of_nat k", unfolded uk]
  have room: "has_room malloc 4 b \<Longrightarrow> has_room malloc k b" using k4 by (auto simp: has_room_def)
  show ?thesis
  proof (cases q)
    case Fail
    then have "r = Fail" "\<not> has_room malloc 4 b"
      using r q def room that k4 by (auto simp: move_contents_def seq_def)
    then show ?thesis by simp
  next
    case Undef
    then show ?thesis using def(1) q that k4 by simp
  next
    case (Ok pos)
    note A = add_Ok [OF ok(2,1) q [unfolded Ok]]
    have len: "unat (bb_len b) = length pre + 1 + length body" using length_written [OF ok(1)] b by simp
    obtain R where R: "bb_buf b1 = pre @ z # body @ R" "k \<le> length R"
    proof
      have "bb_buf b1 = (pre @ z # body) @ drop (unat (bb_len b)) (bb_buf b1)" using A(4) b by (metis append_take_drop_id)
      then show "bb_buf b1 = pre @ z # body @ drop (unat (bb_len b)) (bb_buf b1)" by simp
      show "k \<le> length (drop (unat (bb_len b)) (bb_buf b1))" using A(6) uk by simp
    qed
    let ?X = "take k (body @ R)"
    let ?b2 = "b1\<lparr>bb_buf := pre @ z # ?X @ body @ drop k R\<rparr>"
    have "move_contents malloc (Suc (length pre)) k (unat len) b = (Ok (), ?b2)"
      using q Ok R n by (simp add: move_contents_def seq_def bb_put_def put_bytes_def)
    moreover have "bb_put (length pre) [0x80 OR of_nat k] ?b2 =
        (Ok (), b1\<lparr>bb_buf := pre @ (0x80 OR of_nat k) # ?X @ body @ drop k R\<rparr>)"
      by (simp add: bb_put_def put_bytes_def)
    moreover have "write_length (Suc (length pre)) k len (b1\<lparr>bb_buf := pre @ (0x80 OR of_nat k) # ?X @ body @ drop k R\<rparr>) =
        (Ok (), b1\<lparr>bb_buf := pre @ (0x80 OR of_nat k) # be_bytes k len @ body @ drop k R\<rparr>)"
    proof -
      have "unat len < 256 ^ k" using length_nat_bytes [of "unat len" k] k(3) by simp
      then show ?thesis using R by (subst write_length_eq) (auto simp: Let_def min_def)
    qed
    ultimately have rb: "r = Ok ()" "b' = b1\<lparr>bb_buf := pre @ (0x80 OR of_nat k) # be_bytes k len @ body @ drop k R\<rparr>"
      using r by (simp_all add: seq_def)
    have "be_bytes k len = nat_bytes (unat len)"
      using k(3) length_nat_bytes [of "unat len" k] by (subst be_bytes_fixed) (simp_all add: fixed_bytes_def)
    then have "der_length (length body) = (0x80 OR of_nat k) # be_bytes k len"
      using d(1) k n asn1_first_byte [OF k4(2)] by simp
    then have "closed Der_prefix pre body b b'"
      using rb A R len uk by (simp add: closed_def buf_ok_def written_def same_mode_def)
    then show ?thesis using rb by simp
  qed
qed

lemma close_der:
  assumes c: "closing c Der_prefix pre body b" and ok: "malloc_ok malloc" and n: "unat (bb_len b) + 4 < 2 ^ 62"
    and r: "close_child malloc c b = (r, b')"
  shows "(case r of Ok _ \<Rightarrow> closed Der_prefix pre body b b' \<and> length body \<le> 0xfffffffe | Fail \<Rightarrow> True | Undef \<Rightarrow> False) \<and>
      (length body \<le> 0xfffffffe \<longrightarrow> has_room malloc 4 b \<longrightarrow> r = Ok ())"
proof -
  let ?len = "bb_len b - (ch_offset c + ucast (ch_pending_len_len c))"
  let ?ll = "asn1_len_len ?len"
  note st = closing_start [OF c]
  have len: "unat ?len = length body" by (rule st(5))
  have bok: "buf_ok b" using c by (simp add: closing_def)
  obtain z where z: "written b = pre @ z # body" using c by (auto simp: closing_def length_Suc_conv)
  have pend: "ch_pending_len_len c = 1" "ch_pending_is_asn1 c" "unat (ch_offset c) = length pre"
    using c by (auto simp: closing_def child_matches_def)
  have lim: "0xfffffffe < ?len \<longleftrightarrow> 0xfffffffe < length body" using len by (simp add: word_less_nat_alt)
  show ?thesis
  proof (cases "0xfffffffe < length body")
    case True
    then have "r = Fail" using r st pend lim by (auto simp: close_child_def Let_def cbb_err_def)
    with True show ?thesis by simp
  next
    case False
    have ll: "?ll = (if length body < 128 then 1 else 1 + length (nat_bytes (length body)))"
      using asn1_len_len_eq [of ?len] False len by simp
    have eq: "close_child malloc c b =
        seq (if ?ll \<noteq> 1 then move_contents malloc (Suc (length pre)) (?ll - 1) (length body) else ret ())
          (\<lambda>_. seq (bb_put (length pre) [if ?ll = 1 then ucast ?len else 0x80 OR of_nat (?ll - 1)])
            (\<lambda>_. write_length (Suc (length pre)) (?ll - 1) (if ?ll = 1 then 0 else ?len))) b"
      using st(1,3,4) pend lim False len by (simp add: close_child_def Let_def)
    show ?thesis
    proof (cases "length body < 128")
      case short: True
      then have l1: "?ll = 1" using ll by simp
      obtain R where R: "bb_buf b = pre @ z # body @ R" using written_split [OF bok z] by auto
      have "r = Ok ()" "b' = b\<lparr>bb_buf := pre @ ucast ?len # body @ R\<rparr>"
        using r unfolding eq l1
        by (auto simp: seq_def bb_put_def put_bytes_def R write_length_def)
      moreover have "der_length (length body) = [ucast ?len]"
      proof -
        have "(ucast ?len :: byte) = of_nat (length body)"
          using short len by (intro word_unat_eq_iff [THEN iffD2]) (simp add: unat_ucast_byte unat_of_nat_byte)
        with short show ?thesis by (simp add: der_length_def)
      qed
      ultimately show ?thesis using bok R st(2) short
        by (simp add: closed_def buf_ok_def written_def same_mode_def)
    next
      case long: False
      then have l1: "?ll - 1 = length (nat_bytes (unat ?len))" "?ll \<noteq> 1"
        using ll len long hd_nat_bytes [of "length body"] by (simp_all split: if_splits) (cases body; simp)
      have r': "seq (move_contents malloc (Suc (length pre)) (?ll - 1) (unat ?len))
          (\<lambda>_. seq (bb_put (length pre) [0x80 OR of_nat (?ll - 1)])
            (\<lambda>_. write_length (Suc (length pre)) (?ll - 1) ?len)) b = (r, b')"
        using r l1(2) unfolding eq len by simp
      have "length body = unat ?len" "unat ?len \<le> 0xfffffffe" "128 \<le> unat ?len" using len False long by simp_all
      from close_der_long [OF bok ok z this l1(1) r' n] False show ?thesis by (cases r) simp_all
    qed
  qed
qed

text \<open>Both kinds of prefix together.\<close>

lemma close_child_props:
  assumes c: "closing c p pre body b" and ok: "malloc_ok malloc" and n: "unat (bb_len b) + 4 < 2 ^ 62"
    and r: "close_child malloc c b = (r, b')"
  shows "r = Ok () \<Longrightarrow> closed p pre body b b' \<and> prefix_fits p (length body)"
    and "r \<noteq> Undef"
    and "prefix_fits p (length body) \<Longrightarrow> has_room malloc 4 b \<Longrightarrow> r = Ok ()"
proof -
  have "(r = Ok () \<longrightarrow> closed p pre body b b' \<and> prefix_fits p (length body)) \<and> r \<noteq> Undef \<and>
      (prefix_fits p (length body) \<longrightarrow> has_room malloc 4 b \<longrightarrow> r = Ok ())"
  proof (cases p)
    case (Fixed_prefix k)
    with close_fixed [of c k pre body b malloc] c r show ?thesis by (auto split: if_splits)
  next
    case Der_prefix
    with close_der [OF _ ok n r, of pre body] c show ?thesis by (cases r) auto
  qed
  then show "r = Ok () \<Longrightarrow> closed p pre body b b' \<and> prefix_fits p (length body)" "r \<noteq> Undef"
    "prefix_fits p (length body) \<Longrightarrow> has_room malloc 4 b \<Longrightarrow> r = Ok ()" by simp_all
qed

end
