(* ===== verification/Boring_CBB_Refine.thy ===== *)
theory Boring_CBB_Refine
  imports Boring_CBB_Laws
begin

text \<open>
  The builder as an abstract data type.  A builder under construction is the byte string of the
  top-level \<^verbatim>\<open>CBB\<close> and, for each open child from the outside in, its kind of length prefix and
  what has been added to it.  An operation on handle \<open>k\<close> first closes the children deeper than
  \<open>k\<close>.  The simulation shows that the code's single buffer with pending length bytes implements this.
\<close>

section \<open>The abstract builder\<close>

type_synonym frames = "(cbb_prefix \<times> byte list) list"
type_synonym builder = "byte list \<times> frames"

fun collapse :: "frames \<Rightarrow> byte list" where
  "collapse [] = []"
| "collapse ((p, b) # fs) =
    (let body = b @ collapse fs in prefix_bytes p (length body) @ body)"

fun frames_fit :: "frames \<Rightarrow> bool" where
  "frames_fit [] = True"
| "frames_fit ((p, b) # fs) = (frames_fit fs \<and> prefix_fits p (length (b @ collapse fs)))"

fun close_at :: "nat \<Rightarrow> byte list \<Rightarrow> frames \<Rightarrow> builder option" where
  "close_at 0 b fs = (if frames_fit fs then Some (b @ collapse fs, []) else None)"
| "close_at (Suc k) b [] = None"
| "close_at (Suc k) b ((p, b') # fs) =
    map_option (\<lambda>(b'', fs'). (b, (p, b'') # fs')) (close_at k b' fs)"

fun append_inner :: "byte list \<Rightarrow> byte list \<Rightarrow> frames \<Rightarrow> builder" where
  "append_inner bs b [] = (b @ bs, [])"
| "append_inner bs b ((p, b') # fs) = (case append_inner bs b' fs of (b'', fs') \<Rightarrow> (b, (p, b'') # fs'))"

fun builder_size :: "byte list \<Rightarrow> frames \<Rightarrow> nat" where
  "builder_size b [] = length b"
| "builder_size b ((p, b') # fs) = length b + prefix_size p + builder_size b' fs"

section \<open>The relation to the code's state\<close>

text \<open>\<open>opened pre fs cs w\<close>: the bytes \<open>w\<close> are \<open>pre\<close> followed, for each open child, by its
  placeholder and contents, and the children \<open>cs\<close> point at the placeholders.\<close>

fun opened :: "byte list \<Rightarrow> frames \<Rightarrow> cbb_child list \<Rightarrow> byte list \<Rightarrow> bool" where
  "opened pre [] cs w = (cs = [] \<and> w = pre)"
| "opened pre ((p, b) # fs) [] w = False"
| "opened pre ((p, b) # fs) (c # cs) w =
    (child_matches c p \<and> unat (ch_offset c) = length pre \<and>
     (\<exists>z. length z = prefix_size p \<and> opened (pre @ z @ b) fs cs w))"

definition represents :: "builder \<Rightarrow> cbb \<Rightarrow> bool" where
  "represents a c \<longleftrightarrow>
    (\<exists>b. cb_base c = Some b \<and> buf_ok b \<and> \<not> bb_error b \<and> opened (fst a) (snd a) (cb_children c) (written b))"

lemma opened_length: "opened pre fs cs w \<Longrightarrow> length cs = length fs \<and> length w = builder_size pre fs"
proof (induction pre fs cs w rule: opened.induct)
  case (3 pre p b fs c cs w)
  then obtain z where z: "length z = prefix_size p" "opened (pre @ z @ b) fs cs w" by auto
  have "builder_size (pre @ z @ b) fs = length pre + prefix_size p + builder_size b fs"
    using z(1) by (cases fs) (auto split: prod.splits)
  with 3 z show ?case by auto
qed auto

lemma opened_prefix: "opened pre fs cs w \<Longrightarrow> \<exists>v. w = pre @ v"
  by (induction pre fs cs w rule: opened.induct) auto

lemma room_after:
  assumes "has_room malloc (n + m) b" "same_mode b b'" "unat (bb_len b') \<le> unat (bb_len b) + m"
  shows "has_room malloc n b'"
proof -
  have "unat (bb_cap b) \<le> unat (bb_cap b')" using assms(2) by (simp add: same_mode_def word_le_nat_alt)
  with assms show ?thesis by (auto simp: has_room_def same_mode_def)
qed

lemma has_room_mono: "has_room malloc n b \<Longrightarrow> m \<le> n \<Longrightarrow> has_room malloc m b"
  by (auto simp: has_room_def)

lemma closing_room:
  assumes "closed p pre body b b'" "closing c p pre body b" "prefix_fits p (length body)"
  shows "unat (bb_len b') \<le> unat (bb_len b) + 4"
    "has_room malloc (n + 4) b \<Longrightarrow> has_room malloc n b'"
proof -
  have "length (prefix_bytes p (length body)) \<le> prefix_size p + 4"
  proof (cases p)
    case Der_prefix
    have "length (nat_bytes (length body)) \<le> 4" if "length body \<le> 0xfffffffe"
      using that by (subst length_nat_bytes) simp
    with assms(3) Der_prefix show ?thesis by (auto simp: der_length_def)
  qed (use assms(3) fixed_bytes_props(1) in \<open>auto\<close>)
  moreover have "length (written b') = unat (bb_len b')"
    using assms(1) length_written [of b'] unfolding closed_def by blast
  moreover have "written b' = pre @ prefix_bytes p (length body) @ body" using assms(1) by (simp add: closed_def)
  ultimately show l: "unat (bb_len b') \<le> unat (bb_len b) + 4" using closing_start(2) [OF assms(2)] by simp
  have "same_mode b b'" using assms(1) by (simp add: closed_def)
  then show "has_room malloc (n + 4) b \<Longrightarrow> has_room malloc n b'" using l room_after by blast
qed

section \<open>Flushing\<close>

lemma flush_children_no_error: "flush_children malloc cs b = (Ok cs', b') \<Longrightarrow> \<not> bb_error b"
  by (cases cs) (auto split: if_splits)

lemma flush_children_refines:
  assumes "opened pre fs cs (written b)" "buf_ok b" "\<not> bb_error b" "malloc_ok malloc"
    and "unat (bb_len b) + 4 * length cs < 2 ^ 62" and "flush_children malloc cs b = (r, b')"
  shows "(case r of
       Ok cs' \<Rightarrow> cs' = [] \<and> frames_fit fs \<and> buf_ok b' \<and> same_mode b b' \<and> written b' = pre @ collapse fs \<and>
         unat (bb_len b') \<le> unat (bb_len b) + 4 * length cs
     | Fail \<Rightarrow> bb_error b' | Undef \<Rightarrow> False) \<and>
    (\<forall>n. frames_fit fs \<longrightarrow> has_room malloc (n + 4 * length cs) b \<longrightarrow> r = Ok [] \<and> has_room malloc n b')"
  using assms
proof (induction cs arbitrary: pre fs r b')
  case Nil
  then have "fs = []" using opened_length by fastforce
  with Nil show ?case by auto
next
  case (Cons c cs)
  obtain p body fs' where fs: "fs = (p, body) # fs'"
    using opened_length [OF Cons.prems(1)] by (cases fs) auto
  obtain z where m: "child_matches c p" "unat (ch_offset c) = length pre" and z: "length z = prefix_size p"
    and op: "opened (pre @ z @ body) fs' cs (written b)"
    using Cons.prems(1) fs by auto
  have "0 < unat (ch_pending_len_len c)"
    using m(1) by (auto simp: child_matches_def unat_of_nat_byte)
  then have nz: "ch_pending_len_len c \<noteq> 0" by auto
  obtain r1 b1 where f: "flush_children malloc cs b = (r1, b1)" by (cases "flush_children malloc cs b")
  have small: "unat (bb_len b) + 4 * length cs < 2 ^ 62" using Cons.prems(5) by simp
  note IH = Cons.IH [OF op Cons.prems(2-4) small f]
  show ?case
  proof (cases r1)
    case Undef
    with IH show ?thesis by simp
  next
    case Fail
    have "\<not> (frames_fit fs \<and> has_room malloc (n + 4 * length (c # cs)) b)" for n
      using conjunct2 [OF IH, rule_format, of "n + 4"] Fail fs by (auto simp: add.assoc)
    with Fail f Cons.prems(3,6) nz show ?thesis by (auto simp: cbb_err_def)
  next
    case (Ok cs1)
    with IH have I: "frames_fit fs'" "buf_ok b1" "same_mode b b1" "written b1 = (pre @ z @ body) @ collapse fs'"
      "unat (bb_len b1) \<le> unat (bb_len b) + 4 * length cs" by simp_all
    let ?body = "body @ collapse fs'"
    have cl: "closing c p pre ?body b1" using I m z by (auto simp: closing_def)
    obtain r2 b2 where c2: "close_child malloc c b1 = (r2, b2)" by (cases "close_child malloc c b1")
    have n: "unat (bb_len b1) + 4 < 2 ^ 62" using I(5) Cons.prems(5) by simp
    note C = close_child_props [OF cl Cons.prems(4) n c2]
    have step: "r = (case r2 of Ok _ \<Rightarrow> Ok [] | Fail \<Rightarrow> Fail | Undef \<Rightarrow> Undef)"
      "r2 = Fail \<Longrightarrow> bb_error b'" "r2 \<noteq> Fail \<Longrightarrow> b' = b2"
      using Cons.prems(3,6) nz f Ok c2 by (auto simp: cbb_err_def split: outcome.splits)
    have room: "r2 = Ok () \<and> has_room malloc n b2"
      if "frames_fit fs" "has_room malloc (n + 4 * length (c # cs)) b" for n
    proof -
      have "has_room malloc (n + 4) b1" using conjunct2 [OF IH, rule_format, of "n + 4"] that fs by (simp add: add.assoc)
      moreover then have "has_room malloc 4 b1" by (auto simp: has_room_def)
      moreover have "prefix_fits p (length ?body)" using that fs by simp
      ultimately show ?thesis using C(1,3) closing_room(2) [OF _ cl] by blast
    qed
    show ?thesis
    proof (cases r2)
      case Undef
      with C(2) show ?thesis by simp
    next
      case Fail
      with room step(1,2) show ?thesis by auto
    next
      case (Ok u)
      with C(1) have cd: "closed p pre ?body b1 b2" and pf: "prefix_fits p (length ?body)" by simp_all
      have "unat (bb_len b2) \<le> unat (bb_len b1) + 4" by (rule closing_room(1) [OF cd cl pf])
      moreover have "same_mode b b2" using I(3) cd by (auto simp: closed_def intro: same_mode_trans)
      ultimately show ?thesis
        using Ok step I cd pf fs room by (auto simp: closed_def Let_def)
    qed
  qed
qed

text \<open>Closing at depth \<open>k\<close>: the bytes in front of the contents of the closed children stay.\<close>

lemma opened_close:
  assumes "opened (v @ b) fs cs w" "k \<le> length cs"
  shows "\<exists>pre. opened pre (drop k fs) (drop k cs) w \<and> (frames_fit (drop k fs) \<longleftrightarrow> close_at k b fs \<noteq> None) \<and>
    (\<forall>b' fs'. close_at k b fs = Some (b', fs') \<longrightarrow> opened (v @ b') fs' (take k cs) (pre @ collapse (drop k fs)))"
  using assms
proof (induction k arbitrary: v b fs cs)
  case 0
  then show ?case by (intro exI [of _ "v @ b"]) auto
next
  case (Suc k)
  then obtain c cs1 where cs: "cs = c # cs1" by (cases cs) auto
  obtain p b1 fs1 where fs: "fs = (p, b1) # fs1"
    using opened_length [OF Suc.prems(1)] cs by (cases fs) auto
  obtain z where m: "child_matches c p" "unat (ch_offset c) = length (v @ b)" "length z = prefix_size p"
    and op: "opened ((v @ b @ z) @ b1) fs1 cs1 w"
    using Suc.prems(1) cs fs by auto
  have k: "k \<le> length cs1" using Suc.prems(2) cs by simp
  obtain pre where pre: "opened pre (drop k fs1) (drop k cs1) w" "frames_fit (drop k fs1) \<longleftrightarrow> close_at k b1 fs1 \<noteq> None"
    and cl: "\<And>b' fs'. close_at k b1 fs1 = Some (b', fs') \<Longrightarrow>
      opened ((v @ b @ z) @ b') fs' (take k cs1) (pre @ collapse (drop k fs1))"
    using Suc.IH [OF op k] by blast
  show ?case
  proof (intro exI [of _ pre] conjI allI impI)
    show "opened pre (drop (Suc k) fs) (drop (Suc k) cs) w" "frames_fit (drop (Suc k) fs) \<longleftrightarrow> close_at (Suc k) b fs \<noteq> None"
      using pre cs fs by simp_all
    fix b' fs' assume "close_at (Suc k) b fs = Some (b', fs')"
    then obtain b2 fs2 where c: "close_at k b1 fs1 = Some (b2, fs2)" "b' = b" "fs' = (p, b2) # fs2" using fs by auto
    from cl [OF c(1)] c(2,3) m cs fs
    show "opened (v @ b') fs' (take (Suc k) cs) (pre @ collapse (drop (Suc k) fs))"
      by (auto intro!: exI [of _ z])
  qed
qed

lemma close_at_deep: "length fs < k \<Longrightarrow> close_at k b fs = None"
  by (induction k b fs rule: close_at.induct) auto

lemma close_at_length: "close_at k b fs = Some (b', fs') \<Longrightarrow> length fs' = k \<and> k \<le> length fs"
  by (induction k b fs arbitrary: b' fs' rule: close_at.induct) (auto split: if_splits)

text \<open>The bytes a builder may still have to find room for: \<open>n\<close> to be written and four for each open
  child's length.\<close>

definition roomy :: "c_malloc \<Rightarrow> nat \<Rightarrow> cbb \<Rightarrow> bool" where
  "roomy malloc n c \<longleftrightarrow>
    (\<exists>b. cb_base c = Some b \<and> has_room malloc (n + 4 * length (cb_children c)) b)"

definition weight :: "builder \<Rightarrow> nat"
  where "weight a = builder_size (fst a) (snd a) + 4 * length (snd a)"

definition bounded :: "nat \<Rightarrow> cbb \<Rightarrow> bool" where
  "bounded n c \<longleftrightarrow> (\<exists>b. cb_base c = Some b \<and> unat (bb_len b) + 4 * length (cb_children c) + n < 2 ^ 62)"

lemma bounded_weight: "represents a c \<Longrightarrow> bounded n c \<longleftrightarrow> weight a + n < 2 ^ 62"
  using opened_length length_written
  by (fastforce simp: represents_def bounded_def weight_def)

lemma CBB_flush_refines:
  assumes a: "represents a c" and ok: "malloc_ok malloc" and n: "bounded n c"
    and r: "CBB_flush malloc k c = (r, c')"
  shows "r = Ok () \<Longrightarrow> \<exists>a'. close_at k (fst a) (snd a) = Some a' \<and> represents a' c' \<and>
      length (cb_children c') = k \<and> bounded n c'"
    and "r \<noteq> Undef"
    and "close_at k (fst a) (snd a) \<noteq> None \<Longrightarrow> roomy malloc m c \<Longrightarrow> r = Ok () \<and> roomy malloc m c'"
proof -
  obtain b where b: "cb_base c = Some b" "buf_ok b" "\<not> bb_error b"
    and op: "opened (fst a) (snd a) (cb_children c) (written b)"
    using a by (auto simp: represents_def)
  let ?cs = "cb_children c" and ?close = "close_at k (fst a) (snd a)"
  have ls: "length ?cs = length (snd a)" using opened_length [OF op] by simp
  have "(r = Ok () \<longrightarrow> (\<exists>a'. ?close = Some a' \<and> represents a' c' \<and> length (cb_children c') = k \<and> bounded n c')) \<and>
      r \<noteq> Undef \<and> (?close \<noteq> None \<longrightarrow> roomy malloc m c \<longrightarrow> r = Ok () \<and> roomy malloc m c')"
  proof (cases "length ?cs < k")
    case True
    with r b ls close_at_deep [of "snd a" k "fst a"] show ?thesis by (auto simp: CBB_flush_def)
  next
    case False
    then have k: "k \<le> length ?cs" by simp
    have op0: "opened ([] @ fst a) (snd a) ?cs (written b)" using op by simp
    obtain pre where pre: "opened pre (drop k (snd a)) (drop k ?cs) (written b)"
      "frames_fit (drop k (snd a)) \<longleftrightarrow> ?close \<noteq> None"
      and cl: "\<And>b' fs'. ?close = Some (b', fs') \<Longrightarrow>
        opened ([] @ b') fs' (take k ?cs) (pre @ collapse (drop k (snd a)))"
      using opened_close [OF op0 k] by blast
    obtain q b' where q: "flush_children malloc (drop k ?cs) b = (q, b')" by (cases "flush_children malloc (drop k ?cs) b")
    have small: "unat (bb_len b) + 4 * length (drop k ?cs) < 2 ^ 62"
      using n b(1) by (auto simp: bounded_def)
    note F = flush_children_refines [OF pre(1) b(2,3) ok small q]
    have live: "q = Ok [] \<and> has_room malloc (m + 4 * k) b'" if "?close \<noteq> None" "roomy malloc m c"
    proof -
      have "has_room malloc ((m + 4 * k) + 4 * length (drop k ?cs)) b"
        using that(2) b(1) k by (simp add: roomy_def diff_mult_distrib2)
      with that(1) pre(2) show ?thesis using conjunct2 [OF F] by blast
    qed
    show ?thesis
    proof (cases q)
      case (Ok cs1)
      with F have F1: "cs1 = []" "frames_fit (drop k (snd a))" "buf_ok b'" "same_mode b b'"
        "written b' = pre @ collapse (drop k (snd a))" "unat (bb_len b') \<le> unat (bb_len b) + 4 * length (drop k ?cs)"
        by simp_all
      then obtain b0 fs0 where c0: "?close = Some (b0, fs0)" using pre(2) by auto
      have rc: "r = Ok ()" "c' = \<lparr>cb_base = Some b', cb_children = take k ?cs\<rparr>"
        using r b False q Ok F1(1) by (simp_all add: CBB_flush_def)
      have "represents (b0, fs0) c'"
        using rc(2) F1 cl [OF c0] b(3) by (simp add: represents_def same_mode_def)
      moreover have "bounded n c'" using n F1(6) rc(2) b(1) k by (auto simp: bounded_def)
      ultimately show ?thesis using c0 rc live k by (auto simp: roomy_def min_def)
    next
      case Fail
      with r b False q live show ?thesis by (auto simp: CBB_flush_def)
    next
      case Undef
      with F show ?thesis by simp
    qed
  qed
  then show "r = Ok () \<Longrightarrow> \<exists>a'. ?close = Some a' \<and> represents a' c' \<and> length (cb_children c') = k \<and> bounded n c'"
    "r \<noteq> Undef" "?close \<noteq> None \<Longrightarrow> roomy malloc m c \<Longrightarrow> r = Ok () \<and> roomy malloc m c'" by blast+
qed

section \<open>Operations at the end of the buffer\<close>

text \<open>\<open>f\<close> appends the bytes \<open>bs\<close>, or fails, which it must when \<open>good\<close> is false.\<close>

definition appends :: "c_malloc \<Rightarrow> (cbb_buffer \<Rightarrow> 'a outcome \<times> cbb_buffer) \<Rightarrow> byte list \<Rightarrow> bool \<Rightarrow> bool" where
  "appends malloc f bs good \<longleftrightarrow>
    (\<forall>b r b'. buf_ok b \<longrightarrow> f b = (r, b') \<longrightarrow> unat (bb_len b) + length bs < 2 ^ 62 \<longrightarrow>
      r \<noteq> Undef \<and> (\<forall>x. r = Ok x \<longrightarrow> good \<and> buf_ok b' \<and> same_mode b b' \<and> written b' = written b @ bs) \<and>
      (good \<longrightarrow> has_room malloc (length bs) b \<longrightarrow> r \<noteq> Fail))"

lemma add_put_appends:
  assumes ok: "malloc_ok malloc" and n: "unat n = length bs"
    and f: "\<And>b. f b = seq (cbb_buffer_add malloc n) (\<lambda>pos. g pos) b"
    and g: "\<And>pos b. pos + length bs \<le> length (bb_buf b) \<Longrightarrow>
      g pos b = (if good then (Ok x, b\<lparr>bb_buf := take pos (bb_buf b) @ bs @ drop (pos + length bs) (bb_buf b)\<rparr>)
        else (Fail, h pos b))"
  shows "appends malloc f bs good"
  unfolding appends_def
proof (intro allI impI)
  fix b r b' assume b: "buf_ok b" and r: "f b = (r, b')" and s: "unat (bb_len b) + length bs < 2 ^ 62"
  obtain q b1 where q: "cbb_buffer_add malloc n b = (q, b1)" by (cases "cbb_buffer_add malloc n b")
  note D = add_defined [OF ok b, of n, unfolded n, OF s]
  show "r \<noteq> Undef \<and> (\<forall>x. r = Ok x \<longrightarrow> good \<and> buf_ok b' \<and> same_mode b b' \<and> written b' = written b @ bs) \<and>
      (good \<longrightarrow> has_room malloc (length bs) b \<longrightarrow> r \<noteq> Fail)"
  proof (cases q)
    case Undef
    with D(1) q show ?thesis by simp
  next
    case Fail
    with D(2) q r f show ?thesis by (auto simp: seq_def)
  next
    case (Ok pos)
    note A = add_Ok [OF ok b q [unfolded Ok], unfolded n]
    have r2: "(r, b') = g pos b1" using r f q Ok by (simp add: seq_def)
    have gp: "g pos b1 = (if good then (Ok x, b1\<lparr>bb_buf := take pos (bb_buf b1) @ bs @ drop (pos + length bs) (bb_buf b1)\<rparr>)
        else (Fail, h pos b1))"
      using A(1,6) by (intro g) simp
    show ?thesis
    proof (cases good)
      case False
      with r2 gp show ?thesis by simp
    next
      case True
      have p4: "take pos (bb_buf b1) = written b" using A(1,4) by simp
      have lw: "length (written b) = pos" using A(1) length_written [OF b] by simp
      have rb: "r = Ok x" "b' = b1\<lparr>bb_buf := written b @ bs @ drop (pos + length bs) (bb_buf b1)\<rparr>"
        using r2 gp True p4 by simp_all
      have bl: "bb_len b' = bb_len b1" "bb_buf b' = written b @ bs @ drop (pos + length bs) (bb_buf b1)"
        using rb(2) by simp_all
      have "written b' = take (unat (bb_len b')) (bb_buf b')" by (simp only: written_def)
      also have "\<dots> = written b @ bs" unfolding bl using A(1,3) lw by simp
      finally have "written b' = written b @ bs" .
      moreover have "buf_ok b'" using bl A(1,2,6) lw rb(2) by (simp add: buf_ok_def)
      moreover have "same_mode b b'" using A(5) rb(2) by (simp add: same_mode_def)
      ultimately show ?thesis using True rb(1) by simp
    qed
  qed
qed

lemma add_bytes_appends:
  assumes "malloc_ok malloc" "length data < 2 ^ 64"
  shows "appends malloc (seq (cbb_buffer_add malloc (of_nat (length data))) (\<lambda>pos. bb_put pos data)) data True"
proof (rule add_put_appends [OF assms(1), where n = "of_nat (length data)" and g = "\<lambda>pos. bb_put pos data" and x = "()"])
  show "unat (of_nat (length data) :: size_t) = length data" using assms(2) by (simp add: unat_of_nat)
qed (simp_all add: bb_put_def put_bytes_def)

lemma add_u_appends:
  assumes "malloc_ok malloc" "0 < n" "n \<le> 4"
  shows "appends malloc (\<lambda>b. cbb_buffer_add_u malloc v n b) (be_bytes n v) (unat v < 256 ^ n)"
proof (rule add_put_appends [OF assms(1), where n = "of_nat n" and x = "()"
      and g = "\<lambda>pos. seq (store_be pos n v) (\<lambda>v b. if v \<noteq> 0 then cbb_err b else (Ok (), b))"
      and h = "\<lambda>pos b. b\<lparr>bb_buf := take pos (bb_buf b) @ be_bytes n v @ drop (pos + n) (bb_buf b), bb_error := True\<rparr>"])
  show "unat (of_nat n :: size_t) = length (be_bytes n v)" using assms(3) by (simp add: unat_of_nat)
  show "cbb_buffer_add_u malloc v n b = seq (cbb_buffer_add malloc (of_nat n))
      (\<lambda>pos. seq (store_be pos n v) (\<lambda>v b. if v \<noteq> 0 then cbb_err b else (Ok (), b))) b" for b
    using assms(2) by (simp add: cbb_buffer_add_u_def)
  fix pos and b :: cbb_buffer assume "pos + length (be_bytes n v) \<le> length (bb_buf b)"
  then have l: "pos + n \<le> length (bb_buf b)" by simp
  have "drop_bit (8 * n) v = 0 \<longleftrightarrow> unat (drop_bit (8 * n) v) = 0" by (simp only: unat_eq_0)
  also have "\<dots> \<longleftrightarrow> unat v < 256 ^ n" unfolding unat_drop_bit_div by (simp add: div_eq_0_iff power_mult)
  finally show "seq (store_be pos n v) (\<lambda>v b. if v \<noteq> 0 then cbb_err b else (Ok (), b)) b =
      (if unat v < 256 ^ n
       then (Ok (), b\<lparr>bb_buf := take pos (bb_buf b) @ be_bytes n v @ drop (pos + length (be_bytes n v)) (bb_buf b)\<rparr>)
       else (Fail, b\<lparr>bb_buf := take pos (bb_buf b) @ be_bytes n v @ drop (pos + n) (bb_buf b), bb_error := True\<rparr>))"
    by (simp add: seq_def store_be_eq [OF l] cbb_err_def)
qed

lemma append_inner_opened:
  assumes "opened (v @ b) fs cs w" "append_inner bs b fs = (b', fs')"
  shows "opened (v @ b') fs' cs (w @ bs)"
  using assms
proof (induction fs arbitrary: v b cs b' fs')
  case (Cons f fs)
  obtain p b1 where f: "f = (p, b1)" by (cases f)
  obtain b2 fs2 where i: "append_inner bs b1 fs = (b2, fs2)" by (cases "append_inner bs b1 fs")
  obtain c cs1 z where cs: "cs = c # cs1" "child_matches c p" "unat (ch_offset c) = length (v @ b)"
    "length z = prefix_size p" and op: "opened ((v @ b @ z) @ b1) fs cs1 w"
    using Cons.prems(1) f by (cases cs) auto
  from Cons.IH [OF op i] cs i f Cons.prems(2) show ?case by (auto intro!: exI [of _ z])
qed simp

lemma append_inner_length: "append_inner bs b fs = (b', fs') \<Longrightarrow> length fs' = length fs"
  by (induction bs b fs arbitrary: b' fs' rule: append_inner.induct) (auto split: prod.splits)

lemma push_opened:
  assumes "opened pre fs cs w" "child_matches c p" "unat (ch_offset c) = length w" "length z = prefix_size p"
  shows "opened pre (fs @ [(p, [])]) (cs @ [c]) (w @ z)"
  using assms by (induction pre fs cs w rule: opened.induct) auto

end
