(* ===== verification/Boring_CBB_Calls.thy ===== *)
theory Boring_CBB_Calls
  imports Boring_CBB_Refine
begin

text \<open>
  The calls a client makes on a builder, what each means for the abstract builder, and the
  simulation: every call of the code performs its meaning or fails, and it does not fail when the
  meaning is defined and there is room.
\<close>

section \<open>The calls and their meaning\<close>

datatype cbb_call =
    Call_bytes nat "byte list" | Call_u8 nat byte | Call_u16 nat u16 | Call_u24 nat u32 | Call_u32 nat u32
  | Call_u8_prefixed nat | Call_u16_prefixed nat | Call_u24_prefixed nat | Call_asn1 nat u32 | Call_flush nat

fun run_call :: "c_malloc \<Rightarrow> cbb_call \<Rightarrow> cbb \<Rightarrow> unit outcome \<times> cbb" where
  "run_call malloc (Call_bytes k data) = CBB_add_bytes malloc k data"
| "run_call malloc (Call_u8 k v) = CBB_add_u8 malloc k v"
| "run_call malloc (Call_u16 k v) = CBB_add_u16 malloc k v"
| "run_call malloc (Call_u24 k v) = CBB_add_u24 malloc k v"
| "run_call malloc (Call_u32 k v) = CBB_add_u32 malloc k v"
| "run_call malloc (Call_u8_prefixed k) = CBB_add_u8_length_prefixed malloc k"
| "run_call malloc (Call_u16_prefixed k) = CBB_add_u16_length_prefixed malloc k"
| "run_call malloc (Call_u24_prefixed k) = CBB_add_u24_length_prefixed malloc k"
| "run_call malloc (Call_asn1 k tag) = CBB_add_asn1 malloc k tag"
| "run_call malloc (Call_flush k) = CBB_flush malloc k"

fun run_calls :: "c_malloc \<Rightarrow> cbb_call list \<Rightarrow> cbb \<Rightarrow> unit outcome \<times> cbb" where
  "run_calls malloc [] = ret ()"
| "run_calls malloc (x # xs) = seq (run_call malloc x) (\<lambda>_. run_calls malloc xs)"

definition put_spec :: "nat \<Rightarrow> byte list \<Rightarrow> builder \<Rightarrow> builder option" where
  "put_spec k bs a = map_option (\<lambda>(b, fs). append_inner bs b fs) (close_at k (fst a) (snd a))"

definition open_spec :: "nat \<Rightarrow> byte list \<Rightarrow> cbb_prefix \<Rightarrow> builder \<Rightarrow> builder option" where
  "open_spec k bs p a = map_option (\<lambda>(b, fs). (b, fs @ [(p, [])])) (put_spec k bs a)"

definition low_tag :: "u32 \<Rightarrow> bool"
  where "low_tag tag \<longleftrightarrow> tag \<le> 0xff \<and> tag AND 0x1F \<noteq> 0x1F"

fun call_spec :: "cbb_call \<Rightarrow> builder \<Rightarrow> builder option" where
  "call_spec (Call_bytes k data) a = put_spec k data a"
| "call_spec (Call_u8 k v) a = put_spec k [v] a"
| "call_spec (Call_u16 k v) a = put_spec k (be_bytes 2 v) a"
| "call_spec (Call_u24 k v) a = (if unat v < 2 ^ 24 then put_spec k (be_bytes 3 v) a else None)"
| "call_spec (Call_u32 k v) a = put_spec k (be_bytes 4 v) a"
| "call_spec (Call_u8_prefixed k) a = open_spec k [] (Fixed_prefix 1) a"
| "call_spec (Call_u16_prefixed k) a = open_spec k [] (Fixed_prefix 2) a"
| "call_spec (Call_u24_prefixed k) a = open_spec k [] (Fixed_prefix 3) a"
| "call_spec (Call_asn1 k tag) a = (if low_tag tag then open_spec k [ucast tag] Der_prefix a else None)"
| "call_spec (Call_flush k) a = close_at k (fst a) (snd a)"

fun calls_spec :: "cbb_call list \<Rightarrow> builder \<Rightarrow> builder option" where
  "calls_spec [] a = Some a"
| "calls_spec (x # xs) a = (case call_spec x a of None \<Rightarrow> None | Some a' \<Rightarrow> calls_spec xs a')"

text \<open>The handle of a call, and the most it can add: its bytes and, for a new child, its length
  prefix.\<close>

fun call_handle :: "cbb_call \<Rightarrow> nat" where
  "call_handle (Call_bytes k data) = k" | "call_handle (Call_u8 k v) = k"
| "call_handle (Call_u16 k v) = k" | "call_handle (Call_u24 k v) = k" | "call_handle (Call_u32 k v) = k"
| "call_handle (Call_u8_prefixed k) = k" | "call_handle (Call_u16_prefixed k) = k"
| "call_handle (Call_u24_prefixed k) = k" | "call_handle (Call_asn1 k tag) = k" | "call_handle (Call_flush k) = k"

fun call_cost :: "cbb_call \<Rightarrow> nat" where
  "call_cost (Call_bytes k data) = length data" | "call_cost (Call_u8 k v) = 1"
| "call_cost (Call_u16 k v) = 2" | "call_cost (Call_u24 k v) = 3" | "call_cost (Call_u32 k v) = 4"
| "call_cost (Call_u8_prefixed k) = 5" | "call_cost (Call_u16_prefixed k) = 6"
| "call_cost (Call_u24_prefixed k) = 7" | "call_cost (Call_asn1 k tag) = 6" | "call_cost (Call_flush k) = 0"

section \<open>The simulation\<close>

text \<open>\<open>simulates malloc n P f s\<close>: on a builder that satisfies \<open>P\<close>, with room for \<open>n\<close> more bytes,
  \<open>f\<close> computes \<open>s\<close> or fails.\<close>

definition simulates ::
  "c_malloc \<Rightarrow> nat \<Rightarrow> (builder \<Rightarrow> bool) \<Rightarrow> (cbb \<Rightarrow> 'a outcome \<times> cbb) \<Rightarrow> (builder \<Rightarrow> builder option) \<Rightarrow> bool" where
  "simulates malloc n P f s \<longleftrightarrow>
    (\<forall>a c r c' m. represents a c \<longrightarrow> P a \<longrightarrow> bounded (m + n) c \<longrightarrow> f c = (r, c') \<longrightarrow>
      r \<noteq> Undef \<and>
      (\<forall>x. r = Ok x \<longrightarrow> (\<exists>a'. s a = Some a' \<and> represents a' c' \<and> bounded m c')) \<and>
      (s a \<noteq> None \<longrightarrow> roomy malloc (m + n) c \<longrightarrow> r \<noteq> Fail \<and> roomy malloc m c'))"

lemma simulatesI:
  assumes "\<And>a c r c' m. represents a c \<Longrightarrow> P a \<Longrightarrow> bounded (m + n) c \<Longrightarrow> f c = (r, c') \<Longrightarrow>
      r \<noteq> Undef \<and> (\<forall>x. r = Ok x \<longrightarrow> (\<exists>a'. s a = Some a' \<and> represents a' c' \<and> bounded m c')) \<and>
      (s a \<noteq> None \<longrightarrow> roomy malloc (m + n) c \<longrightarrow> r \<noteq> Fail \<and> roomy malloc m c')"
  shows "simulates malloc n P f s"
  using assms unfolding simulates_def by blast

lemma simulates_flush:
  assumes "malloc_ok malloc"
  shows "simulates malloc 0 P (CBB_flush malloc k) (\<lambda>a. close_at k (fst a) (snd a))"
proof (rule simulatesI)
  fix a c r c' m
  assume h: "represents a c" "P a" "bounded (m + 0) c" "CBB_flush malloc k c = (r, c')"
  note F = CBB_flush_refines [OF h(1) assms h(3,4)]
  show "r \<noteq> Undef \<and> (\<forall>x. r = Ok x \<longrightarrow> (\<exists>a'. close_at k (fst a) (snd a) = Some a' \<and> represents a' c' \<and> bounded m c')) \<and>
      (close_at k (fst a) (snd a) \<noteq> None \<longrightarrow> roomy malloc (m + 0) c \<longrightarrow> r \<noteq> Fail \<and> roomy malloc m c')"
    using F(1) F(2) F(3) [of m] by auto
qed

lemma simulates_seq:
  assumes f: "simulates malloc n P f s" and g: "\<And>x. simulates malloc l Q (g x) t"
    and j: "\<And>a a'. P a \<Longrightarrow> s a = Some a' \<Longrightarrow> Q a'"
  shows "simulates malloc (n + l) P (seq f g) (\<lambda>a. case s a of None \<Rightarrow> None | Some a' \<Rightarrow> t a')"
proof (rule simulatesI)
  fix a c r c' m
  assume h: "represents a c" "P a" "bounded (m + (n + l)) c" "seq f g c = (r, c')"
  obtain q c1 where q: "f c = (q, c1)" by (cases "f c")
  have b: "bounded ((m + l) + n) c" using h(3) by (simp add: ac_simps)
  from f h(1,2) b q have F: "q \<noteq> Undef"
    "\<And>x. q = Ok x \<Longrightarrow> \<exists>a'. s a = Some a' \<and> represents a' c1 \<and> bounded (m + l) c1"
    "s a \<noteq> None \<Longrightarrow> roomy malloc ((m + l) + n) c \<Longrightarrow> q \<noteq> Fail \<and> roomy malloc (m + l) c1"
    unfolding simulates_def by blast+
  show "r \<noteq> Undef \<and>
      (\<forall>x. r = Ok x \<longrightarrow> (\<exists>a'. (case s a of None \<Rightarrow> None | Some a' \<Rightarrow> t a') = Some a' \<and> represents a' c' \<and> bounded m c')) \<and>
      ((case s a of None \<Rightarrow> None | Some a' \<Rightarrow> t a') \<noteq> None \<longrightarrow> roomy malloc (m + (n + l)) c \<longrightarrow>
        r \<noteq> Fail \<and> roomy malloc m c')"
  proof (cases q)
    case (Ok x)
    with F(2) obtain a1 where a1: "s a = Some a1" "represents a1 c1" "bounded (m + l) c1" by blast
    have "g x c1 = (r, c')" using h(4) q Ok by (simp add: seq_def)
    with g [of x] a1 j [OF h(2) a1(1)] have "r \<noteq> Undef"
      "\<And>x. r = Ok x \<Longrightarrow> \<exists>a'. t a1 = Some a' \<and> represents a' c' \<and> bounded m c'"
      "t a1 \<noteq> None \<Longrightarrow> roomy malloc (m + l) c1 \<Longrightarrow> r \<noteq> Fail \<and> roomy malloc m c'"
      unfolding simulates_def by blast+
    with a1(1) F(3) show ?thesis by (simp add: ac_simps)
  next
    case Fail
    then have "r = Fail" using h(4) q by (simp add: seq_def)
    with Fail F(3) show ?thesis by (auto simp: ac_simps split: option.splits)
  next
    case Undef
    with F(1) show ?thesis by simp
  qed
qed

lemma simulates_cong:
  assumes "simulates malloc n P f s" "\<And>a. P a \<Longrightarrow> s a = t a" "\<And>a. Q a \<Longrightarrow> P a"
  shows "simulates malloc n Q f t"
proof (rule simulatesI)
  fix a c r c' m
  assume h: "represents a c" "Q a" "bounded (m + n) c" "f c = (r, c')"
  have p: "P a" by (rule assms(3) [OF h(2)])
  show "r \<noteq> Undef \<and> (\<forall>x. r = Ok x \<longrightarrow> (\<exists>a'. t a = Some a' \<and> represents a' c' \<and> bounded m c')) \<and>
      (t a \<noteq> None \<longrightarrow> roomy malloc (m + n) c \<longrightarrow> r \<noteq> Fail \<and> roomy malloc m c')"
    unfolding assms(2) [OF p, symmetric] using assms(1) h p unfolding simulates_def by blast
qed

text \<open>An appending buffer operation on the innermost child.\<close>

lemma simulates_append:
  assumes "appends malloc f bs good"
  shows "simulates malloc (length bs) (\<lambda>a. k \<le> length (snd a)) (on_base k f) (\<lambda>a. if good then Some (append_inner bs (fst a) (snd a)) else None)"
proof (rule simulatesI)
  fix a c r c' m
  assume h: "represents a c" "k \<le> length (snd a)" "bounded (m + length bs) c" "on_base k f c = (r, c')"
  obtain b where b: "cb_base c = Some b" "buf_ok b" "\<not> bb_error b"
    and op: "opened ([] @ fst a) (snd a) (cb_children c) (written b)"
    using h(1) by (auto simp: represents_def)
  have ls: "length (cb_children c) = length (snd a)" using opened_length [OF op] by simp
  obtain b' where f: "f b = (r, b')" "c' = c\<lparr>cb_base := Some b'\<rparr>"
    using h(2,4) b(1) ls by (auto simp: on_base_def split: prod.splits)
  have s: "unat (bb_len b) + length bs < 2 ^ 62" using h(3) b(1) by (simp add: bounded_def)
  from assms b(2) f(1) s have F: "r \<noteq> Undef"
    "\<And>x. r = Ok x \<Longrightarrow> good \<and> buf_ok b' \<and> same_mode b b' \<and> written b' = written b @ bs"
    "good \<Longrightarrow> has_room malloc (length bs) b \<Longrightarrow> r \<noteq> Fail"
    unfolding appends_def by blast+
  obtain b1 fs1 where i: "append_inner bs (fst a) (snd a) = (b1, fs1)" by (cases "append_inner bs (fst a) (snd a)")
  have good: "good \<and> represents (b1, fs1) c' \<and> bounded m c' \<and> (roomy malloc (m + length bs) c \<longrightarrow> roomy malloc m c')"
    if "r = Ok x" for x
  proof -
    note G = F(2) [OF that]
    have le: "unat (bb_len b') = unat (bb_len b) + length bs"
      using G length_written [of b'] length_written [OF b(2)] by simp
    have "roomy malloc m c'" if "roomy malloc (m + length bs) c"
    proof -
      have "has_room malloc ((m + 4 * length (cb_children c)) + length bs) b"
        using that b(1) by (simp add: roomy_def ac_simps)
      then have "has_room malloc (m + 4 * length (cb_children c)) b'"
        by (rule room_after) (use G le in simp_all)
      then show ?thesis by (simp add: roomy_def f(2))
    qed
    moreover have "represents (b1, fs1) c'"
      using G b(3) append_inner_opened [OF op i] by (simp add: represents_def f(2) same_mode_def)
    moreover have "bounded m c'" using h(3) b(1) le by (simp add: bounded_def f(2))
    ultimately show ?thesis using G by simp
  qed
  have room: "has_room malloc (length bs) b" if "roomy malloc (m + length bs) c"
    using that b(1) by (auto simp: roomy_def has_room_def)
  show "r \<noteq> Undef \<and>
      (\<forall>x. r = Ok x \<longrightarrow> (\<exists>a'. (if good then Some (append_inner bs (fst a) (snd a)) else None) = Some a' \<and>
        represents a' c' \<and> bounded m c')) \<and>
      ((if good then Some (append_inner bs (fst a) (snd a)) else None) \<noteq> None \<longrightarrow>
        roomy malloc (m + length bs) c \<longrightarrow> r \<noteq> Fail \<and> roomy malloc m c')"
    using good F(1,3) room i by (cases r) (auto split: if_splits)
qed

lemma simulates_flush_then:
  assumes "malloc_ok malloc" "appends malloc f bs good"
  shows "simulates malloc (length bs) P (flush_then malloc k f) (\<lambda>a. if good then put_spec k bs a else None)"
proof -
  have "simulates malloc (0 + length bs) P (flush_then malloc k f)
      (\<lambda>a. case close_at k (fst a) (snd a) of None \<Rightarrow> None
        | Some a' \<Rightarrow> if good then Some (append_inner bs (fst a') (snd a')) else None)"
    unfolding flush_then_def
  proof (rule simulates_seq [OF simulates_flush [OF assms(1)] simulates_append [OF assms(2)]])
    fix a a' assume "close_at k (fst a) (snd a) = Some a'"
    then show "k \<le> length (snd a')" using close_at_length [of k _ _ "fst a'" "snd a'"] by simp
  qed
  then have "simulates malloc (length bs) P (flush_then malloc k f)
      (\<lambda>a. case close_at k (fst a) (snd a) of None \<Rightarrow> None
        | Some a' \<Rightarrow> if good then Some (append_inner bs (fst a') (snd a')) else None)" by simp
  then show ?thesis
    by (rule simulates_cong) (auto simp: put_spec_def split: option.splits)
qed

text \<open>Writing the placeholder of a length and opening the child.\<close>

lemma simulates_child:
  assumes f: "appends malloc f (replicate n 0) True" and off: "\<And>b x b'. f b = (Ok x, b') \<Longrightarrow> x = bb_len b"
    and p: "n = prefix_size p" "n \<in> {1..3}"
  shows "simulates malloc (n + 4) (\<lambda>a. length (snd a) = k)
    (seq (on_base k f) (\<lambda>x. push_child k
      \<lparr>ch_offset = x, ch_pending_len_len = of_nat n, ch_pending_is_asn1 = (p = Der_prefix)\<rparr>))
    (\<lambda>a. Some (fst a, snd a @ [(p, [])]))"
proof (rule simulatesI)
  let ?ch = "\<lambda>x. \<lparr>ch_offset = x, ch_pending_len_len = of_nat n, ch_pending_is_asn1 = (p = Der_prefix)\<rparr>"
  fix a c r c' m
  assume h: "represents a c" "length (snd a) = k" "bounded (m + (n + 4)) c"
    "seq (on_base k f) (\<lambda>x. push_child k (?ch x)) c = (r, c')"
  obtain b where b: "cb_base c = Some b" "buf_ok b" "\<not> bb_error b"
    and op: "opened (fst a) (snd a) (cb_children c) (written b)"
    using h(1) by (auto simp: represents_def)
  have ls: "length (cb_children c) = k" using opened_length [OF op] h(2) by simp
  obtain q b' where f1: "f b = (q, b')" by (cases "f b")
  have s: "unat (bb_len b) + length (replicate n (0 :: byte)) < 2 ^ 62" using h(3) b(1) by (simp add: bounded_def)
  from f b(2) f1 s have F: "q \<noteq> Undef"
    "\<And>x. q = Ok x \<Longrightarrow> buf_ok b' \<and> same_mode b b' \<and> written b' = written b @ replicate n 0"
    "has_room malloc (length (replicate n (0 :: byte))) b \<Longrightarrow> q \<noteq> Fail"
    unfolding appends_def by blast+
  show "r \<noteq> Undef \<and>
      (\<forall>x. r = Ok x \<longrightarrow> (\<exists>a'. Some (fst a, snd a @ [(p, [])]) = Some a' \<and> represents a' c' \<and> bounded m c')) \<and>
      (Some (fst a, snd a @ [(p, [])]) \<noteq> None \<longrightarrow> roomy malloc (m + (n + 4)) c \<longrightarrow> r \<noteq> Fail \<and> roomy malloc m c')"
  proof (cases q)
    case (Ok x)
    have x: "x = bb_len b" using off f1 Ok by simp
    note G = F(2) [OF Ok]
    have rc: "r = Ok ()" "c' = \<lparr>cb_base = Some b', cb_children = cb_children c @ [?ch x]\<rparr>"
      using h(4) b(1) ls f1 Ok by (auto simp: seq_def on_base_def push_child_def intro!: cbb.equality)
    have le: "unat (bb_len b') = unat (bb_len b) + n"
      using G length_written [of b'] length_written [OF b(2)] by simp
    have "child_matches (?ch x) p" using p by (simp add: child_matches_def)
    moreover have "unat (ch_offset (?ch x)) = length (written b)" using x length_written [OF b(2)] by simp
    moreover have "length (replicate n (0 :: byte)) = prefix_size p" using p by simp
    ultimately have "opened (fst a) (snd a @ [(p, [])]) (cb_children c @ [?ch x]) (written b @ replicate n 0)"
      by (rule push_opened [OF op])
    then have "represents (fst a, snd a @ [(p, [])]) c'" using G b(3) rc(2) by (simp add: represents_def same_mode_def)
    moreover have "bounded m c'" using h(3) b(1) le rc(2) by (simp add: bounded_def)
    moreover have "roomy malloc m c'" if "roomy malloc (m + (n + 4)) c"
    proof -
      have "has_room malloc ((m + 4 + 4 * length (cb_children c)) + n) b"
        using that b(1) by (simp add: roomy_def ac_simps)
      then have "has_room malloc (m + 4 + 4 * length (cb_children c)) b'"
        by (rule room_after) (use G le in simp_all)
      then show ?thesis by (simp add: roomy_def rc(2) ac_simps)
    qed
    ultimately show ?thesis using rc(1) by simp
  next
    case Fail
    have "r = Fail" using h(4) b(1) ls f1 Fail by (simp add: seq_def on_base_def)
    moreover have "\<not> roomy malloc (m + (n + 4)) c"
    proof
      assume "roomy malloc (m + (n + 4)) c"
      then have "has_room malloc (m + (n + 4) + 4 * length (cb_children c)) b" using b(1) by (simp add: roomy_def)
      then have "has_room malloc n b" by (rule has_room_mono) simp
      with F(3) Fail show False by simp
    qed
    ultimately show ?thesis by simp
  next
    case Undef
    with F(1) show ?thesis by simp
  qed
qed

lemma CBB_flush_innermost:
  assumes "represents a c" "length (snd a) = k"
  shows "CBB_flush malloc k c = (Ok (), c)"
  using assms opened_length by (fastforce simp: represents_def CBB_flush_def)

definition placeholder :: "c_malloc \<Rightarrow> byte \<Rightarrow> cbb_buffer \<Rightarrow> size_t outcome \<times> cbb_buffer" where
  "placeholder malloc len_len b =
    seq (cbb_buffer_add malloc (ucast len_len))
      (\<lambda>pos. seq (bb_put pos (replicate (unat len_len) 0)) (\<lambda>_. ret (bb_len b))) b"

lemma appends_ret:
  assumes "appends malloc f bs good"
  shows "appends malloc (\<lambda>b. seq f (\<lambda>_. ret (h b)) b) bs good"
  unfolding appends_def
proof (intro allI impI)
  fix b r b' assume h: "buf_ok b" "seq f (\<lambda>_. ret (h b)) b = (r, b')" "unat (bb_len b) + length bs < 2 ^ 62"
  obtain q b1 where q: "f b = (q, b1)" by (cases "f b")
  with assms h(1,3) have "q \<noteq> Undef \<and> (\<forall>x. q = Ok x \<longrightarrow> good \<and> buf_ok b1 \<and> same_mode b b1 \<and> written b1 = written b @ bs) \<and>
      (good \<longrightarrow> has_room malloc (length bs) b \<longrightarrow> q \<noteq> Fail)"
    unfolding appends_def by blast
  with h(2) q show "r \<noteq> Undef \<and> (\<forall>x. r = Ok x \<longrightarrow> good \<and> buf_ok b' \<and> same_mode b b' \<and> written b' = written b @ bs) \<and>
      (good \<longrightarrow> has_room malloc (length bs) b \<longrightarrow> r \<noteq> Fail)"
    by (cases q) (auto simp: seq_def)
qed

lemma placeholder_appends:
  assumes "malloc_ok malloc"
  shows "appends malloc (placeholder malloc len_len) (replicate (unat len_len) 0) True"
proof -
  have eq: "placeholder malloc len_len = (\<lambda>b. seq (seq (cbb_buffer_add malloc (ucast len_len))
      (\<lambda>pos. bb_put pos (replicate (unat len_len) 0))) (\<lambda>_. ret (bb_len b)) b)"
    by (simp add: placeholder_def seq_assoc fun_eq_iff)
  have "length (replicate (unat len_len) (0 :: byte)) < 2 ^ 64" using byte_less [of len_len] by simp
  note A = add_bytes_appends [OF assms this]
  have "(of_nat (length (replicate (unat len_len) (0 :: byte))) :: size_t) = ucast len_len" by simp
  with A have "appends malloc (seq (cbb_buffer_add malloc (ucast len_len)) (\<lambda>pos. bb_put pos (replicate (unat len_len) 0)))
      (replicate (unat len_len) 0) True" by simp
  then show ?thesis unfolding eq by (rule appends_ret)
qed

lemma placeholder_offset: "placeholder malloc len_len b = (Ok x, b') \<Longrightarrow> x = bb_len b"
  by (auto simp: placeholder_def seq_eq_Ok)

lemma simulates_length_prefixed:
  assumes ok: "malloc_ok malloc" and n: "n \<in> {1..3}"
  shows "simulates malloc (n + 4) P (cbb_add_length_prefixed malloc k (of_nat n)) (open_spec k [] (Fixed_prefix n))"
proof -
  have un: "unat (of_nat n :: byte) = n" using n by (simp add: unat_of_nat_byte)
  have eq: "cbb_add_length_prefixed malloc k (of_nat n) =
      seq (CBB_flush malloc k) (\<lambda>_. seq (on_base k (placeholder malloc (of_nat n))) (\<lambda>x. push_child k
        \<lparr>ch_offset = x, ch_pending_len_len = of_nat n, ch_pending_is_asn1 = (Fixed_prefix n = Der_prefix)\<rparr>))"
    by (simp add: cbb_add_length_prefixed_def flush_then_def seq_assoc placeholder_def [abs_def])
  have "simulates malloc (0 + (n + 4)) P (cbb_add_length_prefixed malloc k (of_nat n))
      (\<lambda>a. case close_at k (fst a) (snd a) of None \<Rightarrow> None | Some a' \<Rightarrow> Some (fst a', snd a' @ [(Fixed_prefix n, [])]))"
    unfolding eq
  proof (rule simulates_seq [OF simulates_flush [OF ok] simulates_child])
    show "appends malloc (placeholder malloc (of_nat n)) (replicate n 0) True"
      using placeholder_appends [OF ok, of "of_nat n"] un by simp
    show "placeholder malloc (of_nat n) b = (Ok x, b') \<Longrightarrow> x = bb_len b" for b x b' by (rule placeholder_offset)
    show "close_at k (fst a) (snd a) = Some a' \<Longrightarrow> length (snd a') = k" for a a'
      using close_at_length [of k "fst a" "snd a" "fst a'" "snd a'"] by simp
  qed (use n in simp_all)
  then have S: "simulates malloc (n + 4) P (cbb_add_length_prefixed malloc k (of_nat n))
      (\<lambda>a. case close_at k (fst a) (snd a) of None \<Rightarrow> None | Some a' \<Rightarrow> Some (fst a', snd a' @ [(Fixed_prefix n, [])]))"
    by simp
  have nil: "append_inner [] b fs = (b, fs)" for b and fs :: frames
    by (induction fs arbitrary: b) auto
  show ?thesis by (rule simulates_cong [OF S]) (auto simp: open_spec_def put_spec_def nil split: option.splits)
qed

lemma simulates_u8:
  assumes "malloc_ok malloc"
  shows "simulates malloc 1 P (CBB_add_u8 malloc k v) (put_spec k [v])"
proof -
  have "(ucast (ucast v :: u32) :: byte) = v"
    by (rule bit_word_eqI) (simp add: bit_unsigned_iff)
  then have "be_bytes 1 (ucast v :: u32) = [v]" by (simp add: be_bytes_def le_bytes_def)
  moreover have "unat (ucast v :: u32) < 256 ^ 1"
    using byte_less [of v] by (simp add: unsigned_ucast_eq take_bit_nat_eq_self)
  ultimately have "appends malloc (\<lambda>b. cbb_buffer_add_u malloc (ucast v) 1 b) [v] True"
    using add_u_appends [OF assms, of 1 "ucast v"] by simp
  from simulates_flush_then [OF assms this, of P k] show ?thesis by (simp add: CBB_add_u8_def)
qed

lemma open_spec_der:
  "(case close_at k (fst a) (snd a) of None \<Rightarrow> None
    | Some a' \<Rightarrow> (case put_spec k [t] a' of None \<Rightarrow> None | Some a'' \<Rightarrow> Some (fst a'', snd a'' @ [(p, [])]))) =
    open_spec k [t] p a"
proof (cases "close_at k (fst a) (snd a)")
  case (Some a')
  have "close_at j b fs = Some (b1, fs1) \<Longrightarrow> close_at j b1 fs1 = Some (b1, fs1)" for j b fs b1 fs1
    by (induction j b fs arbitrary: b1 fs1 rule: close_at.induct) (auto split: if_splits)
  then have "close_at k (fst a') (snd a') = Some a'" using Some by (cases a') fastforce
  with Some show ?thesis by (cases a') (simp add: open_spec_def put_spec_def split: prod.splits)
qed (simp add: open_spec_def put_spec_def)

lemma put_spec_length:
  assumes "put_spec k bs a = Some a'"
  shows "length (snd a') = k"
proof -
  obtain b fs where c: "close_at k (fst a) (snd a) = Some (b, fs)" "a' = append_inner bs b fs"
    using assms by (auto simp: put_spec_def)
  then have "length (snd a') = length fs" using append_inner_length [of bs b fs "fst a'" "snd a'"] by simp
  with close_at_length [OF c(1)] show ?thesis by simp
qed

lemma simulates_asn1:
  assumes ok: "malloc_ok malloc"
  shows "simulates malloc 6 (\<lambda>a. k \<le> length (snd a)) (CBB_add_asn1 malloc k tag)
    (\<lambda>a. if low_tag tag then open_spec k [ucast tag] Der_prefix a else None)"
proof (cases "low_tag tag")
  case True
  let ?child = "\<lambda>x. push_child k \<lparr>ch_offset = x, ch_pending_len_len = of_nat 1, ch_pending_is_asn1 = (Der_prefix = Der_prefix)\<rparr>"
  let ?last = "seq (on_base k (\<lambda>b. (Ok (bb_len b), b))) (\<lambda>offset. seq (CBB_add_u8 malloc k 0) (\<lambda>_. ?child offset))"
  let ?zero = "\<lambda>b. seq (\<lambda>b. cbb_buffer_add_u malloc 0 1 b) (\<lambda>_. ret (bb_len b)) b"
  have eq: "CBB_add_asn1 malloc k tag = seq (CBB_flush malloc k) (\<lambda>_. seq (CBB_add_u8 malloc k (ucast tag)) (\<lambda>_. ?last))"
    using True by (auto simp: CBB_add_asn1_def low_tag_def)
  have "appends malloc (\<lambda>b. cbb_buffer_add_u malloc 0 1 b) (replicate 1 0) True"
    using add_u_appends [OF ok, of 1 0] by (simp add: be_bytes_def le_bytes_def)
  note Z = appends_ret [OF this, of bb_len]
  have zo: "x = bb_len b" if "?zero b = (Ok x, b')" for b x b' using that by (auto simp: seq_eq_Ok)
  have same: "?last c = seq (on_base k ?zero) ?child c" if "represents a c" "length (snd a) = k" for a c
  proof -
    have l: "length (cb_children c) = k" using that opened_length by (fastforce simp: represents_def)
    have "\<exists>b. cb_base c = Some b" using that(1) by (auto simp: represents_def)
    then obtain b where b: "cb_base c = Some b" ..
    then have id: "c\<lparr>cb_base := Some b\<rparr> = c" by (intro cbb.equality) simp_all
    have "CBB_flush malloc k (c\<lparr>cb_base := Some b\<rparr>) = (Ok (), c\<lparr>cb_base := Some b\<rparr>)"
      unfolding id by (rule CBB_flush_innermost [OF that])
    with l b show ?thesis
      by (cases "cbb_buffer_add_u malloc 0 1 b"; cases "fst (cbb_buffer_add_u malloc 0 1 b)")
        (simp_all add: seq_def CBB_add_u8_def flush_then_def on_base_def)
  qed
  have "simulates malloc (1 + 4) (\<lambda>a. length (snd a) = k) (seq (on_base k ?zero) ?child) (\<lambda>a. Some (fst a, snd a @ [(Der_prefix, [])]))"
    by (rule simulates_child [OF Z]) (use zo in auto)
  then have L: "simulates malloc 5 (\<lambda>a. length (snd a) = k) ?last (\<lambda>a. Some (fst a, snd a @ [(Der_prefix, [])]))"
    using same unfolding simulates_def by fastforce
  have "simulates malloc (1 + 5) (\<lambda>a. length (snd a) = k) (seq (CBB_add_u8 malloc k (ucast tag)) (\<lambda>_. ?last))
      (\<lambda>a. case put_spec k [ucast tag] a of None \<Rightarrow> None | Some a' \<Rightarrow> Some (fst a', snd a' @ [(Der_prefix, [])]))"
    by (rule simulates_seq [OF simulates_u8 [OF ok] L]) (rule put_spec_length)
  from simulates_seq [OF simulates_flush [OF ok] this]
  have "simulates malloc (0 + (1 + 5)) (\<lambda>a. k \<le> length (snd a)) (CBB_add_asn1 malloc k tag) (open_spec k [ucast tag] Der_prefix)"
    unfolding eq by (rule simulates_cong) (auto simp: open_spec_der dest: close_at_length)
  with True show ?thesis by simp
next
  case False
  have bad: "CBB_add_asn1 malloc k tag = on_base k cbb_err" using False by (auto simp: CBB_add_asn1_def low_tag_def)
  show ?thesis
  proof (rule simulatesI)
    fix a c r c' m
    assume h: "represents a c" "k \<le> length (snd a)" "CBB_add_asn1 malloc k tag c = (r, c')"
    then have "length (cb_children c) = length (snd a)" using opened_length by (fastforce simp: represents_def)
    then have "r = Fail" using h by (auto simp: bad on_base_def cbb_err_def represents_def)
    with False show "r \<noteq> Undef \<and> (\<forall>x. r = Ok x \<longrightarrow> (\<exists>a'. (if low_tag tag then open_spec k [ucast tag] Der_prefix a else None) =
        Some a' \<and> represents a' c' \<and> bounded m c')) \<and>
      ((if low_tag tag then open_spec k [ucast tag] Der_prefix a else None) \<noteq> None \<longrightarrow> roomy malloc (m + 6) c \<longrightarrow>
        r \<noteq> Fail \<and> roomy malloc m c')" by simp
  qed
qed

lemma simulates_u:
  assumes "malloc_ok malloc" "0 < n" "n \<le> 4"
  shows "simulates malloc n P (flush_then malloc k (\<lambda>b. cbb_buffer_add_u malloc v n b))
    (\<lambda>a. if unat v < 256 ^ n then put_spec k (be_bytes n v) a else None)"
  using simulates_flush_then [OF assms(1) add_u_appends [OF assms, where v = v], where P = P and k = k] by simp

section \<open>Sequences of calls\<close>

lemma be_bytes_2_ucast: "be_bytes 2 (ucast (v :: u16) :: u32) = be_bytes 2 v"
proof -
  have "(ucast (drop_bit i (ucast v :: u32)) :: byte) = ucast (drop_bit i v)" for i
    by (rule bit_word_eqI) (auto simp: bit_unsigned_iff bit_drop_bit_eq dest: bit_imp_le_length)
  then show ?thesis by (simp add: be_bytes_def le_bytes_def)
qed

lemma unat_less_16: "unat (v :: u16) < 65536"
  using unsigned_less [of v] by simp

lemma unat_less_32: "unat (v :: u32) < 4294967296"
  using unsigned_less [of v] by simp

lemma run_call_simulates:
  assumes ok: "malloc_ok malloc" and len: "call_cost x < 2 ^ 64"
  shows "simulates malloc (call_cost x) (\<lambda>a. call_handle x \<le> length (snd a)) (run_call malloc x) (call_spec x)"
proof (cases x)
  case (Call_bytes k data)
  with len have "length data < 2 ^ 64" by simp
  note S = simulates_flush_then [OF ok add_bytes_appends [OF ok this]]
  show ?thesis unfolding Call_bytes run_call.simps call_cost.simps CBB_add_bytes_def
    by (rule simulates_cong [OF S]) simp_all
next
  case (Call_u8 k v)
  show ?thesis unfolding Call_u8 run_call.simps call_cost.simps
    by (rule simulates_cong [OF simulates_u8 [OF ok]]) simp_all
next
  case (Call_u16 k v)
  have u: "unat (ucast v :: u32) < 256 ^ 2" using unat_less_16 [of v] by (simp add: unsigned_ucast_eq take_bit_nat_eq_self)
  show ?thesis unfolding Call_u16 run_call.simps call_cost.simps CBB_add_u16_def
    by (rule simulates_cong [OF simulates_u [OF ok]]) (use u in \<open>simp_all add: be_bytes_2_ucast\<close>)
next
  case (Call_u24 k v)
  show ?thesis unfolding Call_u24 run_call.simps call_cost.simps CBB_add_u24_def
    by (rule simulates_cong [OF simulates_u [OF ok]]) simp_all
next
  case (Call_u32 k v)
  have u: "unat v < 256 ^ 4" using unat_less_32 [of v] by simp
  show ?thesis unfolding Call_u32 run_call.simps call_cost.simps CBB_add_u32_def
    by (rule simulates_cong [OF simulates_u [OF ok]]) (use u in simp_all)
next
  case (Call_u8_prefixed k)
  have S: "simulates malloc 5 (\<lambda>a. k \<le> length (snd a)) (cbb_add_length_prefixed malloc k 1) (open_spec k [] (Fixed_prefix 1))"
    using simulates_length_prefixed [OF ok, of 1 _ k] by simp
  show ?thesis unfolding Call_u8_prefixed run_call.simps call_cost.simps CBB_add_u8_length_prefixed_def
    by (rule simulates_cong [OF S]) simp_all
next
  case (Call_u16_prefixed k)
  have S: "simulates malloc 6 (\<lambda>a. k \<le> length (snd a)) (cbb_add_length_prefixed malloc k 2) (open_spec k [] (Fixed_prefix 2))"
    using simulates_length_prefixed [OF ok, of 2 _ k] by simp
  show ?thesis unfolding Call_u16_prefixed run_call.simps call_cost.simps CBB_add_u16_length_prefixed_def
    by (rule simulates_cong [OF S]) simp_all
next
  case (Call_u24_prefixed k)
  have S: "simulates malloc 7 (\<lambda>a. k \<le> length (snd a)) (cbb_add_length_prefixed malloc k 3) (open_spec k [] (Fixed_prefix 3))"
    using simulates_length_prefixed [OF ok, of 3 _ k] by simp
  show ?thesis unfolding Call_u24_prefixed run_call.simps call_cost.simps CBB_add_u24_length_prefixed_def
    by (rule simulates_cong [OF S]) simp_all
next
  case (Call_asn1 k tag)
  show ?thesis unfolding Call_asn1 run_call.simps call_cost.simps
    by (rule simulates_cong [OF simulates_asn1 [OF ok]]) simp_all
next
  case (Call_flush k)
  show ?thesis unfolding Call_flush run_call.simps call_cost.simps
    by (rule simulates_cong [OF simulates_flush [OF ok]]) simp_all
qed

text \<open>The handles of a sequence are those of open children or of the top-level builder.\<close>

fun handles_ok :: "nat \<Rightarrow> cbb_call list \<Rightarrow> bool" where
  "handles_ok n [] = True"
| "handles_ok n (x # xs) = (call_handle x \<le> n \<and>
    handles_ok (case x of Call_u8_prefixed k \<Rightarrow> Suc k | Call_u16_prefixed k \<Rightarrow> Suc k
      | Call_u24_prefixed k \<Rightarrow> Suc k | Call_asn1 k tag \<Rightarrow> Suc k | _ \<Rightarrow> call_handle x) xs)"

definition total_cost :: "cbb_call list \<Rightarrow> nat"
  where "total_cost xs = sum_list (map call_cost xs)"

lemma call_spec_length:
  assumes "call_spec x a = Some a'"
  shows "length (snd a') = (case x of Call_u8_prefixed k \<Rightarrow> Suc k | Call_u16_prefixed k \<Rightarrow> Suc k
      | Call_u24_prefixed k \<Rightarrow> Suc k | Call_asn1 k tag \<Rightarrow> Suc k | _ \<Rightarrow> call_handle x)"
proof -
  have o: "open_spec k bs p b = Some b' \<Longrightarrow> length (snd b') = Suc k" for k bs p and b b' :: builder
    using put_spec_length by (fastforce simp: open_spec_def)
  have c: "close_at k b fs = Some b' \<Longrightarrow> length (snd b') = k" for k b fs b'
    using close_at_length [of k b fs "fst b'" "snd b'"] by simp
  show ?thesis using assms by (cases x) (auto dest: o c put_spec_length split: if_splits)
qed

lemma run_calls_simulates:
  assumes "malloc_ok malloc" "total_cost xs < 2 ^ 64"
  shows "simulates malloc (total_cost xs) (\<lambda>a. handles_ok (length (snd a)) xs) (run_calls malloc xs) (calls_spec xs)"
  using assms
proof (induction xs)
  case Nil
  show ?case by (rule simulatesI) (auto simp: total_cost_def)
next
  case (Cons x xs)
  have l: "call_cost x < 2 ^ 64" "total_cost xs < 2 ^ 64" using Cons.prems(2) by (simp_all add: total_cost_def)
  have t: "total_cost (x # xs) = call_cost x + total_cost xs" by (simp add: total_cost_def)
  have "simulates malloc (call_cost x) (\<lambda>a. handles_ok (length (snd a)) (x # xs)) (run_call malloc x) (call_spec x)"
    by (rule simulates_cong [OF run_call_simulates [OF Cons.prems(1) l(1)]]) simp_all
  from simulates_seq [OF this Cons.IH [OF Cons.prems(1) l(2)]]
  show ?case unfolding t run_calls.simps calls_spec.simps
    by (rule simulates_cong [OF _ refl]) (auto simp: call_spec_length)
qed

end
