(* ===== verification/Boring_Bytestring.thy ===== *)
theory Boring_Bytestring
  imports Boring_CBB_Calls
begin

text \<open>
  The byte-string library as a whole: canonical readers as an interface with its interpretations,
  building from \<^verbatim>\<open>CBB_init\<close> to \<^verbatim>\<open>CBB_finish\<close>, integers, and the properties of reader
  and builder.
\<close>

section \<open>Canonical readers\<close>

text \<open>A reader that accepts exactly one encoding of each value.\<close>

locale canonical_reader =
  fixes reader :: "byte list \<Rightarrow> 'a outcome \<times> byte list"
    and valid :: "'a \<Rightarrow> bool"
    and enc :: "'a \<Rightarrow> byte list"
  assumes read_iff: "reader c = (Ok v, c') \<longleftrightarrow> valid v \<and> c = enc v @ c'"
    and read_defined: "fst (reader c) \<noteq> Undef"
begin

lemma reads: "valid v \<Longrightarrow> reader (enc v @ c') = (Ok v, c')"
  by (simp add: read_iff)

lemma not_malleable: "reader c1 = (Ok v, c') \<Longrightarrow> reader c2 = (Ok v, c') \<Longrightarrow> c1 = c2"
  unfolding read_iff by blast

lemma uniquely_decodable:
  assumes "valid v" "valid v'" "enc v @ c = enc v' @ c'"
  shows "v = v' \<and> c = c'"
proof -
  have "(Ok v, c) = (Ok v', c')"
    using reads [OF assms(1), of c] reads [OF assms(2), of c'] unfolding assms(3) by (rule trans [OF sym])
  then show ?thesis by simp
qed

text \<open>Reading until the input is empty, with the length as fuel: what a caller's
  \<^verbatim>\<open>while (CBS_len(&cbs) > 0)\<close> loop does.\<close>

fun read_all :: "nat \<Rightarrow> byte list \<Rightarrow> 'a list outcome" where
  "read_all n [] = Ok []"
| "read_all 0 (b # c) = Fail"
| "read_all (Suc n) (b # c) =
    (case reader (b # c) of
       (Ok v, c') \<Rightarrow> (case read_all n c' of Ok vs \<Rightarrow> Ok (v # vs) | Fail \<Rightarrow> Fail | Undef \<Rightarrow> Undef)
     | (Fail, c') \<Rightarrow> Fail
     | (Undef, c') \<Rightarrow> Undef)"

lemma read_all_sound: "read_all n c = Ok vs \<Longrightarrow> list_all valid vs \<and> c = concat (map enc vs)"
  by (induction n c arbitrary: vs rule: read_all.induct)
    (auto simp: read_iff split: prod.splits outcome.splits)

lemma read_all_complete:
  "list_all valid vs \<Longrightarrow> \<forall>v. enc v \<noteq> [] \<Longrightarrow> length vs \<le> n \<Longrightarrow> read_all n (concat (map enc vs)) = Ok vs"
proof (induction vs arbitrary: n)
  case (Cons v vs)
  obtain b bs where b: "enc v = b # bs" using Cons.prems(2) by (cases "enc v") auto
  obtain k where k: "n = Suc k" using Cons.prems(3) by (cases n) auto
  have "reader (b # bs @ concat (map enc vs)) = (Ok v, concat (map enc vs))"
    using reads [of v "concat (map enc vs)"] Cons.prems(1) b by simp
  with Cons k b show ?case by simp
qed (cases n; simp)

end

definition good_tag :: "byte \<Rightarrow> bool"
  where "good_tag t \<longleftrightarrow> t AND 0x1F \<noteq> 0x1F"

interpretation any_asn1: canonical_reader CBS_get_any_asn1
  "\<lambda>(tag, body). (\<exists>t. tag = ucast t \<and> good_tag t) \<and> length body < 2 ^ 32"
  "\<lambda>(tag, body). der_encode (ucast tag) body"
proof
  have u: "ucast (ucast t :: u32) = (t :: byte)" for t by (rule bit_word_eqI) (simp add: bit_unsigned_iff)
  show "(CBS_get_any_asn1 c = (Ok v, c')) = ((case v of (tag, body) \<Rightarrow> (\<exists>t. tag = ucast t \<and> good_tag t) \<and>
      length body < 2 ^ 32) \<and> c = (case v of (tag, body) \<Rightarrow> der_encode (ucast tag) body) @ c')" for c v c'
    by (cases v) (auto simp: any_asn1_iff good_tag_def u)
  show "fst (CBS_get_any_asn1 c) \<noteq> Undef" for c by (rule get_any_asn1_not_Undef)
qed

interpretation uint64: canonical_reader CBS_get_asn1_uint64 "\<lambda>_. True"
  "\<lambda>v. der_encode 2 (integer_bytes (unat v))"
proof
  show "(CBS_get_asn1_uint64 c = (Ok v, c')) = (True \<and> c = der_encode 2 (integer_bytes (unat v)) @ c')" for c v c'
    by (simp add: get_uint64_iff)
  show "fst (CBS_get_asn1_uint64 c) \<noteq> Undef" for c
    using get_asn1_not_Undef [of CBS_ASN1_INTEGER c]
    by (auto simp: CBS_get_asn1_uint64_def seq_def split: prod.splits outcome.splits option.splits)
qed

section \<open>From \<^verbatim>\<open>CBB_init\<close> to \<^verbatim>\<open>CBB_finish\<close>\<close>

definition build :: "c_malloc \<Rightarrow> cbb_call list \<Rightarrow> cbb \<Rightarrow> byte list outcome \<times> cbb"
  where "build malloc xs = seq (run_calls malloc xs) (\<lambda>_. CBB_finish malloc 0 True)"

definition build_spec :: "cbb_call list \<Rightarrow> byte list option" where
  "build_spec xs = (case calls_spec xs ([], []) of None \<Rightarrow> None | Some a \<Rightarrow> map_option fst (close_at 0 (fst a) (snd a)))"

lemma initial_represents:
  assumes ok: "malloc_ok malloc" and r: "CBB_init malloc cap = (Ok u, c)"
  shows "represents ([], []) c" "n < 2 ^ 62 \<Longrightarrow> bounded n c"
    "n < 2 ^ 62 \<Longrightarrow> \<forall>k. malloc k \<noteq> None \<Longrightarrow> roomy malloc n c"
proof -
  obtain buf where c: "c = \<lparr>cb_base = Some \<lparr>bb_buf = buf, bb_len = 0, bb_cap = cap, bb_can_resize = True, bb_error = False\<rparr>,
      cb_children = []\<rparr>" and l: "length buf = unat cap"
    using r malloc_block [OF ok]
    by (auto simp: CBB_init_def cbb_init_def CBB_zero_def word_gt_0 split: outcome.splits option.splits if_splits)
  show "represents ([], []) c" "n < 2 ^ 62 \<Longrightarrow> bounded n c"
    "n < 2 ^ 62 \<Longrightarrow> \<forall>k. malloc k \<noteq> None \<Longrightarrow> roomy malloc n c"
    using l by (simp_all add: c represents_def buf_ok_def written_def bounded_def roomy_def has_room_def)
qed

lemma initial_fixed:
  assumes r: "CBB_init_fixed malloc buf len = (Ok u, c)" and l: "length buf = unat len"
  shows "represents ([], []) c" "n < 2 ^ 62 \<Longrightarrow> bounded n c"
    "n < 2 ^ 62 \<Longrightarrow> n \<le> length buf \<Longrightarrow> roomy malloc n c"
proof -
  have c: "c = \<lparr>cb_base = Some \<lparr>bb_buf = buf, bb_len = 0, bb_cap = len, bb_can_resize = False, bb_error = False\<rparr>,
      cb_children = []\<rparr>"
    using r by (auto simp: CBB_init_fixed_def cbb_init_def CBB_zero_def split: outcome.splits option.splits)
  show "represents ([], []) c" "n < 2 ^ 62 \<Longrightarrow> bounded n c" "n < 2 ^ 62 \<Longrightarrow> n \<le> length buf \<Longrightarrow> roomy malloc n c"
    using l by (simp_all add: c represents_def buf_ok_def written_def bounded_def roomy_def has_room_def)
qed

lemma finish_refines:
  assumes a: "represents a c" and ok: "malloc_ok malloc" and n: "bounded n c"
    and r: "CBB_finish malloc 0 True c = (r, c')"
  shows "r \<noteq> Undef" "r = Ok out \<Longrightarrow> map_option fst (close_at 0 (fst a) (snd a)) = Some out"
    "close_at 0 (fst a) (snd a) \<noteq> None \<Longrightarrow> roomy malloc m c \<Longrightarrow> r \<noteq> Fail"
proof -
  obtain q c1 where q: "CBB_flush malloc 0 c = (q, c1)" by (cases "CBB_flush malloc 0 c")
  note F = CBB_flush_refines [OF a ok n q]
  have "r \<noteq> Undef \<and> (r = Ok out \<longrightarrow> map_option fst (close_at 0 (fst a) (snd a)) = Some out) \<and>
      (close_at 0 (fst a) (snd a) \<noteq> None \<longrightarrow> roomy malloc m c \<longrightarrow> r \<noteq> Fail)"
  proof (cases q)
    case (Ok u)
    with F(1) obtain a' where a': "close_at 0 (fst a) (snd a) = Some a'" "represents a' c1" "length (cb_children c1) = 0" by auto
    then obtain b where b: "cb_base c1 = Some b" "written b = fst a'"
      by (cases "snd a'"; fastforce simp: represents_def dest: opened_length)
    with r q Ok a'(1) show ?thesis by (auto simp: CBB_finish_def seq_def written_def)
  next
    case Fail
    with r q F(3) show ?thesis by (auto simp: CBB_finish_def seq_def)
  next
    case Undef
    with F(2) show ?thesis by simp
  qed
  then show "r \<noteq> Undef" "r = Ok out \<Longrightarrow> map_option fst (close_at 0 (fst a) (snd a)) = Some out"
    "close_at 0 (fst a) (snd a) \<noteq> None \<Longrightarrow> roomy malloc m c \<Longrightarrow> r \<noteq> Fail" by blast+
qed

lemma build_refines:
  assumes a: "represents ([], []) c" "bounded (total_cost xs) c" and ok: "malloc_ok malloc" and hs: "handles_ok 0 xs"
    and r: "build malloc xs c = (r, c')"
  shows "r \<noteq> Undef" "r = Ok out \<Longrightarrow> build_spec xs = Some out"
    "build_spec xs \<noteq> None \<Longrightarrow> roomy malloc (total_cost xs) c \<Longrightarrow> r \<noteq> Fail"
proof -
  have l: "total_cost xs < 2 ^ 64" using a(2) by (auto simp: bounded_def)
  obtain q c1 where q: "run_calls malloc xs c = (q, c1)" by (cases "run_calls malloc xs c")
  have b0: "bounded (0 + total_cost xs) c" using a(2) by simp
  have h0: "handles_ok (length (snd ([] :: byte list, [] :: frames))) xs" using hs by simp
  from run_calls_simulates [OF ok l] a(1) h0 b0 q
  have S: "q \<noteq> Undef"
    "\<And>x. q = Ok x \<Longrightarrow> \<exists>a'. calls_spec xs ([], []) = Some a' \<and> represents a' c1 \<and> bounded 0 c1"
    "calls_spec xs ([], []) \<noteq> None \<Longrightarrow> roomy malloc (0 + total_cost xs) c \<Longrightarrow> q \<noteq> Fail \<and> roomy malloc 0 c1"
    unfolding simulates_def by blast+
  have "r \<noteq> Undef \<and> (r = Ok out \<longrightarrow> build_spec xs = Some out) \<and>
      (build_spec xs \<noteq> None \<longrightarrow> roomy malloc (total_cost xs) c \<longrightarrow> r \<noteq> Fail)"
  proof (cases q)
    case (Ok u)
    with S(2) obtain a' where a': "calls_spec xs ([], []) = Some a'" "represents a' c1" "bounded 0 c1" by blast
    have "CBB_finish malloc 0 True c1 = (r, c')" using r q Ok by (simp add: build_def seq_def)
    note E = finish_refines [OF a'(2) ok a'(3) this]
    have bs: "build_spec xs = map_option fst (close_at 0 (fst a') (snd a'))" by (simp add: build_spec_def a'(1))
    have "r \<noteq> Fail" if "build_spec xs \<noteq> None" "roomy malloc (total_cost xs) c"
    proof (rule E(3))
      show "close_at 0 (fst a') (snd a') \<noteq> None" using that(1) unfolding bs by (metis option.map_disc_iff)
      show "roomy malloc 0 c1" using S(3) that(2) a'(1) by simp
    qed
    with E(1,2) bs show ?thesis by simp
  next
    case Fail
    with r q S(3) show ?thesis by (auto simp: build_def seq_def build_spec_def split: option.splits)
  next
    case Undef
    with S(1) show ?thesis by simp
  qed
  then show "r \<noteq> Undef" "r = Ok out \<Longrightarrow> build_spec xs = Some out"
    "build_spec xs \<noteq> None \<Longrightarrow> roomy malloc (total_cost xs) c \<Longrightarrow> r \<noteq> Fail" by blast+
qed

lemma build_total:
  assumes "represents ([], []) c" "bounded (total_cost xs) c" "malloc_ok malloc" "handles_ok 0 xs"
    and "build_spec xs = Some out" "roomy malloc (total_cost xs) c"
  shows "fst (build malloc xs c) = Ok out"
proof -
  obtain r c' where r: "build malloc xs c = (r, c')" by (cases "build malloc xs c")
  note B = build_refines [OF assms(1-4) r]
  show ?thesis using B(1) B(2) B(3) assms(5,6) r by (cases r) auto
qed

lemma init_total:
  assumes "malloc_ok malloc" "\<forall>k. malloc k \<noteq> None" "unat cap < 2 ^ 62"
  shows "\<exists>c. CBB_init malloc cap = (Ok (), c)"
proof -
  have m: "\<exists>blk. OPENSSL_malloc malloc n = Ok (Some blk)" if "unat n < 2 ^ 63" for n
  proof -
    obtain raw where "malloc (n + OPENSSL_MALLOC_PREFIX) = Some raw" using assms(2) by (metis option.exhaust)
    with malloc_defined [OF assms(1) that] show ?thesis by (auto simp: OPENSSL_malloc_def split: if_splits)
  qed
  obtain b1 b2 where "OPENSSL_malloc malloc cap = Ok (Some b1)" "OPENSSL_malloc malloc sizeof_cbb_buffer = Ok (Some b2)"
    using m [of cap] m [of sizeof_cbb_buffer] assms(3) by (auto simp: sizeof_cbb_buffer_def)
  then show ?thesis by (simp add: CBB_init_def cbb_init_def)
qed

section \<open>Integers\<close>

fun uint64_list :: "u64 \<Rightarrow> nat \<Rightarrow> bool \<Rightarrow> byte list" where
  "uint64_list v 0 started = []"
| "uint64_list v (Suc i) started =
    (let b = ucast (drop_bit (8 * i) v) :: byte in
     if \<not> started \<and> b = 0 then uint64_list v i False
     else (if \<not> started \<and> b AND 0x80 \<noteq> 0 then [0] else []) @ b # uint64_list v i True)"

lemma seq_ret_right: "seq m ret = m"
  by (rule ext) (auto simp: seq_def split: prod.splits outcome.splits)

lemma run_calls_append: "run_calls malloc (xs @ ys) = seq (run_calls malloc xs) (\<lambda>_. run_calls malloc ys)"
  by (induction xs) (simp_all add: seq_assoc del: ret_simp)

lemma uint64_bytes_loop_calls:
  "uint64_bytes_loop malloc k v i started =
    seq (run_calls malloc (map (Call_u8 k) (uint64_list v i started))) (\<lambda>_. ret (started \<or> unat v mod 256 ^ i \<noteq> 0))"
proof (induction i arbitrary: started)
  case (Suc i)
  let ?b = "ucast (drop_bit (8 * i) v) :: byte"
  have ub: "unat ?b = unat v div 256 ^ i mod 256"
    by (simp add: unat_ucast_byte unat_drop_bit_div power_mult)
  have m: "unat v mod 256 ^ Suc i = unat ?b * 256 ^ i + unat v mod 256 ^ i"
    unfolding ub using mod_mult2_eq [of "unat v" "256 ^ i" 256] by (simp add: mult.commute)
  have b0: "?b = 0 \<longleftrightarrow> unat ?b = 0" by (simp only: unat_eq_0)
  show ?case
  proof (cases "\<not> started \<and> ?b = 0")
    case True
    with Suc [of False] m b0 show ?thesis by (simp add: Let_def)
  next
    case False
    then have "started \<or> unat v mod 256 ^ Suc i \<noteq> 0" unfolding m using b0 by auto
    with False Suc [of True] show ?thesis by (auto simp: Let_def seq_assoc simp del: ret_simp)
  qed
qed (simp add: seq_def fun_eq_iff)

lemma uint64_list_started: "uint64_list v i True = be_bytes i v"
  by (induction i) (simp_all add: be_bytes_Suc Let_def, simp add: be_bytes_def le_bytes_def)

lemma uint64_list_fresh:
  "uint64_list v i False = (if unat v mod 256 ^ i = 0 then [] else integer_bytes (unat v mod 256 ^ i))"
proof (induction i)
  case (Suc i)
  let ?b = "ucast (drop_bit (8 * i) v) :: byte"
  have n: "nat_of_bytes (?b # be_bytes i v) = unat v mod 256 ^ Suc i"
    unfolding be_bytes_Suc [symmetric] by (rule nat_of_be_bytes) simp
  show ?case
  proof (cases "?b = 0")
    case True
    with n have "unat v mod 256 ^ Suc i = unat v mod 256 ^ i"
      by (simp add: nat_of_bytes_Cons nat_of_be_bytes)
    with True Suc show ?thesis by (simp add: Let_def)
  next
    case False
    then have nb: "nat_bytes (unat v mod 256 ^ Suc i) = ?b # be_bytes i v"
      using nat_bytes_nat_of_bytes [of "?b # be_bytes i v"] n by simp
    moreover have "nat_bytes 0 = []" by (simp add: nat_bytes.simps)
    ultimately have "unat v mod 256 ^ Suc i \<noteq> 0" by (metis list.distinct(1))
    with False nb show ?thesis by (simp add: Let_def uint64_list_started integer_bytes_def)
  qed
qed simp

lemma add_asn1_uint64_calls:
  "CBB_add_asn1_uint64 malloc k v =
    run_calls malloc (Call_asn1 k CBS_ASN1_INTEGER # map (Call_u8 (Suc k)) (integer_bytes (unat v)) @ [Call_flush k])"
proof -
  have "unat v < 2 ^ LENGTH(64)" by (rule unsigned_less)
  then have m: "unat v mod 256 ^ 8 = unat v" by simp
  have l: "uint64_list v 8 False @ (if unat v mod 256 ^ 8 = 0 then [0] else []) = integer_bytes (unat v)"
    unfolding uint64_list_fresh m by (simp add: integer_bytes_def nat_bytes.simps [of 0])
  have "seq (uint64_bytes_loop malloc (Suc k) v 8 False)
      (\<lambda>started. seq (if \<not> started then CBB_add_u8 malloc (Suc k) 0 else ret ()) (\<lambda>_. CBB_flush malloc k)) =
    run_calls malloc (map (Call_u8 (Suc k)) (uint64_list v 8 False @ (if unat v mod 256 ^ 8 = 0 then [0] else [])) @ [Call_flush k])"
    by (simp add: uint64_bytes_loop_calls run_calls_append seq_assoc seq_ret_right m)
  then show ?thesis unfolding l by (simp add: CBB_add_asn1_uint64_def)
qed

section \<open>Properties of the builder\<close>

text \<open>C6: the builder implements nested byte strings.  Take any sequence of calls that add bytes
  and numbers, open length-prefixed and ASN.1 children, and flush, on a fresh builder whose buffer
  grows by itself, with an allocator that may fail at any time.  Building and finishing is never
  undefined, and if it reports success the output is the one the abstract builder prescribes: each
  child's contents behind its length, in the width asked for or in distinguished ASN.1 form, however
  often the buffer moved and however deep the children nest.\<close>

theorem cbb_refines_nested_strings:
  assumes "malloc_ok malloc" "CBB_init malloc cap = (Ok (), c)" "handles_ok 0 xs" "total_cost xs < 2 ^ 62"
    and "build malloc xs c = (r, c')"
  shows "r \<noteq> Undef \<and> (\<forall>out. r = Ok out \<longrightarrow> build_spec xs = Some out)"
  using build_refines [OF initial_represents(1,2) _ assms(3,5)] assms(1,2,4) by blast

definition demo_calls :: "cbb_call list" where
  "demo_calls = [Call_asn1 0 0x30, Call_asn1 1 2, Call_u8 2 5, Call_u16_prefixed 1, Call_bytes 2 [1, 2]]"

theorem cbb_refines_nested_strings_witness:
  "\<exists>c. CBB_init calloc 1 = (Ok (), c) \<and>
    fst (build calloc demo_calls c) = Ok [0x30, 7, 2, 1, 5, 0, 2, 1, 2] \<and>
    build_spec demo_calls = Some [0x30, 7, 2, 1, 5, 0, 2, 1, 2]"
proof -
  let ?c = "snd (CBB_init calloc 1)" and ?out = "[0x30, 7, 2, 1, 5, 0, 2, 1, 2]"
  have i: "CBB_init calloc 1 = (Ok (), ?c)" by code_simp
  have r: "fst (build calloc demo_calls ?c) = Ok ?out" by code_simp
  have h: "handles_ok 0 demo_calls" "total_cost demo_calls < 2 ^ 62" by (simp_all add: demo_calls_def total_cost_def)
  have "build calloc demo_calls ?c = (Ok ?out, snd (build calloc demo_calls ?c))" using r by (metis prod.collapse)
  from cbb_refines_nested_strings [OF calloc_ok(1) i h this] have "build_spec demo_calls = Some ?out" by blast
  with i r show ?thesis by blast
qed

text \<open>C7: the builder delivers.  If the allocator never fails, then every sequence of calls for
  which the nested byte string exists (no child too long for its length, no handle of a closed
  child, no bad tag) builds exactly that byte string.\<close>

theorem cbb_builds_when_memory_lasts:
  assumes "malloc_ok malloc" "\<forall>n. malloc n \<noteq> None" "unat cap < 2 ^ 62"
    and "handles_ok 0 xs" "total_cost xs < 2 ^ 62" "build_spec xs = Some out"
  shows "\<exists>c. CBB_init malloc cap = (Ok (), c) \<and> fst (build malloc xs c) = Ok out"
proof -
  obtain c where c: "CBB_init malloc cap = (Ok (), c)" using init_total [OF assms(1-3)] by blast
  note I = initial_represents [OF assms(1) c]
  have "fst (build malloc xs c) = Ok out"
    by (rule build_total [OF I(1) I(2) [OF assms(5)] assms(1,4,6) I(3) [OF assms(5,2)]])
  with c show ?thesis by blast
qed

lemma close_at_2:
  "close_at 2 b ((p, b') # fs) = map_option (\<lambda>(b'', fs'). (b, (p, b'') # fs')) (close_at (Suc 0) b' fs)"
  by (simp add: numeral_2_eq_2)

theorem cbb_builds_when_memory_lasts_witness:
  "\<exists>c. CBB_init calloc 0 = (Ok (), c) \<and>
    fst (build calloc demo_calls c) = Ok [0x30, 7, 2, 1, 5, 0, 2, 1, 2]"
proof (rule cbb_builds_when_memory_lasts [OF calloc_ok])
  show "unat (0 :: size_t) < 2 ^ 62" "handles_ok 0 demo_calls" "total_cost demo_calls < 2 ^ 62"
    by (simp_all add: demo_calls_def total_cost_def)
  show "build_spec demo_calls = Some [0x30, 7, 2, 1, 5, 0, 2, 1, 2]"
    by (simp add: demo_calls_def build_spec_def open_spec_def put_spec_def der_length_def fixed_bytes_def
        nat_bytes.simps low_tag_def Let_def close_at_2)
qed

text \<open>C8: what the builder writes as an ASN.1 element, the reader reads back, in front of any
  further input: \<^verbatim>\<open>CBB_add_asn1\<close>, \<^verbatim>\<open>CBB_add_bytes\<close> on the child and \<^verbatim>\<open>CBB_finish\<close>, then
  \<^verbatim>\<open>CBS_get_asn1\<close>, for every tag below the long form and every body the builder can express.\<close>

theorem asn1_element_roundtrip:
  assumes "malloc_ok malloc" "\<forall>n. malloc n \<noteq> None" "unat cap < 2 ^ 62" "low_tag tag" "length body \<le> 0xfffffffe"
  shows "\<exists>c out. CBB_init malloc cap = (Ok (), c) \<and>
    fst (build malloc [Call_asn1 0 tag, Call_bytes 1 body] c) = Ok out \<and>
    (\<forall>rest. CBS_get_asn1 tag (out @ rest) = (Ok body, rest))"
proof -
  let ?xs = "[Call_asn1 0 tag, Call_bytes 1 body]" and ?t = "ucast tag :: byte"
  have s: "build_spec ?xs = Some (der_encode ?t body)"
    using assms(4,5) by (simp add: build_spec_def open_spec_def put_spec_def der_encode_def Let_def)
  have n: "handles_ok 0 ?xs" "total_cost ?xs < 2 ^ 62" using assms(5) by (simp_all add: total_cost_def)
  obtain c where c: "CBB_init malloc cap = (Ok (), c)" using init_total [OF assms(1-3)] by blast
  note I = initial_represents [OF assms(1) c]
  have b: "fst (build malloc ?xs c) = Ok (der_encode ?t body)"
    by (rule build_total [OF I(1) I(2) [OF n(2)] assms(1) n(1) s I(3) [OF n(2) assms(2)]])
  have tag: "tag = ucast ?t"
  proof -
    have t: "unat tag < 2 ^ 8" using assms(4) by (simp add: low_tag_def word_le_nat_alt)
    show ?thesis
      by (rule bit_word_eqI) (use small_word_bits [OF t] in \<open>auto simp: bit_unsigned_iff\<close>)
  qed
  have "?t AND 0x1F \<noteq> 0x1F"
  proof
    assume "?t AND 0x1F = 0x1F"
    then have "ucast (?t AND 0x1F) = (ucast (0x1F :: byte) :: u32)" by simp
    moreover have "ucast (?t AND 0x1F) = tag AND 0x1F" by (subst (2) tag) (simp add: unsigned_and_eq)
    ultimately show False using assms(4) by (simp add: low_tag_def)
  qed
  then have "\<forall>rest. CBS_get_asn1 tag (der_encode ?t body @ rest) = (Ok body, rest)"
    unfolding get_asn1_iff using tag assms(5) by (auto intro!: exI [of _ ?t])
  with c b show ?thesis by blast
qed

theorem asn1_element_roundtrip_witness:
  "\<exists>c out. CBB_init calloc 0 = (Ok (), c) \<and>
    fst (build calloc [Call_asn1 0 0x30, Call_bytes 1 (replicate 300 7)] c) = Ok out \<and>
    (\<forall>rest. CBS_get_asn1 0x30 (out @ rest) = (Ok (replicate 300 7), rest))"
  by (rule asn1_element_roundtrip [OF calloc_ok]) (simp_all add: low_tag_def)

text \<open>C9: \<^verbatim>\<open>CBB_add_asn1_uint64\<close> and \<^verbatim>\<open>CBS_get_asn1_uint64\<close> are inverse for every 64-bit value:
  the writer emits the shortest two's complement INTEGER, and the reader, in front of any further
  input, returns the value.\<close>

theorem asn1_uint64_roundtrip:
  assumes "malloc_ok malloc" "\<forall>n. malloc n \<noteq> None" "unat cap < 2 ^ 62"
  shows "\<exists>c out. CBB_init malloc cap = (Ok (), c) \<and>
    fst (seq (CBB_add_asn1_uint64 malloc 0 v) (\<lambda>_. CBB_finish malloc 0 True) c) = Ok out \<and>
    (\<forall>rest. CBS_get_asn1_uint64 (out @ rest) = (Ok v, rest))"
proof -
  let ?bs = "integer_bytes (unat v)" and ?xs = "Call_asn1 0 CBS_ASN1_INTEGER # map (Call_u8 1) (integer_bytes (unat v)) @ [Call_flush 0]"
  have l: "length ?bs \<le> 9"
  proof -
    have "unat v < 2 ^ LENGTH(64)" by (rule unsigned_less)
    then have "length (nat_bytes (unat v)) \<le> 8" unfolding length_nat_bytes by simp
    then show ?thesis by (simp add: integer_bytes_def Let_def)
  qed
  have u: "calls_spec (map (Call_u8 1) bs @ [Call_flush 0]) ([t], [(Der_prefix, b)]) =
      Some (t # der_length (length (b @ bs)) @ b @ bs, [])" if "length (b @ bs) \<le> 9" for t b bs
    using that by (induction bs arbitrary: b) (auto simp: put_spec_def Let_def)
  have t: "low_tag CBS_ASN1_INTEGER" "ucast CBS_ASN1_INTEGER = (2 :: byte)" by (simp_all add: CBS_ASN1_INTEGER_def low_tag_def)
  have s: "build_spec ?xs = Some (der_encode 2 ?bs)"
    using u [of "[]" ?bs 2] l t by (simp add: build_spec_def open_spec_def put_spec_def der_encode_def)
  have h: "handles_ok 1 (map (Call_u8 1) bs @ [Call_flush 0])" for bs by (induction bs) simp_all
  have n: "handles_ok 0 ?xs" using h by simp
  have "sum_list (map (call_cost \<circ> Call_u8 1) bs) = length bs" for bs by (induction bs) simp_all
  with l have m: "total_cost ?xs < 2 ^ 62" by (simp add: total_cost_def)
  obtain c where c: "CBB_init malloc cap = (Ok (), c)" using init_total [OF assms(1-3)] by blast
  note I = initial_represents [OF assms(1) c]
  have "fst (build malloc ?xs c) = Ok (der_encode 2 ?bs)"
    by (rule build_total [OF I(1) I(2) [OF m] assms(1) n s I(3) [OF m assms(2)]])
  then have "fst (seq (CBB_add_asn1_uint64 malloc 0 v) (\<lambda>_. CBB_finish malloc 0 True) c) = Ok (der_encode 2 ?bs)"
    by (simp add: build_def add_asn1_uint64_calls)
  with c uint64.reads show ?thesis by blast
qed

theorem asn1_uint64_roundtrip_witness:
  "\<exists>c out. CBB_init calloc 0 = (Ok (), c) \<and>
    fst (seq (CBB_add_asn1_uint64 calloc 0 0xFFFFFFFFFFFFFFFF) (\<lambda>_. CBB_finish calloc 0 True) c) = Ok out \<and>
    (\<forall>rest. CBS_get_asn1_uint64 (out @ rest) = (Ok 0xFFFFFFFFFFFFFFFF, rest))"
  by (rule asn1_uint64_roundtrip [OF calloc_ok]) simp

section \<open>Properties of the reader\<close>

text \<open>C14: \<^verbatim>\<open>CBS_get_any_asn1\<close> accepts exactly the distinguished encodings.  It returns tag and
  body with the remaining input \<open>c'\<close> if and only if the input is the one DER encoding of that element
  (single-byte tag, shortest length) followed by \<open>c'\<close>: longer than necessary lengths, indefinite
  lengths, long-form tags and truncated bodies are all refused, and nothing valid is.\<close>

theorem any_asn1_exact:
  "CBS_get_any_asn1 c = (Ok (tag, body), c') \<longleftrightarrow>
    (\<exists>t. tag = ucast t \<and> good_tag t \<and> length body < 2 ^ 32 \<and> c = der_encode t body @ c')"
  by (simp add: any_asn1_iff good_tag_def)

text \<open>C15: \<^verbatim>\<open>CBS_get_asn1_uint64\<close> accepts exactly the shortest INTEGER encoding of a number
  below $2^{64}$; negative numbers, padded numbers and larger numbers are refused.\<close>

theorem asn1_uint64_exact:
  "CBS_get_asn1_uint64 c = (Ok v, c') \<longleftrightarrow> c = der_encode 2 (integer_bytes (unat v)) @ c'"
  by (rule get_uint64_iff)

text \<open>C16: \<^verbatim>\<open>CBS_get_optional_asn1_bool\<close>: with the wrapping tag absent the default is returned and
  nothing consumed; present, it must wrap a BOOLEAN that is one byte, \<open>0\<close> or \<open>0xFF\<close>.\<close>

theorem optional_bool_exact:
  assumes "good_tag t"
  shows "CBS_get_optional_asn1_bool (ucast t) dflt c = (Ok x, c') \<longleftrightarrow>
    (if c \<noteq> [] \<and> hd c = t
     then \<exists>b. c = der_encode t [1, 1, b] @ c' \<and> (x = 0 \<and> b = 0 \<or> x = 1 \<and> b = 0xFF)
     else x = dflt \<and> c' = c)"
proof -
  have inj: "(ucast a = (ucast b :: u32)) = (a = b)" for a b :: byte
    using unat_ucast_byte_u32 [of a] unat_ucast_byte_u32 [of b] by (metis word_unat_eq_iff)
  have peek: "CBS_peek_asn1_tag c (ucast t) \<longleftrightarrow> c \<noteq> [] \<and> hd c = t"
    by (cases c) (auto simp: CBS_peek_asn1_tag_def CBS_len_def inj)
  show ?thesis
  proof (cases "CBS_peek_asn1_tag c (ucast t)")
    case False
    then show ?thesis using peek
      by (auto simp: CBS_get_optional_asn1_bool_def optional_inner_def CBS_get_optional_asn1_def seq_def)
  next
    case True
    have "CBS_get_optional_asn1_bool (ucast t) dflt c = (Ok x, c') \<longleftrightarrow>
        (\<exists>child. CBS_get_asn1 (ucast t) c = (Ok child, c') \<and> asn1_bool_value child = Ok x)"
      using True by (auto simp: CBS_get_optional_asn1_bool_def optional_inner_def CBS_get_optional_asn1_def seq_eq_Ok)
    also have "\<dots> \<longleftrightarrow> (\<exists>b. c = der_encode t [1, 1, b] @ c' \<and> (x = 0 \<and> b = 0 \<or> x = 1 \<and> b = 0xFF))"
      using assms inj by (auto simp: get_asn1_iff bool_value_iff good_tag_def)
    finally show ?thesis using True peek by simp
  qed
qed

theorem optional_bool_exact_witness:
  "CBS_get_optional_asn1_bool 0xA1 0 [0xA1, 3, 1, 1, 0xFF, 7] = (Ok 1, [7])"
  using optional_bool_exact [where t = "0xA1" and dflt = 0 and c = "[0xA1, 3, 1, 1, 0xFF, 7]" and x = 1 and c' = "[7]"]
  by (simp add: good_tag_def der_encode_def der_length_def)

text \<open>C17: \<^verbatim>\<open>CBS_asn1_bitstring_has_bit\<close> answers for the bits of a well-formed BIT STRING in
  ASN.1 order (bit 0 is the most significant bit of the first byte), says no beyond its end, and
  never reads outside the string whatever the bit number.\<close>

theorem bitstring_has_bit:
  "CBS_asn1_bitstring_has_bit c n =
    Ok (CBS_is_valid_asn1_bitstring c \<and> unat n div 8 + 1 < length c \<and>
      bit (c ! (unat n div 8 + 1)) (7 - unat n mod 8))"
proof (cases "CBS_is_valid_asn1_bitstring c")
  case True
  have d: "unat (drop_bit 3 n + 1) = unat n div 8 + 1"
  proof -
    have "unat (drop_bit 3 n) = unat n div 2 ^ 3" by (rule unat_drop_bit_div)
    moreover have "unat n < 2 ^ 32" using unsigned_less [of n] by simp
    ultimately show ?thesis by (simp add: unat_word_ariths)
  qed
  have "n AND 7 = take_bit 3 n" using take_bit_eq_mask [of 3 n] by (simp add: mask_eq_exp_minus_1)
  then have m: "unat (n AND 7) = unat n mod 8" by (simp add: unsigned_take_bit_eq take_bit_eq_mod unat_mod)
  have b: "unat (7 - (n AND 7)) = 7 - unat n mod 8"
    using m by (subst unat_sub) (simp_all add: word_le_nat_alt)
  have k: "(ucast b AND (push_bit k 1 :: u32) \<noteq> 0) = bit b k" if "k < 8" for k and b :: byte
    using that by (simp add: and_exp_eq_0_iff_not_bit push_bit_eq_mult bit_unsigned_iff)
  have bl: "7 - unat n mod 8 < 8" by simp
  show ?thesis
    using True k [OF bl] unfolding CBS_asn1_bitstring_has_bit_def Let_def d b
    by (auto simp: CBS_len_def byte_at_def split: if_splits)
next
  case False
  then show ?thesis by (simp add: CBS_asn1_bitstring_has_bit_def)
qed

end
