(* ===== verification/Boring_Mem_Laws.thy ===== *)
theory Boring_Mem_Laws
  imports Boring_Mem Boring_CBB_Laws
begin

text \<open>
  The contracts of the memory and string helpers: a \<^verbatim>\<open>BUF_MEM\<close> keeps its contents and its
  bounds as it grows, the bounded string copies behave as \<^verbatim>\<open>strlcpy\<close> and \<^verbatim>\<open>strlcat\<close>
  document, and the constant-time comparison decides equality.
\<close>

section \<open>Growing buffers\<close>

definition buf_mem_ok :: "buf_mem \<Rightarrow> bool" where
  "buf_mem_ok b \<longleftrightarrow> bm_length b \<le> bm_max b \<and>
    (case bm_data b of None \<Rightarrow> bm_max b = 0 | Some blk \<Rightarrow> length blk = unat (bm_max b))"

definition buf_mem_contents :: "buf_mem \<Rightarrow> byte list" where
  "buf_mem_contents b = (case bm_data b of None \<Rightarrow> [] | Some blk \<Rightarrow> take (unat (bm_length b)) blk)"

lemma buf_mem_contents_length: "buf_mem_ok b \<Longrightarrow> length (buf_mem_contents b) = unat (bm_length b)"
  by (auto simp: buf_mem_ok_def buf_mem_contents_def word_le_nat_alt split: option.splits)

text \<open>The over-allocation \<open>(cap + 3) div 3 * 4\<close> does not wrap when it passes the test.\<close>

lemma reserve_size:
  assumes "\<not> cap + 3 < (cap :: size_t)" "(cap + 3) div 3 * 4 div 4 = (cap + 3) div 3"
  shows "cap \<le> (cap + 3) div 3 * 4"
proof -
  let ?n = "(cap + 3) div 3"
  have c: "unat (cap + 3) = unat cap + 3" using unat_add_size [OF assms(1)] by simp
  have n: "unat ?n = (unat cap + 3) div 3" by (simp add: unat_div c)
  have "unat (?n * 4) div 4 = unat ?n" using arg_cong [where f = unat, OF assms(2)] by (simp add: unat_div)
  then have "unat ?n * 4 \<le> unat (?n * 4)" by presburger
  moreover have "unat cap \<le> (unat cap + 3) div 3 * 4" by presburger
  ultimately show ?thesis using n by (simp add: word_le_nat_alt)
qed

lemma realloc_none_block:
  assumes "malloc_ok malloc" "OPENSSL_realloc malloc None n = Ok (Some new)"
  shows "length new = unat n"
  using malloc_block [OF assms(1)] assms(2) by (simp add: OPENSSL_realloc_def)

lemma BUF_MEM_reserve_Ok:
  assumes ok: "malloc_ok malloc" "buf_mem_ok b" and r: "BUF_MEM_reserve malloc cap b = (Ok u, b')"
  shows "buf_mem_ok b' \<and> cap \<le> bm_max b' \<and> bm_max b \<le> bm_max b' \<and> bm_length b' = bm_length b \<and>
    buf_mem_contents b' = buf_mem_contents b"
proof (cases "cap \<le> bm_max b")
  case True
  with r ok show ?thesis by (simp add: BUF_MEM_reserve_def)
next
  case False
  let ?size = "(cap + 3) div 3 * 4"
  obtain blk where blk: "OPENSSL_realloc malloc (bm_data b) ?size = Ok (Some blk)"
    and b': "b' = b\<lparr>bm_data := Some blk, bm_max := ?size\<rparr>"
    and t: "\<not> cap + 3 < cap" "?size div 4 = (cap + 3) div 3"
    using r False by (auto simp: BUF_MEM_reserve_def Let_def split: if_splits outcome.splits option.splits)
  have s: "cap \<le> ?size" by (rule reserve_size [OF t])
  with False have m: "bm_max b \<le> ?size" by simp
  have l: "bm_length b \<le> ?size" using ok(2) m by (auto simp: buf_mem_ok_def intro: order_trans)
  show ?thesis
  proof (cases "bm_data b")
    case None
    with ok(2) have z: "bm_length b = 0" by (auto simp: buf_mem_ok_def)
    with None blk realloc_none_block [OF ok(1)] b' s m show ?thesis
      by (simp add: buf_mem_ok_def buf_mem_contents_def)
  next
    case (Some old)
    have old: "length old = unat (bm_max b)" using ok(2) Some by (simp add: buf_mem_ok_def)
    then have "length old \<le> unat ?size" using m by (simp add: word_le_nat_alt)
    note R = realloc_block [OF ok(1) blk [unfolded Some] this]
    have "unat (bm_length b) \<le> length old" using ok(2) old by (simp add: buf_mem_ok_def word_le_nat_alt)
    then have "take (unat (bm_length b)) blk = take (unat (bm_length b)) old"
      using R(2) by (metis min.absorb1 take_take)
    with R(1) b' s m l Some show ?thesis by (simp add: buf_mem_ok_def buf_mem_contents_def)
  qed
qed

lemma BUF_MEM_reserve_defined:
  assumes ok: "malloc_ok malloc" "buf_mem_ok b" and n: "unat cap < 2 ^ 62"
  shows "fst (BUF_MEM_reserve malloc cap b) \<noteq> Undef"
proof -
  let ?size = "(cap + 3) div 3 * 4"
  have "unat (cap + 3) = unat cap + 3" using n by (simp add: unat_word_ariths)
  then have "unat ((cap + 3) div 3) = (unat cap + 3) div 3" by (simp add: unat_div)
  moreover have "(unat cap + 3) div 3 * 4 < 2 ^ 63" using n by (simp add: div_less_iff_less_mult)
  ultimately have s: "unat ?size < 2 ^ 63" by (simp add: unat_word_ariths)
  have "OPENSSL_realloc malloc (bm_data b) ?size \<noteq> Undef"
    using realloc_defined(1) [OF ok(1) s] malloc_defined(1) [OF ok(1) s]
    by (cases "bm_data b") (simp_all add: OPENSSL_realloc_def)
  then show ?thesis
    by (auto simp: BUF_MEM_reserve_def Let_def split: outcome.splits option.splits)
qed

lemma BUF_MEM_grow_Ok:
  assumes ok: "malloc_ok malloc" "buf_mem_ok b" and r: "BUF_MEM_grow malloc len b = (q, b')" "q \<noteq> Fail"
    and d: "fst (BUF_MEM_reserve malloc len b) \<noteq> Undef"
  shows "q = Ok len \<and> buf_mem_ok b' \<and> bm_length b' = len \<and>
    buf_mem_contents b' = take (unat len) (buf_mem_contents b @ replicate (unat len) 0)"
proof -
  obtain b1 where b1: "BUF_MEM_reserve malloc len b = (Ok (), b1)"
    using r d by (cases "BUF_MEM_reserve malloc len b"; cases "fst (BUF_MEM_reserve malloc len b)")
      (auto simp: BUF_MEM_grow_def seq_def)
  note R = BUF_MEM_reserve_Ok [OF ok b1]
  have ok1: "buf_mem_ok b1" and c1: "buf_mem_contents b1 = buf_mem_contents b" and m: "len \<le> bm_max b1" using R by simp_all
  have l1: "length (buf_mem_contents b1) = unat (bm_length b1)" by (rule buf_mem_contents_length [OF ok1])
  show ?thesis
  proof (cases "bm_length b1 < len")
    case False
    then have "take (unat len) (buf_mem_contents b1) = take (unat len) (take (unat (bm_length b1)) (case bm_data b1 of None \<Rightarrow> [] | Some blk \<Rightarrow> blk))"
      by (simp add: buf_mem_contents_def split: option.splits)
    moreover have "unat len \<le> unat (bm_length b1)" using False by (simp add: word_le_nat_alt not_less)
    ultimately show ?thesis
      using r b1 False ok1 m l1 unfolding c1 [symmetric]
      by (auto simp: BUF_MEM_grow_def seq_def buf_mem_ok_def buf_mem_contents_def min_def split: option.splits)
  next
    case True
    then have "bm_max b1 \<noteq> 0" using m by auto
    then obtain blk where blk: "bm_data b1 = Some blk" "length blk = unat (bm_max b1)"
      using ok1 by (auto simp: buf_mem_ok_def split: option.splits)
    have lt: "unat (bm_length b1) < unat len" "unat len \<le> length blk"
      using True m blk(2) by (simp_all add: word_less_nat_alt word_le_nat_alt)
    have s: "unat (len - bm_length b1) = unat len - unat (bm_length b1)"
      using lt(1) by (intro unat_sub) (simp add: word_le_nat_alt)
    let ?blk = "take (unat (bm_length b1)) blk @ replicate (unat len - unat (bm_length b1)) 0 @ drop (unat len) blk"
    have "put_bytes (unat (bm_length b1)) (replicate (unat (len - bm_length b1)) 0) blk = Some ?blk"
      using lt s by (simp add: put_bytes_def)
    then have "q = Ok len" "b' = b1\<lparr>bm_data := Some ?blk, bm_length := len\<rparr>"
      using r b1 True blk(1) by (auto simp: BUF_MEM_grow_def seq_def)
    then show ?thesis using blk lt m unfolding c1 [symmetric]
      by (simp add: buf_mem_ok_def buf_mem_contents_def)
  qed
qed

section \<open>Bounded string copies\<close>

lemma c_strlen_append: "0 \<notin> set s \<Longrightarrow> c_strlen (s @ 0 # junk) = Ok (length s)"
  by (induction s) auto

lemma strlcpy_loop_append:
  "0 \<notin> set s \<Longrightarrow> strlcpy_loop (s @ 0 # junk) n = Some (take (n - 1) s, drop (n - 1) s @ 0 # junk)"
proof (induction s arbitrary: n)
  case (Cons c s)
  then show ?case by (cases "n - 1") auto
qed simp

lemma strlcpy_eq:
  assumes "0 \<notin> set s" "n \<le> length dst"
  shows "BUF_strlcpy dst (s @ 0 # junk) n =
    Ok (length s, if n = 0 then dst else take (n - 1) s @ 0 # drop (min (n - 1) (length s) + 1) dst)"
proof -
  have "c_strlen (drop (n - 1) s @ 0 # junk) = Ok (length s - (n - 1))"
    using assms(1) by (subst c_strlen_append) (auto dest: in_set_dropD)
  moreover have "length (take (n - 1) s) + (length s - (n - 1)) = length s" by (simp add: min_def)
  moreover have "put_bytes 0 (if n = 0 then [] else take (n - 1) s @ [0]) dst =
      Some (if n = 0 then dst else take (n - 1) s @ 0 # drop (min (n - 1) (length s) + 1) dst)"
    using assms(2) by (auto simp: put_bytes_def min.commute)
  ultimately show ?thesis
    unfolding BUF_strlcpy_def strlcpy_loop_append [OF assms(1)] option.case prod.case
    by (simp only: outcome.case option.case)
qed

lemma strlcat_loop_append:
  "0 \<notin> set d \<Longrightarrow> length d < n \<Longrightarrow> strlcat_loop (d @ 0 # rest) n = Some (length d, 0 # rest)"
proof (induction d arbitrary: n)
  case (Cons c d)
  then show ?case by (cases n) auto
qed simp

text \<open>Growing fails only when memory is needed and there is none, and then nothing has changed.\<close>

lemma BUF_MEM_reserve_Fail:
  assumes "unat cap < 2 ^ 62"
  shows "fst (BUF_MEM_reserve malloc cap b) = Fail \<longleftrightarrow>
      bm_max b < cap \<and> malloc ((cap + 3) div 3 * 4 + OPENSSL_MALLOC_PREFIX) = None"
    and "fst (BUF_MEM_reserve malloc cap b) = Fail \<Longrightarrow> snd (BUF_MEM_reserve malloc cap b) = b"
proof -
  let ?n = "(cap + 3) div 3" and ?size = "(cap + 3) div 3 * 4"
  have a: "unat (cap + 3) = unat cap + 3" using assms by (simp add: unat_word_ariths)
  then have n: "unat ?n = (unat cap + 3) div 3" by (simp add: unat_div)
  moreover have "(unat cap + 3) div 3 * 4 < 2 ^ 63" using assms by (simp add: div_less_iff_less_mult)
  ultimately have s: "unat ?size = 4 * unat ?n" by (simp add: unat_word_ariths)
  then have "unat (?size div 4) = unat ?n" by (simp add: unat_div)
  then have d: "?size div 4 = ?n" by (simp only: word_unat_eq_iff)
  have w: "\<not> cap + 3 < cap" using a by (simp add: word_less_nat_alt)
  have r: "OPENSSL_realloc malloc (bm_data b) ?size \<noteq> Fail \<and>
      (OPENSSL_realloc malloc (bm_data b) ?size = Ok None \<longleftrightarrow> malloc (?size + OPENSSL_MALLOC_PREFIX) = None)"
    by (auto simp: OPENSSL_realloc_def OPENSSL_malloc_def Let_def split: option.splits)
  show "fst (BUF_MEM_reserve malloc cap b) = Fail \<longleftrightarrow>
      bm_max b < cap \<and> malloc (?size + OPENSSL_MALLOC_PREFIX) = None"
    using r d w by (auto simp: BUF_MEM_reserve_def Let_def split: outcome.splits option.splits)
  show "fst (BUF_MEM_reserve malloc cap b) = Fail \<Longrightarrow> snd (BUF_MEM_reserve malloc cap b) = b"
    by (auto simp: BUF_MEM_reserve_def Let_def split: outcome.splits option.splits if_splits)
qed

lemma BUF_MEM_grow_Fail:
  assumes ok: "malloc_ok malloc" "buf_mem_ok b" and n: "unat len < 2 ^ 62" and r: "BUF_MEM_grow malloc len b = (r, b')"
  shows "(r = Fail \<longleftrightarrow> bm_max b < len \<and> malloc ((len + 3) div 3 * 4 + OPENSSL_MALLOC_PREFIX) = None) \<and>
    (r = Fail \<longrightarrow> b' = b)"
proof -
  have "r = Fail \<longleftrightarrow> fst (BUF_MEM_reserve malloc len b) = Fail"
    using r by (auto simp: BUF_MEM_grow_def seq_def split: prod.splits outcome.splits option.splits if_splits)
  moreover have "r = Fail \<Longrightarrow> b' = snd (BUF_MEM_reserve malloc len b)"
    using r by (auto simp: BUF_MEM_grow_def seq_def split: prod.splits outcome.splits option.splits if_splits)
  ultimately show ?thesis using BUF_MEM_reserve_Fail [OF n, of malloc b] by simp
qed

section \<open>Properties\<close>

text \<open>C10: growing a \<^verbatim>\<open>BUF_MEM\<close> keeps its invariant (used length at most the capacity, capacity
  the size of the block) and is a resize of its contents: the old bytes stay, new ones are zero, a
  smaller length truncates.  It is defined for every length below $2^{62}$.  It fails exactly when the
  capacity is too small and the allocator has no block of four thirds of the length, and leaves the
  \<^verbatim>\<open>BUF_MEM\<close> as it was then.\<close>

theorem BUF_MEM_grow_resizes:
  assumes "malloc_ok malloc" "buf_mem_ok b" "unat len < 2 ^ 62" "BUF_MEM_grow malloc len b = (r, b')"
  shows "r \<noteq> Undef \<and>
    (\<forall>n. r = Ok n \<longrightarrow> n = len \<and> buf_mem_ok b' \<and> bm_length b' = len \<and>
      buf_mem_contents b' = take (unat len) (buf_mem_contents b @ replicate (unat len) 0)) \<and>
    (r = Fail \<longleftrightarrow> bm_max b < len \<and> malloc ((len + 3) div 3 * 4 + OPENSSL_MALLOC_PREFIX) = None) \<and>
    (r = Fail \<longrightarrow> b' = b)"
  using BUF_MEM_grow_Ok [OF assms(1,2,4) _ BUF_MEM_reserve_defined [OF assms(1-3)]] BUF_MEM_grow_Fail [OF assms] by (cases r) simp_all

theorem BUF_MEM_grow_resizes_witness:
  "BUF_MEM_grow (\<lambda>n. Some (replicate (unat n) 7)) 6 \<lparr>bm_data = Some [1, 2], bm_length = 2, bm_max = 2\<rparr> =
    (Ok 6, \<lparr>bm_data = Some [1, 2, 0, 0, 0, 0, 7, 7, 7, 7, 7, 7], bm_length = 6, bm_max = 12\<rparr>) \<and>
   buf_mem_contents \<lparr>bm_data = Some [1, 2, 0, 0, 0, 0, 7, 7, 7, 7, 7, 7], bm_length = 6, bm_max = 12\<rparr> = [1, 2, 0, 0, 0, 0]"
proof -
  let ?m = "\<lambda>n :: size_t. Some (replicate (unat n) (7 :: byte))"
    and ?b = "\<lparr>bm_data = Some [1, 2], bm_length = 2, bm_max = 2\<rparr>"
    and ?b' = "\<lparr>bm_data = Some [1, 2, 0, 0, 0, 0, 7, 7, 7, 7, 7, 7], bm_length = 6, bm_max = 12\<rparr>"
  have g: "BUF_MEM_grow ?m 6 ?b = (Ok 6, ?b')" by code_simp
  have "malloc_ok ?m" "buf_mem_ok ?b" "unat (6 :: size_t) < 2 ^ 62" by (simp_all add: malloc_ok_def buf_mem_ok_def)
  from BUF_MEM_grow_resizes [OF this g]
  have "buf_mem_contents ?b' = take (unat (6 :: size_t)) (buf_mem_contents ?b @ replicate (unat (6 :: size_t)) 0)" by blast
  also have "\<dots> = [1, 2, 0, 0, 0, 0]" by code_simp
  finally have "buf_mem_contents ?b' = [1, 2, 0, 0, 0, 0]" .
  with g show ?thesis by blast
qed

text \<open>C11: \<^verbatim>\<open>BUF_strlcpy\<close> of a terminated string \<open>s\<close> never writes outside the \<open>n\<close> bytes it is
  given, always terminates what it writes, and returns the length of \<open>s\<close>, so that a result of at
  least \<open>n\<close> tells the caller of the truncation.\<close>

theorem BUF_strlcpy_bounded:
  assumes "0 \<notin> set s" "n \<le> length dst"
  shows "BUF_strlcpy dst (s @ 0 # junk) n =
    Ok (length s, if n = 0 then dst else take (n - 1) s @ 0 # drop (min (n - 1) (length s) + 1) dst)"
  by (rule strlcpy_eq [OF assms])

theorem BUF_strlcpy_bounded_witness:
  "BUF_strlcpy [9, 9, 9, 9] ([1, 2, 3, 4, 5] @ 0 # [8]) 3 = Ok (5, [1, 2, 0, 9])"
  by (subst BUF_strlcpy_bounded) simp_all

text \<open>C12: \<^verbatim>\<open>BUF_strlcat\<close> appends as much of \<open>s\<close> as fits behind the string \<open>d\<close> in the first \<open>n\<close>
  bytes, terminates it, and returns the length of the whole concatenation.\<close>

theorem BUF_strlcat_appends:
  assumes "0 \<notin> set d" "0 \<notin> set s" "length d < n" "n \<le> length (d @ 0 # rest)"
  shows "\<exists>tail. BUF_strlcat (d @ 0 # rest) (s @ 0 # junk) n = Ok (length d + length s, tail) \<and>
    length tail = length (d @ 0 # rest) \<and> take (min (n - 1) (length (d @ s)) + 1) tail = take (n - 1) (d @ s) @ [0]"
proof -
  let ?k = "n - length d"
  have k: "0 < ?k" "?k \<le> length (0 # rest)" using assms(3,4) by auto
  let ?tail = "d @ take (?k - 1) s @ 0 # drop (min (?k - 1) (length s) + 1) (0 # rest)"
  have "BUF_strlcat (d @ 0 # rest) (s @ 0 # junk) n = Ok (length d + length s, ?tail)"
    using k(1) by (simp add: BUF_strlcat_def strlcat_loop_append [OF assms(1,3)] strlcpy_eq [OF assms(2) k(2)])
  moreover have "length ?tail = length (d @ 0 # rest)" using k by (simp add: min_def)
  moreover have "take (min (n - 1) (length (d @ s)) + 1) ?tail = take (n - 1) (d @ s) @ [0]"
    using assms(3) by (simp add: min_def) arith
  ultimately show ?thesis by blast
qed

theorem BUF_strlcat_appends_witness:
  "\<exists>tail. BUF_strlcat ([1, 2] @ 0 # [9, 9]) ([3, 4, 5] @ 0 # []) 4 = Ok (length [1 :: byte, 2] + length [3 :: byte, 4, 5], tail) \<and>
    length tail = length ([1, 2] @ (0 :: byte) # [9, 9]) \<and>
    take (min (4 - 1) (length ([1, 2] @ [3 :: byte, 4, 5])) + 1) tail = take (4 - 1) ([1, 2] @ [3, 4, 5]) @ [0]"
  by (rule BUF_strlcat_appends) simp_all

text \<open>C13: \<^verbatim>\<open>CRYPTO_memcmp\<close>, which looks at every byte whatever the data, returns zero exactly
  for equal strings.\<close>

theorem CRYPTO_memcmp_decides:
  assumes "length a = length b"
  shows "CRYPTO_memcmp a b = 0 \<longleftrightarrow> a = b"
  by (rule memcmp_zero_iff [OF assms])

theorem CRYPTO_memcmp_decides_witness: "CRYPTO_memcmp [1, 2, 3] [1, 2, 4] \<noteq> 0"
  using CRYPTO_memcmp_decides [of "[1, 2, 3]" "[1, 2, 4]"] by simp

end
