(* ===== verification/Boring_Pair.thy ===== *)
theory Boring_Pair
  imports Boring_Mem
begin

text \<open>
  BIO pairs (\<^verbatim>\<open>crypto/bio/pair.c\<close>) and the dispatch of \<^verbatim>\<open>crypto/bio/bio.c\<close> in front of them: two
  ends, each with a ring buffer for what it writes.  Only \<^verbatim>\<open>BIO_new_bio_pair\<close> joins ends, so
  the peer of an end is the other end of its pair or null, and a state is the two ends; an end that
  has been freed is \<open>None\<close>, and using it is \<open>Undef\<close>, as is a failed \<^verbatim>\<open>assert\<close>.  Reference counts
  (each end has one owner) and the error queue are not modelled.
\<close>

section \<open>State\<close>

record bio_bio =
  bp_peer :: bool
  bp_closed :: bool
  bp_len :: size_t
  bp_offset :: size_t
  bp_size :: size_t
  bp_buf :: "byte list option"
  bp_request :: size_t

record bio =
  bio_init :: bool
  bio_shutdown :: int
  bio_flags :: u32
  bio_retry_reason :: int
  bio_num_read :: size_t
  bio_num_write :: size_t
  bio_pair :: bio_bio

datatype side = Near | Far

fun peer_of :: "side \<Rightarrow> side" where
  "peer_of Near = Far"
| "peer_of Far = Near"

type_synonym bio_pair = "side \<Rightarrow> bio option"

definition BIO_FLAGS_READ :: u32 where "BIO_FLAGS_READ = 1"
definition BIO_FLAGS_WRITE :: u32 where "BIO_FLAGS_WRITE = 2"
definition BIO_FLAGS_SHOULD_RETRY :: u32 where "BIO_FLAGS_SHOULD_RETRY = 8"

definition kRetryFlags :: u32 where "kRetryFlags = 7 OR BIO_FLAGS_SHOULD_RETRY"

definition BIO_clear_retry_flags :: "bio \<Rightarrow> bio"
  where "BIO_clear_retry_flags b = b\<lparr>bio_flags := bio_flags b AND NOT kRetryFlags, bio_retry_reason := 0\<rparr>"

definition BIO_set_retry_read :: "bio \<Rightarrow> bio" where
  "BIO_set_retry_read b = b\<lparr>bio_flags := bio_flags b OR (BIO_FLAGS_READ OR BIO_FLAGS_SHOULD_RETRY)\<rparr>"

definition BIO_set_retry_write :: "bio \<Rightarrow> bio" where
  "BIO_set_retry_write b = b\<lparr>bio_flags := bio_flags b OR (BIO_FLAGS_WRITE OR BIO_FLAGS_SHOULD_RETRY)\<rparr>"

definition BIO_should_read :: "bio \<Rightarrow> bool"
  where "BIO_should_read b \<longleftrightarrow> bio_flags b AND BIO_FLAGS_READ \<noteq> 0"

definition BIO_should_write :: "bio \<Rightarrow> bool"
  where "BIO_should_write b \<longleftrightarrow> bio_flags b AND BIO_FLAGS_WRITE \<noteq> 0"

definition BIO_should_retry :: "bio \<Rightarrow> bool"
  where "BIO_should_retry b \<longleftrightarrow> bio_flags b AND BIO_FLAGS_SHOULD_RETRY \<noteq> 0"

section \<open>Making and destroying a pair\<close>

definition sizeof_bio_bio :: size_t where "sizeof_bio_bio = 56"
definition sizeof_BIO :: size_t where "sizeof_BIO = 80"

definition bio_new :: "c_malloc \<Rightarrow> bio_bio option outcome" where
  "bio_new malloc =
    (case OPENSSL_malloc malloc sizeof_bio_bio of
       Ok (Some _) \<Rightarrow>
         Ok (Some \<lparr>bp_peer = False, bp_closed = False, bp_len = 0, bp_offset = 0, bp_size = 17 * 1024,
           bp_buf = None, bp_request = 0\<rparr>)
     | Ok None \<Rightarrow> Ok None | Fail \<Rightarrow> Fail | Undef \<Rightarrow> Undef)"

definition BIO_new :: "c_malloc \<Rightarrow> bio option outcome" where
  "BIO_new malloc =
    (case OPENSSL_malloc malloc sizeof_BIO of
       Ok (Some _) \<Rightarrow>
         (case bio_new malloc of
            Ok (Some p) \<Rightarrow>
              Ok (Some \<lparr>bio_init = False, bio_shutdown = 1, bio_flags = 0, bio_retry_reason = 0,
                bio_num_read = 0, bio_num_write = 0, bio_pair = p\<rparr>)
          | Ok None \<Rightarrow> Ok None | Fail \<Rightarrow> Fail | Undef \<Rightarrow> Undef)
     | Ok None \<Rightarrow> Ok None | Fail \<Rightarrow> Fail | Undef \<Rightarrow> Undef)"

text \<open>The buffer of one end; \<open>Fail\<close> when it cannot be allocated.\<close>

definition alloc_writebuf :: "c_malloc \<Rightarrow> size_t \<Rightarrow> bio_bio \<Rightarrow> bio_bio outcome" where
  "alloc_writebuf malloc writebuf_len b =
    (case bp_buf b of
       Some _ \<Rightarrow> Ok b
     | None \<Rightarrow>
         let sz = (if writebuf_len \<noteq> 0 then writebuf_len else bp_size b) in
         (case OPENSSL_malloc malloc sz of
            Ok (Some buf) \<Rightarrow> Ok (b\<lparr>bp_size := sz, bp_buf := Some buf, bp_len := 0, bp_offset := 0\<rparr>)
          | Ok None \<Rightarrow> Fail | Fail \<Rightarrow> Fail | Undef \<Rightarrow> Undef))"

definition joined :: "bio \<Rightarrow> bio_bio \<Rightarrow> bio" where
  "joined bio b = bio\<lparr>bio_init := True, bio_pair := b\<lparr>bp_peer := True, bp_closed := False, bp_request := 0\<rparr>\<rparr>"

definition bio_make_pair :: "c_malloc \<Rightarrow> bio \<Rightarrow> bio \<Rightarrow> size_t \<Rightarrow> size_t \<Rightarrow> (bio \<times> bio) outcome" where
  "bio_make_pair malloc bio1 bio2 writebuf1_len writebuf2_len =
    (if bp_peer (bio_pair bio1) \<or> bp_peer (bio_pair bio2) then Fail
     else case alloc_writebuf malloc writebuf1_len (bio_pair bio1) of
         Ok b1 \<Rightarrow>
           (case alloc_writebuf malloc writebuf2_len (bio_pair bio2) of
              Ok b2 \<Rightarrow> Ok (joined bio1 b1, joined bio2 b2)
            | Fail \<Rightarrow> Fail | Undef \<Rightarrow> Undef)
       | Fail \<Rightarrow> Fail | Undef \<Rightarrow> Undef)"

definition BIO_new_bio_pair :: "c_malloc \<Rightarrow> size_t \<Rightarrow> size_t \<Rightarrow> bio_pair outcome" where
  "BIO_new_bio_pair malloc writebuf1_len writebuf2_len =
    (case BIO_new malloc of
       Ok r1 \<Rightarrow>
         (case BIO_new malloc of
            Ok r2 \<Rightarrow>
              (case (r1, r2) of
                 (Some bio1, Some bio2) \<Rightarrow>
                   (case bio_make_pair malloc bio1 bio2 writebuf1_len writebuf2_len of
                      Ok (b1, b2) \<Rightarrow> Ok (\<lambda>s. case s of Near \<Rightarrow> Some b1 | Far \<Rightarrow> Some b2)
                    | Fail \<Rightarrow> Fail | Undef \<Rightarrow> Undef)
               | _ \<Rightarrow> Fail)
          | Fail \<Rightarrow> Fail | Undef \<Rightarrow> Undef)
     | Fail \<Rightarrow> Fail | Undef \<Rightarrow> Undef)"

text \<open>Unjoining: both ends lose their peer and their unread data.\<close>

definition unjoined :: "bio \<Rightarrow> bio" where
  "unjoined bio = bio\<lparr>bio_init := False, bio_pair := (bio_pair bio)\<lparr>bp_peer := False, bp_len := 0, bp_offset := 0\<rparr>\<rparr>"

definition bio_destroy_pair :: "side \<Rightarrow> bio_pair \<Rightarrow> unit outcome \<times> bio_pair" where
  "bio_destroy_pair s p =
    (case p s of
       None \<Rightarrow> (Undef, p)
     | Some bio \<Rightarrow>
         if \<not> bp_peer (bio_pair bio) then (Ok (), p)
         else (case p (peer_of s) of
                 None \<Rightarrow> (Undef, p)
               | Some peer_bio \<Rightarrow>
                   if \<not> bp_peer (bio_pair peer_bio) \<or> bp_buf (bio_pair peer_bio) = None \<or> bp_buf (bio_pair bio) = None
                   then (Undef, p)
                   else (Ok (), p(peer_of s := Some (unjoined peer_bio), s := Some (unjoined bio)))))"

definition bio_free :: "side \<Rightarrow> bio_pair \<Rightarrow> unit outcome \<times> bio_pair"
  where "bio_free s = seq (bio_destroy_pair s) (\<lambda>_ p. (Ok (), p(s := None)))"

section \<open>Reading\<close>

text \<open>The copy loop of \<^verbatim>\<open>bio_read\<close>, on the peer's structure.  It makes one or two rounds: a third
  one would be \<open>Undef\<close>, and never comes.\<close>

fun read_loop :: "nat \<Rightarrow> size_t \<Rightarrow> bio_bio \<Rightarrow> (byte list \<times> bio_bio) outcome" where
  "read_loop 0 rest b = Undef"
| "read_loop (Suc n) rest b =
    (if bp_len b < rest then Undef
     else
       let chunk = (if bp_offset b + rest \<le> bp_size b then rest else bp_size b - bp_offset b) in
       if bp_size b < bp_offset b + chunk then Undef
       else case bp_buf b of
           None \<Rightarrow> Undef
         | Some blk \<Rightarrow>
             if length blk < unat (bp_offset b) + unat chunk then Undef
             else
               let data = take (unat chunk) (drop (unat (bp_offset b)) blk);
                   len = bp_len b - chunk;
                   offset = (if len = 0 then 0
                     else if bp_offset b + chunk = bp_size b then 0 else bp_offset b + chunk);
                   b' = b\<lparr>bp_len := len, bp_offset := offset\<rparr>;
                   rest' = rest - chunk
               in if len \<noteq> 0 \<and> bp_size b < bp_offset b + chunk then Undef
                  else if len = 0 \<and> chunk \<noteq> rest then Undef
                  else if rest' = 0 then Ok (data, b')
                  else case read_loop n rest' b' of
                      Ok (data', b'') \<Rightarrow> Ok (data @ data', b'') | Fail \<Rightarrow> Fail | Undef \<Rightarrow> Undef)"

text \<open>The result is the return value and the bytes stored at \<^verbatim>\<open>buf\<close>; \<open>have_buf\<close> is whether
  \<^verbatim>\<open>buf\<close> is not null.  A returned size is at most the \<^verbatim>\<open>int\<close> asked for.\<close>

definition bio_read :: "side \<Rightarrow> bool \<Rightarrow> int \<Rightarrow> bio_pair \<Rightarrow> (int \<times> byte list) outcome \<times> bio_pair" where
  "bio_read s have_buf len p =
    (case p s of
       None \<Rightarrow> (Undef, p)
     | Some bio0 \<Rightarrow>
         let bio = BIO_clear_retry_flags bio0; sz = of_int len :: size_t; p1 = p(s := Some bio) in
         if \<not> bio_init bio then (Ok (0, []), p1)
         else if \<not> bp_peer (bio_pair bio) then (Undef, p1)
         else case p (peer_of s) of
             None \<Rightarrow> (Undef, p1)
           | Some peer \<Rightarrow>
               if bp_buf (bio_pair peer) = None then (Undef, p1)
               else
                 let peer_b = (bio_pair peer)\<lparr>bp_request := 0\<rparr>;
                     p2 = p1(peer_of s := Some (peer\<lparr>bio_pair := peer_b\<rparr>))
                 in if \<not> have_buf \<or> sz = 0 then (Ok (0, []), p2)
                    else if bp_len peer_b = 0 then
                      (if bp_closed peer_b then (Ok (0, []), p2)
                       else
                         let req = (if sz \<le> bp_size peer_b then sz else bp_size peer_b)
                         in (Ok (-1, []), p2(s := Some (BIO_set_retry_read bio),
                              peer_of s := Some (peer\<lparr>bio_pair := (peer_b\<lparr>bp_request := req\<rparr>)\<rparr>))))
                    else
                      let n = (if bp_len peer_b < sz then bp_len peer_b else sz) in
                      (case read_loop 2 n peer_b of
                         Ok (data, b') \<Rightarrow>
                           (Ok (uint n, data), p2(peer_of s := Some (peer\<lparr>bio_pair := b'\<rparr>)))
                       | Fail \<Rightarrow> (Fail, p2) | Undef \<Rightarrow> (Undef, p2)))"

definition BIO_read :: "side \<Rightarrow> bool \<Rightarrow> int \<Rightarrow> bio_pair \<Rightarrow> (int \<times> byte list) outcome \<times> bio_pair" where
  "BIO_read s have_buf len p =
    (case p s of
       None \<Rightarrow> (Undef, p)
     | Some bio \<Rightarrow>
         if \<not> bio_init bio then (Ok (-2, []), p)
         else if len \<le> 0 then (Ok (0, []), p)
         else seq (bio_read s have_buf len)
           (\<lambda>(r, data) p. (Ok (r, data),
              p(s := map_option (\<lambda>b. if 0 < r then b\<lparr>bio_num_read := bio_num_read b + of_int r\<rparr> else b) (p s)))) p)"

section \<open>Writing\<close>

fun write_loop :: "nat \<Rightarrow> byte list \<Rightarrow> bio_bio \<Rightarrow> bio_bio outcome" where
  "write_loop 0 data b = Undef"
| "write_loop (Suc n) data b =
    (let rest = of_nat (length data) :: size_t in
     if bp_size b < bp_len b + rest then Undef
     else
       let write_offset0 = bp_offset b + bp_len b;
           write_offset = (if bp_size b \<le> write_offset0 then write_offset0 - bp_size b else write_offset0);
           chunk = (if write_offset + rest \<le> bp_size b then rest else bp_size b - write_offset)
       in case bp_buf b of
           None \<Rightarrow> Undef
         | Some blk \<Rightarrow>
             (case put_bytes (unat write_offset) (take (unat chunk) data) blk of
                None \<Rightarrow> Undef
              | Some blk' \<Rightarrow>
                  let b' = b\<lparr>bp_buf := Some blk', bp_len := bp_len b + chunk\<rparr>; data' = drop (unat chunk) data
                  in if bp_size b' < bp_len b' then Undef
                     else if data' = [] then Ok b' else write_loop n data' b'))"

definition bio_write :: "side \<Rightarrow> byte list option \<Rightarrow> bio_pair \<Rightarrow> int outcome \<times> bio_pair" where
  "bio_write s buf p =
    (case p s of
       None \<Rightarrow> (Undef, p)
     | Some bio0 \<Rightarrow>
         let bio = BIO_clear_retry_flags bio0; p1 = p(s := Some bio) in
         if \<not> bio_init bio \<or> buf = None \<or> buf = Some [] then (Ok 0, p1)
         else
           let b = (bio_pair bio)\<lparr>bp_request := 0\<rparr>; p2 = p1(s := Some (bio\<lparr>bio_pair := b\<rparr>)); num = of_nat (length (the buf)) in
           if \<not> bp_peer b \<or> bp_buf b = None then (Undef, p1)
           else if bp_closed b then (Ok (-1), p2)
           else if bp_size b < bp_len b then (Undef, p2)
           else if bp_len b = bp_size b then (Ok (-1), p2(s := Some (BIO_set_retry_write (bio\<lparr>bio_pair := b\<rparr>))))
           else
             let n = (if bp_size b - bp_len b < num then bp_size b - bp_len b else num) in
             (case write_loop 2 (take (unat n) (the buf)) b of
                Ok b' \<Rightarrow> (Ok (uint n), p2(s := Some (bio\<lparr>bio_pair := b'\<rparr>)))
              | Fail \<Rightarrow> (Fail, p2) | Undef \<Rightarrow> (Undef, p2)))"

text \<open>The \<^verbatim>\<open>inl\<close> bytes at \<^verbatim>\<open>in\<close> are the list.\<close>

definition BIO_write :: "side \<Rightarrow> byte list option \<Rightarrow> int \<Rightarrow> bio_pair \<Rightarrow> int outcome \<times> bio_pair" where
  "BIO_write s buf inl p =
    (case p s of
       None \<Rightarrow> (Undef, p)
     | Some bio \<Rightarrow>
         if \<not> bio_init bio then (Ok (-2), p)
         else if inl \<le> 0 then (Ok 0, p)
         else if (case buf of None \<Rightarrow> False | Some bs \<Rightarrow> length bs < nat inl) then (Undef, p)
         else seq (bio_write s (map_option (take (nat inl)) buf))
           (\<lambda>r p. (Ok r,
              p(s := map_option (\<lambda>b. if 0 < r then b\<lparr>bio_num_write := bio_num_write b + of_int r\<rparr> else b) (p s)))) p)"

section \<open>Control\<close>

datatype bio_cmd =
    C_GET_WRITE_BUF_SIZE | C_GET_WRITE_GUARANTEE | C_GET_READ_REQUEST | C_RESET_READ_REQUEST | C_SHUTDOWN_WR
  | CTRL_GET_CLOSE | CTRL_SET_CLOSE int | CTRL_PENDING | CTRL_WPENDING | CTRL_FLUSH | CTRL_EOF "side option" | CTRL_OTHER

fun ctrl_value :: "bio_cmd \<Rightarrow> side \<Rightarrow> bio \<Rightarrow> bio_pair \<Rightarrow> int outcome" where
  "ctrl_value C_GET_WRITE_BUF_SIZE s bio p = Ok (sint (bp_size (bio_pair bio)))"
| "ctrl_value C_GET_WRITE_GUARANTEE s bio p =
    (let b = bio_pair bio in Ok (if \<not> bp_peer b \<or> bp_closed b then 0 else sint (bp_size b - bp_len b)))"
| "ctrl_value C_GET_READ_REQUEST s bio p = Ok (sint (bp_request (bio_pair bio)))"
| "ctrl_value C_RESET_READ_REQUEST s bio p = Ok 1"
| "ctrl_value C_SHUTDOWN_WR s bio p = Ok 1"
| "ctrl_value CTRL_GET_CLOSE s bio p = Ok (bio_shutdown bio)"
| "ctrl_value (CTRL_SET_CLOSE num) s bio p = Ok 1"
| "ctrl_value CTRL_PENDING s bio p =
    (if bp_peer (bio_pair bio)
     then case p (peer_of s) of None \<Rightarrow> Undef | Some peer \<Rightarrow> Ok (sint (bp_len (bio_pair peer)))
     else Ok 0)"
| "ctrl_value CTRL_WPENDING s bio p =
    Ok (if bp_buf (bio_pair bio) \<noteq> None then sint (bp_len (bio_pair bio)) else 0)"
| "ctrl_value CTRL_FLUSH s bio p = Ok 1"
| "ctrl_value (CTRL_EOF other) s bio p =
    (case other of
       None \<Rightarrow> Ok 1
     | Some s' \<Rightarrow>
         (case p s' of
            None \<Rightarrow> Undef
          | Some other_bio \<Rightarrow>
              Ok (if bp_len (bio_pair other_bio) = 0 \<and> bp_closed (bio_pair other_bio) then 1 else 0)))"
| "ctrl_value CTRL_OTHER s bio p = Ok 0"

fun ctrl_effect :: "bio_cmd \<Rightarrow> bio \<Rightarrow> bio" where
  "ctrl_effect C_RESET_READ_REQUEST bio = bio\<lparr>bio_pair := (bio_pair bio)\<lparr>bp_request := 0\<rparr>\<rparr>"
| "ctrl_effect C_SHUTDOWN_WR bio = bio\<lparr>bio_pair := (bio_pair bio)\<lparr>bp_closed := True\<rparr>\<rparr>"
| "ctrl_effect (CTRL_SET_CLOSE num) bio = bio\<lparr>bio_shutdown := num\<rparr>"
| "ctrl_effect _ bio = bio"

definition bio_ctrl :: "side \<Rightarrow> bio_cmd \<Rightarrow> bio_pair \<Rightarrow> int outcome \<times> bio_pair" where
  "bio_ctrl s cmd p =
    (case p s of
       None \<Rightarrow> (Undef, p)
     | Some bio \<Rightarrow> (ctrl_value cmd s bio p, p(s := Some (ctrl_effect cmd bio))))"

definition BIO_pending :: "side \<Rightarrow> bio_pair \<Rightarrow> size_t outcome" where
  "BIO_pending s p =
    (case bio_ctrl s CTRL_PENDING p of
       (Ok r, _) \<Rightarrow> if r < 0 then Undef else Ok (of_int r) | (Fail, _) \<Rightarrow> Fail | (Undef, _) \<Rightarrow> Undef)"

definition BIO_wpending :: "side \<Rightarrow> bio_pair \<Rightarrow> size_t outcome" where
  "BIO_wpending s p =
    (case bio_ctrl s CTRL_WPENDING p of
       (Ok r, _) \<Rightarrow> if r < 0 then Undef else Ok (of_int r) | (Fail, _) \<Rightarrow> Fail | (Undef, _) \<Rightarrow> Undef)"

definition BIO_eof :: "side \<Rightarrow> bio_pair \<Rightarrow> int outcome"
  where "BIO_eof s p = fst (bio_ctrl s (CTRL_EOF None) p)"

definition BIO_ctrl_get_write_guarantee :: "side \<Rightarrow> bio_pair \<Rightarrow> int outcome"
  where "BIO_ctrl_get_write_guarantee s p = fst (bio_ctrl s C_GET_WRITE_GUARANTEE p)"

definition BIO_ctrl_get_read_request :: "side \<Rightarrow> bio_pair \<Rightarrow> int outcome"
  where "BIO_ctrl_get_read_request s p = fst (bio_ctrl s C_GET_READ_REQUEST p)"

definition BIO_shutdown_wr :: "side \<Rightarrow> bio_pair \<Rightarrow> int outcome \<times> bio_pair"
  where "BIO_shutdown_wr s = bio_ctrl s C_SHUTDOWN_WR"

end
