(* ===== verification/Boring_Pair_Laws.thy ===== *)
theory Boring_Pair_Laws
  imports Boring_Pair Boring_Mem_Laws
begin

text \<open>
  A BIO pair is two bounded FIFO queues.  The queue of an end is read off its ring buffer; the
  lemmas show that the copy loops move bytes between the caller and the queue, in at most two
  rounds, and keep the invariant of the ring.
\<close>

section \<open>Rings\<close>

definition ring :: "nat \<Rightarrow> nat \<Rightarrow> byte list \<Rightarrow> byte list"
  where "ring off len blk = map (\<lambda>i. blk ! ((off + i) mod length blk)) [0..<len]"

lemma length_ring [simp]: "length (ring off len blk) = len"
  by (simp add: ring_def)

lemma ring_0 [simp]: "ring off 0 blk = []"
  by (simp add: ring_def)

lemma take_ring: "k \<le> len \<Longrightarrow> take k (ring off len blk) = ring off k blk"
  by (simp add: ring_def take_map)

lemma drop_ring: "k \<le> len \<Longrightarrow> drop k (ring off len blk) = ring ((off + k) mod length blk) (len - k) blk"
  by (rule nth_equalityI) (simp_all add: ring_def mod_simps less_diff_conv ac_simps)

lemma ring_straight: "off + k \<le> length blk \<Longrightarrow> ring off k blk = take k (drop off blk)"
  by (rule nth_equalityI) (simp_all add: ring_def)

lemma ring_put:
  assumes "len + length bs \<le> length blk" "(off + len) mod length blk + length bs \<le> length blk" "bs \<noteq> []"
    and "put_bytes ((off + len) mod length blk) bs blk = Some blk'"
  shows "ring off (len + length bs) blk' = ring off len blk @ bs" "length blk' = length blk"
proof -
  let ?z = "length blk" and ?w = "(off + len) mod length blk"
  have z: "0 < ?z" using assms(1,3) by auto
  have b': "blk' = take ?w blk @ bs @ drop (?w + length bs) blk"
    using assms(4) by (simp add: put_bytes_def split: if_splits)
  show l: "length blk' = ?z" unfolding b' using assms(2) by simp
  have at: "blk' ! j = (if ?w \<le> j \<and> j < ?w + length bs then bs ! (j - ?w) else blk ! j)" if "j < ?z" for j
    using that assms(2) unfolding b' by (auto simp: nth_append)
  show "ring off (len + length bs) blk' = ring off len blk @ bs"
  proof (rule nth_equalityI)
    fix i assume "i < length (ring off (len + length bs) blk')"
    then have i: "i < len + length bs" by simp
    let ?j = "(off + i) mod ?z"
    have jz: "?j < ?z" using z by simp
    have lhs: "ring off (len + length bs) blk' ! i = blk' ! ?j" using i by (simp add: ring_def l)
    show "ring off (len + length bs) blk' ! i = (ring off len blk @ bs) ! i"
    proof (cases "i < len")
      case True
      have "\<not> (?w \<le> ?j \<and> ?j < ?w + length bs)"
      proof
        assume h: "?w \<le> ?j \<and> ?j < ?w + length bs"
        define d where "d = ?j - ?w"
        have d: "?j = ?w + d" "d < length bs" using h by (auto simp: d_def)
        have "(off + i) mod ?z = (off + len + d) mod ?z" using d(1) jz by (metis mod_add_left_eq mod_less)
        then have "?z dvd (off + len + d) - (off + i)" using True by (metis mod_eq_dvd_iff_nat add_le_mono le_add1 le_trans less_imp_le_nat nat_add_left_cancel_le add.assoc)
        then have "?z \<le> len + d - i" using True by (intro dvd_imp_le) simp_all
        with d(2) assms(1) True show False by linarith
      qed
      with True lhs at [OF jz] i show ?thesis by (simp add: nth_append ring_def)
    next
      case False
      define d where "d = i - len"
      have i': "i = len + d" "d < length bs" using False i by (auto simp: d_def)
      have "?j = (?w + d) mod ?z" unfolding i'(1) by (simp add: mod_simps add.assoc)
      also have "\<dots> = ?w + d" using i'(2) assms(2) by simp
      finally have "?j = ?w + d" .
      with lhs at [OF jz] i' show ?thesis by (simp add: nth_append)
    qed
  qed simp
qed

section \<open>The queue of an end\<close>

definition ring_ok :: "bio_bio \<Rightarrow> bool" where
  "ring_ok b \<longleftrightarrow> (case bp_buf b of None \<Rightarrow> False | Some blk \<Rightarrow> length blk = unat (bp_size b)) \<and>
    unat (bp_size b) < 2 ^ 63 \<and> bp_len b \<le> bp_size b \<and> bp_offset b < bp_size b"

definition queue :: "bio_bio \<Rightarrow> byte list" where
  "queue b = (case bp_buf b of None \<Rightarrow> [] | Some blk \<Rightarrow> ring (unat (bp_offset b)) (unat (bp_len b)) blk)"

definition same_end :: "bio_bio \<Rightarrow> bio_bio \<Rightarrow> bool" where
  "same_end b b' \<longleftrightarrow> bp_peer b' = bp_peer b \<and> bp_closed b' = bp_closed b \<and> bp_size b' = bp_size b \<and>
    bp_request b' = bp_request b"

lemma same_end_trans: "same_end a b \<Longrightarrow> same_end b c \<Longrightarrow> same_end a c"
  by (simp add: same_end_def)

lemma length_queue: "ring_ok b \<Longrightarrow> length (queue b) = unat (bp_len b)"
  by (auto simp: ring_ok_def queue_def split: option.splits)

lemma ring_okD:
  assumes "ring_ok b"
  obtains blk where "bp_buf b = Some blk" "length blk = unat (bp_size b)" "unat (bp_size b) < 2 ^ 63"
    "unat (bp_len b) \<le> unat (bp_size b)" "unat (bp_offset b) < unat (bp_size b)"
  using assms by (auto simp: ring_ok_def word_le_nat_alt word_less_nat_alt split: option.splits)

lemma unat_add_small: "unat a + unat b < 2 ^ 64 \<Longrightarrow> unat (a + b :: size_t) = unat a + unat b"
  by (simp add: unat_word_ariths)

text \<open>One round of the read loop, when the bytes lie in one piece.\<close>

lemma read_round:
  assumes ok: "ring_ok b" and n: "0 < unat n" "unat n \<le> unat (bp_len b)" "unat (bp_offset b) + unat n \<le> unat (bp_size b)"
  shows "\<exists>b'. read_loop (Suc m) n b = Ok (take (unat n) (queue b), b') \<and> ring_ok b' \<and> same_end b b' \<and>
    queue b' = drop (unat n) (queue b)"
proof -
  obtain blk where b: "bp_buf b = Some blk" "length blk = unat (bp_size b)" "unat (bp_size b) < 2 ^ 63"
    "unat (bp_len b) \<le> unat (bp_size b)" "unat (bp_offset b) < unat (bp_size b)" using ring_okD [OF ok] .
  have on: "unat (bp_offset b + n) = unat (bp_offset b) + unat n" using b n by (intro unat_add_small) simp
  have ln: "unat (bp_len b - n) = unat (bp_len b) - unat n" using n by (intro unat_sub) (simp add: word_le_nat_alt)
  let ?len = "bp_len b - n"
  let ?off = "if ?len = 0 then 0 else if bp_offset b + n = bp_size b then 0 else bp_offset b + n"
  let ?b = "b\<lparr>bp_len := ?len, bp_offset := ?off\<rparr>"
  have "bp_offset b + n \<le> bp_size b" using on n by (simp add: word_le_nat_alt)
  moreover have "\<not> bp_len b < n" using n by (simp add: word_less_nat_alt)
  moreover have "?len = 0 \<longleftrightarrow> n = bp_len b" by auto
  moreover have "\<not> length blk < unat (bp_offset b) + unat n" using b n by simp
  ultimately have "read_loop (Suc m) n b = Ok (take (unat n) (drop (unat (bp_offset b)) blk), ?b)"
    using b(1) by (simp add: Let_def not_less)
  moreover have "take (unat n) (drop (unat (bp_offset b)) blk) = take (unat n) (queue b)"
    using b n by (simp add: queue_def take_ring ring_straight)
  moreover have off: "unat ?off = (if unat ?len = 0 then 0 else (unat (bp_offset b) + unat n) mod length blk)"
    using on n b by (auto simp: word_unat_eq_iff le_less)
  then have "ring_ok ?b" using b n ln by (auto simp: ring_ok_def word_le_nat_alt word_less_nat_alt)
  moreover have "queue ?b = drop (unat n) (queue b)"
    using b(1) n off ln by (cases "unat ?len = 0") (simp_all add: queue_def drop_ring)
  ultimately show ?thesis by (auto simp: same_end_def)
qed

lemma read_loop_queue:
  assumes ok: "ring_ok b" and n: "0 < unat n" "unat n \<le> unat (bp_len b)"
  shows "\<exists>b'. read_loop 2 n b = Ok (take (unat n) (queue b), b') \<and> ring_ok b' \<and> same_end b b' \<and>
    queue b' = drop (unat n) (queue b)"
proof (cases "unat (bp_offset b) + unat n \<le> unat (bp_size b)")
  case True
  then show ?thesis using read_round [OF ok n, of 1] by (simp add: numeral_2_eq_2)
next
  case False
  obtain blk where b: "bp_buf b = Some blk" "length blk = unat (bp_size b)" "unat (bp_size b) < 2 ^ 63"
    "unat (bp_len b) \<le> unat (bp_size b)" "unat (bp_offset b) < unat (bp_size b)" using ring_okD [OF ok] .
  let ?c = "bp_size b - bp_offset b"
  have c: "unat ?c = unat (bp_size b) - unat (bp_offset b)" using b by (intro unat_sub) (simp add: word_le_nat_alt)
  have on: "unat (bp_offset b + n) = unat (bp_offset b) + unat n" using b n by (intro unat_add_small) simp
  let ?b = "b\<lparr>bp_len := bp_len b - ?c, bp_offset := 0\<rparr>"
  have cn: "unat ?c < unat n" using False c b(5) by linarith
  have l: "unat (bp_len b - ?c) = unat (bp_len b) - unat ?c"
    using cn n by (intro unat_sub) (simp add: word_le_nat_alt)
  have r: "unat (n - ?c) = unat n - unat ?c" using cn by (intro unat_sub) (simp add: word_le_nat_alt)
  have nz: "bp_len b - ?c \<noteq> 0" "n - ?c \<noteq> 0" using l r cn n by (auto simp del: right_minus_eq)
  have ok2: "ring_ok ?b" using b l by (simp add: ring_ok_def word_le_nat_alt word_less_nat_alt)
  have "0 < unat (n - ?c)" "unat (n - ?c) \<le> unat (bp_len ?b)" "unat (bp_offset ?b) + unat (n - ?c) \<le> unat (bp_size ?b)"
    using l r cn n b by simp_all
  from read_round [OF ok2 this, of 0] obtain b' where
    b': "read_loop (Suc 0) (n - ?c) ?b = Ok (take (unat (n - ?c)) (queue ?b), b')" "ring_ok b'" "same_end ?b b'"
      "queue b' = drop (unat (n - ?c)) (queue ?b)" by blast
  have q: "queue ?b = drop (unat ?c) (queue b)" "take (unat ?c) (drop (unat (bp_offset b)) blk) = take (unat ?c) (queue b)"
    using b cn n l c by (simp_all add: queue_def drop_ring take_ring ring_straight)
  have "\<not> bp_offset b + n \<le> bp_size b" "\<not> bp_len b < n" using on False n by (simp_all add: word_le_nat_alt word_less_nat_alt)
  moreover have "\<not> length blk < unat (bp_offset b) + unat ?c" using b c by simp
  ultimately have "read_loop 2 n b = (case read_loop (Suc 0) (n - ?c) ?b of
      Ok (data', b'') \<Rightarrow> Ok (take (unat ?c) (queue b) @ data', b'') | Fail \<Rightarrow> Fail | Undef \<Rightarrow> Undef)"
    using b(1) nz q(2) by (simp add: numeral_2_eq_2 Let_def del: right_minus_eq)
  also have "\<dots> = Ok (take (unat ?c) (queue b) @ take (unat n - unat ?c) (drop (unat ?c) (queue b)), b')"
    unfolding b'(1) q(1) r by simp
  also have "take (unat ?c) (queue b) @ take (unat n - unat ?c) (drop (unat ?c) (queue b)) = take (unat n) (queue b)"
    using cn by (metis less_imp_le_nat le_add_diff_inverse take_add)
  finally show ?thesis using b'(2-4) q(1) r cn by (auto simp: same_end_def)
qed

text \<open>Writing: one round when the free space does not wrap, two when it does.\<close>

lemma write_offset_mod:
  assumes "off < z" "len \<le> (z :: nat)"
  shows "(off + len) mod z = (if z \<le> off + len then off + len - z else off + len)"
  using assms by (auto simp: mod_if)

lemma write_round:
  assumes ok: "ring_ok b" and n: "data \<noteq> []" "unat (bp_len b) + length data \<le> unat (bp_size b)"
  defines "w \<equiv> (unat (bp_offset b) + unat (bp_len b)) mod unat (bp_size b)"
  defines "c \<equiv> (if w + length data \<le> unat (bp_size b) then length data else unat (bp_size b) - w)"
  shows "\<exists>b'. write_loop (Suc m) data b = (if c = length data then Ok b' else write_loop m (drop c data) b') \<and>
    ring_ok b' \<and> same_end b b' \<and> queue b' = queue b @ take c data \<and>
    bp_offset b' = bp_offset b \<and> unat (bp_len b') = unat (bp_len b) + c \<and> 0 < c \<and> c \<le> length data"
proof -
  obtain blk where b: "bp_buf b = Some blk" "length blk = unat (bp_size b)" "unat (bp_size b) < 2 ^ 63"
    "unat (bp_len b) \<le> unat (bp_size b)" "unat (bp_offset b) < unat (bp_size b)" using ring_okD [OF ok] .
  let ?rest = "of_nat (length data) :: size_t"
  have ur: "unat ?rest = length data" using n b by (simp add: unat_of_nat)
  have lr: "unat (bp_len b + ?rest) = unat (bp_len b) + length data" using ur n b by (subst unat_add_small) simp_all
  let ?w0 = "bp_offset b + bp_len b"
  have w0: "unat ?w0 = unat (bp_offset b) + unat (bp_len b)" using b by (intro unat_add_small) simp
  define W where "W = (if bp_size b \<le> ?w0 then ?w0 - bp_size b else ?w0)"
  have w: "unat W = w" unfolding w_def W_def write_offset_mod [OF b(5,4)] using w0
    by (simp add: word_le_nat_alt unat_sub)
  have wz: "w < unat (bp_size b)" using b(5) unfolding w_def by simp
  define C where "C = (if W + ?rest \<le> bp_size b then ?rest else bp_size b - W)"
  have wr: "unat (W + ?rest) = w + length data" using w wz ur n(2) b(3) by (subst unat_add_small) simp_all
  have c: "unat C = c"
  proof (cases "w + length data \<le> unat (bp_size b)")
    case True
    then show ?thesis using wr ur by (simp add: c_def C_def word_le_nat_alt)
  next
    case False
    moreover have "unat (bp_size b - W) = unat (bp_size b) - w" using w wz by (subst unat_sub) (simp_all add: word_le_nat_alt)
    ultimately show ?thesis using wr by (simp add: c_def C_def word_le_nat_alt)
  qed
  have c0: "0 < c" "c \<le> length data" "w + c \<le> unat (bp_size b)" using n(1) wz by (auto simp: c_def)
  have lc: "unat (bp_len b + C) = unat (bp_len b) + c" using c c0 n(2) b(3) by (subst unat_add_small) simp_all
  obtain blk' where p: "put_bytes w (take c data) blk = Some blk'" using c0 b(2) by (simp add: put_bytes_def)
  let ?b = "b\<lparr>bp_buf := Some blk', bp_len := bp_len b + C\<rparr>"
  have "\<not> bp_size b < bp_len b + ?rest" "\<not> bp_size b < bp_len b + C"
    using lr lc n(2) c0 by (simp_all add: word_less_nat_alt)
  then have step: "write_loop (Suc m) data b = (if drop c data = [] then Ok ?b else write_loop m (drop c data) ?b)"
    using b(1) p unfolding write_loop.simps Let_def W_def [symmetric] C_def [symmetric] c w by (simp del: drop_eq_Nil take_all)
  have w': "w = (unat (bp_offset b) + unat (bp_len b)) mod length blk" using b(2) by (simp add: w_def)
  have pre: "unat (bp_len b) + length (take c data) \<le> length blk"
    "(unat (bp_offset b) + unat (bp_len b)) mod length blk + length (take c data) \<le> length blk" "take c data \<noteq> []"
    "put_bytes ((unat (bp_offset b) + unat (bp_len b)) mod length blk) (take c data) blk = Some blk'"
    unfolding w' [symmetric] using p c0 b(2) n by auto
  note R = ring_put [OF pre]
  have "length (take c data) = c" using c0 by simp
  with R b(1) lc have q: "queue ?b = queue b @ take c data" by (simp add: queue_def)
  have "ring_ok ?b" using b R(2) lc n(2) c0 by (simp add: ring_ok_def word_le_nat_alt word_less_nat_alt)
  moreover have "drop c data = [] \<longleftrightarrow> c = length data" using c0 by auto
  ultimately show ?thesis using step q lc c0 by (intro exI [of _ ?b]) (simp add: same_end_def)
qed

lemma write_loop_queue:
  assumes ok: "ring_ok b" and n: "data \<noteq> []" "unat (bp_len b) + length data \<le> unat (bp_size b)"
  shows "\<exists>b'. write_loop 2 data b = Ok b' \<and> ring_ok b' \<and> same_end b b' \<and> queue b' = queue b @ data"
proof -
  let ?z = "unat (bp_size b)" and ?w = "(unat (bp_offset b) + unat (bp_len b)) mod unat (bp_size b)"
  let ?c = "if ?w + length data \<le> ?z then length data else ?z - ?w"
  obtain b1 where b1: "write_loop 2 data b = (if ?c = length data then Ok b1 else write_loop 1 (drop ?c data) b1)"
    "ring_ok b1" "same_end b b1" "queue b1 = queue b @ take ?c data" "bp_offset b1 = bp_offset b"
    "unat (bp_len b1) = unat (bp_len b) + ?c" "0 < ?c" "?c \<le> length data"
    using write_round [OF ok n, of 1] by (auto simp: numeral_2_eq_2)
  show ?thesis
  proof (cases "?c = length data")
    case True
    with b1 show ?thesis by auto
  next
    case False
    then have c: "?c = ?z - ?w" "?z < ?w + length data" by (auto split: if_splits)
    have z1: "bp_size b1 = bp_size b" using b1(3) by (simp add: same_end_def)
    have z0: "0 < ?z" using ring_okD [OF ok] by (metis gr_zeroI not_less_zero)
    have wz: "?w < ?z" using z0 by simp
    have w1: "(unat (bp_offset b1) + unat (bp_len b1)) mod unat (bp_size b1) = 0"
    proof -
      have "(unat (bp_offset b) + unat (bp_len b) + (?z - ?w)) mod ?z = (?w + (?z - ?w)) mod ?z" by (simp add: mod_simps)
      then show ?thesis using b1(5,6) z1 c(1) wz by (simp add: add.assoc)
    qed
    have d: "drop ?c data \<noteq> []" "unat (bp_len b1) + length (drop ?c data) \<le> unat (bp_size b1)"
      using False b1(6,8) n(2) z1 by auto
    from write_round [OF b1(2) d, of 0] w1 d(2)
    obtain b2 where b2: "write_loop (Suc 0) (drop ?c data) b1 = Ok b2" "ring_ok b2" "same_end b1 b2"
      "queue b2 = queue b1 @ drop ?c data" by (auto split: if_splits)
    have "queue b2 = queue b @ data" unfolding b2(4) b1(4) by simp
    moreover have "same_end b b2" using b1(3) b2(3) by (rule same_end_trans)
    ultimately show ?thesis using b1(1) b2(1,2) False by auto
  qed
qed

section \<open>The pair\<close>

definition end_ok :: "bio option \<Rightarrow> bool" where
  "end_ok e \<longleftrightarrow> (case e of None \<Rightarrow> False
    | Some bio \<Rightarrow> bio_init bio \<and> bp_peer (bio_pair bio) \<and> ring_ok (bio_pair bio))"

definition pair_ok :: "bio_pair \<Rightarrow> bool"
  where "pair_ok p \<longleftrightarrow> end_ok (p Near) \<and> end_ok (p Far)"

definition end_of :: "bio_pair \<Rightarrow> side \<Rightarrow> bio_bio"
  where "end_of p s = bio_pair (the (p s))"

text \<open>What side \<open>s\<close> has written and the other side has not read yet.\<close>

definition channel :: "bio_pair \<Rightarrow> side \<Rightarrow> byte list"
  where "channel p s = queue (end_of p s)"

definition capacity :: "bio_pair \<Rightarrow> side \<Rightarrow> nat"
  where "capacity p s = unat (bp_size (end_of p s))"

definition write_closed :: "bio_pair \<Rightarrow> side \<Rightarrow> bool"
  where "write_closed p s = bp_closed (end_of p s)"

lemma peer_of_neq [simp]: "peer_of s \<noteq> s" "s \<noteq> peer_of s"
  by (cases s; simp)+

lemma peer_of_peer_of [simp]: "peer_of (peer_of s) = s"
  by (cases s) simp_all

lemma side_cases: "t = s \<or> t = peer_of s"
  by (cases s; cases t) simp_all

lemma pair_okI: "end_ok (p s) \<Longrightarrow> end_ok (p (peer_of s)) \<Longrightarrow> pair_ok p"
  by (cases s) (simp_all add: pair_ok_def)

lemma pair_okD: "pair_ok p \<Longrightarrow> end_ok (p s)"
  by (cases s) (simp_all add: pair_ok_def)

lemma pair_ok_ends:
  assumes "pair_ok p"
  obtains bio peer where "p s = Some bio" "p (peer_of s) = Some peer" "bio_init bio" "bio_init peer"
    "bp_peer (bio_pair bio)" "bp_peer (bio_pair peer)" "ring_ok (bio_pair bio)" "ring_ok (bio_pair peer)"
  using pair_okD [OF assms, of s] pair_okD [OF assms, of "peer_of s"]
  by (auto simp: end_ok_def split: option.splits)

lemma ring_ok_request [simp]: "ring_ok (b\<lparr>bp_request := r\<rparr>) = ring_ok b" "queue (b\<lparr>bp_request := r\<rparr>) = queue b"
  by (cases "bp_buf b"; simp add: ring_ok_def queue_def)+

lemma ring_ok_closed [simp]: "ring_ok (b\<lparr>bp_closed := c\<rparr>) = ring_ok b" "queue (b\<lparr>bp_closed := c\<rparr>) = queue b"
  by (cases "bp_buf b"; simp add: ring_ok_def queue_def)+

lemma queue_empty: "ring_ok b \<Longrightarrow> queue b = [] \<longleftrightarrow> bp_len b = 0"
  using length_queue [of b] by (metis length_0_conv unat_eq_0)

text \<open>What an operation of side \<open>s\<close> leaves alone.\<close>

definition same_pair :: "bio_pair \<Rightarrow> bio_pair \<Rightarrow> bool" where
  "same_pair p p' \<longleftrightarrow> (\<forall>s. capacity p' s = capacity p s \<and> write_closed p' s = write_closed p s)"

lemma pair_view:
  assumes "p' s = Some b'" "p' (peer_of s) = Some q'"
  shows "channel p' s = queue (bio_pair b')" "channel p' (peer_of s) = queue (bio_pair q')"
    "capacity p' s = unat (bp_size (bio_pair b'))" "capacity p' (peer_of s) = unat (bp_size (bio_pair q'))"
    "write_closed p' s = bp_closed (bio_pair b')" "write_closed p' (peer_of s) = bp_closed (bio_pair q')"
  using assms by (simp_all add: channel_def capacity_def write_closed_def end_of_def)

lemma same_pairI:
  assumes "p s = Some b" "p (peer_of s) = Some q" "p' s = Some b'" "p' (peer_of s) = Some q'"
    and "bp_size (bio_pair b') = bp_size (bio_pair b)" "bp_closed (bio_pair b') = bp_closed (bio_pair b)"
    and "bp_size (bio_pair q') = bp_size (bio_pair q)" "bp_closed (bio_pair q') = bp_closed (bio_pair q)"
  shows "same_pair p p'"
  unfolding same_pair_def using side_cases [of _ s] pair_view [OF assms(1,2)] pair_view [OF assms(3,4)] assms(5-8) by metis

lemma clear_flags [simp]:
  "bio_init (BIO_clear_retry_flags b) = bio_init b" "bio_pair (BIO_clear_retry_flags b) = bio_pair b"
  "bio_init (BIO_set_retry_read b) = bio_init b" "bio_pair (BIO_set_retry_read b) = bio_pair b"
  "bio_init (BIO_set_retry_write b) = bio_init b" "bio_pair (BIO_set_retry_write b) = bio_pair b"
  by (simp_all add: BIO_clear_retry_flags_def BIO_set_retry_read_def BIO_set_retry_write_def)

lemma unat_of_int_size: "0 \<le> n \<Longrightarrow> n < 2 ^ 31 \<Longrightarrow> unat (of_int n :: size_t) = nat n"
  by (simp add: unat_eq_nat_uint take_bit_int_eq_self uint_word_of_int_eq)

text \<open>Reading \<open>n\<close> bytes takes them off the other side's queue.\<close>

definition read_spec :: "side \<Rightarrow> nat \<Rightarrow> bio_pair \<Rightarrow> int \<Rightarrow> byte list \<Rightarrow> bio_pair \<Rightarrow> bool" where
  "read_spec s n p r data p' \<longleftrightarrow>
    pair_ok p' \<and> same_pair p p' \<and> channel p' s = channel p s \<and> channel p (peer_of s) = data @ channel p' (peer_of s) \<and>
    data = take n (channel p (peer_of s)) \<and>
    r = (if channel p (peer_of s) = [] \<and> \<not> write_closed p (peer_of s) then -1 else int (length data))"

definition same_chan :: "bio \<Rightarrow> bio \<Rightarrow> bool" where
  "same_chan b b' \<longleftrightarrow> bio_init b' = bio_init b \<and> bp_peer (bio_pair b') = bp_peer (bio_pair b) \<and>
    bp_size (bio_pair b') = bp_size (bio_pair b) \<and> bp_closed (bio_pair b') = bp_closed (bio_pair b) \<and>
    (ring_ok (bio_pair b) \<longrightarrow> ring_ok (bio_pair b'))"

lemma pair_okD2:
  assumes "pair_ok p" "p s = Some b" "p (peer_of s) = Some q" "p' s = Some b'" "p' (peer_of s) = Some q'"
    and "same_chan b b'" "same_chan q q'"
  shows "pair_ok p'" "same_pair p p'"
proof -
  show "same_pair p p'" by (rule same_pairI [OF assms(2-5)]) (use assms(6,7) in \<open>simp_all add: same_chan_def\<close>)
  have "end_ok (p s)" "end_ok (p (peer_of s))" using assms(1) by (simp_all add: pair_okD)
  then show "pair_ok p'" using assms(2-7) by (intro pair_okI [of _ s]) (simp_all add: end_ok_def same_chan_def)
qed

lemma read_specI:
  assumes "pair_ok p" "p s = Some b" "p (peer_of s) = Some q" "p' s = Some b'" "p' (peer_of s) = Some q'"
    and "same_chan b b'" "same_chan q q'" "queue (bio_pair b') = queue (bio_pair b)"
    and "queue (bio_pair q) = data @ queue (bio_pair q')" "data = take n (queue (bio_pair q))"
    and "r = (if queue (bio_pair q) = [] \<and> \<not> bp_closed (bio_pair q) then -1 else int (length data))"
  shows "read_spec s n p r data p'"
  unfolding read_spec_def pair_view [OF assms(2,3)] pair_view [OF assms(4,5)]
  using pair_okD2 [OF assms(1-7)] assms(8-11) by blast

lemma bio_read_spec:
  assumes ok: "pair_ok p" and n: "0 < len" "len < 2 ^ 31"
  shows "\<exists>r data p'. bio_read s True len p = (Ok (r, data), p') \<and> read_spec s (nat len) p r data p'"
proof -
  obtain bio peer where e: "p s = Some bio" "p (peer_of s) = Some peer" "bio_init bio" "bio_init peer"
    "bp_peer (bio_pair bio)" "bp_peer (bio_pair peer)" "ring_ok (bio_pair bio)" "ring_ok (bio_pair peer)"
    using pair_ok_ends [OF ok] .
  let ?bio = "BIO_clear_retry_flags bio" and ?sz = "of_int len :: size_t"
  let ?pb = "(bio_pair peer)\<lparr>bp_request := 0\<rparr>"
  have sz: "unat ?sz = nat len" using n by (intro unat_of_int_size) simp_all
  then have sz0: "?sz \<noteq> 0" using n by (metis unat_0 nat_0_iff not_le)
  have buf: "bp_buf (bio_pair peer) \<noteq> None" using ring_okD [OF e(8)] by (metis option.distinct(1))
  have same: "same_chan bio ?bio" "same_chan bio (BIO_set_retry_read ?bio)" by (simp_all add: same_chan_def)
  note I = read_specI [OF ok e(1,2)]
  show ?thesis
  proof (cases "bp_len (bio_pair peer) = 0")
    case True
    then have qe: "queue (bio_pair peer) = []" using queue_empty [OF e(8)] by simp
    show ?thesis
    proof (cases "bp_closed (bio_pair peer)")
      case closed: True
      let ?p = "p(s := Some ?bio, peer_of s := Some (peer\<lparr>bio_pair := ?pb\<rparr>))"
      have "bio_read s True len p = (Ok (0, []), ?p)"
        using e buf sz0 True closed by (simp add: bio_read_def Let_def)
      moreover have "read_spec s (nat len) p 0 [] ?p"
        by (rule I [where b' = ?bio and q' = "peer\<lparr>bio_pair := ?pb\<rparr>"]) (use same(1) qe closed in \<open>simp_all add: same_chan_def\<close>)
      ultimately show ?thesis by blast
    next
      case opn: False
      let ?req = "if ?sz \<le> bp_size ?pb then ?sz else bp_size ?pb"
      let ?p = "p(s := Some (BIO_set_retry_read ?bio), peer_of s := Some (peer\<lparr>bio_pair := (?pb\<lparr>bp_request := ?req\<rparr>)\<rparr>))"
      have "bio_read s True len p = (Ok (-1, []), ?p)"
        using e buf sz0 True opn by (simp add: bio_read_def Let_def fun_upd_twist)
      moreover have "read_spec s (nat len) p (-1) [] ?p"
        by (rule I [where b' = "BIO_set_retry_read ?bio" and q' = "peer\<lparr>bio_pair := (?pb\<lparr>bp_request := ?req\<rparr>)\<rparr>"])
          (use same(2) qe opn in \<open>simp_all add: same_chan_def\<close>)
      ultimately show ?thesis by blast
    qed
  next
    case False
    let ?n = "if bp_len ?pb < ?sz then bp_len ?pb else ?sz"
    have un: "unat ?n = min (unat (bp_len (bio_pair peer))) (nat len)" using sz by (auto simp: word_less_nat_alt)
    have l0: "0 < unat (bp_len (bio_pair peer))" using False by (metis unat_gt_0)
    have okb: "ring_ok ?pb" using e(8) by simp
    have "0 < unat ?n" "unat ?n \<le> unat (bp_len ?pb)" using un l0 n by simp_all
    from read_loop_queue [OF okb this] obtain b' where b': "read_loop 2 ?n ?pb = Ok (take (unat ?n) (queue ?pb), b')"
      "ring_ok b'" "same_end ?pb b'" "queue b' = drop (unat ?n) (queue ?pb)" by blast
    let ?p = "p(s := Some ?bio, peer_of s := Some (peer\<lparr>bio_pair := b'\<rparr>))"
    have r: "bio_read s True len p = (Ok (uint ?n, take (unat ?n) (queue ?pb)), ?p)"
      using e buf sz0 False b'(1) by (simp add: bio_read_def Let_def)
    have lq: "length (queue (bio_pair peer)) = unat (bp_len (bio_pair peer))" by (rule length_queue [OF e(8)])
    have t: "take (unat ?n) (queue ?pb) = take (nat len) (queue (bio_pair peer))"
      unfolding un using lq by (metis ring_ok_request(2) take_take take_all_iff order_refl min.commute)
    have u: "uint ?n = int (length (take (unat ?n) (queue ?pb)))"
    proof -
      have "length (take (unat ?n) (queue ?pb)) = unat ?n" unfolding un using lq by simp
      then show ?thesis by (simp only: uint_nat)
    qed
    have q: "queue (bio_pair peer) \<noteq> []" using lq l0 by auto
    have "read_spec s (nat len) p (uint ?n) (take (unat ?n) (queue ?pb)) ?p"
    proof (rule I [where b' = ?bio and q' = "peer\<lparr>bio_pair := b'\<rparr>"])
      show "same_chan peer (peer\<lparr>bio_pair := b'\<rparr>)" using b'(2,3) by (simp add: same_chan_def same_end_def)
      show "uint ?n = (if queue (bio_pair peer) = [] \<and> \<not> bp_closed (bio_pair peer) then -1
          else int (length (take (unat ?n) (queue ?pb))))" using u q by simp
      show "queue (bio_pair peer) = take (unat ?n) (queue ?pb) @ queue (bio_pair (peer\<lparr>bio_pair := b'\<rparr>))"
        using b'(4) by simp
    qed (use same(1) t in simp_all)
    with r show ?thesis by blast
  qed
qed

text \<open>Besides, a read sets the retry flags of its own end, and the request on the other end, exactly when it has
  to be tried again.\<close>

definition read_marks :: "side \<Rightarrow> nat \<Rightarrow> bio_pair \<Rightarrow> bio_pair \<Rightarrow> bool" where
  "read_marks s n p p' \<longleftrightarrow>
    (let retry = (channel p (peer_of s) = [] \<and> \<not> write_closed p (peer_of s)) in
     BIO_should_retry (the (p' s)) = retry \<and> BIO_should_read (the (p' s)) = retry \<and> \<not> BIO_should_write (the (p' s)) \<and>
     unat (bp_request (end_of p' (peer_of s))) = (if retry then min n (capacity p (peer_of s)) else 0))"

lemma retry_flags [simp]:
  "\<not> BIO_should_retry (BIO_clear_retry_flags b)" "\<not> BIO_should_read (BIO_clear_retry_flags b)"
  "\<not> BIO_should_write (BIO_clear_retry_flags b)"
  "BIO_should_retry (BIO_set_retry_read (BIO_clear_retry_flags b))" "BIO_should_read (BIO_set_retry_read (BIO_clear_retry_flags b))"
  "\<not> BIO_should_write (BIO_set_retry_read (BIO_clear_retry_flags b))"
  by (simp_all add: BIO_should_retry_def BIO_should_read_def BIO_should_write_def BIO_clear_retry_flags_def BIO_set_retry_read_def
    BIO_FLAGS_READ_def BIO_FLAGS_WRITE_def BIO_FLAGS_SHOULD_RETRY_def kRetryFlags_def and.assoc bit.conj_disj_distrib2)

lemma read_loop_request: "read_loop n rest b = Ok (data, b') \<Longrightarrow> bp_request b' = bp_request b"
  by (induction n rest b arbitrary: data b' rule: read_loop.induct)
    (auto simp: Let_def split: if_splits option.splits outcome.splits)

lemma bio_read_marks:
  assumes ok: "pair_ok p" and n: "0 < len" "len < 2 ^ 31" and r: "bio_read s True len p = (Ok (r, data), p')"
  shows "read_marks s (nat len) p p'"
proof -
  obtain bio peer where e: "p s = Some bio" "p (peer_of s) = Some peer" "bio_init bio" "bio_init peer"
    "bp_peer (bio_pair bio)" "bp_peer (bio_pair peer)" "ring_ok (bio_pair bio)" "ring_ok (bio_pair peer)"
    using pair_ok_ends [OF ok] .
  let ?sz = "of_int len :: size_t"
  have sz: "unat ?sz = nat len" using n by (intro unat_of_int_size) simp_all
  then have sz0: "?sz \<noteq> 0" using n by (metis unat_0 nat_0_iff not_le)
  have buf: "bp_buf (bio_pair peer) \<noteq> None" using ring_okD [OF e(8)] by (metis option.distinct(1))
  have c: "channel p (peer_of s) = [] \<longleftrightarrow> bp_len (bio_pair peer) = 0"
    using length_queue [OF e(8)] e(2) by (simp add: channel_def end_of_def unat_eq_0 flip: length_0_conv)
  have v: "write_closed p (peer_of s) = bp_closed (bio_pair peer)" "capacity p (peer_of s) = unat (bp_size (bio_pair peer))"
    using e(2) by (simp_all add: write_closed_def capacity_def end_of_def)
  have m: "unat (if ?sz \<le> bp_size (bio_pair peer) then ?sz else bp_size (bio_pair peer)) = min (nat len) (unat (bp_size (bio_pair peer)))"
    using sz by (auto simp: word_le_nat_alt)
  show ?thesis
    using r e buf sz0 m
    by (auto simp: bio_read_def read_marks_def c v end_of_def Let_def dest: read_loop_request split: if_splits outcome.splits)
qed

text \<open>Writing appends to the own queue what fits.\<close>

definition write_spec :: "side \<Rightarrow> byte list \<Rightarrow> bio_pair \<Rightarrow> int \<Rightarrow> bio_pair \<Rightarrow> bool" where
  "write_spec s bs p r p' \<longleftrightarrow>
    (let k = (if write_closed p s then 0 else min (length bs) (capacity p s - length (channel p s)))
     in pair_ok p' \<and> same_pair p p' \<and> channel p' (peer_of s) = channel p (peer_of s) \<and>
       channel p' s = channel p s @ take k bs \<and> r = (if k = 0 then -1 else int k))"

lemma write_specI:
  assumes "pair_ok p" "p s = Some b" "p (peer_of s) = Some q" "p' s = Some b'" "p' (peer_of s) = Some q"
    and "same_chan b b'"
    and "k = (if bp_closed (bio_pair b) then 0 else min (length bs) (unat (bp_size (bio_pair b)) - length (queue (bio_pair b))))"
    and "queue (bio_pair b') = queue (bio_pair b) @ take k bs" "r = (if k = 0 then -1 else int k)"
  shows "write_spec s bs p r p'"
proof -
  have "same_chan q q" by (simp add: same_chan_def)
  from pair_okD2 [OF assms(1-6) this] show ?thesis
    unfolding write_spec_def pair_view [OF assms(2,3)] pair_view [OF assms(4,5)] assms(7) [symmetric] Let_def
    using assms(8,9) by blast
qed

lemma bio_write_spec:
  assumes ok: "pair_ok p" and n: "bs \<noteq> []" "length bs < 2 ^ 31"
  shows "\<exists>r p'. bio_write s (Some bs) p = (Ok r, p') \<and> write_spec s bs p r p'"
proof -
  obtain bio peer where e: "p s = Some bio" "p (peer_of s) = Some peer" "bio_init bio" "bio_init peer"
    "bp_peer (bio_pair bio)" "bp_peer (bio_pair peer)" "ring_ok (bio_pair bio)" "ring_ok (bio_pair peer)"
    using pair_ok_ends [OF ok] .
  let ?bio = "BIO_clear_retry_flags bio"
  let ?b = "(bio_pair bio)\<lparr>bp_request := 0\<rparr>"
  have okb: "ring_ok ?b" using e(7) by simp
  have buf: "bp_buf (bio_pair bio) \<noteq> None" using ring_okD [OF e(7)] by (metis option.distinct(1))
  have le: "unat (bp_len (bio_pair bio)) \<le> unat (bp_size (bio_pair bio))" using ring_okD [OF e(7)] by metis
  then have nl: "\<not> bp_size (bio_pair bio) < bp_len (bio_pair bio)" by (simp add: word_less_nat_alt)
  have lq: "length (queue (bio_pair bio)) = unat (bp_len (bio_pair bio))" by (rule length_queue [OF e(7)])
  note I = write_specI [OF ok e(1,2)]
  show ?thesis
  proof (cases "bp_closed (bio_pair bio)")
    case True
    let ?p = "p(s := Some (?bio\<lparr>bio_pair := ?b\<rparr>))"
    have "bio_write s (Some bs) p = (Ok (-1), ?p)" using e n buf True by (simp add: bio_write_def Let_def)
    moreover have "write_spec s bs p (-1) ?p"
      by (rule I [where b' = "?bio\<lparr>bio_pair := ?b\<rparr>" and k = 0]) (use e True in \<open>simp_all add: same_chan_def\<close>)
    ultimately show ?thesis by blast
  next
    case opn: False
    show ?thesis
    proof (cases "bp_len (bio_pair bio) = bp_size (bio_pair bio)")
      case True
      let ?bio' = "BIO_set_retry_write (?bio\<lparr>bio_pair := ?b\<rparr>)"
      let ?p = "p(s := Some ?bio')"
      have "bio_write s (Some bs) p = (Ok (-1), ?p)" using e n buf True opn by (simp add: bio_write_def Let_def)
      moreover have "write_spec s bs p (-1) ?p"
        by (rule I [where b' = ?bio' and k = 0]) (use e True opn lq in \<open>simp_all add: same_chan_def\<close>)
      ultimately show ?thesis by blast
    next
      case False
      let ?free = "bp_size (bio_pair bio) - bp_len (bio_pair bio)"
      have uf: "unat ?free = unat (bp_size (bio_pair bio)) - unat (bp_len (bio_pair bio))"
        using le by (intro unat_sub) (simp add: word_le_nat_alt)
      have fp: "0 < unat ?free" using False le uf by (metis word_unat_eq_iff zero_less_diff le_neq_implies_less)
      have ub: "unat (of_nat (length bs) :: size_t) = length bs" using n by (simp add: unat_of_nat)
      define N where "N = (if ?free < of_nat (length bs) then ?free else of_nat (length bs))"
      let ?k = "min (length bs) (unat (bp_size (bio_pair bio)) - length (queue (bio_pair bio)))"
      have un: "unat N = ?k" using ub uf lq by (auto simp: N_def word_less_nat_alt)
      have k0: "0 < ?k" "?k \<le> unat ?free" using fp uf lq n(1) by auto
      have d: "take (unat N) bs \<noteq> []" "unat (bp_len ?b) + length (take (unat N) bs) \<le> unat (bp_size ?b)"
        unfolding un using k0 n(1) lq le uf by auto
      obtain b' where b': "write_loop 2 (take (unat N) bs) ?b = Ok b'" "ring_ok b'" "same_end ?b b'"
        "queue b' = queue ?b @ take (unat N) bs" using write_loop_queue [OF okb d] by blast
      let ?p = "p(s := Some (?bio\<lparr>bio_pair := b'\<rparr>))"
      have "bio_write s (Some bs) p = (Ok (uint N), ?p)"
        using e n buf opn False nl b'(1)
        by (cases "?free < of_nat (length bs)") (simp_all add: bio_write_def Let_def N_def)
      moreover have "uint N = int ?k" using un by (simp only: uint_nat)
      moreover have "write_spec s bs p (int ?k) ?p"
      proof (rule I [where b' = "?bio\<lparr>bio_pair := b'\<rparr>" and k = ?k])
        show "queue (bio_pair (?bio\<lparr>bio_pair := b'\<rparr>)) = queue (bio_pair bio) @ take ?k bs" using b'(4) un by simp
        show "same_chan bio (?bio\<lparr>bio_pair := b'\<rparr>)" using b'(2,3) e by (simp add: same_chan_def same_end_def)
        show "int ?k = (if ?k = 0 then -1 else int ?k)" using k0(1) by auto
        show "?k = (if bp_closed (bio_pair bio) then 0 else ?k)" using opn by simp
      qed (use e in simp_all)
      ultimately show ?thesis by auto
    qed
  qed
qed

text \<open>Counting the bytes changes nothing else.\<close>

lemma counted:
  fixes s t :: side and p :: bio_pair
  assumes "\<And>b. bio_pair (f b) = bio_pair b \<and> bio_init (f b) = bio_init b" and ok: "pair_ok p"
  defines "p' \<equiv> p(s := map_option f (p s))"
  shows "pair_ok p' = pair_ok p" "channel p' t = channel p t" "capacity p' t = capacity p t"
    "write_closed p' t = write_closed p t"
proof -
  obtain bio where e: "p s = Some bio" using pair_ok_ends [OF ok, of s] by metis
  have E: "end_of p' t = end_of p t" for t using e assms(1) by (simp add: p'_def end_of_def)
  then show "channel p' t = channel p t" "capacity p' t = capacity p t" "write_closed p' t = write_closed p t"
    by (simp_all add: channel_def capacity_def write_closed_def)
  have "end_ok (p' t) = end_ok (p t)" for t using e assms(1) by (simp add: p'_def end_ok_def)
  then show "pair_ok p' = pair_ok p" by (simp add: pair_ok_def)
qed

lemma counted_spec:
  assumes "\<And>b. bio_pair (f b) = bio_pair b \<and> bio_init (f b) = bio_init b"
  shows "read_spec s n p r data p' \<Longrightarrow> read_spec s n p r data (p'(s := map_option f (p' s)))"
    and "write_spec s bs p r p' \<Longrightarrow> write_spec s bs p r (p'(s := map_option f (p' s)))"
proof -
  show "read_spec s n p r data (p'(s := map_option f (p' s)))" if h: "read_spec s n p r data p'"
  proof -
    have "pair_ok p'" using h by (simp add: read_spec_def)
    note C = counted [where f = f, OF assms this]
    show ?thesis using h unfolding read_spec_def same_pair_def C .
  qed
  show "write_spec s bs p r (p'(s := map_option f (p' s)))" if h: "write_spec s bs p r p'"
  proof -
    have "pair_ok p'" using h by (simp add: write_spec_def Let_def)
    note C = counted [where f = f, OF assms this]
    show ?thesis using h unfolding write_spec_def same_pair_def C .
  qed
qed

lemma counted_marks:
  assumes "\<And>b. bio_pair (f b) = bio_pair b \<and> bio_flags (f b) = bio_flags b" "p' s \<noteq> None" "read_marks s n p p'"
  shows "read_marks s n p (p'(s := map_option f (p' s)))"
  using assms
  by (auto simp: read_marks_def end_of_def BIO_should_retry_def BIO_should_read_def BIO_should_write_def Let_def)

lemma BIO_read_spec:
  assumes ok: "pair_ok p" and n: "0 < len" "len < 2 ^ 31"
  shows "\<exists>r data p'. BIO_read s True len p = (Ok (r, data), p') \<and> read_spec s (nat len) p r data p' \<and> read_marks s (nat len) p p'"
proof -
  obtain bio where e: "p s = Some bio" "bio_init bio" using pair_ok_ends [OF ok, of s] by metis
  obtain r data p' where r: "bio_read s True len p = (Ok (r, data), p')" "read_spec s (nat len) p r data p'"
    using bio_read_spec [OF assms] by blast
  let ?f = "\<lambda>b. if 0 < r then b\<lparr>bio_num_read := bio_num_read b + of_int r\<rparr> else b"
  have "BIO_read s True len p = (Ok (r, data), p'(s := map_option ?f (p' s)))"
    using e r(1) n by (simp add: BIO_read_def seq_def)
  moreover have "read_spec s (nat len) p r data (p'(s := map_option ?f (p' s)))"
    by (rule counted_spec(1) [OF _ r(2)]) simp
  moreover have "read_marks s (nat len) p (p'(s := map_option ?f (p' s)))"
  proof (rule counted_marks [OF _ _ bio_read_marks [OF assms r(1)]])
    show "p' s \<noteq> None" using r(2) pair_ok_ends [of p' s] unfolding read_spec_def by (metis option.distinct(1))
  qed simp
  ultimately show ?thesis by blast
qed

lemma BIO_write_spec:
  assumes ok: "pair_ok p" and n: "bs \<noteq> []" "length bs < 2 ^ 31"
  shows "\<exists>r p'. BIO_write s (Some bs) (int (length bs)) p = (Ok r, p') \<and> write_spec s bs p r p'"
proof -
  obtain bio where e: "p s = Some bio" "bio_init bio" using pair_ok_ends [OF ok, of s] by metis
  obtain r p' where r: "bio_write s (Some bs) p = (Ok r, p')" "write_spec s bs p r p'"
    using bio_write_spec [OF assms] by blast
  let ?f = "\<lambda>b. if 0 < r then b\<lparr>bio_num_write := bio_num_write b + of_int r\<rparr> else b"
  have "BIO_write s (Some bs) (int (length bs)) p = (Ok r, p'(s := map_option ?f (p' s)))"
    using e r(1) n(1) by (simp add: BIO_write_def seq_def)
  moreover have "write_spec s bs p r (p'(s := map_option ?f (p' s)))"
    by (rule counted_spec(2) [OF _ r(2)]) simp
  ultimately show ?thesis by blast
qed

lemma new_pair_ok:
  assumes ok: "malloc_ok malloc" and n: "unat n1 < 2 ^ 63" "unat n2 < 2 ^ 63"
    and r: "BIO_new_bio_pair malloc n1 n2 = Ok p"
  shows "pair_ok p" "channel p s = []" "\<not> write_closed p s"
proof -
  let ?b0 = "\<lparr>bp_peer = False, bp_closed = False, bp_len = 0, bp_offset = 0, bp_size = 17 * 1024, bp_buf = None, bp_request = 0\<rparr>"
  let ?bio0 = "\<lparr>bio_init = False, bio_shutdown = 1, bio_flags = 0, bio_retry_reason = 0, bio_num_read = 0,
    bio_num_write = 0, bio_pair = ?b0\<rparr>"
  obtain b1 b2 where b: "alloc_writebuf malloc n1 ?b0 = Ok b1" "alloc_writebuf malloc n2 ?b0 = Ok b2"
    and p: "p Near = Some (joined ?bio0 b1)" "p Far = Some (joined ?bio0 b2)"
    using r by (auto simp: BIO_new_bio_pair_def BIO_new_def bio_new_def bio_make_pair_def
        split: outcome.splits option.splits)
  have A: "ring_ok b \<and> bp_len b = 0 \<and> \<not> bp_closed b" if h: "alloc_writebuf malloc k ?b0 = Ok b" "unat k < 2 ^ 63" for b k
  proof -
    let ?sz = "if k \<noteq> 0 then k else 17 * 1024"
    obtain buf where buf: "OPENSSL_malloc malloc ?sz = Ok (Some buf)"
      "b = ?b0\<lparr>bp_size := ?sz, bp_buf := Some buf, bp_len := 0, bp_offset := 0\<rparr>"
      using h(1) by (cases "k = 0") (auto simp: alloc_writebuf_def Let_def split: outcome.splits option.splits)
    have "length buf = unat ?sz" by (rule malloc_block [OF ok buf(1)])
    moreover have "unat ?sz < 2 ^ 63" "0 < ?sz" using h(2) by (auto simp: word_gt_0)
    ultimately show ?thesis unfolding buf(2) by (simp add: ring_ok_def)
  qed
  have j: "end_ok (Some (joined ?bio0 b)) \<and> queue (bio_pair (joined ?bio0 b)) = []" if "ring_ok b" "bp_len b = 0" for b
    using that by (auto simp: end_ok_def joined_def ring_ok_def queue_def split: option.splits)
  note A1 = A [OF b(1) n(1)] and A2 = A [OF b(2) n(2)]
  show "pair_ok p" using j A1 A2 p by (simp add: pair_ok_def)
  show "channel p s = []" using j A1 A2 p by (cases s) (simp_all add: channel_def end_of_def)
  show "\<not> write_closed p s" using p by (cases s) (simp_all add: write_closed_def end_of_def joined_def)
qed

section \<open>Interleavings\<close>

text \<open>A pair in use by two parties: every step is a read, a write or a shutdown of one side, in any
  order.  The ghost components record what each side has successfully written and has read.\<close>

inductive pair_step ::
  "bio_pair \<times> (side \<Rightarrow> byte list) \<times> (side \<Rightarrow> byte list) \<Rightarrow>
   bio_pair \<times> (side \<Rightarrow> byte list) \<times> (side \<Rightarrow> byte list) \<Rightarrow> bool" where
  step_read: "BIO_read s True len p = (Ok (r, data), p') \<Longrightarrow> 0 < len \<Longrightarrow> len < 2 ^ 31 \<Longrightarrow>
    pair_step (p, sent, got) (p', sent, got(s := got s @ data))"
| step_write: "BIO_write s (Some bs) (int (length bs)) p = (Ok r, p') \<Longrightarrow> bs \<noteq> [] \<Longrightarrow> length bs < 2 ^ 31 \<Longrightarrow>
    pair_step (p, sent, got) (p', sent(s := sent s @ take (nat r) bs), got)"
| step_shutdown: "BIO_shutdown_wr s p = (Ok r, p') \<Longrightarrow> pair_step (p, sent, got) (p', sent, got)"

inductive pair_run ::
  "bio_pair \<Rightarrow> bio_pair \<times> (side \<Rightarrow> byte list) \<times> (side \<Rightarrow> byte list) \<Rightarrow> bool" for p0 where
  run_start: "pair_run p0 (p0, \<lambda>_. [], \<lambda>_. [])"
| run_step: "pair_run p0 st \<Longrightarrow> pair_step st st' \<Longrightarrow> pair_run p0 st'"

inductive_cases pair_stepE: "pair_step (p, sent, got) st'"

lemma shutdown_spec:
  assumes "pair_ok p" "BIO_shutdown_wr s p = (Ok r, p')"
  shows "pair_ok p'" "channel p' t = channel p t" "capacity p' t = capacity p t"
    "write_closed p' t = (t = s \<or> write_closed p t)"
proof -
  obtain bio where e: "p s = Some bio" using pair_ok_ends [OF assms(1), of s] by metis
  have p': "p' = p(s := Some (bio\<lparr>bio_pair := (bio_pair bio)\<lparr>bp_closed := True\<rparr>\<rparr>))"
    using assms(2) e by (simp add: BIO_shutdown_wr_def bio_ctrl_def)
  have "end_ok (p' t) = end_ok (p t)" for t using e by (simp add: p' end_ok_def)
  with assms(1) show "pair_ok p'" by (simp add: pair_ok_def)
  show "channel p' t = channel p t" "capacity p' t = capacity p t" "write_closed p' t = (t = s \<or> write_closed p t)"
    using e by (simp_all add: p' channel_def capacity_def write_closed_def end_of_def)
qed

definition fifo :: "bio_pair \<times> (side \<Rightarrow> byte list) \<times> (side \<Rightarrow> byte list) \<Rightarrow> bool" where
  "fifo st = (case st of (p, sent, got) \<Rightarrow> pair_ok p \<and> (\<forall>s. sent s = got (peer_of s) @ channel p s))"

lemma fifo_step:
  assumes "pair_step st st'" "fifo st"
  shows "fifo st'"
  using assms
proof (induction rule: pair_step.induct)
  case (step_read s len p r data p' sent got)
  then have ok: "pair_ok p" and f: "sent t = got (peer_of t) @ channel p t" for t by (simp_all add: fifo_def)
  have R: "read_spec s (nat len) p r data p'" using BIO_read_spec [OF ok step_read.hyps(2,3), of s] step_read.hyps(1) by simp
  have r: "channel p (peer_of s) = data @ channel p' (peer_of s)" "channel p' s = channel p s" "pair_ok p'"
    using R unfolding read_spec_def by blast+
  have "sent t = (got(s := got s @ data)) (peer_of t) @ channel p' t" for t
  proof (cases "t = s")
    case True
    with r(2) f [of t] show ?thesis by simp
  next
    case False
    then have "t = peer_of s" using side_cases [of t s] by simp
    with r(1) f [of t] show ?thesis by simp
  qed
  with r(3) show ?case by (simp add: fifo_def)
next
  case (step_write s bs p r p' sent got)
  then have ok: "pair_ok p" and f: "sent t = got (peer_of t) @ channel p t" for t by (simp_all add: fifo_def)
  have W: "write_spec s bs p r p'" using BIO_write_spec [OF ok step_write.hyps(2,3), of s] step_write.hyps(1) by simp
  define k where "k = (if write_closed p s then 0 else min (length bs) (capacity p s - length (channel p s)))"
  have w: "pair_ok p'" "channel p' (peer_of s) = channel p (peer_of s)" "channel p' s = channel p s @ take k bs"
    "r = (if k = 0 then -1 else int k)" using W by (simp_all add: write_spec_def k_def [symmetric] Let_def)
  then have "nat r = k" by simp
  with w(2,3) have "(sent(s := sent s @ take (nat r) bs)) t = got (peer_of t) @ channel p' t" for t
    using side_cases [of t s] f [of t] by auto
  with w(1) show ?case by (simp add: fifo_def)
next
  case (step_shutdown s p r p' sent got)
  then show ?case using shutdown_spec [OF _ step_shutdown.hyps] by (auto simp: fifo_def)
qed

section \<open>Properties\<close>

text \<open>C18: a BIO pair is two FIFO channels.  On a fresh pair, after any interleaving of reads,
  writes and shutdowns by the two sides, everything a side has successfully written is what the
  other side has read followed by what is still in the ring buffer: no byte is lost, repeated,
  reordered or invented, however the rings wrap, and a ring never holds more than its capacity.\<close>

theorem bio_pair_fifo:
  assumes "malloc_ok malloc" "unat n1 < 2 ^ 63" "unat n2 < 2 ^ 63"
    and "BIO_new_bio_pair malloc n1 n2 = Ok p0" "pair_run p0 (p, sent, got)"
  shows "sent s = got (peer_of s) @ channel p s \<and> length (channel p s) \<le> capacity p s"
proof -
  note N = new_pair_ok [OF assms(1-4)]
  have "fifo st" if "pair_run p0 st" for st
    using that
  proof (induction rule: pair_run.induct)
    case run_start
    with N show ?case by (simp add: fifo_def)
  next
    case (run_step st st')
    show ?case by (rule fifo_step [OF run_step.hyps(2) run_step.IH])
  qed
  from this [OF assms(5)] have f: "pair_ok p" "sent s = got (peer_of s) @ channel p s" by (simp_all add: fifo_def)
  obtain bio where "p s = Some bio" "ring_ok (bio_pair bio)" using pair_ok_ends [OF f(1), of s] by metis
  then have "length (channel p s) \<le> capacity p s"
    using ring_okD [of "bio_pair bio"] length_queue [of "bio_pair bio"] by (metis channel_def capacity_def end_of_def option.sel)
  with f(2) show ?thesis by blast
qed

definition demo_pair :: bio_pair
  where "demo_pair = (case BIO_new_bio_pair calloc 2 4 of Ok p \<Rightarrow> p | _ \<Rightarrow> (\<lambda>_. None))"

lemma demo_pair: "BIO_new_bio_pair calloc 2 4 = Ok demo_pair"
proof -
  have "(case BIO_new_bio_pair calloc 2 4 of Ok p \<Rightarrow> True | _ \<Rightarrow> False)" by code_simp
  then show ?thesis by (simp add: demo_pair_def split: outcome.splits)
qed

theorem bio_pair_fifo_witness:
  "\<exists>p. BIO_write Near (Some [1, 2, 3]) 3 demo_pair = (Ok 2, p) \<and>
    pair_run demo_pair (p, (\<lambda>_. [])(Near := [1, 2]), \<lambda>_. []) \<and> [1, 2] = channel p Near \<and> 2 \<le> capacity p Near"
proof -
  let ?p = "snd (BIO_write Near (Some [1, 2, 3]) 3 demo_pair)"
  have "fst (BIO_write Near (Some [1, 2, 3]) 3 demo_pair) = Ok 2" by code_simp
  then have w: "BIO_write Near (Some [1, 2, 3]) 3 demo_pair = (Ok 2, ?p)" by (metis prod.collapse)
  have "pair_step (demo_pair, \<lambda>_. [], \<lambda>_. []) (?p, (\<lambda>_. [])(Near := [1, 2]), \<lambda>_. [])"
    using step_write [of Near "[1, 2, 3]" demo_pair 2 ?p "\<lambda>_. []" "\<lambda>_. []"] w by simp
  with run_start have run: "pair_run demo_pair (?p, (\<lambda>_. [])(Near := [1, 2]), \<lambda>_. [])" by (rule run_step)
  from bio_pair_fifo [OF calloc_ok(1) _ _ demo_pair run, of Near]
  have c: "[1, 2] = channel ?p Near" "length (channel ?p Near) \<le> capacity ?p Near" by simp_all
  from c(2) have "2 \<le> capacity ?p Near" unfolding c(1) [symmetric] by simp
  with w run c(1) show ?thesis by blast
qed

text \<open>C19: a read of a live pair is never undefined and, on every branch, does what
  \<^verbatim>\<open>read(2)\<close> on a pipe does: it takes \<open>min(len, available)\<close> bytes off the front of the peer's
  channel; on an empty channel it returns 0 if the peer has shut down and -1 otherwise.  In that last case, and
  only then, the retry flags for reading are set, and the other end holds as a request how much was asked for, at most the size
  of the ring.  The other direction is untouched.\<close>

theorem BIO_read_of_pair:
  assumes "pair_ok p" "0 < len" "len < 2 ^ 31"
  shows "\<exists>r data p'. BIO_read s True len p = (Ok (r, data), p') \<and> pair_ok p' \<and> same_pair p p' \<and>
    data = take (nat len) (channel p (peer_of s)) \<and>
    channel p' (peer_of s) = drop (nat len) (channel p (peer_of s)) \<and> channel p' s = channel p s \<and>
    r = (if channel p (peer_of s) = [] \<and> \<not> write_closed p (peer_of s) then -1 else int (length data)) \<and>
    (let retry = (channel p (peer_of s) = [] \<and> \<not> write_closed p (peer_of s)) in
     BIO_should_retry (the (p' s)) = retry \<and> BIO_should_read (the (p' s)) = retry \<and> \<not> BIO_should_write (the (p' s)) \<and>
     unat (bp_request (end_of p' (peer_of s))) = (if retry then min (nat len) (capacity p (peer_of s)) else 0))"
proof -
  obtain r data p' where r: "BIO_read s True len p = (Ok (r, data), p')" "read_spec s (nat len) p r data p'" "read_marks s (nat len) p p'"
    using BIO_read_spec [OF assms] by blast
  then have "channel p' (peer_of s) = drop (nat len) (channel p (peer_of s))"
    unfolding read_spec_def by (metis append_eq_conv_conj append_take_drop_id same_append_eq)
  with r show ?thesis unfolding read_spec_def read_marks_def by blast
qed

lemma demo_pair_ok: "pair_ok demo_pair"
  by (rule new_pair_ok [OF calloc_ok(1) _ _ demo_pair]) simp_all

theorem BIO_read_of_pair_witness:
  "\<exists>r data p'. BIO_read Far True 5 demo_pair = (Ok (r, data), p') \<and> pair_ok p' \<and> same_pair demo_pair p' \<and>
    data = take (nat 5) (channel demo_pair (peer_of Far)) \<and>
    channel p' (peer_of Far) = drop (nat 5) (channel demo_pair (peer_of Far)) \<and> channel p' Far = channel demo_pair Far \<and>
    r = (if channel demo_pair (peer_of Far) = [] \<and> \<not> write_closed demo_pair (peer_of Far) then -1 else int (length data)) \<and>
    (let retry = (channel demo_pair (peer_of Far) = [] \<and> \<not> write_closed demo_pair (peer_of Far)) in
     BIO_should_retry (the (p' Far)) = retry \<and> BIO_should_read (the (p' Far)) = retry \<and> \<not> BIO_should_write (the (p' Far)) \<and>
     unat (bp_request (end_of p' (peer_of Far))) = (if retry then min (nat 5) (capacity demo_pair (peer_of Far)) else 0))"
  by (rule BIO_read_of_pair [OF demo_pair_ok]) simp_all

text \<open>C20: a write to a live pair appends as much as fits and reports how much, -1 when nothing fits
  (retry) or the direction has been shut down.\<close>

theorem BIO_write_of_pair:
  assumes "pair_ok p" "bs \<noteq> []" "length bs < 2 ^ 31"
  shows "\<exists>p'. let k = (if write_closed p s then 0 else min (length bs) (capacity p s - length (channel p s))) in
    BIO_write s (Some bs) (int (length bs)) p = (Ok (if k = 0 then -1 else int k), p') \<and> pair_ok p' \<and> same_pair p p' \<and>
    channel p' s = channel p s @ take k bs \<and> channel p' (peer_of s) = channel p (peer_of s)"
  using BIO_write_spec [OF assms, of s] unfolding write_spec_def Let_def by blast

theorem BIO_write_of_pair_witness:
  "\<exists>p'. let k = (if write_closed demo_pair Near then 0 else min (length [7 :: byte, 8, 9]) (capacity demo_pair Near - length (channel demo_pair Near))) in
    BIO_write Near (Some [7, 8, 9]) (int (length [7 :: byte, 8, 9])) demo_pair = (Ok (if k = 0 then -1 else int k), p') \<and> pair_ok p' \<and>
    same_pair demo_pair p' \<and> channel p' Near = channel demo_pair Near @ take k [7, 8, 9] \<and>
    channel p' (peer_of Near) = channel demo_pair (peer_of Near)"
  by (rule BIO_write_of_pair [OF demo_pair_ok]) simp_all

text \<open>\<^verbatim>\<open>BIO_eof\<close> passes a null pointer to a control command that expects the other end in it, and so
  reports the end of the stream on every live end, also when data is waiting.\<close>

lemma BIO_eof_of_pair: "p s \<noteq> None \<Longrightarrow> BIO_eof s p = Ok 1"
  by (auto simp: BIO_eof_def bio_ctrl_def)

lemma BIO_eof_with_data_pending:
  "(case BIO_write Near (Some [1]) 1 demo_pair of
      (_, p) \<Rightarrow> BIO_pending Far p = Ok 1 \<and> BIO_eof Far p = Ok 1 \<and> fst (BIO_read Far True 1 p) = Ok (1, [1]))"
  by code_simp

end
