(* ===== verification/Boring_Constant_Time.thy ===== *)
theory Boring_Constant_Time
  imports Byte_Numbers
begin

text \<open>
  The constant-time helpers of \<^verbatim>\<open>crypto/internal.h\<close> for a 64-bit target: comparisons that yield
  a mask of all ones or all zeros without branching, and selection by a mask; with what each of
  them computes.
\<close>

type_synonym crypto_word_t = u64

section \<open>The functions\<close>

definition CONSTTIME_TRUE_W :: crypto_word_t where "CONSTTIME_TRUE_W = NOT 0"
definition CONSTTIME_FALSE_W :: crypto_word_t where "CONSTTIME_FALSE_W = 0"
definition CONSTTIME_TRUE_8 :: byte where "CONSTTIME_TRUE_8 = 0xff"
definition CONSTTIME_FALSE_8 :: byte where "CONSTTIME_FALSE_8 = 0"

definition buffers_alias :: "size_t \<Rightarrow> size_t \<Rightarrow> size_t \<Rightarrow> size_t \<Rightarrow> bool"
  where "buffers_alias a a_len b b_len \<longleftrightarrow> b < a + a_len \<and> a < b + b_len"

definition constant_time_msb_w :: "crypto_word_t \<Rightarrow> crypto_word_t"
  where "constant_time_msb_w a = 0 - drop_bit 63 a"

definition constant_time_lt_w :: "crypto_word_t \<Rightarrow> crypto_word_t \<Rightarrow> crypto_word_t"
  where "constant_time_lt_w a b = constant_time_msb_w (a XOR ((a XOR b) OR ((a - b) XOR a)))"

definition constant_time_lt_8 :: "crypto_word_t \<Rightarrow> crypto_word_t \<Rightarrow> byte"
  where "constant_time_lt_8 a b = ucast (constant_time_lt_w a b)"

definition constant_time_ge_w :: "crypto_word_t \<Rightarrow> crypto_word_t \<Rightarrow> crypto_word_t"
  where "constant_time_ge_w a b = NOT (constant_time_lt_w a b)"

definition constant_time_ge_8 :: "crypto_word_t \<Rightarrow> crypto_word_t \<Rightarrow> byte"
  where "constant_time_ge_8 a b = ucast (constant_time_ge_w a b)"

definition constant_time_is_zero_w :: "crypto_word_t \<Rightarrow> crypto_word_t"
  where "constant_time_is_zero_w a = constant_time_msb_w (NOT a AND (a - 1))"

definition constant_time_is_zero_8 :: "crypto_word_t \<Rightarrow> byte"
  where "constant_time_is_zero_8 a = ucast (constant_time_is_zero_w a)"

definition constant_time_eq_w :: "crypto_word_t \<Rightarrow> crypto_word_t \<Rightarrow> crypto_word_t"
  where "constant_time_eq_w a b = constant_time_is_zero_w (a XOR b)"

definition constant_time_eq_8 :: "crypto_word_t \<Rightarrow> crypto_word_t \<Rightarrow> byte"
  where "constant_time_eq_8 a b = ucast (constant_time_eq_w a b)"

text \<open>The \<^verbatim>\<open>int\<close> variants: converting to \<^verbatim>\<open>crypto_word_t\<close> sign-extends.\<close>

definition constant_time_eq_int :: "32 word \<Rightarrow> 32 word \<Rightarrow> crypto_word_t"
  where "constant_time_eq_int a b = constant_time_eq_w (scast a) (scast b)"

definition constant_time_eq_int_8 :: "32 word \<Rightarrow> 32 word \<Rightarrow> byte"
  where "constant_time_eq_int_8 a b = constant_time_eq_8 (scast a) (scast b)"

definition constant_time_select_w :: "crypto_word_t \<Rightarrow> crypto_word_t \<Rightarrow> crypto_word_t \<Rightarrow> crypto_word_t"
  where "constant_time_select_w m a b = (m AND a) OR (NOT m AND b)"

definition constant_time_select_8 :: "byte \<Rightarrow> byte \<Rightarrow> byte \<Rightarrow> byte"
  where "constant_time_select_8 m a b = ucast (constant_time_select_w (ucast m) (ucast a) (ucast b))"

definition constant_time_select_int :: "crypto_word_t \<Rightarrow> 32 word \<Rightarrow> 32 word \<Rightarrow> 32 word"
  where "constant_time_select_int m a b = ucast (constant_time_select_w m (scast a) (scast b))"

section \<open>What they compute\<close>

lemma drop_bit_63: "drop_bit 63 (a :: u64) = (if bit a 63 then 1 else 0)"
proof (rule bit_word_eqI)
  fix n assume "n < LENGTH(64)"
  have "bit a (63 + n) \<Longrightarrow> n = 0" using bit_imp_le_length [of a "63 + n"] by simp
  then show "bit (drop_bit 63 a) n = bit (if bit a 63 then 1 else 0 :: u64) n"
    by (auto simp: bit_drop_bit_eq bit_1_iff)
qed

lemma msb_w: "constant_time_msb_w a = (if bit a 63 then CONSTTIME_TRUE_W else CONSTTIME_FALSE_W)"
  by (simp add: constant_time_msb_w_def drop_bit_63 CONSTTIME_TRUE_W_def CONSTTIME_FALSE_W_def)

lemma bit_63_iff: "bit (a :: u64) 63 \<longleftrightarrow> 2 ^ 63 \<le> unat a"
proof -
  have "unat a < 2 ^ 64" using unsigned_less [of a] by simp
  then have "unat a div 2 ^ 63 = (if 2 ^ 63 \<le> unat a then 1 else 0)"
    by (auto simp: div_eq_0_iff intro!: div_nat_eqI)
  moreover have "bit a 63 \<longleftrightarrow> unat (drop_bit 63 a) = 1" by (simp add: drop_bit_63)
  ultimately show ?thesis unfolding unat_drop_bit_div by simp
qed

lemma unat_diff: "unat (a - b :: u64) = (if unat b \<le> unat a then unat a - unat b else 2 ^ 64 + unat a - unat b)"
proof (cases "unat b \<le> unat a")
  case True
  then show ?thesis by (simp add: unat_sub word_le_nat_alt)
next
  case False
  have l: "unat b < 2 ^ 64" using unsigned_less [of b] by simp
  have "unat (a - b + b) = unat a" by simp
  moreover have "unat (a - b + b) = (unat (a - b) + unat b) mod 2 ^ 64" by (simp only: unat_word_ariths) simp
  moreover have "unat (a - b) < 2 ^ 64" using unsigned_less [of "a - b"] by simp
  ultimately have "unat a = unat (a - b) + unat b \<or> unat a + 2 ^ 64 = unat (a - b) + unat b"
    using l by (auto simp: mod_if split: if_splits)
  with False show ?thesis by auto
qed

lemma lt_w: "constant_time_lt_w a b = (if a < b then CONSTTIME_TRUE_W else CONSTTIME_FALSE_W)"
proof -
  have l: "unat a < 2 ^ 64" "unat b < 2 ^ 64" using unsigned_less [of a] unsigned_less [of b] by simp_all
  have "bit (a XOR ((a XOR b) OR ((a - b) XOR a))) 63 \<longleftrightarrow>
      bit a 63 \<noteq> (bit a 63 \<noteq> bit b 63 \<or> bit (a - b) 63 \<noteq> bit a 63)"
    by (simp add: bit_xor_iff bit_or_iff)
  also have "\<dots> \<longleftrightarrow> unat a < unat b"
    unfolding bit_63_iff unat_diff using l by (simp split: if_split) linarith
  finally show ?thesis by (simp add: constant_time_lt_w_def msb_w word_less_nat_alt)
qed

lemma is_zero_w: "constant_time_is_zero_w a = (if a = 0 then CONSTTIME_TRUE_W else CONSTTIME_FALSE_W)"
proof -
  have "bit (NOT a AND (a - 1)) 63 \<longleftrightarrow> \<not> bit a 63 \<and> bit (a - 1) 63"
    by (simp add: bit_and_iff bit_not_iff)
  also have "\<dots> \<longleftrightarrow> unat a = 0"
    unfolding bit_63_iff unat_diff by (auto split: if_splits)
  also have "\<dots> \<longleftrightarrow> a = 0" by (rule unat_eq_0)
  finally show ?thesis by (simp add: constant_time_is_zero_w_def msb_w)
qed

lemma eq_w: "constant_time_eq_w a b = (if a = b then CONSTTIME_TRUE_W else CONSTTIME_FALSE_W)"
proof -
  have "a XOR b = 0 \<longleftrightarrow> a = b"
  proof
    assume "a XOR b = 0"
    then have "bit a n = bit b n" for n by (metis bit_xor_iff bit_0_eq bot_fun_def bot_bool_def)
    then show "a = b" by (rule bit_eqI)
  qed simp
  then show ?thesis by (simp add: constant_time_eq_w_def is_zero_w)
qed

lemma true_8: "ucast CONSTTIME_TRUE_W = CONSTTIME_TRUE_8" "ucast CONSTTIME_FALSE_W = CONSTTIME_FALSE_8"
proof -
  have "(ucast (- 1 :: u64) :: byte) = - 1" by (rule bit_word_eqI) (simp add: bit_unsigned_iff)
  then show "ucast CONSTTIME_TRUE_W = CONSTTIME_TRUE_8" by (simp add: CONSTTIME_TRUE_W_def CONSTTIME_TRUE_8_def)
qed (simp add: CONSTTIME_FALSE_W_def CONSTTIME_FALSE_8_def)

lemma lt_8: "constant_time_lt_8 a b = (if a < b then CONSTTIME_TRUE_8 else CONSTTIME_FALSE_8)"
  by (simp add: constant_time_lt_8_def lt_w true_8)

lemma eq_8: "constant_time_eq_8 a b = (if a = b then CONSTTIME_TRUE_8 else CONSTTIME_FALSE_8)"
  by (simp add: constant_time_eq_8_def eq_w true_8)

lemma select_w:
  "constant_time_select_w CONSTTIME_TRUE_W a b = a" "constant_time_select_w CONSTTIME_FALSE_W a b = b"
  by (simp_all add: constant_time_select_w_def CONSTTIME_TRUE_W_def CONSTTIME_FALSE_W_def)

lemma select_8:
  "constant_time_select_8 CONSTTIME_TRUE_8 a b = a" "constant_time_select_8 CONSTTIME_FALSE_8 a b = b"
proof -
  have m: "ucast CONSTTIME_TRUE_8 = (mask 8 :: u64)" by (simp add: CONSTTIME_TRUE_8_def mask_eq_exp_minus_1)
  show "constant_time_select_8 CONSTTIME_TRUE_8 a b = a"
    unfolding constant_time_select_8_def constant_time_select_w_def m
    by (rule bit_word_eqI) (simp add: bit_unsigned_iff bit_or_iff bit_and_iff bit_not_iff bit_mask_iff)
  show "constant_time_select_8 CONSTTIME_FALSE_8 a b = b"
    by (rule bit_word_eqI)
      (simp add: constant_time_select_8_def constant_time_select_w_def CONSTTIME_FALSE_8_def bit_unsigned_iff)
qed

text \<open>C21: the branch-free comparisons and selection of \<^verbatim>\<open>internal.h\<close> compute what their
  names say, for all 64-bit operands.\<close>

theorem constant_time_correct:
  "constant_time_select_w (constant_time_lt_w a b) x y = (if a < b then x else y) \<and>
   constant_time_select_w (constant_time_ge_w a b) x y = (if b \<le> a then x else y) \<and>
   constant_time_select_w (constant_time_eq_w a b) x y = (if a = b then x else y) \<and>
   constant_time_select_8 (constant_time_lt_8 a b) u v = (if a < b then u else v) \<and>
   constant_time_select_8 (constant_time_eq_8 a b) u v = (if a = b then u else v)"
proof -
  have "constant_time_ge_w a b = (if b \<le> a then CONSTTIME_TRUE_W else CONSTTIME_FALSE_W)"
    by (auto simp: constant_time_ge_w_def lt_w CONSTTIME_TRUE_W_def CONSTTIME_FALSE_W_def)
  then show ?thesis by (simp add: lt_w eq_w lt_8 eq_8 select_w select_8)
qed

end
