(* ===== verification/Boring_Base64.thy ===== *)
theory Boring_Base64
  imports Boring_Mem Boring_Constant_Time
begin

text \<open>
  Base64 (\<^verbatim>\<open>crypto/base64/base64.c\<close>): the one-shot and the streaming encoder and decoder.
  Functions that write to an output buffer return what they write, without the terminating zero
  byte the encoders put behind it; what a failing decoder leaves there is not modelled.
\<close>

section \<open>Characters\<close>

definition constant_time_lt_args_8 :: "byte \<Rightarrow> byte \<Rightarrow> byte"
  where "constant_time_lt_args_8 a b = ucast (constant_time_msb_w (ucast a - ucast b))"

definition constant_time_in_range_8 :: "byte \<Rightarrow> byte \<Rightarrow> byte \<Rightarrow> byte"
  where "constant_time_in_range_8 a mn mx = constant_time_lt_args_8 (a - mn) (mx - mn + 1)"

definition conv_bin2ascii :: "byte \<Rightarrow> byte" where
  "conv_bin2ascii a0 =
    (let a = a0 AND 0x3f;
         ret = constant_time_select_8 (constant_time_eq_8 (ucast a) 62) 0x2B 0x2F;
         ret = constant_time_select_8 (constant_time_lt_args_8 a 62) (a - 52 + 0x30) ret;
         ret = constant_time_select_8 (constant_time_lt_args_8 a 52) (a - 26 + 0x61) ret
     in constant_time_select_8 (constant_time_lt_args_8 a 26) (a + 0x41) ret)"

definition base64_ascii_to_bin :: "byte \<Rightarrow> byte" where
  "base64_ascii_to_bin a =
    (let is_upper = constant_time_in_range_8 a 0x41 0x5A;
         is_lower = constant_time_in_range_8 a 0x61 0x7A;
         is_digit = constant_time_in_range_8 a 0x30 0x39;
         is_plus = constant_time_eq_8 (ucast a) 0x2B;
         is_slash = constant_time_eq_8 (ucast a) 0x2F;
         is_equals = constant_time_eq_8 (ucast a) 0x3D;
         ret = 0xff;
         ret = constant_time_select_8 is_upper (a - 0x41) ret;
         ret = constant_time_select_8 is_lower (a - 0x61 + 26) ret;
         ret = constant_time_select_8 is_digit (a - 0x30 + 52) ret;
         ret = constant_time_select_8 is_plus 62 ret;
         ret = constant_time_select_8 is_slash 63 ret
     in constant_time_select_8 is_equals 0 ret)"

section \<open>Encoding\<close>

record evp_encode_ctx =
  ec_data_used :: u32
  ec_data :: "byte list"
  ec_eof_seen :: bool
  ec_error_encountered :: bool

definition EVP_EncodedLength :: "size_t \<Rightarrow> size_t option" where
  "EVP_EncodedLength len0 =
    (if len0 + 2 < len0 then None
     else let len = (len0 + 2) div 3 in
       if drop_bit 2 (push_bit 2 len) \<noteq> len then None
       else let len = push_bit 2 len in if len + 1 < len then None else Some (len + 1))"

definition EVP_EncodeInit :: evp_encode_ctx where
  "EVP_EncodeInit =
    \<lparr>ec_data_used = 0, ec_data = replicate 48 0, ec_eof_seen = False, ec_error_encountered = False\<rparr>"

fun EVP_EncodeBlock :: "byte list \<Rightarrow> byte list" where
  "EVP_EncodeBlock [] = []"
| "EVP_EncodeBlock [a] =
    (let l = push_bit 16 (ucast a) :: u32
     in [conv_bin2ascii (ucast (drop_bit 18 l)), conv_bin2ascii (ucast (drop_bit 12 l)), 0x3D, 0x3D])"
| "EVP_EncodeBlock [a, b] =
    (let l = push_bit 16 (ucast a) OR push_bit 8 (ucast b) :: u32
     in [conv_bin2ascii (ucast (drop_bit 18 l)), conv_bin2ascii (ucast (drop_bit 12 l)),
         conv_bin2ascii (ucast (drop_bit 6 l)), 0x3D])"
| "EVP_EncodeBlock (a # b # c # src) =
    (let l = push_bit 16 (ucast a) OR push_bit 8 (ucast b) OR ucast c :: u32
     in conv_bin2ascii (ucast (drop_bit 18 l)) # conv_bin2ascii (ucast (drop_bit 12 l)) #
        conv_bin2ascii (ucast (drop_bit 6 l)) # conv_bin2ascii (ucast l) # EVP_EncodeBlock src)"

text \<open>The loop over whole 48-byte blocks: the new total (\<open>None\<close> when it wraps), the lines written
  and the input left.\<close>

function encode_lines :: "size_t \<Rightarrow> byte list \<Rightarrow> size_t option \<times> byte list \<times> byte list" where
  "encode_lines tot data =
    (if length data < 48 then (Some tot, [], data)
     else
       let enc = EVP_EncodeBlock (take 48 data); encoded = of_nat (length enc) in
       if tot + encoded + 1 < tot then (None, enc @ [0x0A], drop 48 data)
       else case encode_lines (tot + encoded + 1) (drop 48 data) of
           (t, out, rest) \<Rightarrow> (t, enc @ [0x0A] @ out, rest))"
  by pat_completeness auto

termination
  by (relation "measure (\<lambda>(tot, data). length data)") auto

declare encode_lines.simps [simp del]

definition int_max :: nat where "int_max = 2147483647"

definition EVP_EncodeUpdate :: "byte list \<Rightarrow> evp_encode_ctx \<Rightarrow> (int \<times> byte list) outcome \<times> evp_encode_ctx" where
  "EVP_EncodeUpdate data ctx =
    (if data = [] then (Ok (0, []), ctx)
     else if 48 \<le> ec_data_used ctx then (Undef, ctx)
     else if of_nat (length data) < (48 - ucast (ec_data_used ctx) :: size_t) then
       (case put_bytes (unat (ec_data_used ctx)) data (ec_data ctx) of
          None \<Rightarrow> (Undef, ctx)
        | Some d \<Rightarrow>
            (Ok (0, []), ctx\<lparr>ec_data := d, ec_data_used := ec_data_used ctx + of_nat (length data)\<rparr>))
     else
       let todo = 48 - unat (ec_data_used ctx) in
       case (if ec_data_used ctx = 0 then Some (ec_data ctx, 0, [], data)
             else map_option
               (\<lambda>d. let enc = EVP_EncodeBlock d in (d, of_nat (length enc) + 1, enc @ [0x0A], drop todo data))
               (put_bytes (unat (ec_data_used ctx)) (take todo data) (ec_data ctx))) of
         None \<Rightarrow> (Undef, ctx)
       | Some (d, tot, out, data') \<Rightarrow>
           (case encode_lines tot data' of
              (None, out', rest) \<Rightarrow> (Ok (0, out @ out'), ctx\<lparr>ec_data := d, ec_data_used := 0\<rparr>)
            | (Some tot', out', rest) \<Rightarrow>
                (case put_bytes 0 rest d of
                   None \<Rightarrow> (Undef, ctx)
                 | Some d' \<Rightarrow>
                     (Ok (if int_max < unat tot' then 0 else int (unat tot'), out @ out'),
                      ctx\<lparr>ec_data := d', ec_data_used := of_nat (length rest)\<rparr>))))"

definition EVP_EncodeFinal :: "evp_encode_ctx \<Rightarrow> (int \<times> byte list) outcome \<times> evp_encode_ctx" where
  "EVP_EncodeFinal ctx =
    (if ec_data_used ctx = 0 then (Ok (0, []), ctx)
     else if length (ec_data ctx) < unat (ec_data_used ctx) then (Undef, ctx)
     else
       let out = EVP_EncodeBlock (take (unat (ec_data_used ctx)) (ec_data ctx)) @ [0x0A]
       in if int_max < length out then (Undef, ctx)
          else (Ok (int (length out), out), ctx\<lparr>ec_data_used := 0\<rparr>))"

section \<open>Decoding\<close>

definition EVP_DecodedLength :: "nat \<Rightarrow> nat option"
  where "EVP_DecodedLength len = (if len mod 4 \<noteq> 0 then None else Some (len div 4 * 3))"

definition EVP_DecodeInit :: evp_encode_ctx where
  "EVP_DecodeInit =
    \<lparr>ec_data_used = 0, ec_data = replicate 48 0, ec_eof_seen = False, ec_error_encountered = False\<rparr>"

definition flag :: "bool \<Rightarrow> u32" where "flag c = (if c then 1 else 0)"

definition base64_decode_quad :: "byte \<Rightarrow> byte \<Rightarrow> byte \<Rightarrow> byte \<Rightarrow> byte list option" where
  "base64_decode_quad in0 in1 in2 in3 =
    (let a = base64_ascii_to_bin in0; b = base64_ascii_to_bin in1;
         c = base64_ascii_to_bin in2; d = base64_ascii_to_bin in3
     in if a = 0xff \<or> b = 0xff \<or> c = 0xff \<or> d = 0xff then None
        else
          let v = push_bit 18 (ucast a) OR push_bit 12 (ucast b) OR push_bit 6 (ucast c) OR ucast d :: u32;
              padding_pattern = push_bit 3 (flag (in0 = 0x3D)) OR push_bit 2 (flag (in1 = 0x3D)) OR
                push_bit 1 (flag (in2 = 0x3D)) OR flag (in3 = 0x3D)
          in if padding_pattern = 0 then Some [ucast (drop_bit 16 v), ucast (drop_bit 8 v), ucast v]
             else if padding_pattern = 1 then Some [ucast (drop_bit 16 v), ucast (drop_bit 8 v)]
             else if padding_pattern = 3 then Some [ucast (drop_bit 16 v)]
             else None)"

text \<open>The loop of \<^verbatim>\<open>EVP_DecodeUpdate\<close>: the bytes decoded.\<close>

fun decode_chars :: "byte list \<Rightarrow> evp_encode_ctx \<Rightarrow> byte list outcome \<times> evp_encode_ctx" where
  "decode_chars [] ctx = (Ok [], ctx)"
| "decode_chars (c # data) ctx =
    (if c = 0x20 \<or> c = 0x09 \<or> c = 0x0D \<or> c = 0x0A then decode_chars data ctx
     else if ec_eof_seen ctx then (Fail, ctx\<lparr>ec_error_encountered := True\<rparr>)
     else if length (ec_data ctx) \<le> unat (ec_data_used ctx) then (Undef, ctx)
     else
       let ctx1 = ctx\<lparr>ec_data := (ec_data ctx)[unat (ec_data_used ctx) := c], ec_data_used := ec_data_used ctx + 1\<rparr>
       in if ec_data_used ctx1 \<noteq> 4 then decode_chars data ctx1
          else if length (ec_data ctx1) < 4 then (Undef, ctx1)
          else case base64_decode_quad (ec_data ctx1 ! 0) (ec_data ctx1 ! 1) (ec_data ctx1 ! 2) (ec_data ctx1 ! 3) of
              None \<Rightarrow> (Fail, ctx1\<lparr>ec_error_encountered := True\<rparr>)
            | Some bs \<Rightarrow>
                seq (decode_chars data) (\<lambda>out. ret (bs @ out))
                  (ctx1\<lparr>ec_data_used := 0, ec_eof_seen := ec_eof_seen ctx1 \<or> length bs < 3\<rparr>))"

definition EVP_DecodeUpdate :: "byte list \<Rightarrow> evp_encode_ctx \<Rightarrow> (int \<times> byte list) outcome \<times> evp_encode_ctx" where
  "EVP_DecodeUpdate data ctx =
    (if ec_error_encountered ctx then (Ok (-1, []), ctx)
     else case decode_chars data ctx of
         (Fail, ctx') \<Rightarrow> (Ok (-1, []), ctx')
       | (Undef, ctx') \<Rightarrow> (Undef, ctx')
       | (Ok out, ctx') \<Rightarrow>
           if int_max < length out then (Ok (-1, []), ctx'\<lparr>ec_error_encountered := True\<rparr>)
           else (Ok (if ec_eof_seen ctx' then 0 else 1, out), ctx'))"

definition EVP_DecodeFinal :: "evp_encode_ctx \<Rightarrow> int"
  where "EVP_DecodeFinal ctx = (if ec_error_encountered ctx \<or> ec_data_used ctx \<noteq> 0 then -1 else 1)"

fun decode_quads :: "byte list \<Rightarrow> byte list option" where
  "decode_quads [] = Some []"
| "decode_quads (a # b # c # d # data) =
    (case base64_decode_quad a b c d of
       None \<Rightarrow> None
     | Some bs \<Rightarrow>
         if length bs \<noteq> 3 \<and> data \<noteq> [] then None else map_option ((@) bs) (decode_quads data))"
| "decode_quads _ = None"

definition EVP_DecodeBase64 :: "nat \<Rightarrow> byte list \<Rightarrow> byte list option" where
  "EVP_DecodeBase64 max_out data =
    (if length data mod 4 \<noteq> 0 then None
     else case EVP_DecodedLength (length data) of
         None \<Rightarrow> None
       | Some max_len \<Rightarrow> if max_out < max_len then None else decode_quads data)"

text \<open>The result is the return value and the bytes written, with the padding turned to zeros.\<close>

definition EVP_DecodeBlock :: "byte list \<Rightarrow> int \<times> byte list" where
  "EVP_DecodeBlock src0 =
    (let src1 = dropWhile (\<lambda>c. c = 0x20 \<or> c = 0x09) src0;
         src = rev (dropWhile (\<lambda>c. c = 0x20 \<or> c = 0x09 \<or> c = 0x0D \<or> c = 0x0A) (rev src1))
     in case EVP_DecodedLength (length src) of
          None \<Rightarrow> (-1, [])
        | Some dst_len \<Rightarrow>
            if int_max < dst_len then (-1, [])
            else case EVP_DecodeBase64 dst_len src of
                None \<Rightarrow> (-1, [])
              | Some dst \<Rightarrow>
                  let dst' = dst @ replicate ((3 - length dst mod 3) mod 3) 0 in (int (length dst'), dst'))"

end
