(* ===== verification/Boring_Base64_Laws.thy ===== *)
theory Boring_Base64_Laws
  imports Boring_Base64
begin

text \<open>
  Base64 against its table: the branch-free character conversions are the table and its inverse,
  decoding inverts encoding, and the streaming interfaces give the same result however the input
  is cut into pieces.
\<close>

section \<open>Characters\<close>

lemma lt_args_8: "constant_time_lt_args_8 a b = (if a < b then CONSTTIME_TRUE_8 else CONSTTIME_FALSE_8)"
proof -
  have l: "unat a < 256" "unat b < 256" by (rule byte_less)+
  have "bit (ucast a - ucast b :: u64) 63 \<longleftrightarrow> unat a < unat b"
    unfolding bit_63_iff unat_diff using l by (simp split: if_split) linarith
  then show ?thesis by (simp add: constant_time_lt_args_8_def msb_w true_8 word_less_nat_alt)
qed

text \<open>The alphabet, as a table of values and characters.\<close>

definition b64_char :: "byte \<Rightarrow> byte" where
  "b64_char v = (if v < 26 then v + 0x41 else if v < 52 then v - 26 + 0x61 else if v < 62 then v - 52 + 0x30
     else if v = 62 then 0x2B else 0x2F)"

definition b64_value :: "byte \<Rightarrow> byte" where
  "b64_value c = (if c = 0x3D then 0 else if c = 0x2F then 63 else if c = 0x2B then 62
     else if c - 0x30 < 10 then c - 0x30 + 52 else if c - 0x61 < 26 then c - 0x61 + 26
     else if c - 0x41 < 26 then c - 0x41 else 0xff)"

lemma ucast_byte_eq: "(ucast (a :: byte) = (ucast b :: u64)) = (a = b)"
  using unat_ucast_byte_size [of a] unat_ucast_byte_size [of b] by (metis word_unat_eq_iff)

lemma conv_bin2ascii_eq: "conv_bin2ascii a = b64_char (a AND 0x3f)"
proof -
  have "(ucast (a AND 0x3f) = (62 :: u64)) = (a AND 0x3f = 62)"
    using ucast_byte_eq [of "a AND 0x3f" 62] by simp
  then show ?thesis
    by (simp add: conv_bin2ascii_def b64_char_def Let_def lt_args_8 eq_8 select_8)
qed

lemma ascii_to_bin_eq: "base64_ascii_to_bin c = b64_value c"
proof -
  have e: "(ucast c = (0x2B :: u64)) = (c = 0x2B)" "(ucast c = (0x2F :: u64)) = (c = 0x2F)"
    "(ucast c = (0x3D :: u64)) = (c = 0x3D)"
    using ucast_byte_eq [of c "0x2B"] ucast_byte_eq [of c "0x2F"] ucast_byte_eq [of c "0x3D"] by simp_all
  show ?thesis
    by (simp add: base64_ascii_to_bin_def b64_value_def Let_def constant_time_in_range_8_def lt_args_8 eq_8 select_8 e)
qed

lemma b64_table:
  "b64_value (b64_char (a AND 0x3f)) = a AND 0x3f" "b64_char (a AND 0x3f) \<noteq> 0x3D"
  "a AND 0x3f \<noteq> 0xff"
  "b64_char (a AND 0x3f) \<notin> {0x20, 0x09, 0x0D, 0x0A}"
proof -
  have m: "unat (a AND 0x3f) < 64"
  proof -
    have "a AND 0x3f = take_bit 6 a" using take_bit_eq_mask [of 6 a] by (simp add: mask_eq_exp_minus_1)
    then show ?thesis using take_bit_nat_less_exp [of 6 "unat a"] by (simp add: unsigned_take_bit_eq)
  qed
  have all: "\<forall>v \<in> set (map of_nat [0..<64]). b64_value (b64_char v) = v \<and> b64_char v \<noteq> 0x3D \<and> v \<noteq> 0xff \<and>
      b64_char v \<notin> {0x20, 0x09, 0x0D, 0x0A}"
    by code_simp
  have "a AND 0x3f = of_nat (unat (a AND 0x3f))" by simp
  with m have "a AND 0x3f \<in> set (map of_nat [0..<64])" by (auto simp del: of_nat_unat intro!: image_eqI)
  with all show "b64_value (b64_char (a AND 0x3f)) = a AND 0x3f" "b64_char (a AND 0x3f) \<noteq> 0x3D" "a AND 0x3f \<noteq> 0xff"
    "b64_char (a AND 0x3f) \<notin> {0x20, 0x09, 0x0D, 0x0A}" by blast+
qed

section \<open>Quads\<close>

definition sextet :: "nat \<Rightarrow> u32 \<Rightarrow> byte"
  where "sextet k l = ucast (drop_bit k l) AND 0x3f"

lemma bit_sextet: "bit (sextet k l) n \<longleftrightarrow> n < 6 \<and> bit l (k + n)"
proof -
  have m: "(0x3f :: byte) = mask 6" by (simp add: mask_eq_exp_minus_1)
  show ?thesis unfolding sextet_def m
    by (auto simp: bit_and_iff bit_unsigned_iff bit_drop_bit_eq bit_mask_iff)
qed

lemma sextets:
  "push_bit 18 (ucast (sextet 18 l)) OR push_bit 12 (ucast (sextet 12 l)) OR push_bit 6 (ucast (sextet 6 l)) OR
    ucast (sextet 0 l) = take_bit 24 l"
proof (rule bit_word_eqI)
  fix n assume "n < LENGTH(32)"
  then show "bit (push_bit 18 (ucast (sextet 18 l)) OR push_bit 12 (ucast (sextet 12 l)) OR
      push_bit 6 (ucast (sextet 6 l)) OR ucast (sextet 0 l) :: u32) n = bit (take_bit 24 l) n"
    unfolding bit_or_iff bit_push_bit_iff bit_unsigned_iff bit_sextet bit_take_bit_iff
    by (cases "n < 6"; cases "n < 12"; cases "n < 18"; cases "n < 24") (simp_all add: less_diff_conv2)
qed

lemma sextet_neq: "sextet k l \<noteq> 0xff"
  unfolding sextet_def by (rule b64_table(3))

lemma three_bytes:
  fixes a b c :: byte
  defines "l \<equiv> push_bit 16 (ucast a) OR push_bit 8 (ucast b) OR ucast c :: u32"
  shows "take_bit 24 l = l" "ucast (drop_bit 16 l) = a" "ucast (drop_bit 8 l) = b" "ucast l = c"
proof -
  have B: "bit l n \<longleftrightarrow> n < 32 \<and> (16 \<le> n \<and> bit a (n - 16) \<or> 8 \<le> n \<and> bit b (n - 8) \<or> bit c n)" for n
    by (auto simp: l_def bit_or_iff bit_push_bit_iff bit_unsigned_iff)
  have s: "\<not> bit x n" if "8 \<le> n" for x :: byte and n using that bit_imp_le_length [of x n] by auto
  show "take_bit 24 l = l" by (rule bit_word_eqI) (auto simp: bit_take_bit_iff B s intro: ccontr)
  show "ucast (drop_bit 16 l) = a" by (rule bit_word_eqI) (auto simp: bit_unsigned_iff bit_drop_bit_eq B s)
  show "ucast (drop_bit 8 l) = b" by (rule bit_word_eqI) (auto simp: bit_unsigned_iff bit_drop_bit_eq B s)
  show "ucast l = c" by (rule bit_word_eqI) (auto simp: bit_unsigned_iff B s)
qed

lemma value_char: "base64_ascii_to_bin (conv_bin2ascii x) = x AND 0x3f" "conv_bin2ascii x \<noteq> 0x3D"
  by (simp_all add: conv_bin2ascii_eq ascii_to_bin_eq b64_table)

lemma value_pad: "base64_ascii_to_bin 0x3D = 0"
  by (simp add: ascii_to_bin_eq b64_value_def)

lemma quad_full:
  fixes a b c :: byte
  defines "l \<equiv> push_bit 16 (ucast a) OR push_bit 8 (ucast b) OR ucast c :: u32"
  shows "base64_decode_quad (conv_bin2ascii (ucast (drop_bit 18 l))) (conv_bin2ascii (ucast (drop_bit 12 l)))
    (conv_bin2ascii (ucast (drop_bit 6 l))) (conv_bin2ascii (ucast l)) = Some [a, b, c]"
proof -
  have g: "conv_bin2ascii (ucast l) = conv_bin2ascii (ucast (drop_bit 0 l))" by simp
  show ?thesis
    unfolding g base64_decode_quad_def Let_def value_char sextet_def [symmetric] sextets three_bytes(1) [of a b c, folded l_def]
    using sextet_neq by (simp add: value_char(2) flag_def three_bytes [of a b c, folded l_def])
qed

lemma quad_two:
  fixes a b :: byte
  defines "l \<equiv> push_bit 16 (ucast a) OR push_bit 8 (ucast b) :: u32"
  shows "base64_decode_quad (conv_bin2ascii (ucast (drop_bit 18 l))) (conv_bin2ascii (ucast (drop_bit 12 l)))
    (conv_bin2ascii (ucast (drop_bit 6 l))) 0x3D = Some [a, b]"
proof -
  have l: "l = push_bit 16 (ucast a) OR push_bit 8 (ucast b) OR ucast (0 :: byte)" by (simp add: l_def)
  have z: "sextet 0 l = 0"
    by (rule bit_word_eqI) (auto simp: bit_sextet l_def bit_or_iff bit_push_bit_iff)
  have v: "push_bit 18 (ucast (sextet 18 l)) OR push_bit 12 (ucast (sextet 12 l)) OR push_bit 6 (ucast (sextet 6 l)) = l"
    using sextets [of l] z three_bytes(1) [of a b 0, folded l] by simp
  show ?thesis
    unfolding base64_decode_quad_def Let_def value_char value_pad sextet_def [symmetric]
    using sextet_neq three_bytes [of a b 0, folded l] v by (simp add: value_char(2) flag_def)
qed

lemma quad_one:
  fixes a :: byte
  defines "l \<equiv> push_bit 16 (ucast a) :: u32"
  shows "base64_decode_quad (conv_bin2ascii (ucast (drop_bit 18 l))) (conv_bin2ascii (ucast (drop_bit 12 l)))
    0x3D 0x3D = Some [a]"
proof -
  have l: "l = push_bit 16 (ucast a) OR push_bit 8 (ucast (0 :: byte)) OR ucast (0 :: byte)" by (simp add: l_def)
  have z: "sextet 0 l = 0" "sextet 6 l = 0"
    by (rule bit_word_eqI; auto simp: bit_sextet l_def bit_push_bit_iff)+
  have v: "push_bit 18 (ucast (sextet 18 l)) OR push_bit 12 (ucast (sextet 12 l)) = l"
    using sextets [of l] z three_bytes(1) [of a 0 0, folded l] by simp
  show ?thesis
    unfolding base64_decode_quad_def Let_def value_char value_pad sextet_def [symmetric]
    using sextet_neq three_bytes [of a 0 0, folded l] v by (simp add: value_char(2) flag_def)
qed

section \<open>One-shot coding\<close>

lemma length_EncodeBlock: "length (EVP_EncodeBlock bs) = (length bs + 2) div 3 * 4"
proof (induction bs rule: EVP_EncodeBlock.induct)
  case (4 a b c src)
  have "(length (a # b # c # src) + 2) div 3 = Suc ((length src + 2) div 3)" by simp
  with 4 show ?case by (simp add: Let_def)
qed (simp_all add: Let_def)

lemma EncodeBlock_append:
  "length xs mod 3 = 0 \<Longrightarrow> EVP_EncodeBlock (xs @ ys) = EVP_EncodeBlock xs @ EVP_EncodeBlock ys"
proof (induction xs rule: EVP_EncodeBlock.induct)
  case (4 a b c src)
  have "length src mod 3 = 0" using 4(2) unfolding length_Cons by presburger
  with 4(1) show ?case by (simp add: Let_def)
qed simp_all

lemma decode_quads_EncodeBlock: "decode_quads (EVP_EncodeBlock bs) = Some bs"
proof (induction bs rule: EVP_EncodeBlock.induct)
  case (4 a b c src)
  then show ?case using quad_full [of a b c] by (simp add: Let_def)
qed (use quad_one quad_two in \<open>simp_all add: Let_def\<close>)

text \<open>The characters of an encoding are never white space.\<close>

definition white :: "byte \<Rightarrow> bool"
  where "white c \<longleftrightarrow> c = 0x20 \<or> c = 0x09 \<or> c = 0x0D \<or> c = 0x0A"

lemma conv_not_white: "\<not> white (conv_bin2ascii x)"
  using b64_table(4) [of x] by (auto simp: conv_bin2ascii_eq white_def)

lemma EncodeBlock_not_white: "c \<in> set (EVP_EncodeBlock bs) \<Longrightarrow> \<not> white c"
proof (induction bs rule: EVP_EncodeBlock.induct)
  case (4 a b d src)
  then show ?case using conv_not_white by (auto simp: Let_def)
next
  case (3 a b)
  then show ?case using conv_not_white by (auto simp: Let_def white_def)
next
  case (2 a)
  then show ?case using conv_not_white by (auto simp: Let_def white_def)
qed simp

section \<open>The streaming encoder\<close>

text \<open>What the encoder should have written after the input \<open>bs\<close>: each whole block of 48 bytes as a
  line.\<close>

function encoded_lines :: "byte list \<Rightarrow> byte list" where
  "encoded_lines bs =
    (if length bs < 48 then [] else EVP_EncodeBlock (take 48 bs) @ [0x0A] @ encoded_lines (drop 48 bs))"
  by pat_completeness auto

termination
  by (relation "measure length") auto

declare encoded_lines.simps [simp del]

definition pending :: "byte list \<Rightarrow> byte list"
  where "pending bs = drop (length bs div 48 * 48) bs"

lemma pending_short: "length bs < 48 \<Longrightarrow> pending bs = bs"
  by (simp add: pending_def)

lemma pending_block: "48 \<le> length bs \<Longrightarrow> pending (drop 48 bs) = pending bs"
  by (simp add: pending_def le_div_geq add.commute)

lemma pending_length: "length (pending bs) < 48"
proof -
  have "length (pending bs) = length bs mod 48" by (simp add: pending_def minus_div_mult_eq_mod)
  then show ?thesis by simp
qed

lemma length_encoded_lines: "length (encoded_lines bs) = length bs div 48 * 65"
proof (induction bs rule: encoded_lines.induct)
  case (1 bs)
  show ?case
  proof (cases "length bs < 48")
    case True
    then show ?thesis by (simp add: encoded_lines.simps [of bs])
  next
    case False
    then have "length bs div 48 = Suc ((length bs - 48) div 48)" by (simp add: le_div_geq)
    with False 1 show ?thesis by (simp add: encoded_lines.simps [of bs] length_EncodeBlock)
  qed
qed

lemma encoded_lines_append:
  "encoded_lines (bs @ cs) = encoded_lines bs @ encoded_lines (pending bs @ cs)"
  "pending (bs @ cs) = pending (pending bs @ cs)"
proof (induction bs rule: encoded_lines.induct)
  case (1 bs)
  {
    case 1
    show ?case
    proof (cases "length bs < 48")
      case False
      with 1 show ?thesis using "1.IH"(1) by (simp add: encoded_lines.simps [of bs] encoded_lines.simps [of "bs @ cs"] pending_block)
    qed (simp add: pending_short encoded_lines.simps [of bs])
  next
    case 2
    show ?case
    proof (cases "length bs < 48")
      case False
      with 2 show ?thesis using "1.IH"(2) pending_block [of "bs @ cs"] by (simp add: pending_block)
    qed (simp add: pending_short)
  }
qed

lemma encode_lines_eq:
  "unat tot + length (encoded_lines bs) < 2 ^ 64 \<Longrightarrow>
    encode_lines tot bs = (Some (of_nat (unat tot + length (encoded_lines bs))), encoded_lines bs, pending bs)"
proof (induction tot bs rule: encode_lines.induct)
  case (1 tot bs)
  show ?case
  proof (cases "length bs < 48")
    case True
    then show ?thesis by (simp add: encode_lines.simps [of tot bs] encoded_lines.simps [of bs] pending_short)
  next
    case False
    let ?enc = "EVP_EncodeBlock (take 48 bs)"
    have l: "length ?enc = 64" using False by (simp add: length_EncodeBlock)
    have e: "length (encoded_lines bs) = 65 + length (encoded_lines (drop 48 bs))"
      using False l by (simp add: encoded_lines.simps [of bs])
    have u: "unat (tot + of_nat (length ?enc) + 1) = unat tot + 65"
      using 1(2) e l by (simp add: unat_word_ariths)
    have nw: "\<not> tot + of_nat (length ?enc) + 1 < tot" by (simp only: word_less_nat_alt u)
    have "unat (tot + of_nat (length ?enc) + 1) + length (encoded_lines (drop 48 bs)) < 2 ^ 64" using 1(2) e u by simp
    note IH = 1(1) [OF False refl refl nw this]
    show ?thesis
      using False nw IH e u by (simp add: encode_lines.simps [of tot bs] encoded_lines.simps [of bs] pending_block Let_def)
  qed
qed

definition encoder_holds :: "evp_encode_ctx \<Rightarrow> byte list \<Rightarrow> bool" where
  "encoder_holds ctx bs \<longleftrightarrow> length (ec_data ctx) = 48 \<and> unat (ec_data_used ctx) = length (pending bs) \<and>
    take (length (pending bs)) (ec_data ctx) = pending bs"

lemma encoder_holds_init: "encoder_holds EVP_EncodeInit []"
  by (simp add: encoder_holds_def EVP_EncodeInit_def pending_def)

lemma EncodeUpdate_step:
  assumes h: "encoder_holds ctx bs" and n: "length cs < 2 ^ 60"
  shows "\<exists>r out ctx'. EVP_EncodeUpdate cs ctx = (Ok (r, out), ctx') \<and> encoder_holds ctx' (bs @ cs) \<and>
    encoded_lines (bs @ cs) = encoded_lines bs @ out \<and> r = (if int_max < length out then 0 else int (length out))"
proof (cases "cs = []")
  case True
  with h show ?thesis by (simp add: EVP_EncodeUpdate_def)
next
  case False
  let ?u = "ec_data_used ctx" and ?p = "pending bs" and ?d = "ec_data ctx"
  have d: "length ?d = 48" "unat ?u = length ?p" "take (length ?p) ?d = ?p" using h by (simp_all add: encoder_holds_def)
  have pl: "length ?p < 48" by (rule pending_length)
  have u48: "\<not> 48 \<le> ?u" using d(2) pl by (simp add: word_le_nat_alt)
  have us: "unat (48 - ucast ?u :: size_t) = 48 - length ?p"
  proof -
    have "unat (ucast ?u :: size_t) = length ?p" using d(2) by simp
    with pl show ?thesis by (subst unat_sub) (simp_all add: word_le_nat_alt)
  qed
  have ul: "unat (of_nat (length cs) :: size_t) = length cs" using n by (simp add: unat_of_nat)
  have short: "of_nat (length cs) < (48 - ucast ?u :: size_t) \<longleftrightarrow> length ?p + length cs < 48"
    using us ul pl by (auto simp: word_less_nat_alt)
  show ?thesis
  proof (cases "length ?p + length cs < 48")
    case True
    let ?d' = "?p @ cs @ drop (length ?p + length cs) ?d"
    have put: "put_bytes (unat ?u) cs ?d = Some ?d'" using d True by (simp add: put_bytes_def)
    have pe: "pending (bs @ cs) = ?p @ cs" using True by (subst encoded_lines_append(2)) (simp add: pending_short)
    have el: "encoded_lines (bs @ cs) = encoded_lines bs"
      using True by (subst encoded_lines_append(1)) (simp add: encoded_lines.simps [of "?p @ cs"])
    have uu: "unat (?u + of_nat (length cs)) = length ?p + length cs"
    proof -
      have "unat (of_nat (length cs) :: u32) = length cs" using True by (simp add: unat_of_nat)
      then show ?thesis using d(2) True by (simp add: unat_word_ariths)
    qed
    let ?ctx = "ctx\<lparr>ec_data := ?d', ec_data_used := ?u + of_nat (length cs)\<rparr>"
    have "EVP_EncodeUpdate cs ctx = (Ok (0, []), ?ctx)"
      using False u48 short True put by (simp add: EVP_EncodeUpdate_def)
    moreover have "encoder_holds ?ctx (bs @ cs)" using d True uu by (simp add: encoder_holds_def pe)
    ultimately show ?thesis using el by (simp add: int_max_def)
  next
    case long: False
    let ?todo = "48 - length ?p"
    define data' where "data' = (if ?u = 0 then cs else drop ?todo cs)"
    define d' where "d' = (if ?u = 0 then ?d else ?p @ take ?todo cs)"
    define out where "out = (if ?u = 0 then [] else EVP_EncodeBlock d' @ [0x0A])"
    define tot :: size_t where "tot = (if ?u = 0 then 0 else of_nat (length (EVP_EncodeBlock d')) + 1)"
    have u0: "?u = 0 \<longleftrightarrow> ?p = []" using d(2) by (metis length_0_conv unat_eq_0)
    have d48: "length d' = 48" using d long pl by (auto simp: d'_def)
    have el: "encoded_lines (?p @ cs) = out @ encoded_lines data'" "pending (?p @ cs) = pending data'"
    proof -
      have t: "take 48 (?p @ cs) = d'" "drop 48 (?p @ cs) = data'" if "?u \<noteq> 0"
        using that pl by (simp_all add: d'_def data'_def)
      show "encoded_lines (?p @ cs) = out @ encoded_lines data'"
        using t long u0 by (cases "?u = 0") (simp_all add: data'_def out_def encoded_lines.simps [of "?p @ cs"])
      show "pending (?p @ cs) = pending data'"
        using t long u0 pending_block [of "?p @ cs"] by (cases "?u = 0") (simp_all add: data'_def)
    qed
    have tl: "unat tot = length out" using d48 by (simp add: tot_def out_def length_EncodeBlock)
    have "length data' \<le> length cs" by (simp add: data'_def)
    moreover have "length data' div 48 * 48 \<le> length data'" by simp
    ultimately have "length data' div 48 * 65 \<le> 2 * length cs" by linarith
    then have bound: "unat tot + length (encoded_lines data') < 2 ^ 64"
      using n d48 unfolding tl length_encoded_lines by (simp add: out_def length_EncodeBlock)
    have split: "(if ?u = 0 then Some (?d, 0, [], cs)
        else map_option (\<lambda>d. let enc = EVP_EncodeBlock d in (d, of_nat (length enc) + 1, enc @ [0x0A], drop (48 - unat ?u) cs))
          (put_bytes (unat ?u) (take (48 - unat ?u) cs) ?d)) = Some (d', tot, out, data')"
    proof (cases "?u = 0")
      case True
      then show ?thesis by (simp add: d'_def tot_def out_def data'_def)
    next
      case u: False
      have "put_bytes (unat ?u) (take (48 - unat ?u) cs) ?d = Some d'"
        using d long pl u by (simp add: put_bytes_def d'_def)
      then show ?thesis using u d(2) by (simp add: Let_def tot_def out_def data'_def)
    qed
    have p48: "length (pending data') < 48" by (rule pending_length)
    let ?d2 = "pending data' @ drop (length (pending data')) d'"
    let ?ctx = "ctx\<lparr>ec_data := ?d2, ec_data_used := of_nat (length (pending data'))\<rparr>"
    have put: "put_bytes 0 (pending data') d' = Some ?d2" using p48 d48 by (simp add: put_bytes_def)
    have ut: "unat (of_nat (length out + length (encoded_lines data')) :: size_t) = length out + length (encoded_lines data')"
      using bound tl by (simp add: unat_of_nat del: of_nat_add)
    have "EVP_EncodeUpdate cs ctx = (Ok (if int_max < length (out @ encoded_lines data') then 0
        else int (length (out @ encoded_lines data')), out @ encoded_lines data'), ?ctx)"
      unfolding EVP_EncodeUpdate_def Let_def using False u48 short long
      by (simp add: split [unfolded Let_def] encode_lines_eq [OF bound] put tl ut del: of_nat_add)
    moreover have "encoder_holds ?ctx (bs @ cs)"
    proof -
      have "pending (bs @ cs) = pending data'" using encoded_lines_append(2) [of bs cs] el(2) by simp
      moreover have "unat (of_nat (length (pending data')) :: u32) = length (pending data')" using p48 by (simp add: unat_of_nat)
      ultimately show ?thesis using p48 d48 by (simp add: encoder_holds_def)
    qed
    moreover have "encoded_lines (bs @ cs) = encoded_lines bs @ out @ encoded_lines data'"
      using encoded_lines_append(1) [of bs cs] el(1) by simp
    ultimately show ?thesis by blast
  qed
qed

end
