(* ===== verification/Boring_Base64_Stream.thy ===== *)
theory Boring_Base64_Stream
  imports Boring_Base64_Laws
begin

text \<open>
  The streaming base64 interfaces as a whole: any division of the input into calls gives the same
  text, and the decoder turns that text, divided in any other way, back into the input.
\<close>

section \<open>Sequences of encoder calls\<close>

fun encode_stream :: "byte list list \<Rightarrow> evp_encode_ctx \<Rightarrow> byte list outcome \<times> evp_encode_ctx" where
  "encode_stream [] = seq EVP_EncodeFinal (\<lambda>(r, out). ret out)"
| "encode_stream (c # cs) = seq (EVP_EncodeUpdate c) (\<lambda>(r, out). seq (encode_stream cs) (\<lambda>rest. ret (out @ rest)))"

text \<open>The text of an input: lines of 64 characters, the last one shorter.\<close>

definition base64_text :: "byte list \<Rightarrow> byte list" where
  "base64_text bs =
    encoded_lines bs @ (if pending bs = [] then [] else EVP_EncodeBlock (pending bs) @ [0x0A])"

lemma EncodeFinal_step:
  assumes h: "encoder_holds ctx bs"
  shows "\<exists>r out ctx'. EVP_EncodeFinal ctx = (Ok (r, out), ctx') \<and> base64_text bs = encoded_lines bs @ out"
proof -
  have d: "length (ec_data ctx) = 48" "unat (ec_data_used ctx) = length (pending bs)"
    "take (length (pending bs)) (ec_data ctx) = pending bs"
    using h by (simp_all add: encoder_holds_def)
  have u0: "ec_data_used ctx = 0 \<longleftrightarrow> pending bs = []" using d(2) by (metis length_0_conv unat_eq_0)
  have l: "length (EVP_EncodeBlock (pending bs)) \<le> 64" using pending_length [of bs] by (simp add: length_EncodeBlock)
  show ?thesis
    using u0 d l pending_length [of bs] by (auto simp: EVP_EncodeFinal_def base64_text_def Let_def int_max_def)
qed

lemma encode_stream_holds:
  "encoder_holds ctx bs \<Longrightarrow> \<forall>c \<in> set cs. length c < 2 ^ 60 \<Longrightarrow>
    \<exists>out ctx'. encode_stream cs ctx = (Ok out, ctx') \<and> base64_text (bs @ concat cs) = encoded_lines bs @ out"
proof (induction cs arbitrary: ctx bs)
  case Nil
  then show ?case using EncodeFinal_step [of ctx bs] by (auto simp: seq_def ret_def)
next
  case (Cons c cs)
  obtain r out ctx1 where 1: "EVP_EncodeUpdate c ctx = (Ok (r, out), ctx1)" "encoder_holds ctx1 (bs @ c)"
    "encoded_lines (bs @ c) = encoded_lines bs @ out"
    using EncodeUpdate_step [OF Cons.prems(1), of c] Cons.prems(2) by auto
  obtain out' ctx2 where 2: "encode_stream cs ctx1 = (Ok out', ctx2)"
    "base64_text ((bs @ c) @ concat cs) = encoded_lines (bs @ c) @ out'"
    using Cons.IH [OF 1(2)] Cons.prems(2) by auto
  show ?case using 1(1,3) 2 by (simp add: seq_simps ret_def)
qed

section \<open>Sequences of decoder calls\<close>

lemma seq_prefix:
  "seq (seq m (\<lambda>out. seq n (\<lambda>rest. ret (out @ rest)))) (\<lambda>out. ret (bs @ out)) =
    seq (seq m (\<lambda>out. ret (bs @ out))) (\<lambda>out. seq n (\<lambda>rest. ret (out @ rest)))"
  by (simp add: seq_assoc del: ret_simp)

lemma decode_chars_append_at:
  "decode_chars (xs @ ys) ctx = seq (decode_chars xs) (\<lambda>out. seq (decode_chars ys) (\<lambda>rest. ret (out @ rest))) ctx"
proof (induction xs ctx rule: decode_chars.induct)
  case (1 ctx)
  then show ?case by (auto simp: seq_def ret_def split: prod.splits outcome.splits)
next
  case (2 c xs ctx)
  let ?rest = "\<lambda>out. seq (decode_chars ys) (\<lambda>rest. ret (out @ rest))"
  let ?ctx = "ctx\<lparr>ec_data := (ec_data ctx)[unat (ec_data_used ctx) := c], ec_data_used := ec_data_used ctx + 1\<rparr>"
  let ?q = "base64_decode_quad (ec_data ?ctx ! 0) (ec_data ?ctx ! 1) (ec_data ?ctx ! 2) (ec_data ?ctx ! 3)"
  consider "white c" | "\<not> white c" "ec_eof_seen ctx \<or> length (ec_data ctx) \<le> unat (ec_data_used ctx)"
    | "\<not> white c" "\<not> ec_eof_seen ctx" "unat (ec_data_used ctx) < length (ec_data ctx)" "ec_data_used ?ctx \<noteq> 4"
    | "\<not> white c" "\<not> ec_eof_seen ctx" "unat (ec_data_used ctx) < length (ec_data ctx)" "ec_data_used ?ctx = 4"
    using leI by blast
  then show ?case
  proof cases
    case 1
    then show ?thesis using "2.IH"(1) by (simp add: white_def seq_def)
  next
    case 2
    then show ?thesis by (auto simp: white_def seq_simps)
  next
    case 3
    then show ?thesis using "2.IH"(2) [OF _ _ _ refl] by (simp add: white_def seq_def)
  next
    case 4
    note step = 4 [unfolded white_def]
    show ?thesis
    proof (cases "length (ec_data ?ctx) < 4 \<or> ?q = None")
      case True
      with step show ?thesis by (auto simp: Let_def seq_def)
    next
      case False
      then obtain bs where q: "?q = Some bs" "\<not> length (ec_data ?ctx) < 4" by blast
      let ?ctx2 = "?ctx\<lparr>ec_data_used := 0, ec_eof_seen := ec_eof_seen ?ctx \<or> length bs < 3\<rparr>"
      have IH: "decode_chars (xs @ ys) ?ctx2 = seq (decode_chars xs) ?rest ?ctx2"
        using "2.IH"(3) [OF _ _ _ refl _ q(2) q(1)] step by (simp del: ret_simp)
      have "decode_chars ((c # xs) @ ys) ctx = seq (decode_chars (xs @ ys)) (\<lambda>out. ret (bs @ out)) ?ctx2"
        using step q by simp
      also have "\<dots> = seq (seq (decode_chars xs) ?rest) (\<lambda>out. ret (bs @ out)) ?ctx2"
        unfolding seq_def [of "decode_chars (xs @ ys)"] seq_def [of "seq (decode_chars xs) ?rest"] IH ..
      also have "\<dots> = seq (seq (decode_chars xs) (\<lambda>out. ret (bs @ out))) ?rest ?ctx2" by (simp only: seq_prefix)
      also have "\<dots> = seq (decode_chars (c # xs)) ?rest ctx"
      proof -
        have "decode_chars (c # xs) ctx = seq (decode_chars xs) (\<lambda>out. ret (bs @ out)) ?ctx2" using step q by simp
        then show ?thesis unfolding seq_def [of "decode_chars (c # xs)"] seq_def [of "seq (decode_chars xs) (\<lambda>out. ret (bs @ out))"] by simp
      qed
      finally show ?thesis .
    qed
  qed
qed

lemma decode_chars_append:
  "decode_chars (xs @ ys) = seq (decode_chars xs) (\<lambda>out. seq (decode_chars ys) (\<lambda>rest. ret (out @ rest)))"
  by (rule ext) (rule decode_chars_append_at)

lemma decode_chars_error:
  "decode_chars c ctx = (Ok out, ctx') \<Longrightarrow> ec_error_encountered ctx' = ec_error_encountered ctx"
proof (induction c arbitrary: ctx out)
  case (Cons b c)
  from Cons.prems show ?case
    by (auto simp: Let_def seq_eq_Ok ret_def split: if_splits option.splits dest: Cons.IH)
qed simp

declare decode_chars.simps(2) [simp del]

text \<open>A decoder between two quads.\<close>

definition decoder_at :: "bool \<Rightarrow> evp_encode_ctx \<Rightarrow> bool" where
  "decoder_at eof ctx \<longleftrightarrow> ec_data_used ctx = 0 \<and> length (ec_data ctx) = 48 \<and> ec_eof_seen ctx = eof \<and>
    \<not> ec_error_encountered ctx"

lemma decode_chars_quad:
  assumes "decoder_at False ctx" "\<not> white c0" "\<not> white c1" "\<not> white c2" "\<not> white c3"
    and "base64_decode_quad c0 c1 c2 c3 = Some bs"
  shows "\<exists>ctx'. decode_chars (c0 # c1 # c2 # c3 # data) ctx = seq (decode_chars data) (\<lambda>out. ret (bs @ out)) ctx' \<and>
    decoder_at (length bs < 3) ctx'"
proof -
  obtain d0 d1 d2 d3 rest where d: "ec_data ctx = d0 # d1 # d2 # d3 # rest" "length rest = 44"
  proof -
    have "length (ec_data ctx) = Suc (Suc (Suc (Suc 44)))" using assms(1) by (simp add: decoder_at_def)
    then obtain d0 d1 d2 d3 rest where "ec_data ctx = d0 # d1 # d2 # d3 # rest \<and> length rest = 44"
      unfolding length_Suc_conv by blast
    with that show ?thesis by blast
  qed
  let ?ctx = "ctx\<lparr>ec_data := c0 # c1 # c2 # c3 # rest, ec_data_used := 0, ec_eof_seen := length bs < 3\<rparr>"
  have "decode_chars (c0 # c1 # c2 # c3 # data) ctx = seq (decode_chars data) (\<lambda>out. ret (bs @ out)) ?ctx"
    using assms d by (simp add: decoder_at_def white_def Let_def decode_chars.simps)
  moreover have "decoder_at (length bs < 3) ?ctx" using assms(1) d by (simp add: decoder_at_def)
  ultimately show ?thesis by blast
qed

lemma decode_chars_EncodeBlock:
  "decoder_at False ctx \<Longrightarrow>
    \<exists>ctx'. decode_chars (EVP_EncodeBlock bs) ctx = (Ok bs, ctx') \<and> decoder_at (length bs mod 3 \<noteq> 0) ctx'"
proof (induction bs arbitrary: ctx rule: EVP_EncodeBlock.induct)
  case 1
  then show ?case by auto
next
  case (2 a)
  note q = quad_one [of a]
  have w: "\<not> white 0x3D" by (simp add: white_def)
  show ?case
    using decode_chars_quad [OF 2 conv_not_white conv_not_white w w q, of "[]"] by (auto simp: Let_def seq_simps ret_def)
next
  case (3 a b)
  note q = quad_two [of a b]
  have w: "\<not> white 0x3D" by (simp add: white_def)
  show ?case
    using decode_chars_quad [OF 3 conv_not_white conv_not_white conv_not_white w q, of "[]"] by (auto simp: Let_def seq_simps ret_def)
next
  case (4 a b c src)
  note q = quad_full [of a b c]
  obtain ctx1 where 1: "decode_chars (EVP_EncodeBlock (a # b # c # src)) ctx =
      seq (decode_chars (EVP_EncodeBlock src)) (\<lambda>out. ret ([a, b, c] @ out)) ctx1" "decoder_at False ctx1"
    using decode_chars_quad [OF 4(2) conv_not_white conv_not_white conv_not_white conv_not_white q] by (auto simp: Let_def)
  obtain ctx2 where 2: "decode_chars (EVP_EncodeBlock src) ctx1 = (Ok src, ctx2)" "decoder_at (length src mod 3 \<noteq> 0) ctx2"
    using 4(1) [OF refl 1(2)] by auto
  have "length (a # b # c # src) mod 3 = length src mod 3" by simp
  then show ?case using 1(1) 2 by (simp add: seq_simps ret_def)
qed

lemma decode_chars_newline: "decode_chars [0x0A] ctx = (Ok [], ctx)"
  by (simp add: decode_chars.simps)

lemma decode_chars_lines:
  "decoder_at False ctx \<Longrightarrow>
    \<exists>ctx'. decode_chars (encoded_lines bs) ctx = (Ok (take (length bs div 48 * 48) bs), ctx') \<and> decoder_at False ctx'"
proof (induction bs arbitrary: ctx rule: encoded_lines.induct)
  case (1 bs)
  show ?case
  proof (cases "length bs < 48")
    case True
    with 1(2) show ?thesis by (auto simp: encoded_lines.simps [of bs])
  next
    case False
    have "length (take 48 bs) mod 3 = 0" using False by simp
    then obtain ctx1 where 1: "decode_chars (EVP_EncodeBlock (take 48 bs)) ctx = (Ok (take 48 bs), ctx1)" "decoder_at False ctx1"
      using decode_chars_EncodeBlock [OF 1(2), of "take 48 bs"] by auto
    obtain ctx2 where 2: "decode_chars (encoded_lines (drop 48 bs)) ctx1 =
        (Ok (take (length (drop 48 bs) div 48 * 48) (drop 48 bs)), ctx2)" "decoder_at False ctx2"
      using "1.IH" [OF False 1(2)] by blast
    have "length bs div 48 * 48 = 48 + length (drop 48 bs) div 48 * 48" using False by (simp add: le_div_geq)
    then have "take (length bs div 48 * 48) bs = take 48 bs @ take (length (drop 48 bs) div 48 * 48) (drop 48 bs)"
      by (simp only: take_add)
    with 1(1) 2 show ?thesis
      using False by (auto simp: encoded_lines.simps [of bs] decode_chars_append decode_chars.simps(2) [of "0x0A"] seq_simps ret_def)
  qed
qed

lemma decode_chars_text:
  assumes "decoder_at False ctx"
  shows "\<exists>ctx' eof. decode_chars (base64_text bs) ctx = (Ok bs, ctx') \<and> decoder_at eof ctx'"
proof -
  obtain ctx1 where 1: "decode_chars (encoded_lines bs) ctx = (Ok (take (length bs div 48 * 48) bs), ctx1)" "decoder_at False ctx1"
    using decode_chars_lines [OF assms] by blast
  obtain ctx2 eof where 2: "decode_chars (EVP_EncodeBlock (pending bs)) ctx1 = (Ok (pending bs), ctx2)" "decoder_at eof ctx2"
    using decode_chars_EncodeBlock [OF 1(2)] by blast
  have "take (length bs div 48 * 48) bs @ pending bs = bs" by (simp add: pending_def)
  with 1 2 show ?thesis
    by (cases "pending bs = []") (auto simp: base64_text_def decode_chars_append decode_chars_newline seq_simps ret_def)
qed

text \<open>The decoder fed with a text in pieces; \<open>None\<close> when a call reports an error or the end is
  refused.\<close>

fun decode_stream :: "byte list list \<Rightarrow> evp_encode_ctx \<Rightarrow> byte list option" where
  "decode_stream [] ctx = (if EVP_DecodeFinal ctx = 1 then Some [] else None)"
| "decode_stream (c # cs) ctx =
    (case EVP_DecodeUpdate c ctx of
       (Ok (r, out), ctx') \<Rightarrow> if r = -1 then None else map_option ((@) out) (decode_stream cs ctx')
     | _ \<Rightarrow> None)"

lemma decode_stream_ok:
  "decode_chars (concat cs) ctx = (Ok out, ctx') \<Longrightarrow> \<not> ec_error_encountered ctx \<Longrightarrow> decoder_at eof ctx' \<Longrightarrow>
    length out \<le> int_max \<Longrightarrow> decode_stream cs ctx = Some out"
proof (induction cs arbitrary: ctx out)
  case Nil
  then show ?case by (simp add: EVP_DecodeFinal_def decoder_at_def)
next
  case (Cons c cs)
  from Cons.prems(1) obtain o1 ctx1 o2 where 1: "decode_chars c ctx = (Ok o1, ctx1)"
      "decode_chars (concat cs) ctx1 = (Ok o2, ctx')" "out = o1 @ o2"
    by (auto simp: decode_chars_append seq_eq_Ok ret_def)
  have ne: "\<not> ec_error_encountered ctx1" using decode_chars_error [OF 1(1)] Cons.prems(2) by simp
  have "decode_stream cs ctx1 = Some o2" using Cons.IH [OF 1(2) ne Cons.prems(3)] Cons.prems(4) 1(3) by simp
  then show ?case
    using 1 Cons.prems(2,4) by (simp add: EVP_DecodeUpdate_def)
qed

section \<open>What the decoder accepts\<close>

definition b64_alphabet :: "byte \<Rightarrow> bool" where
  "b64_alphabet c \<longleftrightarrow> 0x41 \<le> c \<and> c \<le> 0x5A \<or> 0x61 \<le> c \<and> c \<le> 0x7A \<or> 0x30 \<le> c \<and> c \<le> 0x39 \<or>
    c = 0x2B \<or> c = 0x2F"

lemma value_invalid: "base64_ascii_to_bin c = 0xff \<longleftrightarrow> \<not> b64_alphabet c \<and> c \<noteq> 0x3D"
  "b64_alphabet c \<Longrightarrow> c \<noteq> 0x3D"
proof -
  have r: "c - 0x41 < 26 \<longleftrightarrow> 0x41 \<le> c \<and> c \<le> 0x5A" "c - 0x61 < 26 \<longleftrightarrow> 0x61 \<le> c \<and> c \<le> 0x7A"
      "c - 0x30 < 10 \<longleftrightarrow> 0x30 \<le> c \<and> c \<le> 0x39"
    by (unat_arith; auto)+
  have v: "c - 0x41 < 26 \<Longrightarrow> c - 0x41 \<noteq> 0xff" "c - 0x61 < 26 \<Longrightarrow> c - 0x61 + 26 \<noteq> 0xff"
      "c - 0x30 < 10 \<Longrightarrow> c - 0x30 + 52 \<noteq> 0xff"
    by (unat_arith; auto)+
  show "base64_ascii_to_bin c = 0xff \<longleftrightarrow> \<not> b64_alphabet c \<and> c \<noteq> 0x3D"
    using v unfolding ascii_to_bin_eq b64_value_def b64_alphabet_def r [symmetric] by (simp split: if_split)
  show "b64_alphabet c \<Longrightarrow> c \<noteq> 0x3D" by (auto simp: b64_alphabet_def)
qed

lemma decode_quad_cases:
  "base64_decode_quad a b c d =
    (let v = push_bit 18 (ucast (base64_ascii_to_bin a)) OR push_bit 12 (ucast (base64_ascii_to_bin b)) OR
        push_bit 6 (ucast (base64_ascii_to_bin c)) OR ucast (base64_ascii_to_bin d) :: u32
     in if \<not> b64_alphabet a \<or> \<not> b64_alphabet b then None
        else if b64_alphabet c \<and> b64_alphabet d then Some [ucast (drop_bit 16 v), ucast (drop_bit 8 v), ucast v]
        else if b64_alphabet c \<and> d = 0x3D then Some [ucast (drop_bit 16 v), ucast (drop_bit 8 v)]
        else if c = 0x3D \<and> d = 0x3D then Some [ucast (drop_bit 16 v)] else None)"
proof (cases "base64_ascii_to_bin a = 0xff \<or> base64_ascii_to_bin b = 0xff \<or> base64_ascii_to_bin c = 0xff \<or> base64_ascii_to_bin d = 0xff")
  case True
  then show ?thesis by (auto simp: base64_decode_quad_def Let_def value_invalid(1))
next
  case False
  have alpha: "b64_alphabet x \<longleftrightarrow> x \<noteq> 0x3D" if "base64_ascii_to_bin x \<noteq> 0xff" for x
    using that value_invalid [of x] by blast
  show ?thesis
    using False
    by (cases "a = 0x3D"; cases "b = 0x3D"; cases "c = 0x3D"; cases "d = 0x3D")
      (simp_all add: base64_decode_quad_def Let_def alpha flag_def)
qed

text \<open>Base64 text: characters of the alphabet, then at most two padding characters.\<close>

definition b64_padded :: "byte list \<Rightarrow> bool" where
  "b64_padded s \<longleftrightarrow> length s mod 4 = 0 \<and> dropWhile b64_alphabet s \<in> {[], [0x3D], [0x3D, 0x3D]}"

lemma padded_step:
  "b64_alphabet a \<Longrightarrow> b64_alphabet b \<Longrightarrow> b64_alphabet c \<Longrightarrow> b64_alphabet d \<Longrightarrow>
    b64_padded (a # b # c # d # s) = b64_padded s"
  by (simp add: b64_padded_def)

lemma padded_last:
  "\<not> (b64_alphabet c \<and> b64_alphabet d) \<Longrightarrow> b64_padded (a # b # c # d # s) \<longleftrightarrow>
    b64_alphabet a \<and> b64_alphabet b \<and> (b64_alphabet c \<or> c = 0x3D) \<and> d = 0x3D \<and> s = []"
  "\<not> (b64_alphabet a \<and> b64_alphabet b) \<Longrightarrow> \<not> b64_padded (a # b # c # d # s)"
proof -
  have eq: "\<not> b64_alphabet 0x3D" using value_invalid(2) by blast
  show "\<not> (b64_alphabet a \<and> b64_alphabet b) \<Longrightarrow> \<not> b64_padded (a # b # c # d # s)"
    by (auto simp: b64_padded_def)
  show "\<not> (b64_alphabet c \<and> b64_alphabet d) \<Longrightarrow> b64_padded (a # b # c # d # s) \<longleftrightarrow>
      b64_alphabet a \<and> b64_alphabet b \<and> (b64_alphabet c \<or> c = 0x3D) \<and> d = 0x3D \<and> s = []"
    using eq by (cases "b64_alphabet c"; cases "b64_alphabet d") (auto simp: b64_padded_def)
qed

lemma decode_quads_accepts: "decode_quads s \<noteq> None \<longleftrightarrow> b64_padded s"
proof (induction s rule: decode_quads.induct)
  case 1
  then show ?case by (simp add: b64_padded_def)
next
  case (2 a b c d s)
  show ?case
  proof (cases "b64_alphabet a \<and> b64_alphabet b \<and> b64_alphabet c \<and> b64_alphabet d")
    case True
    then have "length bs = 3" if "base64_decode_quad a b c d = Some bs" for bs using that by (auto simp: decode_quad_cases Let_def)
    moreover obtain bs where "base64_decode_quad a b c d = Some bs" using True by (auto simp: decode_quad_cases Let_def)
    ultimately show ?thesis using 2 True by (simp add: padded_step)
  next
    case False
    show ?thesis
    proof (cases "b64_alphabet a \<and> b64_alphabet b")
      case True
      with False have cd: "\<not> (b64_alphabet c \<and> b64_alphabet d)" by blast
      show ?thesis
        using True cd padded_last(1) [OF cd, of a b s] value_invalid(2) [of c]
        by (cases "b64_alphabet c"; cases "b64_alphabet d") (auto simp: decode_quad_cases Let_def)
    next
      case ab: False
      then show ?thesis using padded_last(2) [OF ab, of c d s] by (simp add: decode_quad_cases)
    qed
  qed
qed (auto simp: b64_padded_def)

section \<open>Properties\<close>

text \<open>C22.  Streaming: whatever the division of the input into \<^verbatim>\<open>EVP_EncodeUpdate\<close> calls, the calls and
  \<^verbatim>\<open>EVP_EncodeFinal\<close> together write the same text, lines of 64 characters; and the decoder, fed with
  that text in any pieces, reports no error and writes the input again.  The bound on a piece keeps the encoder's
  byte count within a \<^verbatim>\<open>size_t\<close>, the one on the whole input the decoder's within an \<^verbatim>\<open>int\<close>.\<close>

theorem base64_stream_roundtrip:
  assumes "\<forall>c \<in> set cs. length c < 2 ^ 60" "length (concat cs) \<le> int_max"
  shows "fst (encode_stream cs EVP_EncodeInit) = Ok (base64_text (concat cs)) \<and>
    (\<forall>ds. concat ds = base64_text (concat cs) \<longrightarrow> decode_stream ds EVP_DecodeInit = Some (concat cs))"
proof
  show "fst (encode_stream cs EVP_EncodeInit) = Ok (base64_text (concat cs))"
    using encode_stream_holds [OF encoder_holds_init assms(1)] by (auto simp: encoded_lines.simps [of "[]"])
  have d: "decoder_at False EVP_DecodeInit" "\<not> ec_error_encountered EVP_DecodeInit"
    by (simp_all add: decoder_at_def EVP_DecodeInit_def)
  show "\<forall>ds. concat ds = base64_text (concat cs) \<longrightarrow> decode_stream ds EVP_DecodeInit = Some (concat cs)"
    using decode_chars_text [OF d(1)] decode_stream_ok [OF _ d(2) _ assms(2)] by metis
qed

lemma base64_stream_roundtrip_witness:
  "fst (encode_stream [[1, 2], [], [3, 4]] EVP_EncodeInit) = Ok (base64_text [1, 2, 3, 4]) \<and>
    decode_stream [take 3 (base64_text [1, 2, 3, 4]), [], drop 3 (base64_text [1, 2, 3, 4])] EVP_DecodeInit =
      Some [1, 2, 3, 4]"
  using base64_stream_roundtrip [of "[[1, 2], [], [3, 4]]"]
  by (auto simp: int_max_def simp del: encode_stream.simps decode_stream.simps)

text \<open>C23.  One call: decoding the encoding of a block gives the block, whatever room above the needed one the
  caller offers; \<^verbatim>\<open>EVP_DecodeBlock\<close> also accepts blanks in front and white space behind, and returns the
  block with zeros up to a multiple of three.\<close>

theorem base64_block_roundtrip:
  assumes "length bs \<le> 2 ^ 30" "length (EVP_EncodeBlock bs) div 4 * 3 \<le> room"
    and "\<forall>c \<in> set before. c = 0x20 \<or> c = 0x09" "\<forall>c \<in> set behind. white c"
  shows "EVP_DecodeBase64 room (EVP_EncodeBlock bs) = Some bs \<and>
    (let padded = bs @ replicate ((3 - length bs mod 3) mod 3) 0
     in EVP_DecodeBlock (before @ EVP_EncodeBlock bs @ behind) = (int (length padded), padded))"
proof -
  let ?e = "EVP_EncodeBlock bs"
  have one: "EVP_DecodeBase64 r ?e = Some bs" if "length ?e div 4 * 3 \<le> r" for r
    using that by (simp add: EVP_DecodeBase64_def EVP_DecodedLength_def length_EncodeBlock decode_quads_EncodeBlock)
  have trim: "dropWhile P (xs @ ?e @ ys) = ?e @ ys"
    if "\<forall>c \<in> set xs. P c" "\<And>c. P c \<Longrightarrow> white c" "?e \<noteq> []" for P xs ys
    using that EncodeBlock_not_white [of _ bs] by (cases ?e) (auto simp: dropWhile_append3 dropWhile_append2)
  have trim_rev: "dropWhile white (rev behind @ rev ?e) = rev ?e"
  proof (cases "rev ?e")
    case (Cons c cs)
    then have "c \<in> set ?e" by (metis list.set_intros(1) set_rev)
    then have "\<not> white c" by (rule EncodeBlock_not_white)
    moreover have "dropWhile white (rev behind @ rev ?e) = dropWhile white (rev ?e)"
      by (rule dropWhile_append2) (use assms(4) in simp)
    ultimately show ?thesis using Cons by simp
  qed (use assms(4) in simp)
  have w: "(\<lambda>c. c = 0x20 \<or> c = 0x09 \<or> c = 0x0D \<or> c = 0x0A) = white" by (auto simp: white_def)
  have src: "rev (dropWhile white (rev (dropWhile (\<lambda>c. c = 0x20 \<or> c = 0x09) (before @ ?e @ behind)))) = ?e"
  proof (cases "?e = []")
    case True
    have "\<forall>c \<in> set (before @ behind). white c" using assms(3,4) by (auto simp: white_def)
    then have "\<forall>c \<in> set (rev (dropWhile (\<lambda>c. c = 0x20 \<or> c = 0x09) (before @ behind))). white c"
      using set_dropWhileD by fastforce
    with True show ?thesis by simp
  next
    case False
    have "dropWhile (\<lambda>c. c = 0x20 \<or> c = 0x09) (before @ ?e @ behind) = ?e @ behind"
      by (rule trim) (use assms(3) False in \<open>auto simp: white_def\<close>)
    then show ?thesis by (simp only: rev_append trim_rev rev_rev_ident)
  qed
  have len: "EVP_DecodedLength (length ?e) = Some (length ?e div 4 * 3)" by (simp add: EVP_DecodedLength_def length_EncodeBlock)
  have "length ?e div 4 * 3 \<le> int_max" using assms(1) by (simp add: length_EncodeBlock int_max_def)
  then show ?thesis
    using one [OF assms(2)] one [OF order_refl] len unfolding EVP_DecodeBlock_def Let_def w src by simp
qed

lemma base64_block_roundtrip_witness:
  "EVP_DecodeBase64 6 (EVP_EncodeBlock [1, 2, 3, 4]) = Some [1, 2, 3, 4] \<and>
    EVP_DecodeBlock ([0x20] @ EVP_EncodeBlock [1, 2, 3, 4] @ [0x0A]) = (6, [1, 2, 3, 4, 0, 0])"
proof -
  have "replicate 2 (0 :: byte) = [0, 0]" by (simp add: numeral_2_eq_2)
  then show ?thesis
    using base64_block_roundtrip [of "[1, 2, 3, 4]" 6 "[0x20]" "[0x0A]"]
    by (simp add: length_EncodeBlock white_def Let_def del: EVP_EncodeBlock.simps)
qed

text \<open>C24.  \<^verbatim>\<open>EVP_EncodedLength\<close> gives the room an encoding needs, its terminating zero included, and fails
  exactly when that number is no \<^verbatim>\<open>size_t\<close>.\<close>

theorem EVP_EncodedLength_exact:
  "EVP_EncodedLength len =
    (let n = (unat len + 2) div 3 * 4 + 1 in if n < 2 ^ 64 then Some (of_nat n) else None) \<and>
   (unat len + 2) div 3 * 4 = length (EVP_EncodeBlock (replicate (unat len) 0))"
proof (rule conjI)
  let ?k = "(unat len + 2) div 3"
  have l: "unat len < 2 ^ 64" using unsigned_less [of len] by simp
  show "EVP_EncodedLength len = (let n = ?k * 4 + 1 in if n < 2 ^ 64 then Some (of_nat n) else None)"
  proof (cases "unat len + 2 < 2 ^ 64")
    case False
    then have "unat (len + 2) < unat len" using l by (simp add: unat_word_ariths le_mod_geq)
    then show ?thesis using False by (simp add: EVP_EncodedLength_def word_less_nat_alt)
  next
    case True
    have k: "?k < 2 ^ 63" by (rule less_mult_imp_div_less) (use True in simp)
    let ?w = "(len + 2) div 3"
    have u2: "unat (len + 2) = unat len + 2" using True by (simp add: unat_word_ariths)
    then have nw: "\<not> len + 2 < len" by (simp add: word_less_nat_alt)
    have uw: "unat ?w = ?k" by (simp add: unat_div u2)
    have p: "unat (push_bit 2 ?w) = ?k * 4 mod 2 ^ 64"
      unfolding unsigned_push_bit_eq uw by (simp add: take_bit_eq_mod push_bit_eq_mult)
    show ?thesis
    proof (cases "?k < 2 ^ 62")
      case small: True
      have p4: "unat (push_bit 2 ?w) = ?k * 4" using p small by simp
      have "unat (drop_bit 2 (push_bit 2 ?w)) = unat ?w" unfolding unat_drop_bit_eq p4 uw by (simp add: drop_bit_eq_div)
      then have d: "drop_bit 2 (push_bit 2 ?w) = ?w" by (simp add: word_unat_eq_iff)
      have e: "unat (push_bit 2 ?w + 1) = ?k * 4 + 1" using p4 small by (simp add: unat_word_ariths)
      have nw2: "\<not> push_bit 2 ?w + 1 < push_bit 2 ?w" unfolding word_less_nat_alt e p4 by simp
      have v: "push_bit 2 ?w + 1 = of_nat (?k * 4 + 1)" unfolding e [symmetric] by simp
      have "EVP_EncodedLength len = Some (push_bit 2 ?w + 1)"
        unfolding EVP_EncodedLength_def Let_def d using nw nw2 by (simp only: if_False simp_thms)
      then show ?thesis unfolding v Let_def using small by (simp del: of_nat_add of_nat_mult)
    next
      case big: False
      have "?k * 4 mod 2 ^ 64 = ?k * 4 - 2 ^ 64" using big k by (simp add: le_mod_geq)
      then have "unat (drop_bit 2 (push_bit 2 ?w)) < ?k" unfolding unat_drop_bit_eq p using big k by (simp add: drop_bit_eq_div) linarith
      then have "drop_bit 2 (push_bit 2 ?w) \<noteq> ?w" using uw by auto
      then show ?thesis using nw big by (simp add: EVP_EncodedLength_def)
    qed
  qed
qed (simp add: length_EncodeBlock)

text \<open>C25.  \<^verbatim>\<open>EVP_DecodeBase64\<close> succeeds exactly on base64 text for which the caller has room: quads of
  characters of the alphabet, with at most two padding characters at the very end.\<close>

theorem EVP_DecodeBase64_accepts:
  "(\<exists>bs. EVP_DecodeBase64 room s = Some bs) \<longleftrightarrow> length s div 4 * 3 \<le> room \<and> b64_padded s"
proof -
  have "decode_quads s \<noteq> None \<longleftrightarrow> b64_padded s" by (rule decode_quads_accepts)
  then show ?thesis
    by (cases "length s mod 4 = 0") (auto simp: EVP_DecodeBase64_def EVP_DecodedLength_def b64_padded_def)
qed

text \<open>A trailing minus, which the header says is stripped, is refused.\<close>

lemma DecodeBlock_trailing_minus: "EVP_DecodeBlock (EVP_EncodeBlock bs @ [0x2D]) = (-1, [])"
proof -
  let ?s = "EVP_EncodeBlock bs @ [0x2D]"
  have w: "\<forall>c \<in> set ?s. \<not> white c" using EncodeBlock_not_white by (auto simp: white_def)
  have 1: "dropWhile (\<lambda>c. c = 0x20 \<or> c = 0x09) ?s = ?s"
    using w by (cases ?s) (auto simp: white_def)
  have "hd (rev ?s) = 0x2D" by simp
  then have 2: "dropWhile (\<lambda>c. c = 0x20 \<or> c = 0x09 \<or> c = 0x0D \<or> c = 0x0A) (rev ?s) = rev ?s" by simp
  have "length ?s mod 4 = 1" by (simp add: length_EncodeBlock mod_Suc)
  then show ?thesis unfolding EVP_DecodeBlock_def Let_def 1 2 by (simp add: EVP_DecodedLength_def)
qed

end
