(* ===== verification/Boring_Lhash.thy ===== *)
theory Boring_Lhash
  imports Boring_Mem
begin

text \<open>
  The hash table of \<^verbatim>\<open>crypto/lhash/lhash.c\<close>.  A chain is the list of its items; an item carries
  the address it was allocated at, since \<^verbatim>\<open>lh_doall\<close> follows \<^verbatim>\<open>next\<close> pointers through chains
  that its callback may change.  The items' addresses are parameters (the address the next item
  gets), as the allocator of \<open>Boring_Mem\<close> has no addresses.  Pointers to elements are values of a type
  \<open>'a\<close>, and \<open>None\<close> is the null pointer.
\<close>

section \<open>State\<close>

record 'a lhash_item =
  it_ptr :: size_t
  it_data :: 'a
  it_hash :: u32

record 'a lhash =
  lh_num_items :: size_t
  lh_buckets :: "'a lhash_item list list"
  lh_num_buckets :: size_t
  lh_callback_depth :: u32
  lh_comp :: "'a \<Rightarrow> 'a \<Rightarrow> int"
  lh_hash :: "'a \<Rightarrow> u32"

definition kMinNumBuckets :: size_t where "kMinNumBuckets = 16"
definition kMaxAverageChainLength :: size_t where "kMaxAverageChainLength = 2"
definition kMinAverageChainLength :: size_t where "kMinAverageChainLength = 1"

definition sizeof_LHASH :: size_t where "sizeof_LHASH = 48"
definition sizeof_LHASH_ITEM :: size_t where "sizeof_LHASH_ITEM = 24"
definition sizeof_pointer :: size_t where "sizeof_pointer = 8"

definition lh_new :: "c_malloc \<Rightarrow> ('a \<Rightarrow> u32) \<Rightarrow> ('a \<Rightarrow> 'a \<Rightarrow> int) \<Rightarrow> 'a lhash option outcome" where
  "lh_new malloc hash cmp =
    (case OPENSSL_malloc malloc sizeof_LHASH of
       Ok (Some _) \<Rightarrow>
         (case OPENSSL_malloc malloc (sizeof_pointer * kMinNumBuckets) of
            Ok (Some _) \<Rightarrow>
              Ok (Some \<lparr>lh_num_items = 0, lh_buckets = replicate (unat kMinNumBuckets) [],
                lh_num_buckets = kMinNumBuckets, lh_callback_depth = 0, lh_comp = cmp, lh_hash = hash\<rparr>)
          | Ok None \<Rightarrow> Ok None | Fail \<Rightarrow> Fail | Undef \<Rightarrow> Undef)
     | Ok None \<Rightarrow> Ok None | Fail \<Rightarrow> Fail | Undef \<Rightarrow> Undef)"

text \<open>The addresses of the items freed, in order.\<close>

definition lh_free :: "'a lhash option \<Rightarrow> size_t list" where
  "lh_free lh = (case lh of None \<Rightarrow> [] | Some t \<Rightarrow> map it_ptr (concat (take (unat (lh_num_buckets t)) (lh_buckets t))))"

section \<open>Lookup\<close>

text \<open>The pointer to a pointer that \<^verbatim>\<open>get_next_ptr_and_hash\<close> returns is a bucket and a position in
  its chain; behind the last item is the null pointer.\<close>

definition get_next_ptr_and_hash :: "'a lhash \<Rightarrow> 'a \<Rightarrow> (u32 \<times> nat \<times> nat) outcome" where
  "get_next_ptr_and_hash lh data =
    (let hash = lh_hash lh data; i = unat (ucast hash mod lh_num_buckets lh)
     in if lh_num_buckets lh = 0 \<or> length (lh_buckets lh) \<le> i then Undef
        else Ok (hash, i, length (takeWhile (\<lambda>cur. lh_comp lh (it_data cur) data \<noteq> 0) (lh_buckets lh ! i))))"

definition lh_retrieve :: "'a lhash \<Rightarrow> 'a \<Rightarrow> 'a option outcome" where
  "lh_retrieve lh data =
    (case get_next_ptr_and_hash lh data of
       Ok (_, i, k) \<Rightarrow>
         Ok (if k < length (lh_buckets lh ! i) then Some (it_data (lh_buckets lh ! i ! k)) else None)
     | Fail \<Rightarrow> Fail | Undef \<Rightarrow> Undef)"

section \<open>Resizing\<close>

definition rebucket_item :: "size_t \<Rightarrow> 'a lhash_item \<Rightarrow> 'a lhash_item list list \<Rightarrow> 'a lhash_item list list" where
  "rebucket_item n cur bs = (let i = unat (ucast (it_hash cur) mod n) in bs[i := cur # bs ! i])"

definition lh_rebucket :: "c_malloc \<Rightarrow> size_t \<Rightarrow> 'a lhash \<Rightarrow> unit outcome \<times> 'a lhash" where
  "lh_rebucket malloc new_num_buckets lh =
    (let alloc_size = sizeof_pointer * new_num_buckets in
     if alloc_size div sizeof_pointer \<noteq> new_num_buckets then (Ok (), lh)
     else case OPENSSL_malloc malloc alloc_size of
         Ok None \<Rightarrow> (Ok (), lh)
       | Ok (Some _) \<Rightarrow>
           if new_num_buckets = 0 \<or> length (lh_buckets lh) < unat (lh_num_buckets lh) then (Undef, lh)
           else (Ok (), lh\<lparr>lh_num_buckets := new_num_buckets,
             lh_buckets := fold (rebucket_item new_num_buckets)
               (concat (take (unat (lh_num_buckets lh)) (lh_buckets lh))) (replicate (unat new_num_buckets) [])\<rparr>)
       | Fail \<Rightarrow> (Fail, lh) | Undef \<Rightarrow> (Undef, lh))"

definition lh_maybe_resize :: "c_malloc \<Rightarrow> 'a lhash \<Rightarrow> unit outcome \<times> 'a lhash" where
  "lh_maybe_resize malloc lh =
    (if 0 < lh_callback_depth lh then (Ok (), lh)
     else if lh_num_buckets lh < kMinNumBuckets then (Undef, lh)
     else
       let avg_chain_length = lh_num_items lh div lh_num_buckets lh in
       if kMaxAverageChainLength < avg_chain_length then
         (let new_num_buckets = lh_num_buckets lh * 2 in
          if lh_num_buckets lh < new_num_buckets then lh_rebucket malloc new_num_buckets lh else (Ok (), lh))
       else if avg_chain_length < kMinAverageChainLength \<and> kMinNumBuckets < lh_num_buckets lh then
         (let new_num_buckets = lh_num_buckets lh div 2
          in lh_rebucket malloc (if new_num_buckets < kMinNumBuckets then kMinNumBuckets else new_num_buckets) lh)
       else (Ok (), lh))"

section \<open>Insertion and deletion\<close>

definition set_chain :: "nat \<Rightarrow> 'a lhash_item list \<Rightarrow> 'a lhash \<Rightarrow> 'a lhash"
  where "set_chain i chain lh = lh\<lparr>lh_buckets := (lh_buckets lh)[i := chain]\<rparr>"

text \<open>The result is \<^verbatim>\<open>*old_data\<close>; \<open>Fail\<close> is the return value zero.\<close>

definition lh_insert :: "c_malloc \<Rightarrow> size_t \<Rightarrow> 'a \<Rightarrow> 'a lhash \<Rightarrow> 'a option outcome \<times> 'a lhash" where
  "lh_insert malloc ptr data lh =
    (case get_next_ptr_and_hash lh data of
       Fail \<Rightarrow> (Fail, lh) | Undef \<Rightarrow> (Undef, lh)
     | Ok (hash, i, k) \<Rightarrow>
         let chain = lh_buckets lh ! i in
         if k < length chain then
           (Ok (Some (it_data (chain ! k))), set_chain i (chain[k := (chain ! k)\<lparr>it_data := data\<rparr>]) lh)
         else case OPENSSL_malloc malloc sizeof_LHASH_ITEM of
             Ok None \<Rightarrow> (Fail, lh)
           | Ok (Some _) \<Rightarrow>
               seq (lh_maybe_resize malloc) (\<lambda>_. ret None)
                 ((set_chain i (chain @ [\<lparr>it_ptr = ptr, it_data = data, it_hash = hash\<rparr>]) lh)
                   \<lparr>lh_num_items := lh_num_items lh + 1\<rparr>)
           | Fail \<Rightarrow> (Fail, lh) | Undef \<Rightarrow> (Undef, lh))"

definition lh_delete :: "c_malloc \<Rightarrow> 'a \<Rightarrow> 'a lhash \<Rightarrow> 'a option outcome \<times> 'a lhash" where
  "lh_delete malloc data lh =
    (case get_next_ptr_and_hash lh data of
       Fail \<Rightarrow> (Fail, lh) | Undef \<Rightarrow> (Undef, lh)
     | Ok (_, i, k) \<Rightarrow>
         let chain = lh_buckets lh ! i in
         if k < length chain then
           seq (lh_maybe_resize malloc) (\<lambda>_. ret (Some (it_data (chain ! k))))
             ((set_chain i (take k chain @ drop (Suc k) chain) lh)\<lparr>lh_num_items := lh_num_items lh - 1\<rparr>)
         else (Ok None, lh))"

section \<open>Iteration\<close>

text \<open>The element and the \<^verbatim>\<open>next\<close> pointer of the item at an address; \<open>None\<close> when there is no such
  item (any more).\<close>

fun item_in_chain :: "size_t \<Rightarrow> 'a lhash_item list \<Rightarrow> ('a \<times> size_t) option" where
  "item_in_chain p [] = None"
| "item_in_chain p (it # chain) =
    (if it_ptr it = p then Some (it_data it, case chain of [] \<Rightarrow> 0 | n # _ \<Rightarrow> it_ptr n) else item_in_chain p chain)"

fun item_at :: "size_t \<Rightarrow> 'a lhash_item list list \<Rightarrow> ('a \<times> size_t) option" where
  "item_at p [] = None"
| "item_at p (c # cs) = (case item_in_chain p c of None \<Rightarrow> item_at p cs | Some x \<Rightarrow> Some x)"

definition first_ptr :: "'a lhash_item list \<Rightarrow> size_t"
  where "first_ptr chain = (case chain of [] \<Rightarrow> 0 | it # _ \<Rightarrow> it_ptr it)"

text \<open>The loops of \<^verbatim>\<open>lh_doall_internal\<close>, for a callback that changes the table and some state of
  its own.  They need not end, when the callback keeps inserting: \<open>None\<close>.\<close>

type_synonym ('a, 's) lh_callback = "'a \<Rightarrow> 'a lhash \<times> 's \<Rightarrow> unit outcome \<times> 'a lhash \<times> 's"

partial_function (option) chain_walk ::
  "('a, 's) lh_callback \<Rightarrow> size_t \<Rightarrow> 'a lhash \<times> 's \<Rightarrow> (unit outcome \<times> 'a lhash \<times> 's) option" where
  "chain_walk func cur st =
    (if cur = 0 then Some (Ok (), st)
     else case item_at cur (lh_buckets (fst st)) of
         None \<Rightarrow> Some (Undef, st)
       | Some (data, next) \<Rightarrow>
           (case func data st of
              (Ok _, st') \<Rightarrow> chain_walk func next st'
            | (Fail, st') \<Rightarrow> Some (Fail, st')
            | (Undef, st') \<Rightarrow> Some (Undef, st')))"

partial_function (option) bucket_walk ::
  "('a, 's) lh_callback \<Rightarrow> nat \<Rightarrow> 'a lhash \<times> 's \<Rightarrow> (unit outcome \<times> 'a lhash \<times> 's) option" where
  "bucket_walk func i st =
    (if unat (lh_num_buckets (fst st)) \<le> i then Some (Ok (), st)
     else if length (lh_buckets (fst st)) \<le> i then Some (Undef, st)
     else case chain_walk func (first_ptr (lh_buckets (fst st) ! i)) st of
         None \<Rightarrow> None
       | Some (Ok _, st') \<Rightarrow> bucket_walk func (Suc i) st'
       | Some (Fail, st') \<Rightarrow> Some (Fail, st')
       | Some (Undef, st') \<Rightarrow> Some (Undef, st'))"

definition depth_up :: "'a lhash \<Rightarrow> 'a lhash" where
  "depth_up lh =
    (if lh_callback_depth lh < 0xffffffff then lh\<lparr>lh_callback_depth := lh_callback_depth lh + 1\<rparr> else lh)"

definition depth_down :: "'a lhash \<Rightarrow> 'a lhash" where
  "depth_down lh =
    (if lh_callback_depth lh < 0xffffffff then lh\<lparr>lh_callback_depth := lh_callback_depth lh - 1\<rparr> else lh)"

definition lh_doall_internal ::
  "c_malloc \<Rightarrow> ('a, 's) lh_callback \<Rightarrow> 'a lhash \<times> 's \<Rightarrow> (unit outcome \<times> 'a lhash \<times> 's) option" where
  "lh_doall_internal malloc func st =
    (case bucket_walk func 0 (depth_up (fst st), snd st) of
       None \<Rightarrow> None
     | Some (Ok _, lh, s) \<Rightarrow> (case lh_maybe_resize malloc (depth_down lh) of (r, lh') \<Rightarrow> Some (r, lh', s))
     | Some (Fail, st') \<Rightarrow> Some (Fail, st')
     | Some (Undef, st') \<Rightarrow> Some (Undef, st'))"

text \<open>Without and with a table; the argument of \<^verbatim>\<open>lh_doall_arg\<close> is part of the callback.\<close>

definition lh_doall :: "c_malloc \<Rightarrow> 'a lhash option \<Rightarrow> ('a, 's) lh_callback \<Rightarrow> 's \<Rightarrow> (unit outcome \<times> 'a lhash option \<times> 's) option" where
  "lh_doall malloc lh func s =
    (case lh of
       None \<Rightarrow> Some (Ok (), None, s)
     | Some t \<Rightarrow> map_option (\<lambda>(r, t', s'). (r, Some t', s')) (lh_doall_internal malloc func (t, s)))"

definition lh_doall_arg ::
  "c_malloc \<Rightarrow> 'a lhash option \<Rightarrow> ('a \<Rightarrow> 'b \<Rightarrow> 'a lhash \<times> 's \<Rightarrow> unit outcome \<times> 'a lhash \<times> 's) \<Rightarrow> 'b \<Rightarrow> 's \<Rightarrow>
    (unit outcome \<times> 'a lhash option \<times> 's) option"
  where "lh_doall_arg malloc lh func arg = lh_doall malloc lh (\<lambda>data. func data arg)"

definition lh_strhash :: "byte list option \<Rightarrow> u32 outcome" where
  "lh_strhash c =
    (case c of
       None \<Rightarrow> Ok 0
     | Some s \<Rightarrow> (case c_strlen s of Ok n \<Rightarrow> Ok (OPENSSL_hash32 (take n s)) | Fail \<Rightarrow> Fail | Undef \<Rightarrow> Undef))"

end
