(* ===== verification/Boring_Pool.thy ===== *)
theory Boring_Pool
  imports Boring_Lhash
begin

text \<open>
  Reference counts (\<^verbatim>\<open>crypto/refcount_lock.c\<close>) and the intern table for byte strings on top of the
  hash table (\<^verbatim>\<open>crypto/pool/pool.c\<close>).  Threads meet only in the sections between a lock and its
  unlock, so a state is what the locks protect, and \<^verbatim>\<open>CRYPTO_BUFFER_new\<close> is the sequence of its
  sections: the lookup under the read lock, the allocation, the publication under the write lock.
  An \<open>abort\<close> and a failed assertion are \<open>Undef\<close>.
\<close>

section \<open>Reference counts\<close>

definition CRYPTO_REFCOUNT_MAX :: u32 where "CRYPTO_REFCOUNT_MAX = 0xffffffff"

definition CRYPTO_refcount_inc :: "u32 \<Rightarrow> u32"
  where "CRYPTO_refcount_inc count = (if count < CRYPTO_REFCOUNT_MAX then count + 1 else count)"

definition CRYPTO_refcount_dec_and_test_zero :: "u32 \<Rightarrow> (bool \<times> u32) outcome" where
  "CRYPTO_refcount_dec_and_test_zero count =
    (if count = 0 then Undef
     else let count' = (if count < CRYPTO_REFCOUNT_MAX then count - 1 else count) in Ok (count' = 0, count'))"

section \<open>Buffers and pools\<close>

text \<open>A pointer to a buffer, with the bytes it holds: they never change while the buffer lives.\<close>

record crypto_buffer =
  buf_addr :: size_t
  buf_data :: "byte list"

record buffer_object =
  bo_data :: "byte list"
  bo_pooled :: bool
  bo_references :: u32

text \<open>\<^verbatim>\<open>memcmp\<close>: zero for equal blocks, else the order of the first bytes that differ.\<close>

fun OPENSSL_memcmp :: "byte list \<Rightarrow> byte list \<Rightarrow> int" where
  "OPENSSL_memcmp (a # s) (b # t) = (if a = b then OPENSSL_memcmp s t else if a < b then -1 else 1)"
| "OPENSSL_memcmp _ _ = 0"

definition CRYPTO_BUFFER_hash :: "crypto_buffer \<Rightarrow> u32"
  where "CRYPTO_BUFFER_hash buf = OPENSSL_hash32 (buf_data buf)"

definition CRYPTO_BUFFER_cmp :: "crypto_buffer \<Rightarrow> crypto_buffer \<Rightarrow> int" where
  "CRYPTO_BUFFER_cmp a b =
    (if length (buf_data a) \<noteq> length (buf_data b) then 1 else OPENSSL_memcmp (buf_data a) (buf_data b))"

text \<open>The buffers that live, and the table of the pool.\<close>

record pool_state =
  ps_bufs :: "crypto_buffer lhash"
  ps_live :: "size_t \<Rightarrow> buffer_object option"

definition sizeof_CRYPTO_BUFFER :: size_t where "sizeof_CRYPTO_BUFFER = 32"
definition sizeof_CRYPTO_BUFFER_POOL :: size_t where "sizeof_CRYPTO_BUFFER_POOL = 208"

definition CRYPTO_BUFFER_POOL_new :: "c_malloc \<Rightarrow> crypto_buffer lhash option outcome" where
  "CRYPTO_BUFFER_POOL_new malloc =
    (case OPENSSL_malloc malloc sizeof_CRYPTO_BUFFER_POOL of
       Ok (Some _) \<Rightarrow> lh_new malloc CRYPTO_BUFFER_hash CRYPTO_BUFFER_cmp
     | Ok None \<Rightarrow> Ok None | Fail \<Rightarrow> Fail | Undef \<Rightarrow> Undef)"

definition CRYPTO_BUFFER_POOL_free :: "pool_state \<Rightarrow> unit outcome"
  where "CRYPTO_BUFFER_POOL_free st = (if lh_num_items (ps_bufs st) = 0 then Ok () else Undef)"

definition CRYPTO_BUFFER_up_ref :: "size_t \<Rightarrow> pool_state \<Rightarrow> unit outcome \<times> pool_state" where
  "CRYPTO_BUFFER_up_ref a st =
    (case ps_live st a of
       None \<Rightarrow> (Undef, st)
     | Some b \<Rightarrow>
         (Ok (), st\<lparr>ps_live := (ps_live st)(a \<mapsto> b\<lparr>bo_references := CRYPTO_refcount_inc (bo_references b)\<rparr>)\<rparr>))"

text \<open>The sections of \<^verbatim>\<open>CRYPTO_BUFFER_new\<close>.  The first finds a buffer with the same bytes and takes a
  reference to it.\<close>

definition buffer_lookup :: "byte list \<Rightarrow> pool_state \<Rightarrow> size_t option outcome \<times> pool_state" where
  "buffer_lookup data st =
    (case lh_retrieve (ps_bufs st) \<lparr>buf_addr = 0, buf_data = data\<rparr> of
       Ok None \<Rightarrow> (Ok None, st)
     | Ok (Some duplicate) \<Rightarrow>
         seq (CRYPTO_BUFFER_up_ref (buf_addr duplicate)) (\<lambda>_. ret (Some (buf_addr duplicate))) st
     | Fail \<Rightarrow> (Fail, st) | Undef \<Rightarrow> (Undef, st))"

text \<open>The second makes a buffer at the address \<open>a\<close>; \<open>Fail\<close> when memory is short.\<close>

definition buffer_alloc :: "c_malloc \<Rightarrow> size_t \<Rightarrow> byte list \<Rightarrow> bool \<Rightarrow> pool_state \<Rightarrow> unit outcome \<times> pool_state" where
  "buffer_alloc malloc a data pooled st =
    (case OPENSSL_malloc malloc sizeof_CRYPTO_BUFFER of
       Ok (Some _) \<Rightarrow>
         (case BUF_memdup malloc data of
            Ok r \<Rightarrow>
              if data \<noteq> [] \<and> r = None then (Fail, st)
              else (Ok (), st\<lparr>ps_live := (ps_live st)(a \<mapsto> \<lparr>bo_data = data, bo_pooled = pooled, bo_references = 1\<rparr>)\<rparr>)
          | Fail \<Rightarrow> (Fail, st) | Undef \<Rightarrow> (Undef, st))
     | Ok None \<Rightarrow> (Fail, st) | Fail \<Rightarrow> (Fail, st) | Undef \<Rightarrow> (Undef, st))"

text \<open>The third puts it into the table, or finds that another thread was faster.  A buffer that is not
  inserted is freed again, and the duplicate, if any, is the result.\<close>

definition buffer_publish :: "c_malloc \<Rightarrow> size_t \<Rightarrow> size_t \<Rightarrow> pool_state \<Rightarrow> size_t option outcome \<times> pool_state" where
  "buffer_publish malloc item a st =
    (case ps_live st a of
       None \<Rightarrow> (Undef, st)
     | Some b \<Rightarrow>
         let buf = \<lparr>buf_addr = a, buf_data = bo_data b\<rparr> in
         (case lh_retrieve (ps_bufs st) buf of
            Ok None \<Rightarrow>
              (case lh_insert malloc item buf (ps_bufs st) of
                 (Ok old, bufs) \<Rightarrow>
                   if old \<noteq> None then (Undef, st) else (Ok (Some a), st\<lparr>ps_bufs := bufs\<rparr>)
               | (Fail, bufs) \<Rightarrow> (Ok None, st\<lparr>ps_bufs := bufs, ps_live := (ps_live st)(a := None)\<rparr>)
               | (Undef, bufs) \<Rightarrow> (Undef, st\<lparr>ps_bufs := bufs\<rparr>))
          | Ok (Some duplicate) \<Rightarrow>
              seq (CRYPTO_BUFFER_up_ref (buf_addr duplicate))
                (\<lambda>_ st. (Ok (Some (buf_addr duplicate)), st\<lparr>ps_live := (ps_live st)(a := None)\<rparr>)) st
          | Fail \<Rightarrow> (Fail, st) | Undef \<Rightarrow> (Undef, st)))"

text \<open>Without interruption; the result \<open>None\<close> is the null pointer.\<close>

definition CRYPTO_BUFFER_new ::
  "c_malloc \<Rightarrow> size_t \<Rightarrow> size_t \<Rightarrow> byte list \<Rightarrow> bool \<Rightarrow> pool_state \<Rightarrow> size_t option outcome \<times> pool_state" where
  "CRYPTO_BUFFER_new malloc a item data pooled =
    seq (if pooled then buffer_lookup data else ret None)
      (\<lambda>found. case found of
         Some d \<Rightarrow> ret (Some d)
       | None \<Rightarrow>
           (\<lambda>st. case buffer_alloc malloc a data pooled st of
              (Fail, st') \<Rightarrow> (Ok None, st')
            | (Undef, st') \<Rightarrow> (Undef, st')
            | (Ok _, st') \<Rightarrow> if pooled then buffer_publish malloc item a st' else (Ok (Some a), st')))"

definition CRYPTO_BUFFER_free :: "c_malloc \<Rightarrow> size_t option \<Rightarrow> pool_state \<Rightarrow> unit outcome \<times> pool_state" where
  "CRYPTO_BUFFER_free malloc buf st =
    (case buf of
       None \<Rightarrow> (Ok (), st)
     | Some a \<Rightarrow>
         (case ps_live st a of
            None \<Rightarrow> (Undef, st)
          | Some b \<Rightarrow>
              (case CRYPTO_refcount_dec_and_test_zero (bo_references b) of
                 Ok (zero, count) \<Rightarrow>
                   if \<not> zero then (Ok (), st\<lparr>ps_live := (ps_live st)(a \<mapsto> b\<lparr>bo_references := count\<rparr>)\<rparr>)
                   else if \<not> bo_pooled b then (Ok (), st\<lparr>ps_live := (ps_live st)(a := None)\<rparr>)
                   else
                     (case lh_delete malloc \<lparr>buf_addr = a, buf_data = bo_data b\<rparr> (ps_bufs st) of
                        (Ok found, bufs) \<Rightarrow>
                          if found \<noteq> Some \<lparr>buf_addr = a, buf_data = bo_data b\<rparr> then (Undef, st)
                          else (Ok (), st\<lparr>ps_bufs := bufs, ps_live := (ps_live st)(a := None)\<rparr>)
                      | (Fail, bufs) \<Rightarrow> (Fail, st) | (Undef, bufs) \<Rightarrow> (Undef, st))
               | Fail \<Rightarrow> (Fail, st) | Undef \<Rightarrow> (Undef, st))))"

definition CRYPTO_BUFFER_data :: "size_t \<Rightarrow> pool_state \<Rightarrow> byte list outcome"
  where "CRYPTO_BUFFER_data a st = (case ps_live st a of None \<Rightarrow> Undef | Some b \<Rightarrow> Ok (bo_data b))"

definition CRYPTO_BUFFER_len :: "size_t \<Rightarrow> pool_state \<Rightarrow> nat outcome"
  where "CRYPTO_BUFFER_len a st = (case ps_live st a of None \<Rightarrow> Undef | Some b \<Rightarrow> Ok (length (bo_data b)))"

end
