(* ===== verification/Boring_Lhash_Laws.thy ===== *)
theory Boring_Lhash_Laws
  imports Boring_Lhash Byte_Numbers "HOL-Library.Multiset"
begin

text \<open>
  The hash table against a finite map: the well-formedness of a table, the contract of the
  client's hash and comparison functions (locale \<open>lh_hashing\<close>) and the effect of each operation.
\<close>

section \<open>Lists of chains\<close>

lemma concat_update_mset:
  "i < length bs \<Longrightarrow> mset (concat (bs[i := x])) + mset (bs ! i) = mset (concat bs) + mset x"
proof (induction bs arbitrary: i)
  case (Cons b bs)
  then show ?case by (cases i) (simp_all add: ac_simps)
qed simp

lemma concat_update_add:
  "i < length bs \<Longrightarrow> mset x = add_mset a (mset (bs ! i)) \<Longrightarrow> mset (concat (bs[i := x])) = add_mset a (mset (concat bs))"
  using concat_update_mset [of i bs x] by simp

definition items :: "'a lhash \<Rightarrow> 'a lhash_item multiset"
  where "items lh = mset (concat (lh_buckets lh))"

definition in_place :: "size_t \<Rightarrow> 'a lhash_item list list \<Rightarrow> bool" where
  "in_place n bs \<longleftrightarrow> length bs = unat n \<and> (\<forall>i < length bs. \<forall>it \<in> set (bs ! i). unat (it_hash it) mod unat n = i)"

lemma bucket_index: "unat (ucast (h :: u32) mod n :: size_t) = unat h mod unat n"
  by (simp add: unat_mod)

lemma in_place_update:
  assumes "in_place n bs" "i < length bs" "\<forall>it \<in> set x. unat (it_hash it) mod unat n = i"
  shows "in_place n (bs[i := x])"
  using assms by (auto simp: in_place_def nth_list_update)

lemma rebucket_items:
  assumes "in_place n bs" "n \<noteq> 0"
  shows "in_place n (fold (rebucket_item n) xs bs) \<and> mset (concat (fold (rebucket_item n) xs bs)) = mset xs + mset (concat bs)"
  using assms(1)
proof (induction xs arbitrary: bs)
  case (Cons x xs)
  let ?i = "unat (it_hash x) mod unat n"
  have n: "0 < unat n" using assms(2) by (simp add: unat_gt_0)
  have i: "?i < length bs" using Cons.prems n by (simp add: in_place_def)
  have r: "rebucket_item n x bs = bs[?i := x # bs ! ?i]" by (simp add: rebucket_item_def bucket_index Let_def)
  have "in_place n (rebucket_item n x bs)" unfolding r
    using Cons.prems i by (intro in_place_update) (auto simp: in_place_def)
  moreover have "mset (concat (rebucket_item n x bs)) = add_mset x (mset (concat bs))"
    unfolding r using i by (intro concat_update_add) simp_all
  ultimately show ?case using Cons.IH by simp
qed simp

section \<open>Well-formed tables\<close>

definition bucket_count :: "size_t \<Rightarrow> bool"
  where "bucket_count n \<longleftrightarrow> (\<exists>k \<le> 56. unat n = 16 * 2 ^ k)"

text \<open>No address twice, no two equal elements, and every item with the hash of its element.\<close>

definition coherent :: "('a \<Rightarrow> 'a \<Rightarrow> int) \<Rightarrow> ('a \<Rightarrow> u32) \<Rightarrow> 'a lhash_item multiset \<Rightarrow> bool" where
  "coherent cmp hash I \<longleftrightarrow> (\<forall>it \<in># I. it_hash it = hash (it_data it) \<and> it_ptr it \<noteq> 0) \<and>
    (\<forall>p. count (image_mset it_ptr I) p \<le> 1) \<and>
    (\<forall>x \<in># I. \<forall>y \<in># I. cmp (it_data x) (it_data y) = 0 \<longrightarrow> x = y)"

definition lh_ok :: "'a lhash \<Rightarrow> bool" where
  "lh_ok lh \<longleftrightarrow> bucket_count (lh_num_buckets lh) \<and> in_place (lh_num_buckets lh) (lh_buckets lh) \<and>
    coherent (lh_comp lh) (lh_hash lh) (items lh) \<and> unat (lh_num_items lh) = size (items lh)"

definition same_functions :: "'a lhash \<Rightarrow> 'a lhash \<Rightarrow> bool" where
  "same_functions lh lh' \<longleftrightarrow> lh_comp lh' = lh_comp lh \<and> lh_hash lh' = lh_hash lh \<and>
    lh_callback_depth lh' = lh_callback_depth lh"

lemma bucket_count_bounds:
  assumes "bucket_count n"
  shows "16 \<le> unat n" "unat n \<le> 2 ^ 60" "n \<noteq> 0" "\<not> n < kMinNumBuckets"
proof -
  obtain k where k: "k \<le> 56" "unat n = 16 * 2 ^ k" using assms by (auto simp: bucket_count_def)
  show "16 \<le> unat n" using k(2) by simp
  then show "n \<noteq> 0" "\<not> n < kMinNumBuckets" by (auto simp: kMinNumBuckets_def word_less_nat_alt)
  have "(2 :: nat) ^ k \<le> 2 ^ 56" using k(1) by (intro power_increasing) simp_all
  then show "unat n \<le> 2 ^ 60" using k(2) by simp
qed

lemma lh_okD:
  assumes "lh_ok lh"
  shows "bucket_count (lh_num_buckets lh)" "in_place (lh_num_buckets lh) (lh_buckets lh)"
    "length (lh_buckets lh) = unat (lh_num_buckets lh)" "lh_num_buckets lh \<noteq> 0"
    "unat (lh_num_items lh) = size (items lh)"
  using assms bucket_count_bounds(3) by (auto simp: lh_ok_def in_place_def)

text \<open>What resizing keeps.\<close>

definition same_table :: "'a lhash \<Rightarrow> 'a lhash \<Rightarrow> bool" where
  "same_table lh lh' \<longleftrightarrow> items lh' = items lh \<and> lh_num_items lh' = lh_num_items lh \<and> same_functions lh lh'"

lemma same_table_refl [simp]: "same_table lh lh"
  by (simp add: same_table_def same_functions_def)

lemma same_table_ok:
  assumes "lh_ok lh" "same_table lh lh'" "bucket_count (lh_num_buckets lh')" "in_place (lh_num_buckets lh') (lh_buckets lh')"
  shows "lh_ok lh'"
  using assms by (simp add: lh_ok_def same_table_def same_functions_def)

lemma rebucket_ok:
  assumes ok: "lh_ok lh" and m: "malloc_ok malloc" and n: "bucket_count n \<or> unat n = 2 ^ 61"
  shows "\<exists>lh'. lh_rebucket malloc n lh = (Ok (), lh') \<and> lh_ok lh' \<and> same_table lh lh' \<and>
    (lh_num_buckets lh' = lh_num_buckets lh \<or> lh_num_buckets lh' = n) \<and>
    (bucket_count n \<longrightarrow> (\<forall>k. malloc k \<noteq> None) \<longrightarrow> lh_num_buckets lh' = n)"
proof (cases "bucket_count n")
  case False
  with n have "unat (sizeof_pointer * n) = 0" by (simp add: sizeof_pointer_def unat_word_ariths)
  then have "sizeof_pointer * n = 0" by (simp only: unat_eq_0)
  moreover have "n \<noteq> 0" using n False by auto
  ultimately show ?thesis using ok by (simp add: lh_rebucket_def False)
next
  case True
  note b = bucket_count_bounds [OF True]
  have a: "unat (sizeof_pointer * n) = 8 * unat n" using b(2) by (simp add: sizeof_pointer_def unat_word_ariths)
  then have "unat (sizeof_pointer * n div sizeof_pointer) = unat n" by (simp add: unat_div sizeof_pointer_def)
  then have d: "sizeof_pointer * n div sizeof_pointer = n" by (simp add: word_unat_eq_iff)
  have w: "unat (sizeof_pointer * n + OPENSSL_MALLOC_PREFIX) = 8 * unat n + 8"
    using a b(2) by (simp add: OPENSSL_MALLOC_PREFIX_def unat_word_ariths)
  show ?thesis
  proof (cases "malloc (sizeof_pointer * n + OPENSSL_MALLOC_PREFIX)")
    case None
    then have "\<not> (\<forall>k. malloc k \<noteq> None)" "lh_rebucket malloc n lh = (Ok (), lh)"
      using d by (auto simp: lh_rebucket_def OPENSSL_malloc_def)
    then show ?thesis using ok same_table_refl by metis
  next
    case (Some raw)
    then have "length raw = 8 * unat n + 8" using m w by (auto simp: malloc_ok_def)
    then have al: "\<exists>x. OPENSSL_malloc malloc (sizeof_pointer * n) = Ok (Some x)"
      using Some by (simp add: OPENSSL_malloc_def OPENSSL_MALLOC_PREFIX_def)
    let ?bs = "fold (rebucket_item n) (concat (lh_buckets lh)) (replicate (unat n) [])"
    let ?lh = "lh\<lparr>lh_num_buckets := n, lh_buckets := ?bs\<rparr>"
    have e: "in_place n (replicate (unat n) ([] :: 'a lhash_item list))" by (simp add: in_place_def)
    have bs: "in_place n ?bs" "mset (concat ?bs) = mset (concat (lh_buckets lh))"
      using rebucket_items [OF e b(3), of "concat (lh_buckets lh)"] by simp_all
    have "lh_rebucket malloc n lh = (Ok (), ?lh)"
      using al d b(3) lh_okD(3) [OF ok] by (auto simp: lh_rebucket_def)
    moreover have s: "same_table lh ?lh" by (simp add: same_table_def items_def same_functions_def bs(2))
    moreover have "lh_ok ?lh" using same_table_ok [OF ok s] True bs(1) by simp
    ultimately show ?thesis by auto
  qed
qed

lemma bucket_count_double: "bucket_count n \<Longrightarrow> bucket_count (n * 2) \<or> unat (n * 2) = 2 ^ 61"
  and bucket_count_half: "bucket_count n \<Longrightarrow> kMinNumBuckets < n \<Longrightarrow> bucket_count (n div 2) \<and> \<not> n div 2 < kMinNumBuckets"
proof -
  assume "bucket_count n"
  then have n: "unat n \<le> 2 ^ 60" by (rule bucket_count_bounds(2))
  from \<open>bucket_count n\<close> obtain k where k: "k \<le> 56" "unat n = 16 * 2 ^ k" unfolding bucket_count_def by blast
  have u: "unat (n * 2) = 16 * 2 ^ Suc k" using k(2) n by (simp add: unat_word_ariths)
  show "bucket_count (n * 2) \<or> unat (n * 2) = 2 ^ 61"
  proof (cases "k = 56")
    case False
    then have "Suc k \<le> 56" using k(1) by simp
    then show ?thesis using u unfolding bucket_count_def by blast
  qed (use u in simp)
  assume "kMinNumBuckets < n"
  then have "k \<noteq> 0" using k(2) by (cases k) (auto simp: kMinNumBuckets_def word_less_nat_alt)
  then obtain j where j: "k = Suc j" by (cases k) auto
  have "unat (n div 2) = 16 * 2 ^ j" using k(2) j by (simp add: unat_div)
  moreover have "j \<le> 56" using k(1) j by simp
  ultimately have "bucket_count (n div 2)" unfolding bucket_count_def by blast
  then show "bucket_count (n div 2) \<and> \<not> n div 2 < kMinNumBuckets" using bucket_count_bounds(4) by blast
qed

text \<open>Resizing: the number of buckets is kept, doubled or halved according to the average length of the
  chains.\<close>

definition resized :: "nat \<Rightarrow> nat \<Rightarrow> nat" where
  "resized m n = (if 3 \<le> m div n then (if n = 2 ^ 60 then n else n * 2) else if m div n = 0 \<and> 16 < n then n div 2 else n)"

lemma resize_ok:
  assumes ok: "lh_ok lh" and m: "malloc_ok malloc"
  shows "\<exists>lh'. lh_maybe_resize malloc lh = (Ok (), lh') \<and> lh_ok lh' \<and> same_table lh lh' \<and>
    (0 < lh_callback_depth lh \<longrightarrow> lh' = lh) \<and>
    (lh_callback_depth lh = 0 \<longrightarrow> (\<forall>k. malloc k \<noteq> None) \<longrightarrow>
      unat (lh_num_buckets lh') = resized (size (items lh)) (unat (lh_num_buckets lh)))"
proof -
  let ?n = "lh_num_buckets lh"
  note b = bucket_count_bounds [OF lh_okD(1) [OF ok]]
  have avg: "unat (lh_num_items lh div ?n) = size (items lh) div unat ?n" using lh_okD(5) [OF ok] by (simp add: unat_div)
  have big: "kMaxAverageChainLength < lh_num_items lh div ?n \<longleftrightarrow> 3 \<le> size (items lh) div unat ?n"
    unfolding kMaxAverageChainLength_def word_less_nat_alt avg by auto
  have small: "lh_num_items lh div ?n < kMinAverageChainLength \<longleftrightarrow> size (items lh) div unat ?n = 0"
    unfolding kMinAverageChainLength_def word_less_nat_alt avg by simp
  have u2: "unat (?n * 2) = unat ?n * 2" using b(2) by (simp add: unat_word_ariths)
  have grows: "?n < ?n * 2" using b(1) u2 by (simp add: word_less_nat_alt)
  have min: "kMinNumBuckets < ?n \<longleftrightarrow> 16 < unat ?n" by (simp add: kMinNumBuckets_def word_less_nat_alt)
  have uh: "unat (?n div 2) = unat ?n div 2" by (simp add: unat_div)
  consider "0 < lh_callback_depth lh" | "lh_callback_depth lh = 0" "3 \<le> size (items lh) div unat ?n"
    | "lh_callback_depth lh = 0" "size (items lh) div unat ?n = 0" "16 < unat ?n"
    | "lh_callback_depth lh = 0" "\<not> 3 \<le> size (items lh) div unat ?n" "\<not> (size (items lh) div unat ?n = 0 \<and> 16 < unat ?n)"
    by (metis word_neq_0_conv)
  then show ?thesis
  proof cases
    case 1
    then show ?thesis using ok by (auto simp: lh_maybe_resize_def)
  next
    case 2
    obtain lh' where r: "lh_rebucket malloc (?n * 2) lh = (Ok (), lh')" "lh_ok lh'" "same_table lh lh'"
      "lh_num_buckets lh' = ?n \<or> lh_num_buckets lh' = ?n * 2"
      "bucket_count (?n * 2) \<longrightarrow> (\<forall>k. malloc k \<noteq> None) \<longrightarrow> lh_num_buckets lh' = ?n * 2"
      using rebucket_ok [OF ok m bucket_count_double [OF lh_okD(1) [OF ok]]] by blast
    have "lh_maybe_resize malloc lh = (Ok (), lh')" using 2 b(4) big grows r(1) by (simp add: lh_maybe_resize_def)
    moreover have "unat (lh_num_buckets lh') = resized (size (items lh)) (unat ?n)" if "\<forall>k. malloc k \<noteq> None"
    proof (cases "bucket_count (?n * 2)")
      case True
      with bucket_count_bounds(2) [OF True] u2 have "unat ?n \<noteq> 2 ^ 60" by simp
      then show ?thesis using r(5) True that u2 2 by (simp add: resized_def)
    next
      case False
      then have f: "unat ?n = 2 ^ 60" using bucket_count_double [OF lh_okD(1) [OF ok]] u2 by simp
      have "lh_num_buckets lh' = ?n"
        using r(4) lh_okD(1) [OF r(2)] False by auto
      then show ?thesis using f 2 by (simp add: resized_def)
    qed
    ultimately show ?thesis using 2 r(2,3) by auto
  next
    case 3
    have mn: "kMinNumBuckets < ?n" using min 3 by simp
    note h = bucket_count_half [OF lh_okD(1) [OF ok] mn]
    obtain lh' where r: "lh_rebucket malloc (?n div 2) lh = (Ok (), lh')" "lh_ok lh'" "same_table lh lh'"
      "(\<forall>k. malloc k \<noteq> None) \<longrightarrow> lh_num_buckets lh' = ?n div 2"
      using rebucket_ok [OF ok m, of "?n div 2"] h by blast
    have "lh_maybe_resize malloc lh = (Ok (), lh')" using 3 b(4) big small mn h r(1) by (simp add: lh_maybe_resize_def)
    moreover have "unat (lh_num_buckets lh') = resized (size (items lh)) (unat ?n)" if "\<forall>k. malloc k \<noteq> None"
      using r(4) that uh 3 by (simp add: resized_def)
    ultimately show ?thesis using 3 r(2,3) by auto
  next
    case 4
    then have "lh_maybe_resize malloc lh = (Ok (), lh)" using b(4) big small min by (auto simp: lh_maybe_resize_def)
    then show ?thesis using 4 ok by (auto simp: resized_def)
  qed
qed

section \<open>The elements of a table\<close>

text \<open>The element equal to \<open>d\<close>.\<close>

definition stored :: "'a lhash \<Rightarrow> 'a \<Rightarrow> 'a option" where
  "stored lh d = map_option it_data (find (\<lambda>it. lh_comp lh (it_data it) d = 0) (concat (lh_buckets lh)))"

lemma items_set: "it \<in># items lh \<longleftrightarrow> it \<in> set (concat (lh_buckets lh))"
  unfolding items_def set_mset_mset ..

lemma find_in: "find P xs = Some x \<Longrightarrow> x \<in> set xs \<and> P x"
  by (induction xs) (auto split: if_splits)

lemma takeWhile_shorter: "\<exists>x \<in> set xs. \<not> P x \<Longrightarrow> length (takeWhile P xs) < length xs"
  by (induction xs) auto

text \<open>The contract of the functions a client gives to \<^verbatim>\<open>lh_new\<close>.\<close>

locale lh_hashing =
  fixes cmp :: "'a \<Rightarrow> 'a \<Rightarrow> int" and hash :: "'a \<Rightarrow> u32"
  assumes cmp_refl: "cmp a a = 0"
    and cmp_sym: "cmp a b = 0 \<Longrightarrow> cmp b a = 0"
    and cmp_trans: "cmp a b = 0 \<Longrightarrow> cmp b c = 0 \<Longrightarrow> cmp a c = 0"
    and hash_cmp: "cmp a b = 0 \<Longrightarrow> hash a = hash b"
begin

definition table :: "'a lhash \<Rightarrow> bool"
  where "table lh \<longleftrightarrow> lh_ok lh \<and> lh_comp lh = cmp \<and> lh_hash lh = hash"

lemma tableD:
  assumes "table lh"
  shows "lh_ok lh" "coherent cmp hash (items lh)" "unat (lh_num_items lh) = size (items lh)"
  using assms by (auto simp: table_def lh_ok_def)

lemma table_okD:
  assumes "table lh" "it \<in># items lh"
  shows "it_hash it = hash (it_data it)" "it_ptr it \<noteq> 0"
  using assms by (auto simp: table_def lh_ok_def coherent_def)

lemma unique:
  assumes "table lh" "x \<in># items lh" "y \<in># items lh" "cmp (it_data x) (it_data y) = 0"
  shows "x = y"
  using assms by (auto simp: table_def lh_ok_def coherent_def)

lemma stored_iff:
  assumes t: "table lh"
  shows "stored lh d = Some x \<longleftrightarrow> (\<exists>it. it \<in># items lh \<and> it_data it = x \<and> cmp x d = 0)"
proof
  assume "stored lh d = Some x"
  then show "\<exists>it. it \<in># items lh \<and> it_data it = x \<and> cmp x d = 0"
    using t by (auto simp: stored_def items_set table_def simp del: set_concat dest: find_in)
next
  assume "\<exists>it. it \<in># items lh \<and> it_data it = x \<and> cmp x d = 0"
  then obtain it where it: "it \<in># items lh" "it_data it = x" "cmp x d = 0" by blast
  let ?f = "find (\<lambda>it. lh_comp lh (it_data it) d = 0) (concat (lh_buckets lh))"
  have c: "lh_comp lh = cmp" using t by (simp add: table_def)
  have "?f \<noteq> None" using it c by (auto simp: find_None_iff items_def simp del: set_concat)
  then obtain it' where f: "?f = Some it'" by blast
  then have it': "it' \<in># items lh" "cmp (it_data it') d = 0"
    using find_in [OF f] c by (simp_all add: items_set)
  have "cmp (it_data it') (it_data it) = 0" using it'(2) it(2,3) cmp_sym cmp_trans by blast
  then have "it' = it" using unique [OF t it'(1) it(1)] by blast
  then show "stored lh d = Some x" using f it(2) by (simp add: stored_def)
qed

lemma stored_None:
  assumes "table lh"
  shows "stored lh d = None \<longleftrightarrow> (\<forall>it. it \<in># items lh \<longrightarrow> cmp (it_data it) d \<noteq> 0)"
  using stored_iff [OF assms, of d] by (metis not_None_eq)

text \<open>Where \<^verbatim>\<open>get_next_ptr_and_hash\<close> points.\<close>

definition found_at :: "'a lhash \<Rightarrow> 'a \<Rightarrow> nat \<Rightarrow> nat \<Rightarrow> bool" where
  "found_at lh d i k \<longleftrightarrow> i < length (lh_buckets lh) \<and> i = unat (hash d) mod unat (lh_num_buckets lh) \<and>
    (if stored lh d = None then k = length (lh_buckets lh ! i)
     else k < length (lh_buckets lh ! i) \<and> lh_buckets lh ! i ! k \<in># items lh \<and>
       stored lh d = Some (it_data (lh_buckets lh ! i ! k)))"

lemma in_bucket:
  assumes t: "table lh" and it: "it \<in># items lh" "cmp (it_data it) d = 0"
  shows "it \<in> set (lh_buckets lh ! (unat (hash d) mod unat (lh_num_buckets lh)))"
proof -
  obtain i where i: "i < length (lh_buckets lh)" "it \<in> set (lh_buckets lh ! i)"
    using it(1) unfolding items_set set_concat by (metis UN_E in_set_conv_nth)
  have "unat (it_hash it) mod unat (lh_num_buckets lh) = i"
    using i t by (auto simp: table_def lh_ok_def in_place_def)
  moreover have "it_hash it = hash d" using table_okD(1) [OF t it(1)] hash_cmp [OF it(2)] by simp
  ultimately show ?thesis using i by simp
qed

lemma next_ptr:
  assumes t: "table lh"
  shows "\<exists>i k. get_next_ptr_and_hash lh d = Ok (hash d, i, k) \<and> found_at lh d i k"
proof -
  have ok: "lh_ok lh" and f: "lh_comp lh = cmp" "lh_hash lh = hash" using t by (simp_all add: table_def)
  let ?i = "unat (hash d) mod unat (lh_num_buckets lh)"
  let ?c = "lh_buckets lh ! ?i"
  let ?k = "length (takeWhile (\<lambda>cur. cmp (it_data cur) d \<noteq> 0) ?c)"
  have i: "?i < length (lh_buckets lh)" using lh_okD(3,4) [OF ok] by (simp add: unat_gt_0)
  have sub: "it \<in># items lh" if "it \<in> set ?c" for it
    using that i by (auto simp: items_def)
  have "get_next_ptr_and_hash lh d = Ok (hash d, ?i, ?k)"
    using i lh_okD(4) [OF ok] by (simp add: get_next_ptr_and_hash_def f bucket_index Let_def)
  moreover have "found_at lh d ?i ?k"
  proof (cases "stored lh d = None")
    case True
    then have "\<forall>it \<in> set ?c. cmp (it_data it) d \<noteq> 0" using stored_None [OF t] sub by blast
    then have "?k = length ?c" by (intro arg_cong [where f = length]) (simp add: takeWhile_eq_all_conv)
    then show ?thesis using True i by (simp add: found_at_def)
  next
    case False
    then obtain x where "stored lh d = Some x" by blast
    then obtain it where it: "it \<in># items lh" "cmp (it_data it) d = 0" using stored_iff [OF t, of d x] by auto
    have ne: "\<exists>it \<in> set ?c. cmp (it_data it) d = 0" using in_bucket [OF t it] it(2) by blast
    have k: "?k < length ?c" by (rule takeWhile_shorter) (use ne in simp)
    have z: "cmp (it_data (?c ! ?k)) d = 0" using nth_length_takeWhile [OF k] by simp
    have m: "?c ! ?k \<in># items lh" using sub k by (metis nth_mem)
    then have "stored lh d = Some (it_data (?c ! ?k))" using stored_iff [OF t, of d "it_data (?c ! ?k)"] z by auto
    then show ?thesis using i k m by (simp add: found_at_def)
  qed
  ultimately show ?thesis by blast
qed

lemma retrieve_ok:
  assumes "table lh"
  shows "lh_retrieve lh d = Ok (stored lh d)"
proof -
  obtain i k where g: "get_next_ptr_and_hash lh d = Ok (hash d, i, k)" "found_at lh d i k" using next_ptr [OF assms] by blast
  then show ?thesis by (cases "stored lh d = None") (auto simp: lh_retrieve_def found_at_def)
qed

section \<open>Insertion and deletion\<close>

lemma coherent_less: "coherent cmp hash (add_mset it R) \<Longrightarrow> coherent cmp hash R \<and> it \<notin># R"
proof
  assume c: "coherent cmp hash (add_mset it R)"
  have le: "count (image_mset it_ptr R) p \<le> count (image_mset it_ptr (add_mset it R)) p" for p by simp
  show "coherent cmp hash R" using c order_trans [OF le] unfolding coherent_def by auto
  show "it \<notin># R"
  proof
    assume "it \<in># R"
    then have "it_ptr it \<in># image_mset it_ptr R" by simp
    then have "0 < count (image_mset it_ptr R) (it_ptr it)" by (simp only: count_greater_zero_iff)
    then have "1 < count (image_mset it_ptr (add_mset it R)) (it_ptr it)" by simp
    then show False using c unfolding coherent_def by (meson not_le)
  qed
qed

lemma coherent_more:
  assumes "coherent cmp hash R" "\<forall>x \<in># R. cmp (it_data x) (it_data it) \<noteq> 0" "it_hash it = hash (it_data it)"
    and "it_ptr it \<noteq> 0" "it_ptr it \<notin># image_mset it_ptr R"
  shows "coherent cmp hash (add_mset it R)"
proof -
  have "\<forall>x \<in># R. cmp (it_data it) (it_data x) \<noteq> 0" using assms(2) cmp_sym by blast
  moreover have "count (image_mset it_ptr R) (it_ptr it) = 0" using assms(5) by (simp only: not_in_iff)
  ultimately show ?thesis using assms unfolding coherent_def by auto
qed

lemma coherent_size:
  assumes "coherent cmp hash I"
  shows "size I = card (it_ptr ` set_mset I)"
proof -
  let ?J = "image_mset it_ptr I"
  have "count ?J p = count (mset_set (set_mset ?J)) p" for p
  proof -
    have "count ?J p \<le> 1" using assms unfolding coherent_def by blast
    moreover have "0 < count ?J p \<longleftrightarrow> p \<in># ?J" by (rule count_greater_zero_iff)
    moreover have "count (mset_set (set_mset ?J)) p = (if p \<in># ?J then 1 else 0)" by (simp add: count_mset_set')
    ultimately show ?thesis by (simp only: split: if_split) linarith
  qed
  then have "?J = mset_set (set_mset ?J)" by (rule multiset_eqI)
  then have "size ?J = card (set_mset ?J)" by (metis size_mset_set)
  then show ?thesis by simp
qed

text \<open>An item that is found, and the rest of the table.\<close>

lemma found_split:
  assumes t: "table lh" and g: "found_at lh d i k" and s: "stored lh d \<noteq> None"
  shows "\<exists>c1 it c2 R. lh_buckets lh ! i = c1 @ it # c2 \<and> k = length c1 \<and> items lh = add_mset it R \<and>
    stored lh d = Some (it_data it) \<and> cmp (it_data it) d = 0 \<and> (\<forall>x \<in># R. cmp (it_data x) d \<noteq> 0)"
proof -
  let ?c = "lh_buckets lh ! i"
  let ?it = "?c ! k"
  have i: "k < length ?c" "?it \<in># items lh" "stored lh d = Some (it_data ?it)"
    using g s by (auto simp: found_at_def split: if_splits)
  have z: "cmp (it_data ?it) d = 0" using i(3) stored_iff [OF t, of d "it_data ?it"] by auto
  obtain R where R: "items lh = add_mset ?it R" using i(2) by (metis insert_DiffM)
  have "?it \<notin># R" using coherent_less [of ?it R] tableD(2) [OF t] R by simp
  have "cmp (it_data x) d \<noteq> 0" if "x \<in># R" for x
  proof
    assume "cmp (it_data x) d = 0"
    then have "cmp (it_data x) (it_data ?it) = 0" using z cmp_sym cmp_trans by blast
    then have "x = ?it" using unique [OF t, of x ?it] that R by simp
    then show False using that \<open>?it \<notin># R\<close> by simp
  qed
  moreover have "?c = take k ?c @ ?it # drop (Suc k) ?c" "k = length (take k ?c)" using i(1) by (simp_all add: id_take_nth_drop)
  ultimately show ?thesis using R i(3) z by blast
qed

lemma set_chain_items:
  assumes "i < length (lh_buckets lh)"
  shows "items (set_chain i c lh) + mset (lh_buckets lh ! i) = items lh + mset c"
  using concat_update_mset [OF assms] by (simp add: items_def set_chain_def)

lemma set_chain_table:
  assumes t: "table lh" and i: "i < length (lh_buckets lh)"
    and c: "\<forall>it \<in> set c. unat (it_hash it) mod unat (lh_num_buckets lh) = i"
    and I: "items (set_chain i c lh) = I" "coherent cmp hash I" "unat n = size I"
  shows "table ((set_chain i c lh)\<lparr>lh_num_items := n\<rparr>)"
proof -
  have "in_place (lh_num_buckets lh) ((lh_buckets lh)[i := c])"
    using t by (intro in_place_update [OF _ i c]) (simp add: table_def lh_ok_def)
  then show ?thesis using t I by (simp add: table_def lh_ok_def set_chain_def items_def)
qed

lemma chain_place:
  assumes "table lh" "i < length (lh_buckets lh)" "it \<in> set (lh_buckets lh ! i)"
  shows "unat (it_hash it) mod unat (lh_num_buckets lh) = i"
  using assms by (auto simp: table_def lh_ok_def in_place_def)

lemma stored_from:
  assumes "table lh" "\<And>x. (\<exists>it. it \<in># items lh \<and> it_data it = x \<and> cmp x d = 0) \<longleftrightarrow> r = Some x"
  shows "stored lh d = r"
  using stored_iff [OF assms(1), of d] assms(2) by (metis option.exhaust)

lemma replace_ok:
  assumes t: "table lh" and g: "found_at lh d i k" and s: "stored lh d \<noteq> None"
  defines "lh' \<equiv> set_chain i ((lh_buckets lh ! i)[k := (lh_buckets lh ! i ! k)\<lparr>it_data := d\<rparr>]) lh"
  shows "table lh' \<and> stored lh' = (\<lambda>e. if cmp d e = 0 then Some d else stored lh e) \<and> size (items lh') = size (items lh)"
proof -
  obtain c1 it c2 R where c: "lh_buckets lh ! i = c1 @ it # c2" "k = length c1" "items lh = add_mset it R"
    "stored lh d = Some (it_data it)" "cmp (it_data it) d = 0" "\<forall>x \<in># R. cmp (it_data x) d \<noteq> 0"
    using found_split [OF t g s] by blast
  let ?new = "it\<lparr>it_data := d\<rparr>"
  have i: "i < length (lh_buckets lh)" using g by (simp add: found_at_def)
  have l: "lh' = set_chain i (c1 @ ?new # c2) lh" using c by (simp add: lh'_def)
  have I: "items lh' = add_mset ?new R" using set_chain_items [OF i, of "c1 @ ?new # c2"] c(1,3) l by simp
  have co: "coherent cmp hash (add_mset it R)" using tableD(2) [OF t] c(3) by simp
  have it: "it \<in># items lh" using c(3) by simp
  have h: "it_hash it = hash d" using table_okD(1) [OF t it] hash_cmp [OF c(5)] by simp
  have co': "coherent cmp hash (add_mset ?new R)"
  proof (rule coherent_more)
    show "coherent cmp hash R" using coherent_less [OF co] by simp
    have "count (image_mset it_ptr (add_mset it R)) (it_ptr it) \<le> 1" using co unfolding coherent_def by blast
    then have "count (image_mset it_ptr R) (it_ptr it) = 0" by simp
    then have "it_ptr it \<notin># image_mset it_ptr R" by (simp only: not_in_iff)
    then show "it_ptr ?new \<notin># image_mset it_ptr R" by simp
  qed (use c(6) h table_okD(2) [OF t it] in simp_all)
  have n: "unat (lh_num_items lh) = size (add_mset ?new R)" using t c(3) by (simp add: table_def lh_ok_def)
  have e: "lh' = (set_chain i (c1 @ ?new # c2) lh)\<lparr>lh_num_items := lh_num_items lh\<rparr>" by (simp add: l set_chain_def)
  have pl: "\<forall>x \<in> set (c1 @ ?new # c2). unat (it_hash x) mod unat (lh_num_buckets lh) = i"
    using chain_place [OF t i] c(1) by auto
  have I2: "items (set_chain i (c1 @ ?new # c2) lh) = add_mset ?new R" using I l by simp
  have T: "table lh'" unfolding e by (rule set_chain_table [OF t i pl I2 co' n])
  moreover have "stored lh' = (\<lambda>e. if cmp d e = 0 then Some d else stored lh e)"
  proof
    fix e
    show "stored lh' e = (if cmp d e = 0 then Some d else stored lh e)"
    proof (rule stored_from [OF T])
      fix x
      have "\<not> (cmp (it_data y) e = 0)" if "cmp d e = 0" "y \<in># R" for y
        using that c(6) cmp_sym cmp_trans by blast
      moreover have "\<not> cmp (it_data it) e = 0" if "cmp d e \<noteq> 0" using that c(5) cmp_sym cmp_trans by blast
      ultimately show "(\<exists>it. it \<in># items lh' \<and> it_data it = x \<and> cmp x e = 0) \<longleftrightarrow>
          (if cmp d e = 0 then Some d else stored lh e) = Some x"
        using stored_iff [OF t, of e x] I c(3) by (auto; metis)
    qed
  qed
  moreover have "size (items lh') = size (items lh)" using I c(3) by simp
  ultimately show ?thesis by blast
qed

lemma table_same:
  assumes t: "table lh" and s: "same_table lh lh'" "lh_ok lh'"
  shows "table lh' \<and> stored lh' = stored lh \<and> size (items lh') = size (items lh)"
proof -
  have T: "table lh'" using t s by (simp add: table_def same_table_def same_functions_def)
  have "stored lh' e = stored lh e" for e
    by (rule stored_from [OF T]) (use stored_iff [OF t, of e] s in \<open>auto simp: same_table_def\<close>)
  then show ?thesis using T s(1) by (auto simp: same_table_def)
qed

definition addresses :: "'a lhash \<Rightarrow> size_t set"
  where "addresses lh = it_ptr ` set_mset (items lh)"

lemma append_ok:
  assumes t: "table lh" and g: "found_at lh d i k" and s: "stored lh d = None"
    and p: "ptr \<noteq> 0" "ptr \<notin> addresses lh"
  defines "lh' \<equiv> (set_chain i (lh_buckets lh ! i @ [\<lparr>it_ptr = ptr, it_data = d, it_hash = hash d\<rparr>]) lh)
    \<lparr>lh_num_items := lh_num_items lh + 1\<rparr>"
  shows "table lh' \<and> stored lh' = (\<lambda>e. if cmp d e = 0 then Some d else stored lh e) \<and> size (items lh') = Suc (size (items lh))"
proof -
  let ?new = "\<lparr>it_ptr = ptr, it_data = d, it_hash = hash d\<rparr>"
  let ?c = "lh_buckets lh ! i @ [?new]"
  have i: "i < length (lh_buckets lh)" "i = unat (hash d) mod unat (lh_num_buckets lh)" using g by (simp_all add: found_at_def)
  have I: "items (set_chain i ?c lh) = add_mset ?new (items lh)" using set_chain_items [OF i(1), of ?c] by simp
  have I': "items lh' = add_mset ?new (items lh)" using I by (simp add: lh'_def items_def)
  have none: "\<forall>x \<in># items lh. cmp (it_data x) d \<noteq> 0" using stored_None [OF t] s by blast
  have co: "coherent cmp hash (add_mset ?new (items lh))"
    by (rule coherent_more) (use tableD(2) [OF t] none p in \<open>auto simp: addresses_def\<close>)
  have "addresses lh \<subseteq> UNIV - {0, ptr}" using table_okD(2) [OF t] p by (auto simp: addresses_def)
  then have "card (addresses lh) \<le> card (UNIV - {0, ptr} :: size_t set)" by (intro card_mono) simp_all
  then have full: "size (items lh) + 1 < 2 ^ 64"
    using coherent_size [OF tableD(2) [OF t]] p(1) by (simp add: addresses_def card_Diff_subset card_word)
  have n: "unat (lh_num_items lh + 1) = size (add_mset ?new (items lh))"
    using full tableD(3) [OF t] by (simp add: unat_word_ariths)
  have pl: "\<forall>x \<in> set ?c. unat (it_hash x) mod unat (lh_num_buckets lh) = i" using chain_place [OF t i(1)] i(2) by auto
  have T: "table lh'" unfolding lh'_def by (rule set_chain_table [OF t i(1) pl I co n])
  moreover have "stored lh' = (\<lambda>e. if cmp d e = 0 then Some d else stored lh e)"
  proof
    fix e
    show "stored lh' e = (if cmp d e = 0 then Some d else stored lh e)"
    proof (rule stored_from [OF T])
      fix x
      have "\<not> (cmp (it_data y) e = 0)" if "cmp d e = 0" "y \<in># items lh" for y
        using that none cmp_sym cmp_trans by blast
      then show "(\<exists>it. it \<in># items lh' \<and> it_data it = x \<and> cmp x e = 0) \<longleftrightarrow>
          (if cmp d e = 0 then Some d else stored lh e) = Some x"
        using stored_iff [OF t, of e x] I' by (auto; metis)
    qed
  qed
  moreover have "size (items lh') = Suc (size (items lh))" using I' by simp
  ultimately show ?thesis by blast
qed

lemma unlink_ok:
  assumes t: "table lh" and g: "found_at lh d i k" and s: "stored lh d \<noteq> None"
  defines "lh' \<equiv> (set_chain i (take k (lh_buckets lh ! i) @ drop (Suc k) (lh_buckets lh ! i)) lh)
    \<lparr>lh_num_items := lh_num_items lh - 1\<rparr>"
  shows "table lh' \<and> stored lh' = (\<lambda>e. if cmp d e = 0 then None else stored lh e) \<and> Suc (size (items lh')) = size (items lh)"
proof -
  obtain c1 it c2 R where c: "lh_buckets lh ! i = c1 @ it # c2" "k = length c1" "items lh = add_mset it R"
    "stored lh d = Some (it_data it)" "cmp (it_data it) d = 0" "\<forall>x \<in># R. cmp (it_data x) d \<noteq> 0"
    using found_split [OF t g s] by blast
  have i: "i < length (lh_buckets lh)" using g by (simp add: found_at_def)
  have ch: "take k (lh_buckets lh ! i) @ drop (Suc k) (lh_buckets lh ! i) = c1 @ c2" using c by simp
  have I: "items (set_chain i (c1 @ c2) lh) = R" using set_chain_items [OF i, of "c1 @ c2"] c(1,3) by simp
  have I': "items lh' = R" using I by (simp add: lh'_def items_def ch)
  have co: "coherent cmp hash R" using coherent_less [of it R] tableD(2) [OF t] c(3) by simp
  have "unat (lh_num_items lh) = Suc (size R)" using tableD(3) [OF t] c(3) by simp
  then have n: "unat (lh_num_items lh - 1) = size R"
    by (metis Suc_eq_plus1 add_diff_cancel_right' nat.simps(3) unat_0 unat_minus_one)
  have pl: "\<forall>x \<in> set (c1 @ c2). unat (it_hash x) mod unat (lh_num_buckets lh) = i"
    using chain_place [OF t i] c(1) by auto
  have T: "table lh'" unfolding lh'_def ch by (rule set_chain_table [OF t i pl I co n])
  moreover have "stored lh' = (\<lambda>e. if cmp d e = 0 then None else stored lh e)"
  proof
    fix e
    show "stored lh' e = (if cmp d e = 0 then None else stored lh e)"
    proof (rule stored_from [OF T])
      fix x
      have "\<not> (cmp (it_data y) e = 0)" if "cmp d e = 0" "y \<in># R" for y
        using that c(6) cmp_sym cmp_trans by blast
      moreover have "\<not> cmp (it_data it) e = 0" if "cmp d e \<noteq> 0" using that c(5) cmp_sym cmp_trans by blast
      ultimately show "(\<exists>it. it \<in># items lh' \<and> it_data it = x \<and> cmp x e = 0) \<longleftrightarrow>
          (if cmp d e = 0 then None else stored lh e) = Some x"
        using stored_iff [OF t, of e x] I' c(3) by (auto; metis)
    qed
  qed
  moreover have "Suc (size (items lh')) = size (items lh)" using I' c(3) by simp
  ultimately show ?thesis by blast
qed

text \<open>The three operations.  The bounds on the load hold while no allocation fails and nobody iterates.\<close>

definition load_kept :: "'a lhash \<Rightarrow> 'a lhash \<Rightarrow> bool" where
  "load_kept lh lh' \<longleftrightarrow> (let m = size (items lh'); n = unat (lh_num_buckets lh) in
    (m = size (items lh) \<or> m = Suc (size (items lh)) \<or> Suc m = size (items lh)) \<and>
    (if m = size (items lh) then unat (lh_num_buckets lh') = n else unat (lh_num_buckets lh') = resized m n))"

lemma resize_table:
  assumes t: "table lh" and m: "malloc_ok malloc"
  shows "\<exists>lh'. lh_maybe_resize malloc lh = (Ok (), lh') \<and> table lh' \<and> stored lh' = stored lh \<and> items lh' = items lh \<and>
    lh_callback_depth lh' = lh_callback_depth lh \<and> (0 < lh_callback_depth lh \<longrightarrow> lh' = lh) \<and>
    (lh_callback_depth lh = 0 \<longrightarrow> (\<forall>k. malloc k \<noteq> None) \<longrightarrow>
      unat (lh_num_buckets lh') = resized (size (items lh)) (unat (lh_num_buckets lh)))"
proof -
  obtain lh' where r: "lh_maybe_resize malloc lh = (Ok (), lh')" "lh_ok lh'" "same_table lh lh'"
    "0 < lh_callback_depth lh \<longrightarrow> lh' = lh"
    "lh_callback_depth lh = 0 \<longrightarrow> (\<forall>k. malloc k \<noteq> None) \<longrightarrow>
      unat (lh_num_buckets lh') = resized (size (items lh)) (unat (lh_num_buckets lh))"
    using resize_ok [OF tableD(1) [OF t] m] by blast
  show ?thesis using r table_same [OF t r(3,2)] by (auto simp: same_table_def same_functions_def)
qed

definition quiet :: "c_malloc \<Rightarrow> 'a lhash \<Rightarrow> bool"
  where "quiet malloc lh \<longleftrightarrow> lh_callback_depth lh = 0 \<and> (\<forall>k. malloc k \<noteq> None)"

lemma insert_ok:
  assumes t: "table lh" and m: "malloc_ok malloc" and p: "ptr \<noteq> 0" "ptr \<notin> addresses lh"
  shows "\<exists>r lh'. lh_insert malloc ptr d lh = (r, lh') \<and> table lh' \<and> lh_callback_depth lh' = lh_callback_depth lh \<and>
    (r = Ok (stored lh d) \<and> stored lh' = (\<lambda>e. if cmp d e = 0 then Some d else stored lh e) \<or>
     r = Fail \<and> stored lh d = None \<and> lh' = lh \<and> (\<exists>k. malloc k = None)) \<and>
    (quiet malloc lh \<longrightarrow> load_kept lh lh')"
proof -
  obtain i k where g: "get_next_ptr_and_hash lh d = Ok (hash d, i, k)" "found_at lh d i k" using next_ptr [OF t] by blast
  show ?thesis
  proof (cases "stored lh d = None")
    case False
    have l: "k < length (lh_buckets lh ! i)" "stored lh d = Some (it_data (lh_buckets lh ! i ! k))"
      using g(2) False by (auto simp: found_at_def split: if_splits)
    let ?lh = "set_chain i ((lh_buckets lh ! i)[k := (lh_buckets lh ! i ! k)\<lparr>it_data := d\<rparr>]) lh"
    have "lh_insert malloc ptr d lh = (Ok (stored lh d), ?lh)" using g(1) l by (simp add: lh_insert_def Let_def)
    then show ?thesis
      using replace_ok [OF t g(2) False] by (auto simp: load_kept_def set_chain_def)
  next
    case True
    have l: "\<not> k < length (lh_buckets lh ! i)" using g(2) True by (simp add: found_at_def)
    let ?lh = "(set_chain i (lh_buckets lh ! i @ [\<lparr>it_ptr = ptr, it_data = d, it_hash = hash d\<rparr>]) lh)
      \<lparr>lh_num_items := lh_num_items lh + 1\<rparr>"
    note a = append_ok [OF t g(2) True p]
    show ?thesis
    proof (cases "malloc (sizeof_LHASH_ITEM + OPENSSL_MALLOC_PREFIX)")
      case None
      then have "lh_insert malloc ptr d lh = (Fail, lh)" using g(1) l by (simp add: lh_insert_def Let_def OPENSSL_malloc_def)
      moreover have "\<not> quiet malloc lh" using None unfolding quiet_def by blast
      ultimately show ?thesis using t True None by blast
    next
      case (Some raw)
      then have "length raw = 32" using m by (auto simp: malloc_ok_def sizeof_LHASH_ITEM_def OPENSSL_MALLOC_PREFIX_def)
      then have al: "\<exists>x. OPENSSL_malloc malloc sizeof_LHASH_ITEM = Ok (Some x)"
        using Some by (simp add: OPENSSL_malloc_def OPENSSL_MALLOC_PREFIX_def)
      have "table ?lh" using a by blast
      then obtain lh' where r: "lh_maybe_resize malloc ?lh = (Ok (), lh')" "table lh'" "stored lh' = stored ?lh" "items lh' = items ?lh"
        "lh_callback_depth lh' = lh_callback_depth ?lh"
        "lh_callback_depth ?lh = 0 \<longrightarrow> (\<forall>k. malloc k \<noteq> None) \<longrightarrow>
          unat (lh_num_buckets lh') = resized (size (items ?lh)) (unat (lh_num_buckets ?lh))"
        using resize_table [OF _ m] by blast
      have "lh_insert malloc ptr d lh = (Ok None, lh')" using g(1) l al r(1) by (auto simp: lh_insert_def Let_def seq_simps ret_def)
      moreover have "load_kept lh lh'" if "quiet malloc lh"
        using that r(4,6) a by (simp add: quiet_def load_kept_def set_chain_def)
      moreover have "lh_callback_depth lh' = lh_callback_depth lh" using r(5) by (simp add: set_chain_def)
      ultimately show ?thesis using r(2,3) a True by auto
    qed
  qed
qed

lemma delete_ok:
  assumes t: "table lh" and m: "malloc_ok malloc"
  shows "\<exists>lh'. lh_delete malloc d lh = (Ok (stored lh d), lh') \<and> table lh' \<and> lh_callback_depth lh' = lh_callback_depth lh \<and>
    stored lh' = (\<lambda>e. if cmp d e = 0 then None else stored lh e) \<and> (quiet malloc lh \<longrightarrow> load_kept lh lh')"
proof -
  obtain i k where g: "get_next_ptr_and_hash lh d = Ok (hash d, i, k)" "found_at lh d i k" using next_ptr [OF t] by blast
  show ?thesis
  proof (cases "stored lh d = None")
    case True
    have "lh_delete malloc d lh = (Ok None, lh)" using g True by (simp add: lh_delete_def found_at_def Let_def)
    moreover have "stored lh e = None" if "cmp d e = 0" for e
      using True that stored_None [OF t] cmp_sym cmp_trans by blast
    ultimately show ?thesis using t True by (auto simp: load_kept_def)
  next
    case False
    have l: "k < length (lh_buckets lh ! i)" "stored lh d = Some (it_data (lh_buckets lh ! i ! k))"
      using g(2) False by (auto simp: found_at_def split: if_splits)
    let ?lh = "(set_chain i (take k (lh_buckets lh ! i) @ drop (Suc k) (lh_buckets lh ! i)) lh)
      \<lparr>lh_num_items := lh_num_items lh - 1\<rparr>"
    note a = unlink_ok [OF t g(2) False]
    have "table ?lh" using a by blast
    then obtain lh' where r: "lh_maybe_resize malloc ?lh = (Ok (), lh')" "table lh'" "stored lh' = stored ?lh" "items lh' = items ?lh"
      "lh_callback_depth lh' = lh_callback_depth ?lh"
      "lh_callback_depth ?lh = 0 \<longrightarrow> (\<forall>k. malloc k \<noteq> None) \<longrightarrow>
        unat (lh_num_buckets lh') = resized (size (items ?lh)) (unat (lh_num_buckets ?lh))"
      using resize_table [OF _ m] by blast
    have "lh_delete malloc d lh = (Ok (stored lh d), lh')" using g(1) l r(1) by (simp add: lh_delete_def Let_def seq_simps ret_def)
    moreover have "load_kept lh lh'" if "quiet malloc lh"
      using that r(4,6) a by (simp add: quiet_def load_kept_def set_chain_def)
    moreover have "lh_callback_depth lh' = lh_callback_depth lh" using r(5) by (simp add: set_chain_def)
    ultimately show ?thesis using r(2,3) a by auto
  qed
qed

lemma new_ok:
  assumes "malloc_ok malloc" "lh_new malloc hash cmp = Ok (Some lh)"
  shows "table lh \<and> stored lh = (\<lambda>_. None) \<and> lh_callback_depth lh = 0 \<and> size (items lh) = 0 \<and> unat (lh_num_buckets lh) = 16"
proof -
  have lh: "lh = \<lparr>lh_num_items = 0, lh_buckets = replicate 16 [], lh_num_buckets = 16, lh_callback_depth = 0,
      lh_comp = cmp, lh_hash = hash\<rparr>"
    using assms(2) by (simp add: lh_new_def kMinNumBuckets_def split: outcome.splits option.splits)
  have c: "concat (replicate 16 []) = []" by simp
  have "bucket_count 16" unfolding bucket_count_def by (intro exI [of _ 0]) simp
  then show ?thesis
    by (auto simp: lh table_def lh_ok_def in_place_def coherent_def items_def stored_def)
qed

end

section \<open>Sequences of calls\<close>

datatype 'a lh_event =
    Inserted 'a "'a option outcome"
  | Deleted 'a "'a option outcome"
  | Retrieved 'a "'a option outcome"

text \<open>A run from a table: its calls with their results.  A new item gets an address that is not in
  use; \<open>allowed\<close> says which allocators may serve the calls.\<close>

inductive lh_run :: "(c_malloc \<Rightarrow> bool) \<Rightarrow> 'a lhash \<Rightarrow> 'a lh_event list \<Rightarrow> 'a lhash \<Rightarrow> bool" for allowed lh0 where
  run_start: "lh_run allowed lh0 [] lh0"
| run_insert: "lh_run allowed lh0 es lh \<Longrightarrow> allowed malloc \<Longrightarrow> ptr \<noteq> 0 \<Longrightarrow> ptr \<notin> it_ptr ` set_mset (items lh) \<Longrightarrow>
    lh_insert malloc ptr d lh = (r, lh') \<Longrightarrow> lh_run allowed lh0 (es @ [Inserted d r]) lh'"
| run_delete: "lh_run allowed lh0 es lh \<Longrightarrow> allowed malloc \<Longrightarrow> lh_delete malloc d lh = (r, lh') \<Longrightarrow>
    lh_run allowed lh0 (es @ [Deleted d r]) lh'"
| run_retrieve: "lh_run allowed lh0 es lh \<Longrightarrow> lh_retrieve lh d = r \<Longrightarrow> lh_run allowed lh0 (es @ [Retrieved d r]) lh"

text \<open>The specification: a map from elements to the equal element it holds.  An insertion answers with
  the element replaced; it may fail, without effect, only when there is none.\<close>

fun map_event :: "('a \<Rightarrow> 'a \<Rightarrow> int) \<Rightarrow> 'a lh_event \<Rightarrow> ('a \<Rightarrow> 'a option) \<Rightarrow> ('a \<Rightarrow> 'a option) option" where
  "map_event cmp (Inserted d r) m =
    (if r = Ok (m d) then Some (\<lambda>e. if cmp d e = 0 then Some d else m e)
     else if r = Fail \<and> m d = None then Some m else None)"
| "map_event cmp (Deleted d r) m =
    (if r = Ok (m d) then Some (\<lambda>e. if cmp d e = 0 then None else m e) else None)"
| "map_event cmp (Retrieved d r) m = (if r = Ok (m d) then Some m else None)"

fun map_events :: "('a \<Rightarrow> 'a \<Rightarrow> int) \<Rightarrow> 'a lh_event list \<Rightarrow> ('a \<Rightarrow> 'a option) \<Rightarrow> ('a \<Rightarrow> 'a option) option" where
  "map_events cmp [] m = Some m"
| "map_events cmp (e # es) m = (case map_event cmp e m of None \<Rightarrow> None | Some m' \<Rightarrow> map_events cmp es m')"

lemma map_events_append:
  "map_events cmp (es @ [e]) m = (case map_events cmp es m of None \<Rightarrow> None | Some m' \<Rightarrow> map_event cmp e m')"
  by (induction es arbitrary: m) (auto split: option.splits)

text \<open>The load of a table.\<close>

definition well_loaded :: "'a lhash \<Rightarrow> bool" where
  "well_loaded lh \<longleftrightarrow> (let m = unat (lh_num_items lh); n = unat (lh_num_buckets lh) in
    (m < 3 * n \<or> n = 2 ^ 60) \<and> (n \<le> m \<or> n = 16))"

context lh_hashing begin

lemma run_refines:
  assumes "lh_run allowed lh0 es lh" "table lh0" "\<forall>m. allowed m \<longrightarrow> malloc_ok m"
  shows "table lh \<and> map_events cmp es (stored lh0) = Some (stored lh) \<and> lh_callback_depth lh = lh_callback_depth lh0"
  using assms
proof (induction rule: lh_run.induct)
  case (run_insert es lh malloc ptr d r lh')
  then have "table lh" "malloc_ok malloc" by blast+
  from insert_ok [OF this run_insert.hyps(3), of d] run_insert show ?case
    by (auto simp: addresses_def map_events_append split: if_splits)
next
  case (run_delete es lh malloc d r lh')
  then have "table lh" "malloc_ok malloc" by blast+
  from delete_ok [OF this, of d] run_delete show ?case by (auto simp: map_events_append)
next
  case (run_retrieve es lh d r)
  then have "table lh" by blast
  from retrieve_ok [OF this, of d] run_retrieve show ?case by (auto simp: map_events_append)
qed simp

lemma load_step:
  assumes "table lh" "table lh'" "well_loaded lh" "load_kept lh lh'"
  shows "well_loaded lh'"
proof -
  let ?m = "size (items lh)" and ?m' = "size (items lh')" and ?n = "unat (lh_num_buckets lh)"
  obtain k where k: "k \<le> 56" "?n = 16 * 2 ^ k" using lh_okD(1) [OF tableD(1) [OF assms(1)]] by (auto simp: bucket_count_def)
  have n: "16 \<le> ?n" "even ?n" "16 < ?n \<longrightarrow> 32 \<le> ?n" unfolding k(2) by (cases k; simp)+
  have w: "(?m < 3 * ?n \<or> ?n = 2 ^ 60) \<and> (?n \<le> ?m \<or> ?n = 16)"
    using assms(3) tableD(3) [OF assms(1)] by (simp add: well_loaded_def Let_def)
  have "unat (lh_num_buckets lh') = (if ?m' = ?m then ?n else resized ?m' ?n)" and sz: "?m' = ?m \<or> ?m' = Suc ?m \<or> Suc ?m' = ?m"
    using assms(4) by (simp_all add: load_kept_def Let_def)
  moreover have "(?m' < 3 * resized ?m' ?n \<or> resized ?m' ?n = 2 ^ 60) \<and> (resized ?m' ?n \<le> ?m' \<or> resized ?m' ?n = 16)"
    if "?m' \<noteq> ?m"
  proof -
    have ge: "3 \<le> ?m' div ?n \<longleftrightarrow> 3 * ?n \<le> ?m'" using n(1) by (simp add: less_eq_div_iff_mult_less_eq mult.commute)
    have lt: "?m' div ?n = 0 \<longleftrightarrow> ?m' < ?n" using n(1) by (simp add: div_eq_0_iff)
    obtain j where j: "?n = 2 * j" using n(2) by (elim evenE)
    show ?thesis using sz that w n j unfolding resized_def ge lt by auto
  qed
  ultimately show ?thesis using w tableD(3) [OF assms(2)] by (simp add: well_loaded_def Let_def)
qed

lemma run_loaded:
  assumes "lh_run allowed lh0 es lh" "table lh0" "well_loaded lh0" "lh_callback_depth lh0 = 0"
    and a: "\<And>m. allowed m \<Longrightarrow> malloc_ok m \<and> (\<forall>k. m k \<noteq> None)"
  shows "well_loaded lh"
  using assms(1-4)
proof (induction rule: lh_run.induct)
  case (run_insert es lh malloc ptr d r lh')
  have t: "table lh" "lh_callback_depth lh = 0" using run_refines [OF run_insert.hyps(1)] run_insert.prems a by auto
  have m: "malloc_ok malloc" "quiet malloc lh" using a [OF run_insert.hyps(2)] t(2) by (auto simp: quiet_def)
  have "ptr \<notin> addresses lh" using run_insert.hyps(4) by (simp add: addresses_def)
  with insert_ok [OF t(1) m(1) run_insert.hyps(3), of d] have "table lh' \<and> load_kept lh lh'"
    using run_insert.hyps(5) m(2) by auto
  then show ?case using load_step [OF t(1)] run_insert.IH run_insert.prems by blast
next
  case (run_delete es lh malloc d r lh')
  have t: "table lh" "lh_callback_depth lh = 0" using run_refines [OF run_delete.hyps(1)] run_delete.prems a by auto
  have m: "malloc_ok malloc" "quiet malloc lh" using a [OF run_delete.hyps(2)] t(2) by (auto simp: quiet_def)
  with delete_ok [OF t(1) m(1), of d] have "table lh' \<and> load_kept lh lh'" using run_delete.hyps(3) by auto
  then show ?case using load_step [OF t(1)] run_delete.IH run_delete.prems by blast
qed simp

end

end
