(* ===== verification/Boring_Lhash_Doall.thy ===== *)
theory Boring_Lhash_Doall
  imports Boring_Lhash_Laws
begin

text \<open>
  Iteration over a hash table whose callback deletes elements it is called with: the walk ends, visits
  every element once and leaves exactly the elements that were not deleted.
\<close>

lemma item_in_chain_None: "p \<notin> it_ptr ` set c \<Longrightarrow> item_in_chain p c = None"
  by (induction c) auto

lemma item_in_chain_here:
  "it_ptr it \<notin> it_ptr ` set xs \<Longrightarrow> item_in_chain (it_ptr it) (xs @ it # ys) = Some (it_data it, first_ptr ys)"
  by (induction xs) (auto simp: first_ptr_def)

lemma item_at_found:
  "distinct (map it_ptr (concat bs)) \<Longrightarrow> i < length bs \<Longrightarrow> bs ! i = xs @ it # ys \<Longrightarrow>
    item_at (it_ptr it) bs = Some (it_data it, first_ptr ys)"
proof (induction bs arbitrary: i)
  case (Cons b bs)
  show ?case
  proof (cases i)
    case 0
    then have "b = xs @ it # ys" using Cons.prems(3) by simp
    then show ?thesis using Cons.prems(1) item_in_chain_here [of it xs ys] by auto
  next
    case (Suc j)
    then have j: "j < length bs" "bs ! j = xs @ it # ys" using Cons.prems by simp_all
    then have "it \<in> set (concat bs)" by (metis (no_types, lifting) UN_I in_set_conv_decomp nth_mem set_concat)
    then have "it_ptr it \<notin> it_ptr ` set b" using Cons.prems(1) by auto
    then show ?thesis using Cons.IH [OF _ j] Cons.prems(1) item_in_chain_None [of "it_ptr it" b] by simp
  qed
qed simp

lemma coherent_distinct:
  assumes "coherent cmp hash (mset xs)"
  shows "distinct (map it_ptr xs)"
proof -
  have "count (mset (map it_ptr xs)) p \<le> 1" for p using assms unfolding coherent_def mset_map by blast
  then show ?thesis unfolding distinct_count_atmost_1
    by (metis One_nat_def count_mset_0_iff le_Suc_eq le_zero_eq)
qed

section \<open>A callback that deletes\<close>

definition sweep :: "c_malloc \<Rightarrow> ('a \<Rightarrow> bool) \<Rightarrow> ('a, 'a list) lh_callback" where
  "sweep malloc P d st =
    (if P d then
       (case lh_delete malloc d (fst st) of
          (Ok _, lh) \<Rightarrow> (Ok (), lh, snd st @ [d]) | (Fail, lh) \<Rightarrow> (Fail, lh, snd st) | (Undef, lh) \<Rightarrow> (Undef, lh, snd st))
     else (Ok (), fst st, snd st @ [d]))"

definition kept :: "('a \<Rightarrow> bool) \<Rightarrow> 'a lhash_item list \<Rightarrow> 'a lhash_item list"
  where "kept P = filter (\<lambda>it. \<not> P (it_data it))"

context lh_hashing begin

definition iterating :: "'a lhash \<Rightarrow> bool"
  where "iterating lh \<longleftrightarrow> table lh \<and> 0 < lh_callback_depth lh"

lemma delete_here:
  assumes t: "iterating lh" and i: "i < length (lh_buckets lh)" "lh_buckets lh ! i = xs @ it # ys" and m: "malloc_ok malloc"
  shows "\<exists>lh'. lh_delete malloc (it_data it) lh = (Ok (Some (it_data it)), lh') \<and> iterating lh' \<and>
    lh_buckets lh' = (lh_buckets lh)[i := xs @ ys] \<and> lh_num_buckets lh' = lh_num_buckets lh \<and>
    lh_callback_depth lh' = lh_callback_depth lh"
proof -
  have T: "table lh" "0 < lh_callback_depth lh" using t by (simp_all add: iterating_def)
  have it: "it \<in># items lh" unfolding items_set set_concat using i by (metis UN_I in_set_conv_decomp nth_mem)
  obtain j k where g: "get_next_ptr_and_hash lh (it_data it) = Ok (hash (it_data it), j, k)" "found_at lh (it_data it) j k"
    using next_ptr [OF T(1)] by blast
  have s: "stored lh (it_data it) \<noteq> None" using stored_None [OF T(1)] it cmp_refl by blast
  obtain c1 it' c2 R where c: "lh_buckets lh ! j = c1 @ it' # c2" "k = length c1" "items lh = add_mset it' R"
    "stored lh (it_data it) = Some (it_data it')" "cmp (it_data it') (it_data it) = 0"
    using found_split [OF T(1) g(2) s] by blast
  have e: "it' = it" using unique [OF T(1) _ it c(5)] c(3) by simp
  have j: "j < length (lh_buckets lh)" using g(2) by (simp add: found_at_def)
  have ji: "j = i" using chain_place [OF T(1) j, of it] chain_place [OF T(1) i(1), of it] c(1) e i(2) by simp
  have "distinct (map it_ptr (concat (lh_buckets lh)))"
    using coherent_distinct tableD(2) [OF T(1)] by (simp add: items_def)
  then have "distinct (concat (lh_buckets lh))" by (simp add: distinct_map)
  then have "distinct (lh_buckets lh ! i)" using i(1) by (simp add: distinct_concat_iff)
  then have "it \<notin> set c1" "it \<notin> set c2" "c1 @ it # c2 = xs @ it # ys" using c(1) i(2) unfolding ji e by simp_all
  then have "c1 = xs \<and> c2 = ys" using append_Cons_eq_iff by metis
  then have d: "lh_delete malloc (it_data it) lh =
      (Ok (Some (it_data it)), (set_chain i (xs @ ys) lh)\<lparr>lh_num_items := lh_num_items lh - 1\<rparr>)"
    using g(1) c(2) i(2) T(2) ji by (simp add: lh_delete_def Let_def seq_simps ret_def lh_maybe_resize_def set_chain_def)
  obtain lh' where "lh_delete malloc (it_data it) lh = (Ok (stored lh (it_data it)), lh')" "table lh'"
    "lh_callback_depth lh' = lh_callback_depth lh"
    using delete_ok [OF T(1) m] by blast
  then show ?thesis using d T(2) by (auto simp: iterating_def set_chain_def)
qed

lemma walk_chain:
  assumes "malloc_ok malloc" "iterating lh" "i < length (lh_buckets lh)" "lh_buckets lh ! i = xs @ ys"
  shows "\<exists>lh'. chain_walk (sweep malloc P) (first_ptr ys) (lh, seen) = Some (Ok (), lh', seen @ map it_data ys) \<and>
    iterating lh' \<and> lh_buckets lh' = (lh_buckets lh)[i := xs @ kept P ys] \<and> lh_num_buckets lh' = lh_num_buckets lh \<and>
    lh_callback_depth lh' = lh_callback_depth lh"
  using assms(2-4)
proof (induction ys arbitrary: lh xs seen)
  case Nil
  then have "(lh_buckets lh)[i := xs] = lh_buckets lh" by (metis append_Nil2 list_update_id)
  with Nil show ?case by (simp add: first_ptr_def chain_walk.simps kept_def)
next
  case (Cons it ys)
  have T: "table lh" using Cons.prems(1) by (simp add: iterating_def)
  have "it \<in># items lh" unfolding items_set set_concat using Cons.prems(2,3) by (metis UN_I in_set_conv_decomp nth_mem)
  then have p: "first_ptr (it # ys) = it_ptr it" "it_ptr it \<noteq> 0" using table_okD(2) [OF T] by (auto simp: first_ptr_def)
  have dist: "distinct (map it_ptr (concat (lh_buckets lh)))"
    using coherent_distinct tableD(2) [OF T] by (simp add: items_def)
  note at = item_at_found [OF dist Cons.prems(2,3)]
  show ?case
  proof (cases "P (it_data it)")
    case True
    obtain lh1 where d: "lh_delete malloc (it_data it) lh = (Ok (Some (it_data it)), lh1)" "iterating lh1"
      "lh_buckets lh1 = (lh_buckets lh)[i := xs @ ys]" "lh_num_buckets lh1 = lh_num_buckets lh"
      "lh_callback_depth lh1 = lh_callback_depth lh"
      using delete_here [OF Cons.prems(1,2,3) assms(1)] by blast
    have b: "i < length (lh_buckets lh1)" "lh_buckets lh1 ! i = xs @ ys" using d(3) Cons.prems(2) by simp_all
    obtain lh' where r: "chain_walk (sweep malloc P) (first_ptr ys) (lh1, seen @ [it_data it]) =
        Some (Ok (), lh', (seen @ [it_data it]) @ map it_data ys)" "iterating lh'"
      "lh_buckets lh' = (lh_buckets lh1)[i := xs @ kept P ys]" "lh_num_buckets lh' = lh_num_buckets lh1"
      "lh_callback_depth lh' = lh_callback_depth lh1"
      using Cons.IH [OF d(2) b] by blast
    have "chain_walk (sweep malloc P) (first_ptr (it # ys)) (lh, seen) = Some (Ok (), lh', seen @ map it_data (it # ys))"
      using p at d(1) True r(1) by (simp add: chain_walk.simps [of _ "it_ptr it"] sweep_def)
    then show ?thesis using r(2-5) d(3-5) True by (simp add: kept_def)
  next
    case False
    have b: "lh_buckets lh ! i = (xs @ [it]) @ ys" using Cons.prems(3) by simp
    obtain lh' where r: "chain_walk (sweep malloc P) (first_ptr ys) (lh, seen @ [it_data it]) =
        Some (Ok (), lh', (seen @ [it_data it]) @ map it_data ys)" "iterating lh'"
      "lh_buckets lh' = (lh_buckets lh)[i := (xs @ [it]) @ kept P ys]" "lh_num_buckets lh' = lh_num_buckets lh"
      "lh_callback_depth lh' = lh_callback_depth lh"
      using Cons.IH [OF Cons.prems(1,2) b] by blast
    have "chain_walk (sweep malloc P) (first_ptr (it # ys)) (lh, seen) = Some (Ok (), lh', seen @ map it_data (it # ys))"
      using p at False r(1) by (simp add: chain_walk.simps [of _ "it_ptr it"] sweep_def)
    then show ?thesis using r(2-5) False by (simp add: kept_def)
  qed
qed

lemma walk_buckets:
  assumes "malloc_ok malloc" "iterating lh" "lh_buckets lh = front @ bs" "length front = i"
  shows "\<exists>lh'. bucket_walk (sweep malloc P) i (lh, seen) = Some (Ok (), lh', seen @ map it_data (concat bs)) \<and>
    iterating lh' \<and> lh_buckets lh' = front @ map (kept P) bs \<and> lh_callback_depth lh' = lh_callback_depth lh"
  using assms(2-4)
proof (induction bs arbitrary: lh front i seen)
  case Nil
  then have "unat (lh_num_buckets lh) = i" using lh_okD(3) [OF tableD(1)] by (auto simp: iterating_def)
  with Nil show ?case by (simp add: bucket_walk.simps)
next
  case (Cons b bs)
  have n: "length (lh_buckets lh) = unat (lh_num_buckets lh)"
    using lh_okD(3) [OF tableD(1)] Cons.prems(1) by (simp add: iterating_def)
  have i: "i < length (lh_buckets lh)" "lh_buckets lh ! i = [] @ b" using Cons.prems(2,3) by (auto simp: nth_append)
  obtain lh1 where c: "chain_walk (sweep malloc P) (first_ptr b) (lh, seen) = Some (Ok (), lh1, seen @ map it_data b)"
    "iterating lh1" "lh_buckets lh1 = (lh_buckets lh)[i := [] @ kept P b]" "lh_callback_depth lh1 = lh_callback_depth lh"
    using walk_chain [OF assms(1) Cons.prems(1) i] by blast
  have b1: "lh_buckets lh1 = (front @ [kept P b]) @ bs" using c(3) Cons.prems(2,3) by (auto simp: list_update_append)
  obtain lh' where r: "bucket_walk (sweep malloc P) (Suc i) (lh1, seen @ map it_data b) =
      Some (Ok (), lh', (seen @ map it_data b) @ map it_data (concat bs))" "iterating lh'"
    "lh_buckets lh' = (front @ [kept P b]) @ map (kept P) bs" "lh_callback_depth lh' = lh_callback_depth lh1"
    using Cons.IH [OF c(2) b1, of "Suc i" "seen @ map it_data b"] Cons.prems(3) by auto
  have "bucket_walk (sweep malloc P) i (lh, seen) = Some (Ok (), lh', seen @ map it_data (concat (b # bs)))"
    using i n c(1) r(1) by (simp add: bucket_walk.simps [of _ i])
  then show ?case using r(2-4) c(4) by simp
qed

lemma doall_sweeps:
  assumes t: "table lh" and m: "malloc_ok malloc"
  shows "\<exists>lh'. lh_doall_internal malloc (sweep malloc P) (lh, []) = Some (Ok (), lh', map it_data (concat (lh_buckets lh))) \<and>
    table lh' \<and> stored lh' = (\<lambda>e. case stored lh e of None \<Rightarrow> None | Some x \<Rightarrow> if P x then None else Some x)"
proof -
  have "0 < lh_callback_depth (depth_up lh)"
  proof (cases "lh_callback_depth lh < 0xffffffff")
    case True
    then have "unat (lh_callback_depth lh + 1) = unat (lh_callback_depth lh) + 1" by (simp add: word_less_nat_alt unat_word_ariths)
    then have "unat (lh_callback_depth lh + 1) \<noteq> 0" by simp
    then show ?thesis using True by (simp add: depth_up_def word_gt_0 unat_eq_0)
  next
    case False
    then have "lh_callback_depth lh \<noteq> 0" by auto
    then show ?thesis using False by (simp add: depth_up_def word_gt_0)
  qed
  moreover have "table (depth_up lh)" using t by (auto simp: table_def lh_ok_def depth_up_def items_def)
  ultimately have it: "iterating (depth_up lh)" by (simp add: iterating_def)
  have b: "lh_buckets (depth_up lh) = [] @ lh_buckets lh" by (simp add: depth_up_def)
  obtain lh1 where w: "bucket_walk (sweep malloc P) 0 (depth_up lh, []) =
      Some (Ok (), lh1, [] @ map it_data (concat (lh_buckets lh)))" "iterating lh1"
    "lh_buckets lh1 = [] @ map (kept P) (lh_buckets lh)"
    using walk_buckets [OF m it b, of 0 P "[]"] by auto
  have t1: "table (depth_down lh1)" using w(2) by (auto simp: iterating_def table_def lh_ok_def depth_down_def items_def)
  obtain lh' where r: "lh_maybe_resize malloc (depth_down lh1) = (Ok (), lh')" "table lh'" "stored lh' = stored (depth_down lh1)"
    using resize_table [OF t1 m] by blast
  have I: "it \<in># items (depth_down lh1) \<longleftrightarrow> it \<in># items lh \<and> \<not> P (it_data it)" for it
    using w(3) by (auto simp: items_def depth_down_def kept_def)
  have "stored (depth_down lh1) = (\<lambda>e. case stored lh e of None \<Rightarrow> None | Some x \<Rightarrow> if P x then None else Some x)"
  proof
    fix e
    show "stored (depth_down lh1) e = (case stored lh e of None \<Rightarrow> None | Some x \<Rightarrow> if P x then None else Some x)"
    proof (rule stored_from [OF t1])
      fix x
      show "(\<exists>it. it \<in># items (depth_down lh1) \<and> it_data it = x \<and> cmp x e = 0) \<longleftrightarrow>
          (case stored lh e of None \<Rightarrow> None | Some x \<Rightarrow> if P x then None else Some x) = Some x"
        using stored_iff [OF t, of e x] unfolding I by (auto split: option.splits if_splits)
    qed
  qed
  then show ?thesis using w(1) r by (simp add: lh_doall_internal_def)
qed

end

end
