(* ===== verification/Boring_Pool_Laws.thy ===== *)
theory Boring_Pool_Laws
  imports Boring_Pool Boring_Lhash_Doall
begin

text \<open>
  The intern table under any interleaving of threads: while every thread only gives back references
  it holds, no call is undefined, a buffer lives as long as it is referenced, and equal byte strings
  have one buffer.
\<close>

lemma memcmp_0: "length s = length t \<Longrightarrow> OPENSSL_memcmp s t = 0 \<longleftrightarrow> s = t"
  by (induction s t rule: OPENSSL_memcmp.induct) auto

lemma buffer_cmp_0: "CRYPTO_BUFFER_cmp a b = 0 \<longleftrightarrow> buf_data a = buf_data b"
  using memcmp_0 [of "buf_data a" "buf_data b"] by (auto simp: CRYPTO_BUFFER_cmp_def)

interpretation pool_table: lh_hashing CRYPTO_BUFFER_cmp CRYPTO_BUFFER_hash
  by unfold_locales (simp_all add: buffer_cmp_0 CRYPTO_BUFFER_hash_def)

section \<open>Threads\<close>

text \<open>What the threads hold: references, and buffers they have allocated and not yet published.\<close>

record pool_world =
  pw_state :: pool_state
  pw_held :: "size_t multiset"
  pw_new :: "size_t set"

datatype pool_call =
    Lookup "byte list"
  | Alloc size_t "byte list" bool
  | Publish size_t
  | Up_ref size_t
  | Free size_t

text \<open>One section of one thread, and what the thread holds after it.\<close>

inductive pool_step :: "pool_world \<Rightarrow> pool_call \<Rightarrow> size_t option outcome \<Rightarrow> pool_world \<Rightarrow> bool" where
  step_lookup: "buffer_lookup data (pw_state w) = (r, st) \<Longrightarrow>
    pool_step w (Lookup data) r (w\<lparr>pw_state := st, pw_held := pw_held w + (case r of Ok (Some a) \<Rightarrow> {#a#} | _ \<Rightarrow> {#})\<rparr>)"
| step_alloc: "malloc_ok malloc \<Longrightarrow> length data < 2 ^ 62 \<Longrightarrow> ps_live (pw_state w) a = None \<Longrightarrow>
    buffer_alloc malloc a data pooled (pw_state w) = (r, st) \<Longrightarrow>
    pool_step w (Alloc a data pooled) (case r of Ok _ \<Rightarrow> Ok (Some a) | Fail \<Rightarrow> Ok None | Undef \<Rightarrow> Undef)
      (w\<lparr>pw_state := st, pw_held := pw_held w + (if r = Ok () \<and> \<not> pooled then {#a#} else {#}),
         pw_new := pw_new w \<union> (if r = Ok () \<and> pooled then {a} else {})\<rparr>)"
| step_publish: "malloc_ok malloc \<Longrightarrow> a \<in> pw_new w \<Longrightarrow> item \<noteq> 0 \<Longrightarrow> item \<notin> it_ptr ` set_mset (items (ps_bufs (pw_state w))) \<Longrightarrow>
    buffer_publish malloc item a (pw_state w) = (r, st) \<Longrightarrow>
    pool_step w (Publish a) r
      (w\<lparr>pw_state := st, pw_held := pw_held w + (case r of Ok (Some d) \<Rightarrow> {#d#} | _ \<Rightarrow> {#}), pw_new := pw_new w - {a}\<rparr>)"
| step_up_ref: "a \<in># pw_held w \<Longrightarrow> CRYPTO_BUFFER_up_ref a (pw_state w) = (r, st) \<Longrightarrow>
    pool_step w (Up_ref a) (case r of Ok _ \<Rightarrow> Ok (Some a) | Fail \<Rightarrow> Fail | Undef \<Rightarrow> Undef)
      (w\<lparr>pw_state := st, pw_held := add_mset a (pw_held w)\<rparr>)"
| step_free: "malloc_ok malloc \<Longrightarrow> a \<in># pw_held w \<Longrightarrow> CRYPTO_BUFFER_free malloc (Some a) (pw_state w) = (r, st) \<Longrightarrow>
    pool_step w (Free a) (case r of Ok _ \<Rightarrow> Ok None | Fail \<Rightarrow> Fail | Undef \<Rightarrow> Undef)
      (w\<lparr>pw_state := st, pw_held := pw_held w - {#a#}\<rparr>)"

inductive pool_reach :: "pool_world \<Rightarrow> pool_world \<Rightarrow> bool" for w0 where
  reach_start: "pool_reach w0 w0"
| reach_step: "pool_reach w0 w \<Longrightarrow> pool_step w c r w' \<Longrightarrow> pool_reach w0 w'"

inductive_cases pool_stepE: "pool_step w c r w'"

section \<open>The invariant\<close>

definition counted :: "buffer_object \<Rightarrow> nat \<Rightarrow> bool" where
  "counted b n \<longleftrightarrow> bo_references b \<noteq> 0 \<and> (bo_references b \<noteq> CRYPTO_REFCOUNT_MAX \<longrightarrow> unat (bo_references b) = n)"

definition published :: "pool_world \<Rightarrow> size_t \<Rightarrow> byte list \<Rightarrow> bool" where
  "published w a data \<longleftrightarrow> a \<notin> pw_new w \<and> (\<exists>b. ps_live (pw_state w) a = Some b \<and> bo_pooled b \<and> bo_data b = data)"

text \<open>The table holds exactly the published buffers; the count of a buffer is the number of references
  to it, unless it is saturated.\<close>

definition pool_ok :: "pool_world \<Rightarrow> bool" where
  "pool_ok w \<longleftrightarrow> pool_table.table (ps_bufs (pw_state w)) \<and>
    (\<forall>x y. stored (ps_bufs (pw_state w)) x = Some y \<longleftrightarrow> published w (buf_addr y) (buf_data y) \<and> buf_data y = buf_data x) \<and>
    (\<forall>a b. ps_live (pw_state w) a = Some b \<longrightarrow> a \<notin> pw_new w \<longrightarrow> counted b (count (pw_held w) a)) \<and>
    (\<forall>a b. ps_live (pw_state w) a = Some b \<longrightarrow> a \<in> pw_new w \<longrightarrow> bo_pooled b \<and> bo_references b = 1 \<and> a \<notin># pw_held w) \<and>
    (\<forall>a. a \<in># pw_held w \<longrightarrow> ps_live (pw_state w) a \<noteq> None \<and> a \<notin> pw_new w) \<and>
    (\<forall>a \<in> pw_new w. ps_live (pw_state w) a \<noteq> None)"

lemma pool_okD:
  assumes "pool_ok w"
  shows "pool_table.table (ps_bufs (pw_state w))"
    and "stored (ps_bufs (pw_state w)) x = Some y \<longleftrightarrow> published w (buf_addr y) (buf_data y) \<and> buf_data y = buf_data x"
    and "ps_live (pw_state w) a = Some b \<Longrightarrow> a \<notin> pw_new w \<Longrightarrow> counted b (count (pw_held w) a)"
    and "ps_live (pw_state w) a = Some b \<Longrightarrow> a \<in> pw_new w \<Longrightarrow> bo_pooled b \<and> bo_references b = 1 \<and> a \<notin># pw_held w"
    and "a \<in># pw_held w \<Longrightarrow> ps_live (pw_state w) a \<noteq> None \<and> a \<notin> pw_new w"
    and "a \<in> pw_new w \<Longrightarrow> ps_live (pw_state w) a \<noteq> None"
  using assms unfolding pool_ok_def by blast+

lemma refcount_less_max: "c < CRYPTO_REFCOUNT_MAX \<longleftrightarrow> c \<noteq> CRYPTO_REFCOUNT_MAX"
  using unsigned_less [of c, where 'a = nat] by (auto simp: CRYPTO_REFCOUNT_MAX_def word_less_nat_alt word_unat_eq_iff)

lemma counted_inc:
  assumes "counted b n"
  shows "counted (b\<lparr>bo_references := CRYPTO_refcount_inc (bo_references b)\<rparr>) (Suc n)"
proof (cases "bo_references b < CRYPTO_REFCOUNT_MAX")
  case True
  then have "unat (bo_references b + 1) = unat (bo_references b) + 1"
    by (simp add: CRYPTO_REFCOUNT_MAX_def word_less_nat_alt unat_word_ariths)
  with assms True show ?thesis by (auto simp: counted_def CRYPTO_refcount_inc_def simp flip: unat_eq_0)
next
  case False
  then have "bo_references b = CRYPTO_REFCOUNT_MAX"
    by (simp add: refcount_less_max)
  then show ?thesis using False by (simp add: counted_def CRYPTO_refcount_inc_def CRYPTO_REFCOUNT_MAX_def)
qed

lemma counted_dec:
  assumes "counted b n" "0 < n"
  shows "\<exists>count. CRYPTO_refcount_dec_and_test_zero (bo_references b) = Ok (count = 0, count) \<and>
    (count = 0 \<longrightarrow> n = 1) \<and> (count \<noteq> 0 \<longrightarrow> counted (b\<lparr>bo_references := count\<rparr>) (n - 1))"
proof (cases "bo_references b < CRYPTO_REFCOUNT_MAX")
  case True
  have "unat (bo_references b) = n" "bo_references b \<noteq> 0" using assms(1) True by (auto simp: counted_def)
  then have u: "unat (bo_references b - 1) = n - 1" by (simp add: unat_minus_one)
  have "unat (bo_references b - 1) < unat CRYPTO_REFCOUNT_MAX" using True u \<open>unat (bo_references b) = n\<close> by (simp add: word_less_nat_alt)
  then show ?thesis using assms True u \<open>bo_references b \<noteq> 0\<close>
    by (auto simp: CRYPTO_refcount_dec_and_test_zero_def counted_def Let_def simp flip: unat_eq_0)
next
  case False
  have ne: "bo_references b \<noteq> 0" using assms(1) by (simp add: counted_def)
  have "bo_references b = CRYPTO_REFCOUNT_MAX"
    using False by (simp add: refcount_less_max)
  then show ?thesis using False ne by (simp add: CRYPTO_refcount_dec_and_test_zero_def counted_def Let_def)
qed

section \<open>The sections keep the invariant\<close>

text \<open>Only the count of one buffer changes.\<close>

lemma published_count:
  assumes "ps_live (pw_state w) a = Some b"
  shows "published (w\<lparr>pw_state := (pw_state w)\<lparr>ps_live := (ps_live (pw_state w))(a \<mapsto> b\<lparr>bo_references := n\<rparr>)\<rparr>, pw_held := H\<rparr>) = published w"
  using assms by (auto simp: published_def fun_eq_iff)

lemma pool_ok_count:
  assumes ok: "pool_ok w" and b: "ps_live (pw_state w) a = Some b" "a \<notin> pw_new w"
    and c: "counted (b\<lparr>bo_references := n\<rparr>) (count H a)" and H: "\<And>x. x \<noteq> a \<Longrightarrow> count H x = count (pw_held w) x"
  shows "pool_ok (w\<lparr>pw_state := (pw_state w)\<lparr>ps_live := (ps_live (pw_state w))(a \<mapsto> b\<lparr>bo_references := n\<rparr>)\<rparr>, pw_held := H\<rparr>)"
    (is "pool_ok ?w")
proof -
  have in_H: "x \<in># H \<longleftrightarrow> x \<in># pw_held w" if "x \<noteq> a" for x using H [OF that] by (metis count_greater_zero_iff)
  show ?thesis
    unfolding pool_ok_def
  proof (intro conjI allI impI ballI)
    show "pool_table.table (ps_bufs (pw_state ?w))" using pool_okD(1) [OF ok] by simp
    show "(stored (ps_bufs (pw_state ?w)) x = Some y) = (published ?w (buf_addr y) (buf_data y) \<and> buf_data y = buf_data x)" for x y
      using pool_okD(2) [OF ok] unfolding published_count [OF b(1)] by simp
    show "counted b' (count (pw_held ?w) a')" if "ps_live (pw_state ?w) a' = Some b'" "a' \<notin> pw_new ?w" for a' b'
      using that c pool_okD(3) [OF ok, of a' b'] H [of a'] by (cases "a' = a") auto
    show "bo_pooled b'" "bo_references b' = 1" "a' \<notin># pw_held ?w"
      if "ps_live (pw_state ?w) a' = Some b'" "a' \<in> pw_new ?w" for a' b'
      using that b pool_okD(4) [OF ok, of a' b'] in_H [of a'] by (cases "a' = a"; auto)+
    show "ps_live (pw_state ?w) a' \<noteq> None" "a' \<notin> pw_new ?w" if "a' \<in># pw_held ?w" for a'
      using that b pool_okD(5) [OF ok, of a'] in_H [of a'] by (cases "a' = a"; auto)+
    show "ps_live (pw_state ?w) a' \<noteq> None" if "a' \<in> pw_new ?w" for a'
      using that pool_okD(6) [OF ok, of a'] by auto
  qed
qed

lemma up_ref_ok:
  assumes ok: "pool_ok w" and b: "ps_live (pw_state w) a = Some b" "a \<notin> pw_new w"
  shows "\<exists>st. CRYPTO_BUFFER_up_ref a (pw_state w) = (Ok (), st) \<and>
    pool_ok (w\<lparr>pw_state := st, pw_held := add_mset a (pw_held w)\<rparr>) \<and> ps_bufs st = ps_bufs (pw_state w) \<and>
    (\<exists>b'. ps_live st a = Some b' \<and> bo_data b' = bo_data b \<and> bo_pooled b' = bo_pooled b) \<and>
    (\<forall>x. x \<noteq> a \<longrightarrow> ps_live st x = ps_live (pw_state w) x)"
proof -
  have c: "counted (b\<lparr>bo_references := CRYPTO_refcount_inc (bo_references b)\<rparr>) (count (add_mset a (pw_held w)) a)"
    using counted_inc [OF pool_okD(3) [OF ok b]] by simp
  show ?thesis
    using pool_ok_count [OF ok b c] b(1) by (simp add: CRYPTO_BUFFER_up_ref_def)
qed

lemma free_count_ok:
  assumes ok: "pool_ok w" and b: "ps_live (pw_state w) a = Some b" "a \<notin> pw_new w"
    and c: "counted (b\<lparr>bo_references := n\<rparr>) (count (pw_held w) a - 1)"
  shows "pool_ok (w\<lparr>pw_state := (pw_state w)\<lparr>ps_live := (ps_live (pw_state w))(a \<mapsto> b\<lparr>bo_references := n\<rparr>)\<rparr>, pw_held := pw_held w - {#a#}\<rparr>)"
  by (rule pool_ok_count [OF ok b]) (use c in simp_all)

text \<open>A buffer disappears.\<close>

lemma pool_ok_drop:
  assumes ok: "pool_ok w" and a: "count (pw_held w) a \<le> 1" "a \<notin># H"
    and H: "\<And>x. x \<noteq> a \<Longrightarrow> count H x = count (pw_held w) x" and t: "pool_table.table bufs"
    and s: "\<And>x y. stored bufs x = Some y \<longleftrightarrow> published w (buf_addr y) (buf_data y) \<and> buf_addr y \<noteq> a \<and> buf_data y = buf_data x"
  shows "pool_ok (w\<lparr>pw_state := (pw_state w)\<lparr>ps_bufs := bufs, ps_live := (ps_live (pw_state w))(a := None)\<rparr>,
    pw_held := H, pw_new := pw_new w - {a}\<rparr>)" (is "pool_ok ?w")
proof -
  have in_H: "x \<in># H \<longleftrightarrow> x \<in># pw_held w" if "x \<noteq> a" for x using H [OF that] by (metis count_greater_zero_iff)
  have p: "published ?w x d \<longleftrightarrow> published w x d \<and> x \<noteq> a" for x d by (auto simp: published_def)
  show ?thesis
    unfolding pool_ok_def
  proof (intro conjI allI impI ballI)
    show "pool_table.table (ps_bufs (pw_state ?w))" using t by simp
    show "(stored (ps_bufs (pw_state ?w)) x = Some y) = (published ?w (buf_addr y) (buf_data y) \<and> buf_data y = buf_data x)" for x y
      using s [of x y] unfolding p by auto
    show "counted b' (count (pw_held ?w) a')" if "ps_live (pw_state ?w) a' = Some b'" "a' \<notin> pw_new ?w" for a' b'
      using that pool_okD(3) [OF ok, of a' b'] H [of a'] by (cases "a' = a") auto
    show "bo_pooled b'" "bo_references b' = 1" "a' \<notin># pw_held ?w"
      if "ps_live (pw_state ?w) a' = Some b'" "a' \<in> pw_new ?w" for a' b'
      using that pool_okD(4) [OF ok, of a' b'] in_H [of a'] by (cases "a' = a"; auto)+
    show "ps_live (pw_state ?w) a' \<noteq> None" "a' \<notin> pw_new ?w" if "a' \<in># pw_held ?w" for a'
      using that a(2) pool_okD(5) [OF ok, of a'] in_H [of a'] by (cases "a' = a"; auto)+
    show "ps_live (pw_state ?w) a' \<noteq> None" if "a' \<in> pw_new ?w" for a'
      using that pool_okD(6) [OF ok, of a'] by auto
  qed
qed

lemma free_ok:
  assumes ok: "pool_ok w" and a: "a \<in># pw_held w" and m: "malloc_ok malloc"
  shows "\<exists>st. CRYPTO_BUFFER_free malloc (Some a) (pw_state w) = (Ok (), st) \<and>
    pool_ok (w\<lparr>pw_state := st, pw_held := pw_held w - {#a#}\<rparr>)"
proof -
  obtain b where b: "ps_live (pw_state w) a = Some b" "a \<notin> pw_new w" using pool_okD(5) [OF ok a] by blast
  have n: "0 < count (pw_held w) a" using a by (simp add: count_greater_zero_iff)
  obtain cnt where c: "CRYPTO_refcount_dec_and_test_zero (bo_references b) = Ok (cnt = 0, cnt)"
    "cnt = 0 \<longrightarrow> count (pw_held w) a = 1" "cnt \<noteq> 0 \<longrightarrow> counted (b\<lparr>bo_references := cnt\<rparr>) (count (pw_held w) a - 1)"
    using counted_dec [OF pool_okD(3) [OF ok b] n] by blast
  show ?thesis
  proof (cases "cnt = 0")
    case False
    then show ?thesis using b(1) c(1) free_count_ok [OF ok b] c(3) by (simp add: CRYPTO_BUFFER_free_def)
  next
    case True
    let ?H = "pw_held w - {#a#}"
    have H: "a \<notin># ?H" "count (pw_held w) a \<le> 1" "\<And>x. x \<noteq> a \<Longrightarrow> count ?H x = count (pw_held w) x"
      using c(2) True by (simp_all add: not_in_iff)
    let ?buf = "\<lparr>buf_addr = a, buf_data = bo_data b\<rparr>"
    have new: "pw_new w - {a} = pw_new w" using b(2) by simp
    show ?thesis
    proof (cases "bo_pooled b")
      case False
      let ?st = "(pw_state w)\<lparr>ps_live := (ps_live (pw_state w))(a := None)\<rparr>"
      have f: "CRYPTO_BUFFER_free malloc (Some a) (pw_state w) = (Ok (), ?st)"
        using b(1) c(1) True False by (simp add: CRYPTO_BUFFER_free_def)
      have np: "\<not> published w a d" for d using b(1) False by (simp add: published_def)
      have s: "stored (ps_bufs (pw_state w)) x = Some y \<longleftrightarrow>
          published w (buf_addr y) (buf_data y) \<and> buf_addr y \<noteq> a \<and> buf_data y = buf_data x" for x y
        using pool_okD(2) [OF ok, of x y] np by auto
      have "pool_ok (w\<lparr>pw_state := ?st, pw_held := ?H\<rparr>)"
        using pool_ok_drop [OF ok H(2,1,3) pool_okD(1) [OF ok] s] new by simp
      then show ?thesis using f by blast
    next
      case pooled: True
      have pub: "published w a (bo_data b)" using b pooled by (simp add: published_def)
      have st: "stored (ps_bufs (pw_state w)) ?buf = Some ?buf" using pool_okD(2) [OF ok, of ?buf ?buf] pub by simp
      obtain bufs where d: "lh_delete malloc ?buf (ps_bufs (pw_state w)) = (Ok (Some ?buf), bufs)" "pool_table.table bufs"
        "stored bufs = (\<lambda>e. if CRYPTO_BUFFER_cmp ?buf e = 0 then None else stored (ps_bufs (pw_state w)) e)"
        using pool_table.delete_ok [OF pool_okD(1) [OF ok] m, of ?buf] st by auto
      let ?st = "(pw_state w)\<lparr>ps_bufs := bufs, ps_live := (ps_live (pw_state w))(a := None)\<rparr>"
      have f: "CRYPTO_BUFFER_free malloc (Some a) (pw_state w) = (Ok (), ?st)"
        using b(1) c(1) True pooled d(1) by (simp add: CRYPTO_BUFFER_free_def)
      have same: "y = ?buf" if "published w (buf_addr y) (bo_data b)" "buf_data y = bo_data b" for y
        using pool_okD(2) [OF ok, of ?buf y] that st by simp
      have other: "buf_data y = bo_data b" if "published w a (buf_data y)" for y :: crypto_buffer
        using that b(1) by (simp add: published_def)
      have s: "stored bufs x = Some y \<longleftrightarrow>
          published w (buf_addr y) (buf_data y) \<and> buf_addr y \<noteq> a \<and> buf_data y = buf_data x" for x y
        using pool_okD(2) [OF ok, of x y] same [of y] other [of y] unfolding d(3) buffer_cmp_0 by auto
      have "pool_ok (w\<lparr>pw_state := ?st, pw_held := ?H\<rparr>)"
        using pool_ok_drop [OF ok H(2,1,3) d(2) s] new by simp
      then show ?thesis using f by blast
    qed
  qed
qed

lemma lookup_ok:
  assumes ok: "pool_ok w"
  shows "\<exists>r st. buffer_lookup data (pw_state w) = (Ok r, st) \<and>
    pool_ok (w\<lparr>pw_state := st, pw_held := pw_held w + (case r of None \<Rightarrow> {#} | Some a \<Rightarrow> {#a#})\<rparr>) \<and>
    (case r of None \<Rightarrow> \<forall>a. \<not> published w a data
     | Some a \<Rightarrow> published w a data \<and> (\<exists>b. ps_live st a = Some b \<and> bo_data b = data))"
proof -
  let ?x = "\<lparr>buf_addr = 0, buf_data = data\<rparr>"
  have r: "lh_retrieve (ps_bufs (pw_state w)) ?x = Ok (stored (ps_bufs (pw_state w)) ?x)"
    by (rule pool_table.retrieve_ok [OF pool_okD(1) [OF ok]])
  show ?thesis
  proof (cases "stored (ps_bufs (pw_state w)) ?x")
    case None
    have "\<not> published w a data" for a
      using None pool_okD(2) [OF ok, of ?x "\<lparr>buf_addr = a, buf_data = data\<rparr>"] by simp
    then show ?thesis using None r ok by (simp add: buffer_lookup_def)
  next
    case (Some d)
    then have p: "published w (buf_addr d) data" using pool_okD(2) [OF ok, of ?x d] by auto
    then obtain b where b: "ps_live (pw_state w) (buf_addr d) = Some b" "buf_addr d \<notin> pw_new w" "bo_data b = data"
      by (auto simp: published_def)
    obtain st b' where u: "CRYPTO_BUFFER_up_ref (buf_addr d) (pw_state w) = (Ok (), st)"
      "pool_ok (w\<lparr>pw_state := st, pw_held := add_mset (buf_addr d) (pw_held w)\<rparr>)"
      "ps_live st (buf_addr d) = Some b'" "bo_data b' = bo_data b"
      using up_ref_ok [OF ok b(1,2)] by blast
    have "buffer_lookup data (pw_state w) = (Ok (Some (buf_addr d)), st)"
      using r Some u(1) by (simp add: buffer_lookup_def seq_simps ret_def)
    then show ?thesis using u(2-4) b(3) p by simp
  qed
qed

text \<open>A new object, at an address that is not in use.\<close>

lemma alloc_ok:
  assumes ok: "pool_ok w" and m: "malloc_ok malloc" "length data < 2 ^ 62" and a: "ps_live (pw_state w) a = None"
  shows "\<exists>r st. buffer_alloc malloc a data pooled (pw_state w) = (r, st) \<and> (r = Ok () \<or> r = Fail) \<and>
    pool_ok (w\<lparr>pw_state := st, pw_held := pw_held w + (if r = Ok () \<and> \<not> pooled then {#a#} else {#}),
      pw_new := pw_new w \<union> (if r = Ok () \<and> pooled then {a} else {})\<rparr>) \<and>
    (r = Ok () \<longrightarrow> (\<exists>b. ps_live st a = Some b \<and> bo_data b = data)) \<and> ps_bufs st = ps_bufs (pw_state w)"
proof -
  let ?b = "\<lparr>bo_data = data, bo_pooled = pooled, bo_references = 1\<rparr>"
  let ?st = "(pw_state w)\<lparr>ps_live := (ps_live (pw_state w))(a \<mapsto> ?b)\<rparr>"
  have na: "a \<notin># pw_held w" "a \<notin> pw_new w" using a pool_okD(5,6) [OF ok, of a] by auto
  have blk: "\<exists>raw. OPENSSL_malloc malloc n = Ok raw \<and> (\<forall>r. raw = Some r \<longrightarrow> length r = unat n)" if "unat n < 2 ^ 62" for n
  proof -
    have "unat (n + OPENSSL_MALLOC_PREFIX) = unat n + 8" using that by (simp add: OPENSSL_MALLOC_PREFIX_def unat_word_ariths)
    then show ?thesis
      using m(1) by (cases "malloc (n + OPENSSL_MALLOC_PREFIX)") (auto simp: OPENSSL_malloc_def OPENSSL_MALLOC_PREFIX_def malloc_ok_def)
  qed
  have u: "unat (of_nat (length data) :: size_t) = length data" using m(2) by (simp add: unat_of_nat)
  obtain r1 where r1: "OPENSSL_malloc malloc sizeof_CRYPTO_BUFFER = Ok r1"
    using blk [of sizeof_CRYPTO_BUFFER] by (auto simp: sizeof_CRYPTO_BUFFER_def)
  have "\<exists>r2. BUF_memdup malloc data = Ok r2"
    using blk [of "of_nat (length data)"] u m(2)
    by (auto simp: BUF_memdup_def put_bytes_def split: option.split)
  then obtain r2 where r2: "BUF_memdup malloc data = Ok r2" by blast
  have new: "pool_ok (w\<lparr>pw_state := ?st, pw_held := pw_held w + (if \<not> pooled then {#a#} else {#}),
      pw_new := pw_new w \<union> (if pooled then {a} else {})\<rparr>)" (is "pool_ok ?w")
  proof -
    have p: "published ?w x d \<longleftrightarrow> published w x d" if "x \<noteq> a" for x d using that by (auto simp: published_def)
    have pa: "\<not> published w a d" for d using a by (simp add: published_def)
    have pa': "\<not> published ?w a d" for d by (simp add: published_def)
    show ?thesis
      unfolding pool_ok_def
    proof (intro conjI allI impI ballI)
      show "pool_table.table (ps_bufs (pw_state ?w))" using pool_okD(1) [OF ok] by simp
      show "(stored (ps_bufs (pw_state ?w)) x = Some y) = (published ?w (buf_addr y) (buf_data y) \<and> buf_data y = buf_data x)" for x y
        using pool_okD(2) [OF ok, of x y] p [of "buf_addr y" "buf_data y"] pa pa' by (cases "buf_addr y = a") auto
      show "counted b' (count (pw_held ?w) a')" if "ps_live (pw_state ?w) a' = Some b'" "a' \<notin> pw_new ?w" for a' b'
        using that na pool_okD(3) [OF ok, of a' b']
        by (cases "a' = a") (auto simp: counted_def not_in_iff split: if_splits)
      show "bo_pooled b'" "bo_references b' = 1" "a' \<notin># pw_held ?w"
        if "ps_live (pw_state ?w) a' = Some b'" "a' \<in> pw_new ?w" for a' b'
        using that na pool_okD(4) [OF ok, of a' b'] by (cases "a' = a"; auto split: if_splits)+
      show "ps_live (pw_state ?w) a' \<noteq> None" "a' \<notin> pw_new ?w" if "a' \<in># pw_held ?w" for a'
        using that na pool_okD(5) [OF ok, of a'] by (cases "a' = a"; auto split: if_splits)+
      show "ps_live (pw_state ?w) a' \<noteq> None" if "a' \<in> pw_new ?w" for a'
        using that pool_okD(6) [OF ok, of a'] by (auto split: if_splits)
    qed
  qed
  have same: "pool_ok (w\<lparr>pw_state := pw_state w, pw_held := pw_held w + {#}, pw_new := pw_new w \<union> {}\<rparr>)" using ok by simp
  show ?thesis
  proof (cases "r1 = None \<or> data \<noteq> [] \<and> r2 = None")
    case True
    then have "buffer_alloc malloc a data pooled (pw_state w) = (Fail, pw_state w)"
      using r1 r2 by (auto simp: buffer_alloc_def split: option.split)
    then show ?thesis using same by simp
  next
    case False
    then have "buffer_alloc malloc a data pooled (pw_state w) = (Ok (), ?st)" using r1 r2 by (auto simp: buffer_alloc_def)
    then show ?thesis using new by simp
  qed
qed

text \<open>A buffer becomes part of the table.\<close>

lemma publish_new:
  assumes ok: "pool_ok w" and a: "a \<in> pw_new w" "ps_live (pw_state w) a = Some b"
    and t: "pool_table.table bufs" and none: "\<And>x. \<not> published w x (bo_data b)"
    and s: "stored bufs = (\<lambda>e. if CRYPTO_BUFFER_cmp \<lparr>buf_addr = a, buf_data = bo_data b\<rparr> e = 0
      then Some \<lparr>buf_addr = a, buf_data = bo_data b\<rparr> else stored (ps_bufs (pw_state w)) e)"
  shows "pool_ok (w\<lparr>pw_state := (pw_state w)\<lparr>ps_bufs := bufs\<rparr>, pw_held := pw_held w + {#a#}, pw_new := pw_new w - {a}\<rparr>)"
    (is "pool_ok ?w")
proof -
  have ab: "bo_pooled b" "bo_references b = 1" "a \<notin># pw_held w" using pool_okD(4) [OF ok a(2,1)] by simp_all
  have p: "published ?w x d \<longleftrightarrow> published w x d \<or> x = a \<and> d = bo_data b" for x d
    using a ab by (auto simp: published_def)
  have pa: "\<not> published w a d" for d using a(1) by (simp add: published_def)
  show ?thesis
    unfolding pool_ok_def
  proof (intro conjI allI impI ballI)
    show "pool_table.table (ps_bufs (pw_state ?w))" using t by simp
    show "(stored (ps_bufs (pw_state ?w)) x = Some y) = (published ?w (buf_addr y) (buf_data y) \<and> buf_data y = buf_data x)" for x y
    proof (cases "buf_data x = bo_data b")
      case True
      then have "stored bufs x = Some \<lparr>buf_addr = a, buf_data = bo_data b\<rparr>" unfolding s buffer_cmp_0 by simp
      then show ?thesis using True none unfolding p by (cases y) auto
    next
      case False
      then have "stored bufs x = stored (ps_bufs (pw_state w)) x" unfolding s buffer_cmp_0 by simp
      then show ?thesis using False pool_okD(2) [OF ok, of x y] unfolding p by auto
    qed
    show "counted b' (count (pw_held ?w) a')" if "ps_live (pw_state ?w) a' = Some b'" "a' \<notin> pw_new ?w" for a' b'
      using that a ab pool_okD(3) [OF ok, of a' b'] by (cases "a' = a") (auto simp: counted_def not_in_iff)
    show "bo_pooled b'" "bo_references b' = 1" "a' \<notin># pw_held ?w"
      if "ps_live (pw_state ?w) a' = Some b'" "a' \<in> pw_new ?w" for a' b'
      using that pool_okD(4) [OF ok, of a' b'] by (cases "a' = a"; auto)+
    show "ps_live (pw_state ?w) a' \<noteq> None" "a' \<notin> pw_new ?w" if "a' \<in># pw_held ?w" for a'
      using that a pool_okD(5) [OF ok, of a'] by (cases "a' = a"; auto)+
    show "ps_live (pw_state ?w) a' \<noteq> None" if "a' \<in> pw_new ?w" for a'
      using that pool_okD(6) [OF ok, of a'] by auto
  qed
qed

lemma publish_ok:
  assumes ok: "pool_ok w" and a: "a \<in> pw_new w" and m: "malloc_ok malloc"
    and item: "item \<noteq> 0" "item \<notin> it_ptr ` set_mset (items (ps_bufs (pw_state w)))"
  shows "\<exists>r st b. buffer_publish malloc item a (pw_state w) = (Ok r, st) \<and> ps_live (pw_state w) a = Some b \<and>
    pool_ok (w\<lparr>pw_state := st, pw_held := pw_held w + (case r of None \<Rightarrow> {#} | Some d \<Rightarrow> {#d#}), pw_new := pw_new w - {a}\<rparr>) \<and>
    (case r of None \<Rightarrow> \<exists>k. malloc k = None | Some d \<Rightarrow> \<exists>b'. ps_live st d = Some b' \<and> bo_data b' = bo_data b)"
proof -
  obtain b where b: "ps_live (pw_state w) a = Some b" using pool_okD(6) [OF ok a] by blast
  have ab: "bo_pooled b" "bo_references b = 1" "a \<notin># pw_held w" using pool_okD(4) [OF ok b a] by simp_all
  let ?buf = "\<lparr>buf_addr = a, buf_data = bo_data b\<rparr>" and ?T = "ps_bufs (pw_state w)"
  have t: "pool_table.table ?T" by (rule pool_okD(1) [OF ok])
  have r: "lh_retrieve ?T ?buf = Ok (stored ?T ?buf)" by (rule pool_table.retrieve_ok [OF t])
  have na: "count (pw_held w) a \<le> 1" "\<And>d. \<not> published w a d" using ab(3) a by (simp_all add: not_in_iff published_def)
  show ?thesis
  proof (cases "stored ?T ?buf")
    case None
    have np: "\<not> published w x (bo_data b)" for x
      using None pool_okD(2) [OF ok, of ?buf "\<lparr>buf_addr = x, buf_data = bo_data b\<rparr>"] by simp
    have fresh: "item \<notin> pool_table.addresses ?T" using item(2) by (simp add: pool_table.addresses_def)
    obtain res bufs where i: "lh_insert malloc item ?buf ?T = (res, bufs)" "pool_table.table bufs"
      "res = Ok (stored ?T ?buf) \<and> stored bufs = (\<lambda>e. if CRYPTO_BUFFER_cmp ?buf e = 0 then Some ?buf else stored ?T e) \<or>
       res = Fail \<and> stored ?T ?buf = None \<and> bufs = ?T \<and> (\<exists>k. malloc k = None)"
      using pool_table.insert_ok [OF t m item(1) fresh, of ?buf] by blast
    from i(3) show ?thesis
    proof
      assume s: "res = Ok (stored ?T ?buf) \<and> stored bufs = (\<lambda>e. if CRYPTO_BUFFER_cmp ?buf e = 0 then Some ?buf else stored ?T e)"
      then have "buffer_publish malloc item a (pw_state w) = (Ok (Some a), (pw_state w)\<lparr>ps_bufs := bufs\<rparr>)"
        using b r None i(1) by (simp add: buffer_publish_def Let_def)
      moreover have "pool_ok (w\<lparr>pw_state := (pw_state w)\<lparr>ps_bufs := bufs\<rparr>, pw_held := pw_held w + {#a#}, pw_new := pw_new w - {a}\<rparr>)"
        using publish_new [OF ok a b i(2) np] s by blast
      ultimately show ?thesis using b by auto
    next
      assume f: "res = Fail \<and> stored ?T ?buf = None \<and> bufs = ?T \<and> (\<exists>k. malloc k = None)"
      let ?st = "(pw_state w)\<lparr>ps_bufs := ?T, ps_live := (ps_live (pw_state w))(a := None)\<rparr>"
      have "buffer_publish malloc item a (pw_state w) = (Ok None, ?st)"
        using b r None i(1) f by (simp add: buffer_publish_def Let_def)
      moreover have "stored ?T x = Some y \<longleftrightarrow> published w (buf_addr y) (buf_data y) \<and> buf_addr y \<noteq> a \<and> buf_data y = buf_data x" for x y
        using pool_okD(2) [OF ok, of x y] na(2) by auto
      then have "pool_ok (w\<lparr>pw_state := ?st, pw_held := pw_held w, pw_new := pw_new w - {a}\<rparr>)"
        using pool_ok_drop [OF ok na(1) ab(3) _ t] by blast
      ultimately show ?thesis using b f by auto
    qed
  next
    case (Some d)
    have p: "published w (buf_addr d) (bo_data b)" using Some pool_okD(2) [OF ok, of ?buf d] by auto
    then obtain c where c: "ps_live (pw_state w) (buf_addr d) = Some c" "buf_addr d \<notin> pw_new w" "bo_data c = bo_data b"
      by (auto simp: published_def)
    have ne: "buf_addr d \<noteq> a" using p na(2) by auto
    obtain st c' where u: "CRYPTO_BUFFER_up_ref (buf_addr d) (pw_state w) = (Ok (), st)"
      "pool_ok (w\<lparr>pw_state := st, pw_held := add_mset (buf_addr d) (pw_held w)\<rparr>)" "ps_bufs st = ?T"
      "ps_live st (buf_addr d) = Some c'" "bo_data c' = bo_data c" "ps_live st a = ps_live (pw_state w) a"
      using up_ref_ok [OF ok c(1,2)] ne [symmetric] by blast
    let ?w = "w\<lparr>pw_state := st, pw_held := add_mset (buf_addr d) (pw_held w)\<rparr>"
    let ?st = "st\<lparr>ps_bufs := ps_bufs st, ps_live := (ps_live st)(a := None)\<rparr>"
    have f: "buffer_publish malloc item a (pw_state w) = (Ok (Some (buf_addr d)), ?st)"
      using b r Some u(1) by (simp add: buffer_publish_def Let_def seq_simps)
    have h: "count (pw_held ?w) a \<le> 1" "a \<notin># pw_held ?w" using ab(3) ne by (simp_all add: not_in_iff)
    have na': "\<not> published ?w a d'" for d' using a by (simp add: published_def)
    have s: "stored (ps_bufs st) x = Some y \<longleftrightarrow> published ?w (buf_addr y) (buf_data y) \<and> buf_addr y \<noteq> a \<and> buf_data y = buf_data x" for x y
      using pool_okD(2) [OF u(2), of x y] na' by auto
    have "pool_ok (?w\<lparr>pw_state := (pw_state ?w)\<lparr>ps_bufs := ps_bufs st, ps_live := (ps_live (pw_state ?w))(a := None)\<rparr>,
        pw_held := pw_held ?w, pw_new := pw_new ?w - {a}\<rparr>)"
      by (rule pool_ok_drop [OF u(2) h _ _ s]) (use t u(3) in simp_all)
    then show ?thesis using f b u(4,5) c(3) ne by simp
  qed
qed

lemma pool_step_ok:
  assumes "pool_step w c r w'" "pool_ok w"
  shows "pool_ok w' \<and> (\<exists>x. r = Ok x)"
  using assms
proof (cases rule: pool_step.cases)
  case (step_lookup data st)
  then show ?thesis using lookup_ok [OF assms(2), of data] by (auto split: option.splits)
next
  case (step_alloc malloc data a pooled r st)
  then show ?thesis using alloc_ok [OF assms(2) step_alloc(4-6), of pooled] by auto
next
  case (step_publish malloc a item st)
  obtain x st' where p: "buffer_publish malloc item a (pw_state w) = (Ok x, st')"
    "pool_ok (w\<lparr>pw_state := st', pw_held := pw_held w + (case x of None \<Rightarrow> {#} | Some d \<Rightarrow> {#d#}), pw_new := pw_new w - {a}\<rparr>)"
    using publish_ok [OF assms(2) step_publish(4,3,5,6)] by blast
  then have "r = Ok x" "st = st'" using step_publish(7) by simp_all
  then show ?thesis using p(2) step_publish(2) by (cases x) simp_all
next
  case (step_up_ref a r st)
  then obtain b where b: "ps_live (pw_state w) a = Some b" "a \<notin> pw_new w" using pool_okD(5) [OF assms(2)] by blast
  obtain st' where "CRYPTO_BUFFER_up_ref a (pw_state w) = (Ok (), st')"
    "pool_ok (w\<lparr>pw_state := st', pw_held := add_mset a (pw_held w)\<rparr>)"
    using up_ref_ok [OF assms(2) b] by blast
  then show ?thesis using step_up_ref by auto
next
  case (step_free malloc a r st)
  then show ?thesis using free_ok [OF assms(2) step_free(5,4)] by auto
qed

lemma pool_reach_ok: "pool_reach w0 w \<Longrightarrow> pool_ok w0 \<Longrightarrow> pool_ok w"
  by (induction rule: pool_reach.induct) (auto dest: pool_step_ok)

definition pool_start :: "crypto_buffer lhash \<Rightarrow> pool_world" where
  "pool_start bufs = \<lparr>pw_state = \<lparr>ps_bufs = bufs, ps_live = (\<lambda>_. None)\<rparr>, pw_held = {#}, pw_new = {}\<rparr>"

lemma pool_start_ok:
  assumes "malloc_ok malloc" "CRYPTO_BUFFER_POOL_new malloc = Ok (Some bufs)"
  shows "pool_ok (pool_start bufs)"
proof -
  have "lh_new malloc CRYPTO_BUFFER_hash CRYPTO_BUFFER_cmp = Ok (Some bufs)"
    using assms(2) by (auto simp: CRYPTO_BUFFER_POOL_new_def split: outcome.splits option.splits)
  then show ?thesis
    using pool_table.new_ok [OF assms(1)] by (auto simp: pool_ok_def pool_start_def published_def)
qed

end
