(* ===== verification/Boring_Tables.thy ===== *)
theory Boring_Tables
  imports Boring_Pool_Laws
begin

text \<open>
  The properties of the hash table and of the buffer pool.
\<close>

section \<open>The hash table\<close>

lemma table_elements_distinct:
  assumes "lh_hashing cmp hash" "lh_hashing.table cmp hash lh"
  shows "distinct (map it_data (concat (lh_buckets lh)))"
proof -
  have "distinct (map it_ptr (concat (lh_buckets lh)))"
    using coherent_distinct lh_hashing.tableD(2) [OF assms] by (simp add: items_def)
  then have d: "distinct (concat (lh_buckets lh))" by (simp only: distinct_map)
  have "x = y" if "x \<in> set (concat (lh_buckets lh))" "y \<in> set (concat (lh_buckets lh))" "it_data x = it_data y" for x y
    using lh_hashing.unique [OF assms, of x y] lh_hashing.cmp_refl [OF assms(1)] that unfolding items_set by simp
  then show ?thesis using d by (simp only: distinct_map inj_on_def) blast
qed

text \<open>C26.  For comparison and hash functions that fit together, a table behaves as a map from elements to the
  equal element it holds, in every sequence of calls, whichever allocations fail: each call answers as the map does,
  an insertion fails only without effect and only when it would need memory, and the table stays well formed.\<close>

theorem lh_refines_map:
  assumes "lh_hashing cmp hash" "malloc_ok malloc" "lh_new malloc hash cmp = Ok (Some lh0)" "lh_run malloc_ok lh0 es lh"
  shows "map_events cmp es (\<lambda>_. None) = Some (stored lh) \<and> lh_ok lh"
proof -
  note n = lh_hashing.new_ok [OF assms(1-3)]
  then have t: "lh_hashing.table cmp hash lh0" by blast
  have "\<forall>m. malloc_ok m \<longrightarrow> malloc_ok m" by blast
  from lh_hashing.run_refines [OF assms(1,4) t this] n show ?thesis
    by (simp add: lh_hashing.table_def [OF assms(1)])
qed

text \<open>An example: an insertion, a replacement by an equal element, a deletion.\<close>

definition demo_new :: "crypto_buffer lhash" where
  "demo_new = \<lparr>lh_num_items = 0, lh_buckets = replicate 16 [], lh_num_buckets = 16, lh_callback_depth = 0,
    lh_comp = CRYPTO_BUFFER_cmp, lh_hash = CRYPTO_BUFFER_hash\<rparr>"

definition demo_insert :: "size_t \<Rightarrow> crypto_buffer lhash \<Rightarrow> crypto_buffer option outcome \<times> crypto_buffer lhash"
  where "demo_insert a lh = lh_insert calloc a \<lparr>buf_addr = a, buf_data = [7]\<rparr> lh"

definition demo_delete :: "crypto_buffer lhash \<Rightarrow> crypto_buffer option outcome \<times> crypto_buffer lhash"
  where "demo_delete lh = lh_delete calloc \<lparr>buf_addr = 0, buf_data = [7]\<rparr> lh"

definition demo_one :: "crypto_buffer lhash" where "demo_one = snd (demo_insert 1 demo_new)"
definition demo_two :: "crypto_buffer lhash" where "demo_two = snd (demo_insert 2 demo_one)"

lemma demo_results:
  "fst (demo_insert 1 demo_new) = Ok None"
  "fst (demo_insert 2 demo_one) = Ok (Some \<lparr>buf_addr = 1, buf_data = [7]\<rparr>)"
  "fst (demo_delete demo_two) = Ok (Some \<lparr>buf_addr = 2, buf_data = [7]\<rparr>)"
  "list_all (\<lambda>it. it_ptr it \<noteq> 2) (concat (lh_buckets demo_one))"
  by code_simp+

lemma demo_new: "lh_new calloc CRYPTO_BUFFER_hash CRYPTO_BUFFER_cmp = Ok (Some demo_new)"
  by (simp add: lh_new_def demo_new_def OPENSSL_malloc_def calloc_def kMinNumBuckets_def OPENSSL_MALLOC_PREFIX_def
    sizeof_LHASH_def sizeof_pointer_def)

lemma demo_run:
  assumes "allowed calloc"
  shows "lh_run allowed demo_new [Inserted \<lparr>buf_addr = 1, buf_data = [7]\<rparr> (Ok None),
    Inserted \<lparr>buf_addr = 2, buf_data = [7]\<rparr> (Ok (Some \<lparr>buf_addr = 1, buf_data = [7]\<rparr>)),
    Deleted \<lparr>buf_addr = 0, buf_data = [7]\<rparr> (Ok (Some \<lparr>buf_addr = 2, buf_data = [7]\<rparr>))] (snd (demo_delete demo_two))"
proof -
  have r: "demo_insert 1 demo_new = (Ok None, demo_one)"
    "demo_insert 2 demo_one = (Ok (Some \<lparr>buf_addr = 1, buf_data = [7]\<rparr>), demo_two)"
    "demo_delete demo_two = (Ok (Some \<lparr>buf_addr = 2, buf_data = [7]\<rparr>), snd (demo_delete demo_two))"
    using demo_results by (simp_all add: demo_one_def demo_two_def prod_eq_iff)
  have f1: "1 \<notin> it_ptr ` set_mset (items demo_new)" by (simp add: items_def demo_new_def)
  have f2: "2 \<notin> it_ptr ` set_mset (items demo_one)"
    using demo_results(4) unfolding items_def set_mset_mset by (auto simp: list_all_iff)
  have one: "lh_run allowed demo_new ([] @ [Inserted \<lparr>buf_addr = 1, buf_data = [7]\<rparr> (Ok None)]) demo_one"
    by (rule run_insert [where allowed = allowed and malloc = calloc and ptr = 1 and lh = demo_new])
      (use r(1) f1 assms in \<open>simp_all add: demo_insert_def run_start\<close>)
  have two: "lh_run allowed demo_new (([] @ [Inserted \<lparr>buf_addr = 1, buf_data = [7]\<rparr> (Ok None)]) @
      [Inserted \<lparr>buf_addr = 2, buf_data = [7]\<rparr> (Ok (Some \<lparr>buf_addr = 1, buf_data = [7]\<rparr>))]) demo_two"
    by (rule run_insert [where allowed = allowed and malloc = calloc and ptr = 2, OF one])
      (use r(2) f2 assms in \<open>simp_all add: demo_insert_def\<close>)
  show ?thesis
    using run_delete [where allowed = allowed and malloc = calloc, OF two assms r(3) [unfolded demo_delete_def]]
    by (simp add: demo_delete_def)
qed

lemma lh_refines_map_witness:
  "map_events CRYPTO_BUFFER_cmp [Inserted \<lparr>buf_addr = 1, buf_data = [7]\<rparr> (Ok None),
    Inserted \<lparr>buf_addr = 2, buf_data = [7]\<rparr> (Ok (Some \<lparr>buf_addr = 1, buf_data = [7]\<rparr>)),
    Deleted \<lparr>buf_addr = 0, buf_data = [7]\<rparr> (Ok (Some \<lparr>buf_addr = 2, buf_data = [7]\<rparr>))] (\<lambda>_. None) =
      Some (stored (snd (demo_delete demo_two))) \<and> lh_ok (snd (demo_delete demo_two))"
  by (rule lh_refines_map [OF pool_table.lh_hashing_axioms calloc_ok(1) demo_new demo_run [of malloc_ok, OF calloc_ok(1)]])

text \<open>C27.  Load: while no allocation fails, insertions and deletions keep fewer than three items per
  bucket on average (up to $2^{60}$ buckets, where the table no longer grows), and at least one, unless
  the table has its least size.\<close>

theorem lh_load_bounded:
  assumes "lh_hashing cmp hash" "malloc_ok malloc" "lh_new malloc hash cmp = Ok (Some lh0)"
    and "lh_run (\<lambda>m. malloc_ok m \<and> (\<forall>k. m k \<noteq> None)) lh0 es lh"
  shows "well_loaded lh"
proof -
  note n = lh_hashing.new_ok [OF assms(1-3)]
  then have t: "lh_hashing.table cmp hash lh0" and d: "lh_callback_depth lh0 = 0" by blast+
  have "unat (lh_num_items lh0) = 0" using lh_hashing.tableD(3) [OF assms(1) t] n by simp
  then have "well_loaded lh0" using n by (simp add: well_loaded_def)
  then show ?thesis using lh_hashing.run_loaded [OF assms(1,4) t _ d] by blast
qed

lemma lh_load_bounded_witness: "well_loaded (snd (demo_delete demo_two))"
  using lh_load_bounded [OF pool_table.lh_hashing_axioms calloc_ok(1) demo_new
    demo_run [of "\<lambda>m. malloc_ok m \<and> (\<forall>k. m k \<noteq> None)"]] calloc_ok by blast

text \<open>C28.  Iteration with a callback that deletes some of the elements it is called with (as the flush of a
  session cache does): the walk comes to its end, although the chains change under it; it calls the callback once
  for every element, touches no freed item, and leaves exactly the elements that were not deleted.\<close>

theorem lh_doall_visits_all:
  assumes "lh_hashing cmp hash" "malloc_ok malloc" "lh_new malloc hash cmp = Ok (Some lh0)"
    and "lh_run malloc_ok lh0 es lh" "malloc_ok malloc'"
  shows "\<exists>lh' seen. lh_doall malloc' (Some lh) (sweep malloc' P) [] = Some (Ok (), Some lh', seen) \<and>
    distinct seen \<and> length seen = unat (lh_num_items lh) \<and> (\<forall>x \<in> set seen. stored lh x = Some x) \<and>
    lh_ok lh' \<and> stored lh' = (\<lambda>e. case stored lh e of None \<Rightarrow> None | Some x \<Rightarrow> if P x then None else Some x)"
proof -
  have t0: "lh_hashing.table cmp hash lh0" using lh_hashing.new_ok [OF assms(1-3)] by blast
  have "\<forall>m. malloc_ok m \<longrightarrow> malloc_ok m" by blast
  with lh_hashing.run_refines [OF assms(1,4) t0] have t: "lh_hashing.table cmp hash lh" by blast
  obtain lh' where d: "lh_doall_internal malloc' (sweep malloc' P) (lh, []) =
      Some (Ok (), lh', map it_data (concat (lh_buckets lh)))" "lh_hashing.table cmp hash lh'"
    "stored lh' = (\<lambda>e. case stored lh e of None \<Rightarrow> None | Some x \<Rightarrow> if P x then None else Some x)"
    using lh_hashing.doall_sweeps [OF assms(1) t assms(5)] by blast
  have "stored lh x = Some x" if "x \<in> set (map it_data (concat (lh_buckets lh)))" for x
  proof -
    from that obtain it where "it \<in># items lh" "it_data it = x" unfolding items_set set_map by blast
    then show ?thesis using lh_hashing.stored_iff [OF assms(1) t, of x x] lh_hashing.cmp_refl [OF assms(1)] by blast
  qed
  moreover have "length (map it_data (concat (lh_buckets lh))) = unat (lh_num_items lh)"
    using lh_hashing.tableD(3) [OF assms(1) t] by (simp add: items_def)
  ultimately show ?thesis
    using d table_elements_distinct [OF assms(1) t] lh_hashing.tableD(1) [OF assms(1) d(2)]
    by (auto simp: lh_doall_def)
qed

lemma lh_doall_visits_all_witness:
  "\<exists>lh' seen. lh_doall calloc (Some (snd (demo_delete demo_two))) (sweep calloc (\<lambda>b. buf_data b = [7])) [] = Some (Ok (), Some lh', seen) \<and>
    distinct seen \<and> length seen = unat (lh_num_items (snd (demo_delete demo_two))) \<and> lh_ok lh'"
  using lh_doall_visits_all [OF pool_table.lh_hashing_axioms calloc_ok(1) demo_new demo_run [of malloc_ok, OF calloc_ok(1)] calloc_ok(1)]
  by meson

section \<open>The buffer pool\<close>

text \<open>C29.  Threads that only give back references they hold can call the pool in any interleaving of the
  sections its lock separates: no call is undefined, none of the assertions of \<^verbatim>\<open>pool.c\<close> fails, no
  freed buffer is touched, and what a thread holds stays alive.\<close>

theorem pool_calls_defined:
  assumes "malloc_ok malloc" "CRYPTO_BUFFER_POOL_new malloc = Ok (Some bufs)"
    and "pool_reach (pool_start bufs) w" "pool_step w c r w'"
  shows "(\<exists>x. r = Ok x) \<and> (\<forall>a. a \<in># pw_held w' \<longrightarrow> (\<exists>data. CRYPTO_BUFFER_data a (pw_state w') = Ok data))"
proof -
  have "pool_ok w" using pool_reach_ok [OF assms(3) pool_start_ok [OF assms(1,2)]] .
  then have "pool_ok w'" "\<exists>x. r = Ok x" using pool_step_ok [OF assms(4)] by blast+
  then show ?thesis using pool_okD(5) by (auto simp: CRYPTO_BUFFER_data_def dest!: pool_okD(5))
qed

text \<open>An example: a buffer made, and published.\<close>

lemma demo_pool: "CRYPTO_BUFFER_POOL_new calloc = Ok (Some demo_new)"
  using demo_new by (simp add: CRYPTO_BUFFER_POOL_new_def OPENSSL_malloc_def calloc_def OPENSSL_MALLOC_PREFIX_def
    sizeof_CRYPTO_BUFFER_POOL_def)

lemma demo_alloc:
  "pool_step (pool_start demo_new) (Alloc 1 [7] pooled) (Ok (Some 1))
    \<lparr>pw_state = \<lparr>ps_bufs = demo_new, ps_live = [1 \<mapsto> \<lparr>bo_data = [7], bo_pooled = pooled, bo_references = 1\<rparr>]\<rparr>,
     pw_held = (if pooled then {#} else {#1#}), pw_new = (if pooled then {1} else {})\<rparr>"
proof -
  have b: "buffer_alloc calloc 1 [7] pooled (pw_state (pool_start demo_new)) =
      (Ok (), \<lparr>ps_bufs = demo_new, ps_live = [1 \<mapsto> \<lparr>bo_data = [7], bo_pooled = pooled, bo_references = 1\<rparr>]\<rparr>)"
    by (simp add: buffer_alloc_def pool_start_def OPENSSL_malloc_def calloc_def OPENSSL_MALLOC_PREFIX_def
      sizeof_CRYPTO_BUFFER_def BUF_memdup_def put_bytes_def)
  show ?thesis
    using step_alloc [where w = "pool_start demo_new" and a = 1 and data = "[7]" and malloc = calloc, OF calloc_ok(1) _ _ b]
    by (cases pooled) (simp_all add: pool_start_def)
qed

lemma demo_publish:
  "\<exists>w. pool_reach (pool_start demo_new) w \<and> published w 1 [7]"
proof -
  let ?b = "\<lparr>bo_data = [7], bo_pooled = True, bo_references = 1\<rparr>"
  let ?w = "\<lparr>pw_state = \<lparr>ps_bufs = demo_new, ps_live = [1 \<mapsto> ?b]\<rparr>, pw_held = {#}, pw_new = {1}\<rparr>"
  have "lh_retrieve demo_new \<lparr>buf_addr = 1, buf_data = [7]\<rparr> = Ok None" by code_simp
  moreover have "lh_insert calloc 1 \<lparr>buf_addr = 1, buf_data = [7]\<rparr> demo_new = (Ok None, demo_one)"
    using demo_results(1) by (simp add: demo_one_def demo_insert_def prod_eq_iff)
  ultimately have p: "buffer_publish calloc 1 1 (pw_state ?w) = (Ok (Some 1), \<lparr>ps_bufs = demo_one, ps_live = [1 \<mapsto> ?b]\<rparr>)"
    by (simp add: buffer_publish_def)
  have "pool_step ?w (Publish 1) (Ok (Some 1))
      (?w\<lparr>pw_state := \<lparr>ps_bufs = demo_one, ps_live = [1 \<mapsto> ?b]\<rparr>, pw_held := {#1#}, pw_new := {}\<rparr>)"
    using step_publish [where w = ?w and a = 1 and item = 1, OF calloc_ok(1) _ _ _ p] by (simp add: items_def demo_new_def)
  moreover have "pool_reach (pool_start demo_new) ?w" using reach_step [OF reach_start demo_alloc [of True]] by simp
  ultimately have "pool_reach (pool_start demo_new)
      (?w\<lparr>pw_state := \<lparr>ps_bufs = demo_one, ps_live = [1 \<mapsto> ?b]\<rparr>, pw_held := {#1#}, pw_new := {}\<rparr>)"
    using reach_step by blast
  moreover have "published (?w\<lparr>pw_state := \<lparr>ps_bufs = demo_one, ps_live = [1 \<mapsto> ?b]\<rparr>, pw_held := {#1#}, pw_new := {}\<rparr>) 1 [7]"
    by (simp add: published_def)
  ultimately show ?thesis by blast
qed

lemma pool_calls_defined_witness:
  "\<exists>w' data. pool_step (pool_start demo_new) (Alloc 1 [7] False) (Ok (Some 1)) w' \<and> CRYPTO_BUFFER_data 1 (pw_state w') = Ok data"
  using pool_calls_defined [OF calloc_ok(1) demo_pool reach_start demo_alloc [of False]] demo_alloc [of False] by auto

text \<open>C30.  Interning: at every moment two published buffers with the same bytes are one buffer; a lookup
  returns the published buffer with the given bytes, and null exactly when there is none; a buffer lives, outside
  \<^verbatim>\<open>CRYPTO_BUFFER_new\<close>, as long as its count says, which is the number of references held unless it is saturated.\<close>

theorem pool_interns:
  assumes "malloc_ok malloc" "CRYPTO_BUFFER_POOL_new malloc = Ok (Some bufs)" "pool_reach (pool_start bufs) w"
  shows "(\<forall>a a' data. published w a data \<and> published w a' data \<longrightarrow> a' = a) \<and>
    (\<forall>data. \<exists>r st. buffer_lookup data (pw_state w) = (Ok r, st) \<and> (\<forall>a. r = Some a \<longleftrightarrow> published w a data)) \<and>
    (\<forall>a b. ps_live (pw_state w) a = Some b \<and> a \<notin> pw_new w \<and> bo_references b \<noteq> CRYPTO_REFCOUNT_MAX \<longrightarrow>
      0 < count (pw_held w) a \<and> unat (bo_references b) = count (pw_held w) a)"
proof -
  have ok: "pool_ok w" using pool_reach_ok [OF assms(3) pool_start_ok [OF assms(1,2)]] .
  have one: "a' = a" if "published w a data" "published w a' data" for a a' data
    using that pool_okD(2) [OF ok, of "\<lparr>buf_addr = a, buf_data = data\<rparr>" "\<lparr>buf_addr = a, buf_data = data\<rparr>"]
      pool_okD(2) [OF ok, of "\<lparr>buf_addr = a, buf_data = data\<rparr>" "\<lparr>buf_addr = a', buf_data = data\<rparr>"] by simp
  moreover have "\<exists>r st. buffer_lookup data (pw_state w) = (Ok r, st) \<and> (\<forall>a. r = Some a \<longleftrightarrow> published w a data)" for data
  proof -
    obtain r st where l: "buffer_lookup data (pw_state w) = (Ok r, st)"
      "case r of None \<Rightarrow> \<forall>a. \<not> published w a data | Some a \<Rightarrow> published w a data"
      using lookup_ok [OF ok, of data] by (auto split: option.splits)
    then have "\<forall>a. r = Some a \<longleftrightarrow> published w a data" using one by (cases r) auto
    with l(1) show ?thesis by blast
  qed
  moreover have "0 < count (pw_held w) a \<and> unat (bo_references b) = count (pw_held w) a"
    if "ps_live (pw_state w) a = Some b" "a \<notin> pw_new w" "bo_references b \<noteq> CRYPTO_REFCOUNT_MAX" for a b
    using pool_okD(3) [OF ok that(1,2)] that(3) by (auto simp: counted_def simp flip: unat_eq_0)
  ultimately show ?thesis using one by (intro conjI allI impI) (blast | simp)+
qed

lemma pool_interns_witness:
  "\<exists>w st. pool_reach (pool_start demo_new) w \<and> buffer_lookup [7] (pw_state w) = (Ok (Some 1), st)"
proof -
  obtain w where w: "pool_reach (pool_start demo_new) w" "published w 1 [7]" using demo_publish by blast
  note i = pool_interns [OF calloc_ok(1) demo_pool w(1), THEN conjunct2, THEN conjunct1, rule_format, of "[7]"]
  from i obtain r st where l: "buffer_lookup [7] (pw_state w) = (Ok r, st)" "\<forall>a. r = Some a \<longleftrightarrow> published w a [7]" by (elim exE conjE)
  then have "r = Some 1" using w(2) by simp
  with l(1) w(1) show ?thesis by (intro exI conjI) simp_all
qed

end
