(* ===== verification/Boring_Stack.thy ===== *)
theory Boring_Stack
  imports Boring_Mem "HOL-Library.Multiset"
begin

text \<open>
  The array of pointers of \<^verbatim>\<open>crypto/stack/stack.c\<close>.  A pointer is an element or \<open>None\<close>, the null
  pointer.  Function pointers can be compared, so a comparison function is an identifier \<open>'f\<close> and \<open>call\<close>
  gives its behaviour.  \<^verbatim>\<open>qsort\<close> and \<^verbatim>\<open>bsearch\<close> of the C library are a parameter, as their results
  on equal elements are not specified.  The slots of a grown array hold whatever was in memory
  (\<open>fill\<close>).  A null stack is \<open>None\<close> for the functions that only read; the functions that change a stack
  return zero or null at once for a null one, and are given here for a stack.
\<close>

section \<open>The C library\<close>

record 'e sorting =
  c_qsort :: "('e \<Rightarrow> 'e \<Rightarrow> int) \<Rightarrow> 'e list \<Rightarrow> 'e list"
  c_bsearch :: "('e \<Rightarrow> 'e \<Rightarrow> int) \<Rightarrow> 'e \<Rightarrow> 'e list \<Rightarrow> nat option"

text \<open>What the C standard says, for a comparison that is consistent: \<^verbatim>\<open>qsort\<close> leaves a sorted permutation, and
  \<^verbatim>\<open>bsearch\<close> in an array in order finds some matching element if there is one.  With any other comparison, or
  in an array out of order, they may do anything.\<close>

definition consistent :: "('e \<Rightarrow> 'e \<Rightarrow> int) \<Rightarrow> bool" where
  "consistent cmp \<longleftrightarrow> (\<forall>a b. (cmp a b < 0 \<longleftrightarrow> 0 < cmp b a) \<and> (cmp a b = 0 \<longleftrightarrow> cmp b a = 0)) \<and>
    (\<forall>a b c. cmp a b \<le> 0 \<longrightarrow> cmp b c \<le> 0 \<longrightarrow> cmp a c \<le> 0)"

definition ordered :: "('e \<Rightarrow> 'e \<Rightarrow> int) \<Rightarrow> 'e list \<Rightarrow> bool"
  where "ordered cmp xs \<longleftrightarrow> sorted_wrt (\<lambda>a b. cmp a b \<le> 0) xs"

definition sorting_ok :: "'e sorting \<Rightarrow> bool" where
  "sorting_ok lib \<longleftrightarrow>
    (\<forall>cmp xs. consistent cmp \<longrightarrow> mset (c_qsort lib cmp xs) = mset xs \<and> ordered cmp (c_qsort lib cmp xs)) \<and>
    (\<forall>cmp k xs. consistent cmp \<longrightarrow> ordered cmp xs \<longrightarrow>
      (case c_bsearch lib cmp k xs of
         None \<Rightarrow> \<forall>x \<in> set xs. cmp k x \<noteq> 0
       | Some i \<Rightarrow> i < length xs \<and> cmp k (xs ! i) = 0))"

section \<open>The stack\<close>

record ('a, 'f) stack =
  sk_num_field :: size_t
  sk_data :: "'a option list"
  sk_sorted :: bool
  sk_num_alloc :: size_t
  sk_comp :: "'f option"

definition kMinSize :: size_t where "kMinSize = 4"
definition sizeof_STACK :: size_t where "sizeof_STACK = 40"
definition sizeof_ptr :: size_t where "sizeof_ptr = 8"

definition sk_new :: "c_malloc \<Rightarrow> 'f option \<Rightarrow> ('a, 'f) stack option outcome" where
  "sk_new malloc comp_id =
    (case OPENSSL_malloc malloc sizeof_STACK of
       Ok (Some _) \<Rightarrow>
         (case OPENSSL_malloc malloc (sizeof_ptr * kMinSize) of
            Ok (Some _) \<Rightarrow>
              Ok (Some \<lparr>sk_num_field = 0, sk_data = replicate (unat kMinSize) None, sk_sorted = False,
                sk_num_alloc = kMinSize, sk_comp = comp_id\<rparr>)
          | Ok None \<Rightarrow> Ok None | Fail \<Rightarrow> Fail | Undef \<Rightarrow> Undef)
     | Ok None \<Rightarrow> Ok None | Fail \<Rightarrow> Fail | Undef \<Rightarrow> Undef)"

definition sk_new_null :: "c_malloc \<Rightarrow> ('a, 'f) stack option outcome"
  where "sk_new_null malloc = sk_new malloc None"

definition sk_num :: "('a, 'f) stack option \<Rightarrow> size_t"
  where "sk_num sk = (case sk of None \<Rightarrow> 0 | Some s \<Rightarrow> sk_num_field s)"

definition sk_zero :: "('a, 'f) stack \<Rightarrow> unit outcome \<times> ('a, 'f) stack" where
  "sk_zero sk =
    (if sk_num_field sk = 0 then (Ok (), sk)
     else if length (sk_data sk) < unat (sk_num_field sk) then (Undef, sk)
     else (Ok (), sk\<lparr>sk_data := replicate (unat (sk_num_field sk)) None @ drop (unat (sk_num_field sk)) (sk_data sk),
             sk_num_field := 0, sk_sorted := False\<rparr>))"

text \<open>Reading a slot; the result \<open>None\<close> is the null pointer.\<close>

definition slot :: "('a, 'f) stack \<Rightarrow> size_t \<Rightarrow> 'a option outcome"
  where "slot sk i = (if unat i < length (sk_data sk) then Ok (sk_data sk ! unat i) else Undef)"

definition sk_value :: "('a, 'f) stack option \<Rightarrow> size_t \<Rightarrow> 'a option outcome" where
  "sk_value sk i =
    (case sk of None \<Rightarrow> Ok None | Some s \<Rightarrow> if sk_num_field s \<le> i then Ok None else slot s i)"

definition sk_set :: "size_t \<Rightarrow> 'a option \<Rightarrow> ('a, 'f) stack \<Rightarrow> 'a option outcome \<times> ('a, 'f) stack" where
  "sk_set i value sk =
    (if sk_num_field sk \<le> i then (Ok None, sk)
     else if length (sk_data sk) \<le> unat i then (Undef, sk)
     else (Ok value, sk\<lparr>sk_data := (sk_data sk)[unat i := value]\<rparr>))"

text \<open>The elements handed to \<^verbatim>\<open>func\<close>, in order.\<close>

definition sk_pop_free :: "('a, 'f) stack option \<Rightarrow> 'a list outcome" where
  "sk_pop_free sk =
    (case sk of
       None \<Rightarrow> Ok []
     | Some s \<Rightarrow>
         if length (sk_data s) < unat (sk_num_field s) then Undef
         else Ok (List.map_filter id (take (unat (sk_num_field s)) (sk_data s))))"

section \<open>Insertion and deletion\<close>

text \<open>The room for one more element and a spare one; \<open>Fail\<close> is the return value zero.\<close>

definition sk_grow :: "c_malloc \<Rightarrow> 'a option \<Rightarrow> ('a, 'f) stack \<Rightarrow> unit outcome \<times> ('a, 'f) stack" where
  "sk_grow malloc fill sk =
    (if sk_num_field sk + 1 < sk_num_alloc sk then (Ok (), sk)
     else
       let n0 = push_bit 1 (sk_num_alloc sk);
           n = (if n0 < sk_num_alloc sk \<or> (n0 * sizeof_ptr) div sizeof_ptr \<noteq> n0 then sk_num_alloc sk + 1 else n0)
       in if n < sk_num_alloc sk \<or> (n * sizeof_ptr) div sizeof_ptr \<noteq> n then (Fail, sk)
          else case OPENSSL_malloc malloc (n * sizeof_ptr) of
              Ok (Some _) \<Rightarrow>
                (Ok (), sk\<lparr>sk_data := take (unat n) (sk_data sk) @ replicate (unat n - length (sk_data sk)) fill,
                   sk_num_alloc := n\<rparr>)
            | Ok None \<Rightarrow> (Fail, sk) | Fail \<Rightarrow> (Fail, sk) | Undef \<Rightarrow> (Undef, sk))"

definition sk_insert :: "c_malloc \<Rightarrow> 'a option \<Rightarrow> 'a option \<Rightarrow> size_t \<Rightarrow> ('a, 'f) stack \<Rightarrow> size_t outcome \<times> ('a, 'f) stack" where
  "sk_insert malloc fill p pos =
    seq (sk_grow malloc fill)
      (\<lambda>_ sk. let n = unat (sk_num_field sk); i = unat pos; d = sk_data sk in
         if length d < n + 1 then (Undef, sk)
         else
           let d' = (if n \<le> i then d[n := p] else take i d @ p # take (n - i) (drop i d) @ drop (n + 1) d)
           in (Ok (sk_num_field sk + 1), sk\<lparr>sk_data := d', sk_num_field := sk_num_field sk + 1, sk_sorted := False\<rparr>))"

definition sk_delete :: "size_t \<Rightarrow> ('a, 'f) stack \<Rightarrow> 'a option outcome \<times> ('a, 'f) stack" where
  "sk_delete pos sk =
    (let n = unat (sk_num_field sk); i = unat pos; d = sk_data sk in
     if sk_num_field sk \<le> pos then (Ok None, sk)
     else if length d < n then (Undef, sk)
     else
       (Ok (d ! i), sk\<lparr>sk_data := (if pos \<noteq> sk_num_field sk - 1 then take i d @ take (n - i - 1) (drop (i + 1) d) @ drop (n - 1) d else d),
          sk_num_field := sk_num_field sk - 1\<rparr>))"

text \<open>The first index of a pointer.\<close>

definition find_ptr :: "'a option \<Rightarrow> ('a, 'f) stack \<Rightarrow> nat option" where
  "find_ptr p sk =
    (let i = length (takeWhile (\<lambda>x. x \<noteq> p) (take (unat (sk_num_field sk)) (sk_data sk)))
     in if i < unat (sk_num_field sk) then Some i else None)"

definition sk_delete_ptr :: "'a option \<Rightarrow> ('a, 'f) stack \<Rightarrow> 'a option outcome \<times> ('a, 'f) stack" where
  "sk_delete_ptr p sk =
    (if length (sk_data sk) < unat (sk_num_field sk) then (Undef, sk)
     else case find_ptr p sk of None \<Rightarrow> (Ok None, sk) | Some i \<Rightarrow> sk_delete (of_nat i) sk)"

definition sk_shift :: "('a, 'f) stack \<Rightarrow> 'a option outcome \<times> ('a, 'f) stack"
  where "sk_shift sk = (if sk_num_field sk = 0 then (Ok None, sk) else sk_delete 0 sk)"

definition sk_push :: "c_malloc \<Rightarrow> 'a option \<Rightarrow> 'a option \<Rightarrow> ('a, 'f) stack \<Rightarrow> size_t outcome \<times> ('a, 'f) stack"
  where "sk_push malloc fill p sk = sk_insert malloc fill p (sk_num_field sk) sk"

definition sk_pop :: "('a, 'f) stack \<Rightarrow> 'a option outcome \<times> ('a, 'f) stack"
  where "sk_pop sk = (if sk_num_field sk = 0 then (Ok None, sk) else sk_delete (sk_num_field sk - 1) sk)"

section \<open>Sorting and searching\<close>

definition sk_sort :: "'a option sorting \<Rightarrow> ('f \<Rightarrow> 'a option \<Rightarrow> 'a option \<Rightarrow> int) \<Rightarrow> ('a, 'f) stack \<Rightarrow> unit outcome \<times> ('a, 'f) stack" where
  "sk_sort lib call sk =
    (case sk_comp sk of
       None \<Rightarrow> (Ok (), sk)
     | Some f \<Rightarrow>
         if sk_sorted sk then (Ok (), sk)
         else
           let n = unat (sk_num_field sk) in
           if length (sk_data sk) < n then (Undef, sk)
           else (Ok (), sk\<lparr>sk_data := c_qsort lib (call f) (take n (sk_data sk)) @ drop n (sk_data sk), sk_sorted := True\<rparr>))"

definition sk_is_sorted :: "('a, 'f) stack option \<Rightarrow> bool"
  where "sk_is_sorted sk = (case sk of None \<Rightarrow> True | Some s \<Rightarrow> sk_sorted s)"

definition sk_set_cmp_func :: "'f option \<Rightarrow> ('a, 'f) stack \<Rightarrow> 'f option \<times> ('a, 'f) stack" where
  "sk_set_cmp_func f sk =
    (sk_comp sk, sk\<lparr>sk_sorted := sk_sorted sk \<and> sk_comp sk = f, sk_comp := f\<rparr>)"

text \<open>Back to the first of the equal elements.\<close>

fun first_match :: "('e \<Rightarrow> 'e \<Rightarrow> int) \<Rightarrow> 'e \<Rightarrow> 'e list \<Rightarrow> nat \<Rightarrow> nat" where
  "first_match cmp p d 0 = 0"
| "first_match cmp p d (Suc i) = (if cmp p (d ! i) = 0 then first_match cmp p d i else Suc i)"

definition sk_find ::
  "'a option sorting \<Rightarrow> ('f \<Rightarrow> 'a option \<Rightarrow> 'a option \<Rightarrow> int) \<Rightarrow> 'a option \<Rightarrow> ('a, 'f) stack \<Rightarrow>
    nat option outcome \<times> ('a, 'f) stack" where
  "sk_find lib call p sk =
    (if length (sk_data sk) < unat (sk_num_field sk) then (Undef, sk)
     else case sk_comp sk of
         None \<Rightarrow> (Ok (find_ptr p sk), sk)
       | Some f \<Rightarrow>
           if p = None then (Ok None, sk)
           else seq (sk_sort lib call)
             (\<lambda>_ sk. case c_bsearch lib (call f) p (take (unat (sk_num_field sk)) (sk_data sk)) of
                None \<Rightarrow> (Ok None, sk)
              | Some idx \<Rightarrow> (Ok (Some (first_match (call f) p (sk_data sk) idx)), sk)) sk)"

section \<open>Copies\<close>

definition sk_dup :: "c_malloc \<Rightarrow> 'a option \<Rightarrow> ('a, 'f) stack option \<Rightarrow> ('a, 'f) stack option outcome" where
  "sk_dup malloc fill sk =
    (case sk of
       None \<Rightarrow> Ok None
     | Some s \<Rightarrow>
         (case sk_new malloc (sk_comp s) :: ('a, 'f) stack option outcome of
            Ok (Some r) \<Rightarrow>
              (case OPENSSL_malloc malloc (sizeof_ptr * sk_num_alloc s) of
                 Ok (Some _) \<Rightarrow>
                   let n = unat (sk_num_field s) in
                   if length (sk_data s) < n \<or> unat (sk_num_alloc s) < n then Undef
                   else Ok (Some \<lparr>sk_num_field = sk_num_field s,
                     sk_data = take n (sk_data s) @ replicate (unat (sk_num_alloc s) - n) fill,
                     sk_sorted = sk_sorted s, sk_num_alloc = sk_num_alloc s, sk_comp = sk_comp s\<rparr>)
               | Ok None \<Rightarrow> Ok None | Fail \<Rightarrow> Fail | Undef \<Rightarrow> Undef)
          | Ok None \<Rightarrow> Ok None | Fail \<Rightarrow> Fail | Undef \<Rightarrow> Undef))"

text \<open>The loop of \<^verbatim>\<open>sk_deep_copy\<close> over the pointers of the duplicate, with the copies made so far; the
  functions act on a state \<open>'s\<close> of the client.  The result is the new pointers, or \<open>None\<close> after the
  copies have been freed.\<close>

fun copy_loop :: "('a \<Rightarrow> 's \<Rightarrow> 'a option \<times> 's) \<Rightarrow> ('a \<Rightarrow> 's \<Rightarrow> 's) \<Rightarrow> 'a option list \<Rightarrow> 'a option list \<Rightarrow> 's \<Rightarrow>
    'a option list option \<times> 's" where
  "copy_loop copy_func free_func front [] st = (Some front, st)"
| "copy_loop copy_func free_func front (x # rest) st =
    (case x of
       None \<Rightarrow> copy_loop copy_func free_func (front @ [None]) rest st
     | Some e \<Rightarrow>
         (case copy_func e st of
            (None, st') \<Rightarrow> (None, fold free_func (List.map_filter id front) st')
          | (Some c, st') \<Rightarrow> copy_loop copy_func free_func (front @ [Some c]) rest st'))"

definition sk_deep_copy :: "c_malloc \<Rightarrow> 'a option \<Rightarrow> ('a \<Rightarrow> 's \<Rightarrow> 'a option \<times> 's) \<Rightarrow> ('a \<Rightarrow> 's \<Rightarrow> 's) \<Rightarrow>
    ('a, 'f) stack option \<Rightarrow> 's \<Rightarrow> ('a, 'f) stack option outcome \<times> 's" where
  "sk_deep_copy malloc fill copy_func free_func sk st =
    (case sk_dup malloc fill sk of
       Ok None \<Rightarrow> (Ok None, st)
     | Fail \<Rightarrow> (Fail, st) | Undef \<Rightarrow> (Undef, st)
     | Ok (Some r) \<Rightarrow>
         let n = unat (sk_num_field r) in
         (case copy_loop copy_func free_func [] (take n (sk_data r)) st of
            (None, st') \<Rightarrow> (Ok None, st')
          | (Some d, st') \<Rightarrow> (Ok (Some (r\<lparr>sk_data := d @ drop n (sk_data r)\<rparr>)), st')))"

end
