(* ===== verification/Boring_Stack_Laws.thy ===== *)
theory Boring_Stack_Laws
  imports Boring_Stack
begin

text \<open>
  The stack against lists: its well-formedness, and each call as an operation on the list of its
  pointers.
\<close>

definition sk_ok :: "('a, 'f) stack \<Rightarrow> bool" where
  "sk_ok sk \<longleftrightarrow> length (sk_data sk) = unat (sk_num_alloc sk) \<and> sk_num_field sk \<le> sk_num_alloc sk \<and>
    0 < unat (sk_num_alloc sk) \<and> unat (sk_num_alloc sk) \<le> 2 ^ 59"

definition contents :: "('a, 'f) stack \<Rightarrow> 'a option list"
  where "contents sk = take (unat (sk_num_field sk)) (sk_data sk)"

lemma sk_okD:
  assumes "sk_ok sk"
  shows "unat (sk_num_field sk) \<le> length (sk_data sk)" "length (contents sk) = unat (sk_num_field sk)"
    "unat (sk_num_field sk) \<le> 2 ^ 59" "length (sk_data sk) = unat (sk_num_alloc sk)"
  using assms by (auto simp: sk_ok_def contents_def word_le_nat_alt)

lemma grow_ok:
  assumes ok: "sk_ok sk" and m: "malloc_ok malloc" and n: "unat (sk_num_field sk) < 2 ^ 58"
  shows "\<exists>r sk'. sk_grow malloc fill sk = (r, sk') \<and>
    (r = Ok () \<and> sk_ok sk' \<and> sk_num_field sk' = sk_num_field sk \<and> contents sk' = contents sk \<and>
       sk_sorted sk' = sk_sorted sk \<and> sk_comp sk' = sk_comp sk \<and> unat (sk_num_field sk) < length (sk_data sk') \<or>
     r = Fail \<and> sk' = sk \<and> (\<exists>k. malloc k = None))"
proof -
  have u1: "unat (sk_num_field sk + 1) = unat (sk_num_field sk) + 1" using n by (simp add: unat_word_ariths)
  have d: "length (sk_data sk) = unat (sk_num_alloc sk)" "0 < unat (sk_num_alloc sk)" "unat (sk_num_field sk) \<le> unat (sk_num_alloc sk)"
    using ok by (simp_all add: sk_ok_def word_le_nat_alt)
  show ?thesis
  proof (cases "sk_num_field sk + 1 < sk_num_alloc sk")
    case True
    then have "unat (sk_num_field sk) < length (sk_data sk)" using u1 d by (simp add: word_less_nat_alt)
    then show ?thesis using True ok by (simp add: sk_grow_def)
  next
    case False
    then have a: "unat (sk_num_alloc sk) \<le> 2 ^ 58" using u1 n by (simp add: word_less_nat_alt)
    let ?n = "push_bit 1 (sk_num_alloc sk)"
    have un: "unat ?n = 2 * unat (sk_num_alloc sk)"
      using a by (simp add: unat_word_ariths)
    have us: "unat (?n * sizeof_ptr) = 8 * unat ?n" using a un by (simp add: sizeof_ptr_def unat_word_ariths)
    then have "unat ((?n * sizeof_ptr) div sizeof_ptr) = unat ?n" by (simp add: unat_div sizeof_ptr_def)
    then have nd: "(?n * sizeof_ptr) div sizeof_ptr = ?n" by (simp only: word_unat_eq_iff)
    have nl: "\<not> ?n < sk_num_alloc sk" using un by (simp add: word_less_nat_alt)
    have mn: "unat (?n * sizeof_ptr + OPENSSL_MALLOC_PREFIX) = 8 * unat ?n + 8"
      unfolding unat_word_ariths(1) us OPENSSL_MALLOC_PREFIX_def using un a by simp
    have g: "sk_grow malloc fill sk = (case OPENSSL_malloc malloc (?n * sizeof_ptr) of
        Ok (Some _) \<Rightarrow>
          (Ok (), sk\<lparr>sk_data := take (unat ?n) (sk_data sk) @ replicate (unat ?n - length (sk_data sk)) fill, sk_num_alloc := ?n\<rparr>)
      | Ok None \<Rightarrow> (Fail, sk) | Fail \<Rightarrow> (Fail, sk) | Undef \<Rightarrow> (Undef, sk))"
      using False nl nd unfolding sk_grow_def Let_def by (simp only: if_False if_True simp_thms)
    show ?thesis
    proof (cases "malloc (?n * sizeof_ptr + OPENSSL_MALLOC_PREFIX)")
      case None
      then show ?thesis unfolding g by (auto simp: OPENSSL_malloc_def)
    next
      case (Some raw)
      then have "length raw = 8 * unat ?n + 8" using m mn by (auto simp: malloc_ok_def)
      then have "\<exists>x. OPENSSL_malloc malloc (?n * sizeof_ptr) = Ok (Some x)"
        using Some by (simp add: OPENSSL_malloc_def OPENSSL_MALLOC_PREFIX_def)
      moreover have "sk_num_field sk \<le> ?n" using d un by (simp add: word_le_nat_alt)
      ultimately show ?thesis
        unfolding g using d un a by (auto simp: sk_ok_def contents_def word_le_nat_alt)
    qed
  qed
qed

lemma list_insert_at:
  assumes "n < length d"
  shows "take (Suc n) (if n \<le> i then d[n := p] else take i d @ p # take (n - i) (drop i d) @ drop (n + 1) d) =
      take i (take n d) @ p # drop i (take n d)"
    and "length (if n \<le> i then d[n := p] else take i d @ p # take (n - i) (drop i d) @ drop (n + 1) d) = length d"
proof -
  show "length (if n \<le> i then d[n := p] else take i d @ p # take (n - i) (drop i d) @ drop (n + 1) d) = length d"
    using assms by (cases "n \<le> i") simp_all
  show "take (Suc n) (if n \<le> i then d[n := p] else take i d @ p # take (n - i) (drop i d) @ drop (n + 1) d) =
      take i (take n d) @ p # drop i (take n d)"
  proof (cases "n \<le> i")
    case True
    then show ?thesis using assms by (simp add: take_Suc_conv_app_nth min_def take_update_cancel)
  next
    case False
    then have "drop i (take n d) = take (n - i) (drop i d)" by (simp add: drop_take)
    moreover have "Suc n - i = Suc (n - i)" using False by simp
    ultimately show ?thesis using assms False by (simp add: min_def)
  qed
qed

lemma sk_insert_ok:
  assumes ok: "sk_ok sk" and m: "malloc_ok malloc" and n: "unat (sk_num_field sk) < 2 ^ 58"
  shows "\<exists>r sk'. sk_insert malloc fill p pos sk = (r, sk') \<and>
    (r = Ok (sk_num_field sk + 1) \<and> sk_ok sk' \<and> sk_num_field sk' = sk_num_field sk + 1 \<and>
       contents sk' = take (unat pos) (contents sk) @ p # drop (unat pos) (contents sk) \<and>
       \<not> sk_sorted sk' \<and> sk_comp sk' = sk_comp sk \<or>
     r = Fail \<and> sk' = sk \<and> (\<exists>k. malloc k = None))"
proof -
  obtain r sk1 where g: "sk_grow malloc fill sk = (r, sk1)"
    "r = Ok () \<and> sk_ok sk1 \<and> sk_num_field sk1 = sk_num_field sk \<and> contents sk1 = contents sk \<and>
       sk_sorted sk1 = sk_sorted sk \<and> sk_comp sk1 = sk_comp sk \<and> unat (sk_num_field sk) < length (sk_data sk1) \<or>
     r = Fail \<and> sk1 = sk \<and> (\<exists>k. malloc k = None)"
    using grow_ok [OF ok m n] by blast
  from g(2) show ?thesis
  proof
    assume s: "r = Ok () \<and> sk_ok sk1 \<and> sk_num_field sk1 = sk_num_field sk \<and> contents sk1 = contents sk \<and>
       sk_sorted sk1 = sk_sorted sk \<and> sk_comp sk1 = sk_comp sk \<and> unat (sk_num_field sk) < length (sk_data sk1)"
    let ?n = "unat (sk_num_field sk)" and ?i = "unat pos" and ?d = "sk_data sk1"
    let ?d' = "if ?n \<le> ?i then ?d[?n := p] else take ?i ?d @ p # take (?n - ?i) (drop ?i ?d) @ drop (?n + 1) ?d"
    let ?sk = "sk1\<lparr>sk_data := ?d', sk_num_field := sk_num_field sk + 1, sk_sorted := False\<rparr>"
    have u: "unat (sk_num_field sk + 1) = Suc ?n" using n by (simp add: unat_word_ariths)
    have l: "?n < length ?d" using s by simp
    note li = list_insert_at [OF l, of ?i p]
    have "sk_insert malloc fill p pos sk = (Ok (sk_num_field sk + 1), ?sk)"
      using g(1) s by (simp add: sk_insert_def seq_simps Let_def)
    moreover have "contents ?sk = take ?i (contents sk) @ p # drop ?i (contents sk)"
    proof -
      have "contents ?sk = take (Suc ?n) ?d'" unfolding contents_def by (simp add: u)
      moreover have "take ?n ?d = contents sk" using s by (metis contents_def)
      ultimately show ?thesis using li(1) by simp
    qed
    moreover have "sk_ok ?sk" using s l li(2) u by (simp add: sk_ok_def word_le_nat_alt)
    ultimately show ?thesis using s by simp
  next
    assume "r = Fail \<and> sk1 = sk \<and> (\<exists>k. malloc k = None)"
    then show ?thesis using g(1) by (simp add: sk_insert_def seq_simps)
  qed
qed

lemma sk_delete_ok:
  assumes ok: "sk_ok sk"
  shows "\<exists>sk'. sk_delete pos sk = (Ok (if unat pos < length (contents sk) then contents sk ! unat pos else None), sk') \<and> sk_ok sk' \<and>
    contents sk' = take (unat pos) (contents sk) @ drop (Suc (unat pos)) (contents sk) \<and>
    sk_sorted sk' = sk_sorted sk \<and> sk_comp sk' = sk_comp sk"
proof (cases "sk_num_field sk \<le> pos")
  case True
  then show ?thesis using ok sk_okD(2) [OF ok] by (auto simp: sk_delete_def word_le_nat_alt)
next
  case False
  let ?n = "unat (sk_num_field sk)" and ?i = "unat pos" and ?d = "sk_data sk"
  have l: "?i < ?n" "?n \<le> length ?d" using False sk_okD(1) [OF ok] by (simp_all add: word_le_nat_alt)
  have u: "unat (sk_num_field sk - 1) = ?n - 1" using l(1) by (metis gr_implies_not0 unat_0 unat_minus_one)
  have e: "pos = sk_num_field sk - 1 \<longleftrightarrow> ?i = ?n - 1" using u by (metis word_unat_eq_iff)
  let ?d' = "if pos \<noteq> sk_num_field sk - 1 then take ?i ?d @ take (?n - ?i - 1) (drop (?i + 1) ?d) @ drop (?n - 1) ?d else ?d"
  let ?sk = "sk\<lparr>sk_data := ?d', sk_num_field := sk_num_field sk - 1\<rparr>"
  have len: "length ?d' = length ?d" using l by simp
  have t: "take (?n - 1) ?d' = take ?i (take ?n ?d) @ drop (Suc ?i) (take ?n ?d)"
  proof (cases "?i = ?n - 1")
    case True
    then show ?thesis using l e by (simp add: min_def)
  next
    case ne: False
    have "drop (Suc ?i) (take ?n ?d) = take (?n - ?i - 1) (drop (?i + 1) ?d)" using l by (simp add: drop_take)
    moreover have "pos \<noteq> sk_num_field sk - 1" using e ne by blast
    moreover have "take (?n - 1) (take ?i ?d @ take (?n - ?i - 1) (drop (?i + 1) ?d) @ drop (?n - 1) ?d) =
        take ?i ?d @ take (?n - ?i - 1) (drop (?i + 1) ?d)"
      using l ne by simp
    ultimately show ?thesis using l by (simp add: min_def)
  qed
  have "sk_delete pos sk = (Ok (?d ! ?i), ?sk)" using False l by (simp add: sk_delete_def Let_def)
  moreover have "?d ! ?i = contents sk ! ?i" "?i < length (contents sk)" using l by (simp_all add: contents_def)
  moreover have "contents ?sk = take ?i (contents sk) @ drop (Suc ?i) (contents sk)"
    using t unfolding contents_def by (simp add: u)
  moreover have "sk_ok ?sk" using ok len u by (auto simp: sk_ok_def word_le_nat_alt)
  ultimately show ?thesis by simp
qed

section \<open>Searching\<close>

definition flag_ok :: "('f \<Rightarrow> 'a option \<Rightarrow> 'a option \<Rightarrow> int) \<Rightarrow> ('a, 'f) stack \<Rightarrow> bool" where
  "flag_ok call sk \<longleftrightarrow> (case sk_comp sk of None \<Rightarrow> True | Some f \<Rightarrow> sk_sorted sk \<longrightarrow> ordered (call f) (contents sk))"

lemma consistentD:
  assumes "consistent cmp"
  shows "cmp a b < 0 \<longleftrightarrow> 0 < cmp b a" "cmp a b = 0 \<longleftrightarrow> cmp b a = 0" "cmp a b \<le> 0 \<Longrightarrow> cmp b c \<le> 0 \<Longrightarrow> cmp a c \<le> 0"
  using assms unfolding consistent_def by blast+

lemma first_match_props:
  "cmp p (d ! idx) = 0 \<Longrightarrow> first_match cmp p d idx \<le> idx \<and> cmp p (d ! first_match cmp p d idx) = 0 \<and>
    (first_match cmp p d idx = 0 \<or> cmp p (d ! (first_match cmp p d idx - 1)) \<noteq> 0)"
  by (induction idx) auto

lemma first_match_first:
  assumes c: "consistent cmp" and o: "ordered cmp xs" and i: "idx < length xs" "cmp p (xs ! idx) = 0"
    and k: "k < first_match cmp p xs idx"
  shows "cmp p (xs ! k) \<noteq> 0"
proof
  let ?j = "first_match cmp p xs idx"
  note m = first_match_props [of cmp p xs idx, OF i(2)]
  have j: "?j < length xs" "?j \<noteq> 0" using m i(1) k by auto
  have le: "cmp (xs ! a) (xs ! b) \<le> 0" if "a < b" "b < length xs" for a b
    using o that by (simp add: ordered_def sorted_wrt_iff_nth_less)
  assume z: "cmp p (xs ! k) = 0"
  have "cmp (xs ! (?j - 1)) (xs ! ?j) \<le> 0" using le j by simp
  moreover have "cmp (xs ! ?j) p \<le> 0" using m consistentD(2) [OF c, of p] by simp
  ultimately have a: "cmp (xs ! (?j - 1)) p \<le> 0" using consistentD(3) [OF c] by blast
  have b: "cmp p (xs ! (?j - 1)) \<le> 0"
  proof (cases "k = ?j - 1")
    case False
    then have "cmp (xs ! k) (xs ! (?j - 1)) \<le> 0" using le k j by simp
    then show ?thesis using consistentD(3) [OF c, of p "xs ! k"] z by simp
  qed (use z in simp)
  from a b have "cmp p (xs ! (?j - 1)) = 0" using consistentD(1) [OF c, of p "xs ! (?j - 1)"] by linarith
  then show False using m j(2) by simp
qed

text \<open>The first index of an element.\<close>

definition index_of :: "('e \<Rightarrow> bool) \<Rightarrow> 'e list \<Rightarrow> nat option" where
  "index_of P xs = (let i = length (takeWhile (\<lambda>x. \<not> P x) xs) in if i < length xs then Some i else None)"

lemma index_of_Some:
  assumes "i < length xs" "P (xs ! i)" "\<And>k. k < i \<Longrightarrow> \<not> P (xs ! k)"
  shows "index_of P xs = Some i"
proof -
  have "takeWhile (\<lambda>x. \<not> P x) xs = take i xs"
    using assms by (intro takeWhile_eq_take_P_nth) auto
  then show ?thesis using assms(1) by (simp add: index_of_def)
qed

lemma index_of_None: "index_of P xs = None \<longleftrightarrow> (\<forall>x \<in> set xs. \<not> P x)"
proof -
  have "length (takeWhile (\<lambda>x. \<not> P x) xs) = length xs \<longleftrightarrow> (\<forall>x \<in> set xs. \<not> P x)" by (induction xs) auto
  then show ?thesis using length_takeWhile_le [of "\<lambda>x. \<not> P x" xs] by (auto simp: index_of_def Let_def)
qed

lemma index_of_SomeD:
  assumes "index_of P xs = Some i"
  shows "i < length xs \<and> P (xs ! i) \<and> (\<forall>k < i. \<not> P (xs ! k))"
proof -
  have i: "i < length xs" "i = length (takeWhile (\<lambda>x. \<not> P x) xs)"
    using assms by (auto simp: index_of_def Let_def split: if_splits)
  then have "P (xs ! i)" using nth_length_takeWhile [of "\<lambda>x. \<not> P x" xs] by simp
  moreover have "\<not> P (xs ! k)" if "k < i" for k
    using that i(2) set_takeWhileD [of "xs ! k" "\<lambda>x. \<not> P x" xs] by (metis nth_mem takeWhile_nth)
  ultimately show ?thesis using i(1) by blast
qed

lemma find_ptr_index: "sk_ok sk \<Longrightarrow> find_ptr p sk = index_of (\<lambda>x. x = p) (contents sk)"
  using sk_okD(2) [of sk] by (simp add: find_ptr_def index_of_def contents_def)

definition sorted_contents :: "'a option sorting \<Rightarrow> ('f \<Rightarrow> 'a option \<Rightarrow> 'a option \<Rightarrow> int) \<Rightarrow> 'f option \<Rightarrow> bool \<Rightarrow> 'a option list \<Rightarrow> 'a option list" where
  "sorted_contents lib call f srt xs = (case f of None \<Rightarrow> xs | Some g \<Rightarrow> if srt then xs else c_qsort lib (call g) xs)"

lemma bsearch_cases:
  "sorting_ok lib \<Longrightarrow> consistent cmp \<Longrightarrow> ordered cmp xs \<Longrightarrow>
    case c_bsearch lib cmp k xs of None \<Rightarrow> \<forall>x \<in> set xs. cmp k x \<noteq> 0 | Some i \<Rightarrow> i < length xs \<and> cmp k (xs ! i) = 0"
  unfolding sorting_ok_def by blast

lemma qsort_length: "sorting_ok lib \<Longrightarrow> consistent cmp \<Longrightarrow> length (c_qsort lib cmp xs) = length xs"
  unfolding sorting_ok_def by (metis size_mset)

lemma sort_ok:
  assumes ok: "sk_ok sk" and lib: "sorting_ok lib" and c: "\<And>f. sk_comp sk = Some f \<Longrightarrow> consistent (call f)"
  shows "\<exists>sk'. sk_sort lib call sk = (Ok (), sk') \<and> sk_ok sk' \<and> sk_num_field sk' = sk_num_field sk \<and>
    contents sk' = sorted_contents lib call (sk_comp sk) (sk_sorted sk) (contents sk) \<and>
    sk_sorted sk' = (sk_sorted sk \<or> sk_comp sk \<noteq> None) \<and> sk_comp sk' = sk_comp sk"
proof (cases "sk_comp sk")
  case None
  then show ?thesis using ok by (simp add: sk_sort_def sorted_contents_def)
next
  case (Some f)
  show ?thesis
  proof (cases "sk_sorted sk")
    case False
    let ?n = "unat (sk_num_field sk)"
    have l: "?n \<le> length (sk_data sk)" by (rule sk_okD(1) [OF ok])
    let ?q = "c_qsort lib (call f) (take ?n (sk_data sk))"
    have q: "length ?q = ?n" using qsort_length [OF lib c [OF Some]] l by simp
    then show ?thesis using Some False l ok q by (simp add: sk_sort_def sorted_contents_def contents_def sk_ok_def Let_def)
  qed (use Some ok in \<open>simp add: sk_sort_def sorted_contents_def\<close>)
qed

lemma sorted_contents_ordered:
  assumes "sorting_ok lib" "consistent (call g)" "flag_ok call sk" "sk_comp sk = Some g"
  shows "ordered (call g) (sorted_contents lib call (Some g) (sk_sorted sk) (contents sk))"
    and "mset (sorted_contents lib call (Some g) (sk_sorted sk) (contents sk)) = mset (contents sk)"
  using assms by (auto simp: sorted_contents_def flag_ok_def sorting_ok_def)

lemma find_ok:
  assumes ok: "sk_ok sk" and lib: "sorting_ok lib" and c: "\<And>f. sk_comp sk = Some f \<Longrightarrow> consistent (call f)" and flag: "flag_ok call sk"
  shows "\<exists>sk'. sk_find lib call p sk =
      (Ok (case sk_comp sk of None \<Rightarrow> index_of (\<lambda>x. x = p) (contents sk)
         | Some f \<Rightarrow> if p = None then None else index_of (\<lambda>x. call f p x = 0) (contents sk')), sk') \<and>
    sk_ok sk' \<and> sk_num_field sk' = sk_num_field sk \<and> sk_comp sk' = sk_comp sk \<and>
    contents sk' = (if p = None then contents sk else sorted_contents lib call (sk_comp sk) (sk_sorted sk) (contents sk)) \<and>
    sk_sorted sk' = (sk_sorted sk \<or> sk_comp sk \<noteq> None \<and> p \<noteq> None)"
proof (cases "sk_comp sk")
  case None
  then show ?thesis using ok find_ptr_index [OF ok, of p] sk_okD(1) [OF ok] by (simp add: sk_find_def sorted_contents_def)
next
  case (Some f)
  show ?thesis
  proof (cases "p = None")
    case True
    then show ?thesis using Some ok sk_okD(1) [OF ok] by (simp add: sk_find_def)
  next
    case False
    then obtain q where q: "p = Some q" by blast
    obtain sk' where s: "sk_sort lib call sk = (Ok (), sk')" "sk_ok sk'" "sk_num_field sk' = sk_num_field sk"
      "contents sk' = sorted_contents lib call (Some f) (sk_sorted sk) (contents sk)"
      "sk_sorted sk' = (sk_sorted sk \<or> sk_comp sk \<noteq> None)" "sk_comp sk' = sk_comp sk"
      using sort_ok [where call = call, OF ok lib c] Some by auto
    have o: "ordered (call f) (contents sk')" unfolding s(4) by (rule sorted_contents_ordered(1) [OF lib c [OF Some] flag Some])
    let ?r = "c_bsearch lib (call f) p (contents sk')"
    have r: "case ?r of None \<Rightarrow> \<forall>x \<in> set (contents sk'). call f p x \<noteq> 0
        | Some i \<Rightarrow> i < length (contents sk') \<and> call f p (contents sk' ! i) = 0"
      by (rule bsearch_cases [OF lib c [OF Some] o])
    have "sk_find lib call p sk = (Ok (case ?r of None \<Rightarrow> None | Some i \<Rightarrow> Some (first_match (call f) p (sk_data sk') i)), sk')"
      using Some s(1,3) sk_okD(1) [OF ok] by (simp add: q sk_find_def seq_simps contents_def split: option.split)
    moreover have "(case ?r of None \<Rightarrow> None | Some i \<Rightarrow> Some (first_match (call f) p (sk_data sk') i)) =
        index_of (\<lambda>x. call f p x = 0) (contents sk')"
    proof (cases ?r)
      case None
      then show ?thesis using r index_of_None [of "\<lambda>x. call f p x = 0" "contents sk'"] by simp
    next
      case (Some i)
      have eq: "first_match (call f) p (sk_data sk') i = first_match (call f) p (contents sk') i" if "i < unat (sk_num_field sk')" for i
        using that by (induction i) (simp_all add: contents_def)
      have i: "i < length (contents sk')" "call f p (contents sk' ! i) = 0" using r Some by simp_all
      note m = first_match_props [of "call f" p "contents sk'" i, OF i(2)]
      have "index_of (\<lambda>x. call f p x = 0) (contents sk') = Some (first_match (call f) p (contents sk') i)"
        by (rule index_of_Some) (use m i first_match_first [OF c [OF \<open>sk_comp sk = Some f\<close>] o i] in auto)
      then show ?thesis using Some eq i(1) sk_okD(2) [OF s(2)] by simp
    qed
    ultimately show ?thesis using Some s by (simp add: q)
  qed
qed

section \<open>Sequences of calls\<close>

datatype ('a, 'f) sk_call =
    S_insert c_malloc "'a option" "'a option" size_t
  | S_push c_malloc "'a option" "'a option"
  | S_delete size_t
  | S_delete_ptr "'a option"
  | S_shift
  | S_pop
  | S_zero
  | S_value size_t
  | S_set size_t "'a option"
  | S_sort
  | S_find "'a option"
  | S_cmp_func "'f option"

datatype 'a sk_result = Done | Count nat | Pointer "'a option" | Index "nat option"

fun sk_step :: "'a option sorting \<Rightarrow> ('f \<Rightarrow> 'a option \<Rightarrow> 'a option \<Rightarrow> int) \<Rightarrow> ('a, 'f) sk_call \<Rightarrow> ('a, 'f) stack \<Rightarrow>
    'a sk_result outcome \<times> ('a, 'f) stack" where
  "sk_step lib call (S_insert malloc fill p pos) sk = seq (sk_insert malloc fill p pos) (\<lambda>n. ret (Count (unat n))) sk"
| "sk_step lib call (S_push malloc fill p) sk = seq (sk_push malloc fill p) (\<lambda>n. ret (Count (unat n))) sk"
| "sk_step lib call (S_delete pos) sk = seq (sk_delete pos) (\<lambda>x. ret (Pointer x)) sk"
| "sk_step lib call (S_delete_ptr p) sk = seq (sk_delete_ptr p) (\<lambda>x. ret (Pointer x)) sk"
| "sk_step lib call S_shift sk = seq sk_shift (\<lambda>x. ret (Pointer x)) sk"
| "sk_step lib call S_pop sk = seq sk_pop (\<lambda>x. ret (Pointer x)) sk"
| "sk_step lib call S_zero sk = seq sk_zero (\<lambda>_. ret Done) sk"
| "sk_step lib call (S_value i) sk = seq (\<lambda>sk. (sk_value (Some sk) i, sk)) (\<lambda>x. ret (Pointer x)) sk"
| "sk_step lib call (S_set i v) sk = seq (sk_set i v) (\<lambda>x. ret (Pointer x)) sk"
| "sk_step lib call S_sort sk = seq (sk_sort lib call) (\<lambda>_. ret Done) sk"
| "sk_step lib call (S_find p) sk = seq (sk_find lib call p) (\<lambda>x. ret (Index x)) sk"
| "sk_step lib call (S_cmp_func f) sk = (Ok Done, snd (sk_set_cmp_func f sk))"

fun sk_run :: "'a option sorting \<Rightarrow> ('f \<Rightarrow> 'a option \<Rightarrow> 'a option \<Rightarrow> int) \<Rightarrow> ('a, 'f) sk_call list \<Rightarrow> ('a, 'f) stack \<Rightarrow>
    'a sk_result outcome list \<times> ('a, 'f) stack" where
  "sk_run lib call [] sk = ([], sk)"
| "sk_run lib call (c # cs) sk =
    (case sk_step lib call c sk of (r, sk1) \<Rightarrow> (case sk_run lib call cs sk1 of (rs, sk2) \<Rightarrow> (r # rs, sk2)))"

text \<open>The same calls on a list, with the flag and the comparison.\<close>

type_synonym ('a, 'f) list_state = "'a option list \<times> bool \<times> 'f option"

fun list_step :: "'a option sorting \<Rightarrow> ('f \<Rightarrow> 'a option \<Rightarrow> 'a option \<Rightarrow> int) \<Rightarrow> ('a, 'f) sk_call \<Rightarrow> ('a, 'f) list_state \<Rightarrow>
    'a sk_result \<times> ('a, 'f) list_state" where
  "list_step lib call (S_insert malloc fill p pos) (xs, srt, f) =
    (Count (Suc (length xs)), take (unat pos) xs @ p # drop (unat pos) xs, False, f)"
| "list_step lib call (S_push malloc fill p) (xs, srt, f) = (Count (Suc (length xs)), xs @ [p], False, f)"
| "list_step lib call (S_delete pos) (xs, srt, f) =
    (Pointer (if unat pos < length xs then xs ! unat pos else None), take (unat pos) xs @ drop (Suc (unat pos)) xs, srt, f)"
| "list_step lib call (S_delete_ptr p) (xs, srt, f) = (Pointer (if p \<in> set xs then p else None), remove1 p xs, srt, f)"
| "list_step lib call S_shift (xs, srt, f) = (Pointer (if xs = [] then None else hd xs), tl xs, srt, f)"
| "list_step lib call S_pop (xs, srt, f) = (Pointer (if xs = [] then None else last xs), butlast xs, srt, f)"
| "list_step lib call S_zero (xs, srt, f) = (Done, [], srt \<and> xs = [], f)"
| "list_step lib call (S_value i) (xs, srt, f) = (Pointer (if unat i < length xs then xs ! unat i else None), xs, srt, f)"
| "list_step lib call (S_set i v) (xs, srt, f) = (Pointer (if unat i < length xs then v else None), xs[unat i := v], srt, f)"
| "list_step lib call S_sort (xs, srt, f) = (Done, sorted_contents lib call f srt xs, srt \<or> f \<noteq> None, f)"
| "list_step lib call (S_find p) (xs, srt, f) =
    (case f of
       None \<Rightarrow> (Index (index_of (\<lambda>x. x = p) xs), xs, srt, f)
     | Some g \<Rightarrow>
         if p = None then (Index None, xs, srt, f)
         else let ys = sorted_contents lib call f srt xs in (Index (index_of (\<lambda>x. call g p x = 0) ys), ys, True, f))"
| "list_step lib call (S_cmp_func g) (xs, srt, f) = (Done, xs, srt \<and> f = g, g)"

text \<open>The allocators of a call.\<close>

fun call_malloc :: "('a, 'f) sk_call \<Rightarrow> c_malloc option" where
  "call_malloc (S_insert malloc fill p pos) = Some malloc"
| "call_malloc (S_push malloc fill p) = Some malloc"
| "call_malloc _ = None"

text \<open>Answers as on lists, except that a call that needs memory may fail without effect.\<close>

fun list_run :: "'a option sorting \<Rightarrow> ('f \<Rightarrow> 'a option \<Rightarrow> 'a option \<Rightarrow> int) \<Rightarrow> ('a, 'f) sk_call list \<Rightarrow> 'a sk_result outcome list \<Rightarrow>
    ('a, 'f) list_state \<Rightarrow> ('a, 'f) list_state option" where
  "list_run lib call [] [] s = Some s"
| "list_run lib call (c # cs) (r # rs) s =
    (if r = Ok (fst (list_step lib call c s)) then list_run lib call cs rs (snd (list_step lib call c s))
     else if r = Fail \<and> call_malloc c \<noteq> None then list_run lib call cs rs s else None)"
| "list_run lib call _ _ s = None"

definition abs_stack :: "('a, 'f) stack \<Rightarrow> ('a, 'f) list_state"
  where "abs_stack sk = (contents sk, sk_sorted sk, sk_comp sk)"

definition ordinary :: "('a, 'f) sk_call \<Rightarrow> bool"
  where "ordinary c \<longleftrightarrow> (\<forall>m. call_malloc c = Some m \<longrightarrow> malloc_ok m) \<and> (\<forall>i v. c \<noteq> S_set i v)"

text \<open>One call; the flag stays truthful.\<close>

definition simulates_list :: "'a option sorting \<Rightarrow> ('f \<Rightarrow> 'a option \<Rightarrow> 'a option \<Rightarrow> int) \<Rightarrow> ('a, 'f) sk_call \<Rightarrow> ('a, 'f) stack \<Rightarrow> bool" where
  "simulates_list lib call c sk \<longleftrightarrow> (\<exists>r sk'. sk_step lib call c sk = (r, sk') \<and>
    (r = Ok (fst (list_step lib call c (abs_stack sk))) \<and> abs_stack sk' = snd (list_step lib call c (abs_stack sk)) \<or>
     r = Fail \<and> sk' = sk \<and> call_malloc c \<noteq> None) \<and>
    sk_ok sk' \<and> flag_ok call sk' \<and> unat (sk_num_field sk') \<le> Suc (unat (sk_num_field sk)))"

lemma flag_abs: "flag_ok call sk \<longleftrightarrow> (case abs_stack sk of (xs, srt, f) \<Rightarrow>
    case f of None \<Rightarrow> True | Some g \<Rightarrow> srt \<longrightarrow> ordered (call g) xs)"
  by (simp add: flag_ok_def abs_stack_def)

lemma ordered_sub: "ordered cmp (xs @ y # zs) \<Longrightarrow> ordered cmp (xs @ zs)"
  by (auto simp: ordered_def sorted_wrt_append)

lemma list_simulatesI:
  assumes "sk_step lib call c sk = (Ok (fst (list_step lib call c (abs_stack sk))), sk')"
    and "abs_stack sk' = snd (list_step lib call c (abs_stack sk))" "sk_ok sk'" "flag_ok call sk'"
    and "length (contents sk') \<le> Suc (length (contents sk))" "sk_ok sk"
  shows "simulates_list lib call c sk"
  using assms sk_okD(2) [of sk] sk_okD(2) [of sk'] by (auto simp: simulates_list_def)

lemma flag_okI:
  assumes "flag_ok call sk" "sk_comp sk' = sk_comp sk" "sk_sorted sk' \<longrightarrow> sk_sorted sk"
    and "\<And>cmp. ordered cmp (contents sk) \<Longrightarrow> ordered cmp (contents sk')"
  shows "flag_ok call sk'"
  using assms by (auto simp: flag_ok_def split: option.splits)

lemma ordered_delete: "ordered cmp xs \<Longrightarrow> ordered cmp (take i xs @ drop (Suc i) xs)"
proof (cases "i < length xs")
  case True
  assume "ordered cmp xs"
  then have "ordered cmp (take i xs @ xs ! i # drop (Suc i) xs)" using True by (simp add: id_take_nth_drop [symmetric])
  then show ?thesis by (rule ordered_sub)
qed simp

lemma simulates_delete:
  assumes ok: "sk_ok sk" and flag: "flag_ok call sk" and d: "sk_step lib call c sk = seq (sk_delete pos) (\<lambda>x. ret (Pointer x)) sk"
    and l: "list_step lib call c (abs_stack sk) = list_step lib call (S_delete pos) (abs_stack sk)"
  shows "simulates_list lib call c sk"
proof -
  obtain sk' where s: "sk_delete pos sk = (Ok (if unat pos < length (contents sk) then contents sk ! unat pos else None), sk')"
    "sk_ok sk'" "contents sk' = take (unat pos) (contents sk) @ drop (Suc (unat pos)) (contents sk)"
    "sk_sorted sk' = sk_sorted sk" "sk_comp sk' = sk_comp sk"
    using sk_delete_ok [OF ok, of pos] by blast
  have "flag_ok call sk'" by (rule flag_okI [OF flag s(5)]) (use s(3,4) ordered_delete in simp_all)
  then show ?thesis
    by (intro list_simulatesI [where sk' = sk']) (use s ok in \<open>simp_all add: d l [unfolded abs_stack_def] abs_stack_def seq_simps ret_def\<close>)
qed

lemma simulates_insert:
  assumes ok: "sk_ok sk" and m: "malloc_ok malloc" and n: "unat (sk_num_field sk) < 2 ^ 58"
    and d: "sk_step lib call c sk = seq (sk_insert malloc fill p pos) (\<lambda>n. ret (Count (unat n))) sk"
    and l: "list_step lib call c (abs_stack sk) = list_step lib call (S_insert malloc fill p pos) (abs_stack sk)"
    and a: "call_malloc c \<noteq> None" and flag: "flag_ok call sk"
  shows "simulates_list lib call c sk"
proof -
  have u: "unat (sk_num_field sk + 1) = Suc (unat (sk_num_field sk))" using n by (simp add: unat_word_ariths)
  obtain r sk' where s: "sk_insert malloc fill p pos sk = (r, sk')"
    "r = Ok (sk_num_field sk + 1) \<and> sk_ok sk' \<and> sk_num_field sk' = sk_num_field sk + 1 \<and>
       contents sk' = take (unat pos) (contents sk) @ p # drop (unat pos) (contents sk) \<and>
       \<not> sk_sorted sk' \<and> sk_comp sk' = sk_comp sk \<or>
     r = Fail \<and> sk' = sk \<and> (\<exists>k. malloc k = None)"
    using sk_insert_ok [OF ok m n, of fill p pos] by blast
  from s(2) show ?thesis
  proof
    assume t: "r = Ok (sk_num_field sk + 1) \<and> sk_ok sk' \<and> sk_num_field sk' = sk_num_field sk + 1 \<and>
       contents sk' = take (unat pos) (contents sk) @ p # drop (unat pos) (contents sk) \<and>
       \<not> sk_sorted sk' \<and> sk_comp sk' = sk_comp sk"
    then have "flag_ok call sk'" by (simp add: flag_ok_def split: option.split)
    then show ?thesis
      by (intro list_simulatesI [where sk' = sk'])
        (use t s(1) u ok sk_okD(2) [OF ok] in \<open>simp_all add: d l [unfolded abs_stack_def] abs_stack_def seq_simps ret_def\<close>)
  next
    assume "r = Fail \<and> sk' = sk \<and> (\<exists>k. malloc k = None)"
    then show ?thesis using s(1) ok flag a by (simp add: simulates_list_def d seq_simps)
  qed
qed

lemma delete_nth: "i < length xs \<Longrightarrow> (\<forall>k < i. xs ! k \<noteq> p) \<Longrightarrow> xs ! i = p \<Longrightarrow> take i xs @ drop (Suc i) xs = remove1 p xs"
proof (induction xs arbitrary: i)
  case (Cons x xs)
  then show ?case
  proof (cases i)
    case (Suc j)
    then have "x \<noteq> p" using Cons.prems(2) by auto
    moreover have "\<forall>k < j. xs ! k \<noteq> p" using Cons.prems(2) Suc by (metis Suc_less_eq nth_Cons_Suc)
    ultimately show ?thesis using Cons.IH [of j] Cons.prems Suc by simp
  qed simp
qed simp

lemma step_simulates:
  assumes ok: "sk_ok sk" and lib: "sorting_ok lib" and cons: "\<And>f. consistent (call f)" and flag: "flag_ok call sk"
    and n: "unat (sk_num_field sk) < 2 ^ 58" and c: "ordinary c"
  shows "simulates_list lib call c sk"
proof (cases c)
  case (S_insert malloc fill p pos)
  then show ?thesis using c by (intro simulates_insert [OF ok _ n _ _ _ flag]) (simp_all add: ordinary_def)
next
  case (S_push malloc fill p)
  have "list_step lib call c (abs_stack sk) = list_step lib call (S_insert malloc fill p (sk_num_field sk)) (abs_stack sk)"
    using S_push sk_okD(2) [OF ok] by (simp add: abs_stack_def)
  then show ?thesis
    using c S_push by (intro simulates_insert [OF ok _ n _ _ _ flag]) (simp_all add: ordinary_def sk_push_def seq_def)
next
  case (S_delete pos)
  then show ?thesis by (intro simulates_delete [OF ok flag]) simp_all
next
  case (S_delete_ptr p)
  have l: "length (contents sk) = unat (sk_num_field sk)" "unat (sk_num_field sk) \<le> length (sk_data sk)" using sk_okD(1,2) [OF ok] by simp_all
  have f: "find_ptr p sk = index_of (\<lambda>x. x = p) (contents sk)" by (rule find_ptr_index [OF ok])
  show ?thesis
  proof (cases "index_of (\<lambda>x. x = p) (contents sk)")
    case None
    then have "p \<notin> set (contents sk)" using index_of_None [of "\<lambda>x. x = p" "contents sk"] by auto
    then show ?thesis
      using S_delete_ptr None f l
      by (intro list_simulatesI [where sk' = sk]) (simp_all add: sk_delete_ptr_def seq_simps ret_def abs_stack_def remove1_idem ok flag)
  next
    case (Some i)
    note i = index_of_SomeD [OF Some, THEN conjunct1] index_of_SomeD [OF Some, THEN conjunct2, THEN conjunct1]
      index_of_SomeD [OF Some, THEN conjunct2, THEN conjunct2]
    have u: "unat (of_nat i :: size_t) = i" using i(1) l(1) n by (simp add: unat_of_nat)
    show ?thesis
    proof (rule simulates_delete [OF ok flag, where pos = "of_nat i"])
      show "sk_step lib call c sk = seq (sk_delete (of_nat i)) (\<lambda>x. ret (Pointer x)) sk"
        using S_delete_ptr Some f l by (simp add: sk_delete_ptr_def seq_def)
      show "list_step lib call c (abs_stack sk) = list_step lib call (S_delete (of_nat i)) (abs_stack sk)"
        using S_delete_ptr u i delete_nth [OF i(1,3,2)] nth_mem [OF i(1)] by (simp add: abs_stack_def)
    qed
  qed
next
  case S_shift
  show ?thesis
  proof (cases "contents sk = []")
    case True
    then have "sk_num_field sk = 0" using sk_okD(2) [OF ok] by (simp add: unat_eq_0)
    then show ?thesis using S_shift True
      by (intro list_simulatesI [where sk' = sk]) (simp_all add: sk_shift_def seq_simps ret_def abs_stack_def ok flag)
  next
    case False
    then have nz: "sk_num_field sk \<noteq> 0" using sk_okD(2) [OF ok] by auto
    show ?thesis
    proof (rule simulates_delete [OF ok flag, where pos = 0])
      show "sk_step lib call c sk = seq (sk_delete 0) (\<lambda>x. ret (Pointer x)) sk"
        using S_shift nz by (simp add: sk_shift_def seq_def)
      show "list_step lib call c (abs_stack sk) = list_step lib call (S_delete 0) (abs_stack sk)"
        using S_shift False by (simp add: abs_stack_def hd_conv_nth drop_Suc)
    qed
  qed
next
  case S_pop
  show ?thesis
  proof (cases "contents sk = []")
    case True
    then have "sk_num_field sk = 0" using sk_okD(2) [OF ok] by (simp add: unat_eq_0)
    then show ?thesis using S_pop True
      by (intro list_simulatesI [where sk' = sk]) (simp_all add: sk_pop_def seq_simps ret_def abs_stack_def ok flag)
  next
    case False
    then have nz: "sk_num_field sk \<noteq> 0" using sk_okD(2) [OF ok] by auto
    then have u: "unat (sk_num_field sk - 1) = length (contents sk) - 1" using sk_okD(2) [OF ok] by (simp add: unat_minus_one)
    show ?thesis
    proof (rule simulates_delete [OF ok flag, where pos = "sk_num_field sk - 1"])
      show "sk_step lib call c sk = seq (sk_delete (sk_num_field sk - 1)) (\<lambda>x. ret (Pointer x)) sk"
        using S_pop nz by (simp add: sk_pop_def seq_def)
      show "list_step lib call c (abs_stack sk) = list_step lib call (S_delete (sk_num_field sk - 1)) (abs_stack sk)"
        using S_pop False u by (simp add: abs_stack_def last_conv_nth butlast_conv_take)
    qed
  qed
next
  case S_zero
  show ?thesis
  proof (cases "sk_num_field sk = 0")
    case True
    then have "contents sk = []" by (simp add: contents_def)
    then show ?thesis using S_zero True
      by (intro list_simulatesI [where sk' = sk]) (simp_all add: sk_zero_def seq_simps ret_def abs_stack_def ok flag)
  next
    case False
    let ?sk = "sk\<lparr>sk_data := replicate (unat (sk_num_field sk)) None @ drop (unat (sk_num_field sk)) (sk_data sk),
             sk_num_field := 0, sk_sorted := False\<rparr>"
    have "contents sk \<noteq> []" using False sk_okD(2) [OF ok] by (auto simp: unat_eq_0)
    moreover have "sk_ok ?sk" using ok sk_okD(1) [OF ok] by (simp add: sk_ok_def)
    moreover have "flag_ok call ?sk" by (simp add: flag_ok_def split: option.split)
    ultimately show ?thesis using S_zero False sk_okD(1) [OF ok]
      by (intro list_simulatesI [where sk' = ?sk]) (simp_all add: sk_zero_def seq_simps ret_def abs_stack_def contents_def ok)
  qed
next
  case (S_value i)
  have "(sk_num_field sk \<le> i) = (length (contents sk) \<le> unat i)" using sk_okD(2) [OF ok] by (simp add: word_le_nat_alt)
  then show ?thesis using S_value sk_okD(1,2) [OF ok]
    by (intro list_simulatesI [where sk' = sk])
      (auto simp: sk_value_def slot_def seq_def ret_def abs_stack_def contents_def ok flag)
next
  case (S_set i v)
  then show ?thesis using c by (simp add: ordinary_def)
next
  case S_sort
  obtain sk' where s: "sk_sort lib call sk = (Ok (), sk')" "sk_ok sk'"
    "contents sk' = sorted_contents lib call (sk_comp sk) (sk_sorted sk) (contents sk)"
    "sk_sorted sk' = (sk_sorted sk \<or> sk_comp sk \<noteq> None)" "sk_comp sk' = sk_comp sk" "sk_num_field sk' = sk_num_field sk"
    using sort_ok [where call = call, OF ok lib cons] by blast
  have "flag_ok call sk'"
    using s(3,5) sorted_contents_ordered(1) [OF lib cons flag] by (cases "sk_comp sk") (simp_all add: flag_ok_def)
  then show ?thesis using S_sort s sk_okD(2) [OF ok] sk_okD(2) [OF s(2)]
    by (intro list_simulatesI [where sk' = sk']) (simp_all add: seq_simps ret_def abs_stack_def ok)
next
  case (S_find p)
  obtain sk' where s: "sk_find lib call p sk =
      (Ok (case sk_comp sk of None \<Rightarrow> index_of (\<lambda>x. x = p) (contents sk)
         | Some f \<Rightarrow> if p = None then None else index_of (\<lambda>x. call f p x = 0) (contents sk')), sk')"
    "sk_ok sk'" "sk_num_field sk' = sk_num_field sk" "sk_comp sk' = sk_comp sk"
    "contents sk' = (if p = None then contents sk else sorted_contents lib call (sk_comp sk) (sk_sorted sk) (contents sk))"
    "sk_sorted sk' = (sk_sorted sk \<or> sk_comp sk \<noteq> None \<and> p \<noteq> None)"
    using find_ok [where call = call, OF ok lib cons flag, of p] by blast
  have len: "length (contents sk') = length (contents sk)" using s(2,3) ok sk_okD(2) by metis
  have fl: "flag_ok call sk'"
  proof (cases "sk_comp sk")
    case None
    then show ?thesis using s(4) by (simp add: flag_ok_def)
  next
    case (Some f)
    then show ?thesis using s(4-6) flag sorted_contents_ordered(1) [OF lib cons flag Some] by (cases "sk_sorted sk") (simp_all add: flag_ok_def)
  qed
  show ?thesis
    by (rule list_simulatesI [where sk' = sk'])
      (use S_find s len fl ok in \<open>cases "sk_comp sk"; simp add: seq_simps ret_def abs_stack_def Let_def sorted_contents_def\<close>)+
next
  case (S_cmp_func f)
  let ?sk = "snd (sk_set_cmp_func f sk)"
  have k: "sk_ok ?sk" "contents ?sk = contents sk" using ok by (simp_all add: sk_set_cmp_func_def sk_ok_def contents_def)
  moreover have "flag_ok call ?sk" using flag k(2) by (auto simp: flag_ok_def sk_set_cmp_func_def split: option.splits)
  ultimately show ?thesis using S_cmp_func
    by (intro list_simulatesI [where sk' = ?sk]) (simp_all add: abs_stack_def sk_set_cmp_func_def ok)
qed

lemma run_simulates:
  assumes lib: "sorting_ok lib" and cons: "\<And>f. consistent (call f)"
  shows "sk_ok sk \<Longrightarrow> flag_ok call sk \<Longrightarrow> unat (sk_num_field sk) + length cs < 2 ^ 58 \<Longrightarrow> \<forall>c \<in> set cs. ordinary c \<Longrightarrow>
    sk_run lib call cs sk = (rs, sk') \<Longrightarrow> list_run lib call cs rs (abs_stack sk) = Some (abs_stack sk') \<and> sk_ok sk' \<and> flag_ok call sk'"
proof (induction cs arbitrary: sk rs)
  case (Cons c cs)
  obtain r sk1 where s: "sk_step lib call c sk = (r, sk1)"
    "r = Ok (fst (list_step lib call c (abs_stack sk))) \<and> abs_stack sk1 = snd (list_step lib call c (abs_stack sk)) \<or>
     r = Fail \<and> sk1 = sk \<and> call_malloc c \<noteq> None"
    "sk_ok sk1" "flag_ok call sk1" "unat (sk_num_field sk1) \<le> Suc (unat (sk_num_field sk))"
    using step_simulates [OF Cons.prems(1) lib cons Cons.prems(2), of c] Cons.prems(3,4) unfolding simulates_list_def by auto
  obtain rs' where r: "sk_run lib call cs sk1 = (rs', sk')" "rs = r # rs'"
    using Cons.prems(5) s(1) by (auto split: prod.splits)
  have "list_run lib call cs rs' (abs_stack sk1) = Some (abs_stack sk') \<and> sk_ok sk' \<and> flag_ok call sk'"
    using Cons.IH [OF s(3,4) _ _ r(1)] s(5) Cons.prems(3,4) by simp
  then show ?case using r(2) s(2) by auto
qed simp

section \<open>Copies\<close>

text \<open>The copies of a list of pointers, made in order; \<open>None\<close> when one of them fails.\<close>

fun copies :: "('a \<Rightarrow> 's \<Rightarrow> 'a option \<times> 's) \<Rightarrow> 'a option list \<Rightarrow> 's \<Rightarrow> 'a option list \<times> bool \<times> 's" where
  "copies copy_func [] st = ([], True, st)"
| "copies copy_func (None # xs) st = (case copies copy_func xs st of (ys, ok, st') \<Rightarrow> (None # ys, ok, st'))"
| "copies copy_func (Some x # xs) st =
    (case copy_func x st of
       (None, st') \<Rightarrow> ([], False, st')
     | (Some c, st') \<Rightarrow> (case copies copy_func xs st' of (ys, ok, st'') \<Rightarrow> (Some c # ys, ok, st'')))"

lemma copy_loop_copies:
  "copy_loop copy_func free_func front xs st =
    (case copies copy_func xs st of
       (ys, True, st') \<Rightarrow> (Some (front @ ys), st')
     | (ys, False, st') \<Rightarrow> (None, fold free_func (List.map_filter id (front @ ys)) st'))"
proof (induction copy_func xs st arbitrary: front rule: copies.induct)
  case (2 copy_func xs st)
  then show ?case by (auto simp: map_filter_simps split: prod.split bool.split)
next
  case (3 copy_func x xs st)
  show ?case
  proof (cases "copy_func x st")
    case (Pair c st')
    then show ?thesis using 3 by (cases c) (auto split: prod.split bool.split)
  qed
qed simp

lemma sk_new_ok:
  assumes "malloc_ok malloc"
  shows "\<exists>r. (sk_new malloc f :: ('a, 'f) stack option outcome) = Ok r \<and>
    (\<forall>sk. r = Some sk \<longrightarrow> sk_ok sk \<and> contents sk = [] \<and> sk_comp sk = f \<and> \<not> sk_sorted sk \<and> sk_num_field sk = 0)"
proof -
  have blk: "\<exists>raw. OPENSSL_malloc malloc n = Ok raw" if "unat n < 2 ^ 62" for n
  proof -
    have "unat (n + OPENSSL_MALLOC_PREFIX) = unat n + 8" using that by (simp add: OPENSSL_MALLOC_PREFIX_def unat_word_ariths)
    then show ?thesis
      using assms by (cases "malloc (n + OPENSSL_MALLOC_PREFIX)") (auto simp: OPENSSL_malloc_def OPENSSL_MALLOC_PREFIX_def malloc_ok_def)
  qed
  obtain r1 r2 where "OPENSSL_malloc malloc sizeof_STACK = Ok r1" "OPENSSL_malloc malloc (sizeof_ptr * kMinSize) = Ok r2"
    using blk [of sizeof_STACK] blk [of "sizeof_ptr * kMinSize"] by (auto simp: sizeof_STACK_def sizeof_ptr_def kMinSize_def)
  then show ?thesis
    by (auto simp: sk_new_def sk_ok_def contents_def kMinSize_def word_le_nat_alt split: option.split)
qed

lemma dup_ok:
  assumes ok: "sk_ok sk" and m: "malloc_ok malloc"
  shows "\<exists>r. sk_dup malloc fill (Some sk) = Ok r \<and>
    (case r of None \<Rightarrow> \<exists>k. malloc k = None
     | Some s \<Rightarrow> sk_ok s \<and> abs_stack s = abs_stack sk \<and> sk_num_field s = sk_num_field sk)"
proof -
  have a: "unat (sk_num_alloc sk) \<le> 2 ^ 59" using ok by (simp add: sk_ok_def)
  then have p: "unat (sizeof_ptr * sk_num_alloc sk) = 8 * unat (sk_num_alloc sk)" by (simp add: sizeof_ptr_def unat_word_ariths)
  have blk: "\<exists>raw. OPENSSL_malloc malloc n = Ok raw \<and> (raw = None \<longrightarrow> (\<exists>k. malloc k = None))" if "unat n \<le> 2 ^ 62" for n
  proof -
    have "unat (n + OPENSSL_MALLOC_PREFIX) = unat n + 8" using that by (simp add: OPENSSL_MALLOC_PREFIX_def unat_word_ariths)
    then show ?thesis
      using m by (cases "malloc (n + OPENSSL_MALLOC_PREFIX)") (auto simp: OPENSSL_malloc_def OPENSSL_MALLOC_PREFIX_def malloc_ok_def)
  qed
  obtain r1 where r1: "OPENSSL_malloc malloc sizeof_STACK = Ok r1" "r1 = None \<longrightarrow> (\<exists>k. malloc k = None)"
    using blk [of sizeof_STACK] by (auto simp: sizeof_STACK_def)
  obtain r2 where r2: "OPENSSL_malloc malloc (sizeof_ptr * kMinSize) = Ok r2" "r2 = None \<longrightarrow> (\<exists>k. malloc k = None)"
    using blk [of "sizeof_ptr * kMinSize"] by (auto simp: sizeof_ptr_def kMinSize_def)
  obtain r3 where r3: "OPENSSL_malloc malloc (sizeof_ptr * sk_num_alloc sk) = Ok r3" "r3 = None \<longrightarrow> (\<exists>k. malloc k = None)"
    using blk [of "sizeof_ptr * sk_num_alloc sk"] p a by auto
  have n: "unat (sk_num_field sk) \<le> length (sk_data sk)" "length (sk_data sk) = unat (sk_num_alloc sk)" using sk_okD(1,4) [OF ok] by simp_all
  show ?thesis
    using r1 r2 r3 n ok
    by (cases r1; cases r2; cases r3) (auto simp: sk_dup_def sk_new_def sk_ok_def abs_stack_def contents_def Let_def)
qed

end
