(* ===== verification/Boring_Stack_Properties.thy ===== *)
theory Boring_Stack_Properties
  imports Boring_Stack_Laws
begin

text \<open>
  The properties of the stack, with a sorting library for the examples.
\<close>

section \<open>A sorting library\<close>

fun insert_by :: "('e \<Rightarrow> 'e \<Rightarrow> int) \<Rightarrow> 'e \<Rightarrow> 'e list \<Rightarrow> 'e list" where
  "insert_by cmp x [] = [x]"
| "insert_by cmp x (y # ys) = (if cmp x y \<le> 0 then x # y # ys else y # insert_by cmp x ys)"

definition simple_sorting :: "'e sorting" where
  "simple_sorting = \<lparr>c_qsort = (\<lambda>cmp xs. foldr (insert_by cmp) xs []), c_bsearch = (\<lambda>cmp k. index_of (\<lambda>x. cmp k x = 0))\<rparr>"

lemma insert_by_mset: "mset (insert_by cmp x xs) = add_mset x (mset xs)"
  by (induction xs) auto

lemma insert_by_ordered:
  assumes c: "consistent cmp" and o: "ordered cmp xs"
  shows "ordered cmp (insert_by cmp x xs)"
  using o
proof (induction xs)
  case (Cons y ys)
  have s: "set (insert_by cmp x ys) = insert x (set ys)" using insert_by_mset [of cmp x ys] by (metis set_mset_add_mset_insert set_mset_mset)
  have "cmp y x \<le> 0" if "\<not> cmp x y \<le> 0" using that consistentD(1) [OF c, of y x] by linarith
  then show ?case
    using Cons s consistentD(3) [OF c, of x y] by (auto simp: ordered_def)
qed (simp add: ordered_def)

lemma simple_sorting_ok: "sorting_ok simple_sorting"
proof -
  have "mset (foldr (insert_by cmp) xs []) = mset xs" for cmp and xs :: "'a list"
    by (induction xs) (simp_all add: insert_by_mset)
  moreover have "ordered cmp (foldr (insert_by cmp) xs [])" if "consistent cmp" for cmp and xs :: "'a list"
    by (induction xs) (simp_all add: insert_by_ordered that, simp add: ordered_def)
  ultimately show ?thesis
    using index_of_SomeD index_of_None unfolding sorting_ok_def simple_sorting_def
    by (auto split: option.split dest!: index_of_SomeD simp: index_of_None)
qed

text \<open>Numbers behind pointers, by value, the null pointer first.\<close>

definition by_value :: "unit \<Rightarrow> nat option \<Rightarrow> nat option \<Rightarrow> int" where
  "by_value _ a b = (let v = (\<lambda>x. case x of None \<Rightarrow> -1 | Some n \<Rightarrow> int n) in v a - v b)"

lemma by_value_consistent: "consistent (by_value f)"
  by (auto simp: consistent_def by_value_def Let_def)

section \<open>Calls with \<open>sk_set\<close>\<close>

text \<open>A sequence in which no \<^verbatim>\<open>sk_set\<close> puts a pointer out of order into a stack that is marked as sorted.\<close>

fun sets_in_order :: "'a option sorting \<Rightarrow> ('f \<Rightarrow> 'a option \<Rightarrow> 'a option \<Rightarrow> int) \<Rightarrow> ('a, 'f) sk_call list \<Rightarrow> ('a, 'f) stack \<Rightarrow> bool" where
  "sets_in_order lib call [] sk = True"
| "sets_in_order lib call (c # cs) sk =
    ((case c of S_set i v \<Rightarrow> flag_ok call (snd (sk_set i v sk)) | _ \<Rightarrow> True) \<and> sets_in_order lib call cs (snd (sk_step lib call c sk)))"

lemma step_well_formed:
  assumes ok: "sk_ok sk" and lib: "sorting_ok lib" and cons: "\<And>f. consistent (call f)" and flag: "flag_ok call sk"
    and n: "unat (sk_num_field sk) < 2 ^ 58" and m: "\<forall>m. call_malloc c = Some m \<longrightarrow> malloc_ok m"
    and s: "case c of S_set i v \<Rightarrow> flag_ok call (snd (sk_set i v sk)) | _ \<Rightarrow> True"
  shows "\<exists>r sk'. sk_step lib call c sk = (r, sk') \<and> r \<noteq> Undef \<and> sk_ok sk' \<and> flag_ok call sk' \<and>
    unat (sk_num_field sk') \<le> Suc (unat (sk_num_field sk))"
proof (cases "\<exists>i v. c = S_set i v")
  case True
  then obtain i v where c: "c = S_set i v" by blast
  show ?thesis
    using s ok flag sk_okD(1) [OF ok] unfolding c
    by (auto simp: sk_set_def seq_def ret_def sk_ok_def word_le_nat_alt)
next
  case False
  then have "ordinary c" using m by (simp add: ordinary_def)
  then show ?thesis using step_simulates [OF ok lib cons flag n] unfolding simulates_list_def by fastforce
qed

lemma run_well_formed:
  assumes lib: "sorting_ok lib" and cons: "\<And>f. consistent (call f)"
  shows "sk_ok sk \<Longrightarrow> flag_ok call sk \<Longrightarrow> unat (sk_num_field sk) + length cs < 2 ^ 58 \<Longrightarrow>
    \<forall>c \<in> set cs. \<forall>m. call_malloc c = Some m \<longrightarrow> malloc_ok m \<Longrightarrow> sets_in_order lib call cs sk \<Longrightarrow>
    sk_run lib call cs sk = (rs, sk') \<Longrightarrow> Undef \<notin> set rs \<and> sk_ok sk' \<and> flag_ok call sk'"
proof (induction cs arbitrary: sk rs)
  case (Cons c cs)
  have n: "unat (sk_num_field sk) < 2 ^ 58" using Cons.prems(3) by simp
  have m: "\<forall>m. call_malloc c = Some m \<longrightarrow> malloc_ok m" using Cons.prems(4) by simp
  have s0: "case c of S_set i v \<Rightarrow> flag_ok call (snd (sk_set i v sk)) | _ \<Rightarrow> True"
    and s1: "sets_in_order lib call cs (snd (sk_step lib call c sk))" using Cons.prems(5) by simp_all
  from step_well_formed [OF Cons.prems(1) lib cons Cons.prems(2) n m s0] obtain r sk1 where
    s: "sk_step lib call c sk = (r, sk1)" "r \<noteq> Undef" "sk_ok sk1" "flag_ok call sk1"
    "unat (sk_num_field sk1) \<le> Suc (unat (sk_num_field sk))" by (elim exE conjE)
  obtain rs' where r: "sk_run lib call cs sk1 = (rs', sk')" "rs = r # rs'"
    using Cons.prems(6) s(1) by (auto split: prod.splits)
  have "Undef \<notin> set rs' \<and> sk_ok sk' \<and> flag_ok call sk'"
    by (rule Cons.IH [OF s(3,4) _ _ _ r(1)]) (use s(1,5) s1 Cons.prems(3,4) in simp_all)
  then show ?case using r(2) s(2) by auto
qed simp

lemma sk_new_okD:
  fixes sk0 :: "('a, 'f) stack"
  assumes "malloc_ok malloc" "sk_new malloc f = Ok (Some sk0)"
  shows "sk_ok sk0 \<and> contents sk0 = [] \<and> sk_comp sk0 = f \<and> \<not> sk_sorted sk0 \<and> unat (sk_num_field sk0) = 0"
proof -
  obtain r :: "('a, 'f) stack option" where "sk_new malloc f = Ok r"
    "\<forall>sk. r = Some sk \<longrightarrow> sk_ok sk \<and> contents sk = [] \<and> sk_comp sk = f \<and> \<not> sk_sorted sk \<and> sk_num_field sk = 0"
    using sk_new_ok [OF assms(1), of f] by blast
  then show ?thesis using assms(2) by simp
qed

section \<open>Properties\<close>

text \<open>C31.  A stack behaves as the list of its pointers, in every sequence of its calls (except \<^verbatim>\<open>sk_set\<close>),
  for a library that sorts and searches as the C standard says and comparisons that are consistent: each call
  answers as on the list, or fails without effect if it is an insertion and needs memory.\<close>

theorem sk_refines_list:
  assumes "sorting_ok lib" "\<And>f. consistent (call f)" "malloc_ok malloc" "sk_new malloc f = Ok (Some sk0)"
    and "length cs < 2 ^ 58" "\<forall>c \<in> set cs. ordinary c" "sk_run lib call cs sk0 = (rs, sk)"
  shows "list_run lib call cs rs ([], False, f) = Some (abs_stack sk)"
proof -
  have n: "sk_ok sk0" "abs_stack sk0 = ([], False, f)" "flag_ok call sk0" "unat (sk_num_field sk0) = 0"
    using sk_new_okD [OF assms(3,4)] by (auto simp: abs_stack_def flag_ok_def split: option.split)
  show ?thesis using run_simulates [OF assms(1,2) n(1,3) _ assms(6,7)] n(2,4) assms(5) by simp
qed

text \<open>An example: three insertions with a comparison, a search, and a deletion.\<close>

definition sk_demo_stack :: "(nat, unit) stack" where
  "sk_demo_stack = \<lparr>sk_num_field = 0, sk_data = replicate 4 None, sk_sorted = False, sk_num_alloc = 4, sk_comp = Some ()\<rparr>"

definition sk_demo_calls :: "(nat, unit) sk_call list" where
  "sk_demo_calls = [S_push calloc None (Some 5), S_push calloc None (Some 3), S_insert calloc None (Some 5) 0, S_find (Some 5), S_delete 0, S_value 0]"

definition sk_demo_answers :: "nat sk_result outcome list" where
  "sk_demo_answers = [Ok (Count 1), Ok (Count 2), Ok (Count 3), Ok (Index (Some 1)), Ok (Pointer (Some 3)), Ok (Pointer (Some 5))]"

lemma sk_demo_stack_new: "sk_new calloc (Some ()) = Ok (Some sk_demo_stack)"
  by (simp add: sk_new_def sk_demo_stack_def OPENSSL_malloc_def calloc_def sizeof_STACK_def sizeof_ptr_def kMinSize_def
    OPENSSL_MALLOC_PREFIX_def)

lemma sk_demo_stack_run: "fst (sk_run simple_sorting by_value sk_demo_calls sk_demo_stack) = sk_demo_answers"
  by code_simp

lemma sk_demo_stack_run_pair:
  "sk_run simple_sorting by_value sk_demo_calls sk_demo_stack = (sk_demo_answers, snd (sk_run simple_sorting by_value sk_demo_calls sk_demo_stack))"
  by (rule prod_eqI) (simp_all add: sk_demo_stack_run)

lemma sk_demo_calls_ordinary: "\<forall>c \<in> set sk_demo_calls. ordinary c" and sk_demo_calls_length: "length sk_demo_calls < 2 ^ 58"
  by (auto simp: sk_demo_calls_def ordinary_def calloc_ok)

lemma sk_refines_list_witness:
  "list_run simple_sorting by_value sk_demo_calls sk_demo_answers ([], False, Some ()) =
    Some (abs_stack (snd (sk_run simple_sorting by_value sk_demo_calls sk_demo_stack)))"
  by (rule sk_refines_list [OF simple_sorting_ok by_value_consistent calloc_ok(1) sk_demo_stack_new sk_demo_calls_length
    sk_demo_calls_ordinary sk_demo_stack_run_pair])

text \<open>C32.  \<^verbatim>\<open>sk_find\<close> in any well-formed stack that is marked as sorted only if it is, with a consistent
  comparison or none: it permutes the pointers at most, and returns the first place of a match among them as they are
  then, and nothing only if nothing matches; without a comparison the matches are the equal pointers, with one nothing matches
  the null pointer.  After a search for a pointer other searches move nothing, so that the places they return are
  places in one array.\<close>

theorem sk_find_first:
  assumes "sorting_ok lib" "sk_ok sk" "flag_ok call sk" "\<And>f. sk_comp sk = Some f \<Longrightarrow> consistent (call f)"
  shows "\<exists>r sk'. sk_find lib call p sk = (Ok r, sk') \<and> sk_ok sk' \<and> mset (contents sk') = mset (contents sk) \<and>
    (let match = (\<lambda>y. case sk_comp sk of None \<Rightarrow> y = p | Some g \<Rightarrow> p \<noteq> None \<and> call g p y = 0) in
     case r of None \<Rightarrow> \<forall>y \<in> set (contents sk). \<not> match y
     | Some i \<Rightarrow> i < length (contents sk') \<and> match (contents sk' ! i) \<and> (\<forall>k < i. \<not> match (contents sk' ! k))) \<and>
    (p \<noteq> None \<longrightarrow> (\<forall>q. snd (sk_find lib call q sk') = sk'))"
proof -
  obtain sk' where s: "sk_find lib call p sk =
      (Ok (case sk_comp sk of None \<Rightarrow> index_of (\<lambda>x. x = p) (contents sk)
         | Some f \<Rightarrow> if p = None then None else index_of (\<lambda>x. call f p x = 0) (contents sk')), sk')"
    "sk_ok sk'" "sk_comp sk' = sk_comp sk"
    "contents sk' = (if p = None then contents sk else sorted_contents lib call (sk_comp sk) (sk_sorted sk) (contents sk))"
    "sk_sorted sk' = (sk_sorted sk \<or> sk_comp sk \<noteq> None \<and> p \<noteq> None)"
    using find_ok [where call = call, OF assms(2,1,4,3), of p] by blast
  let ?match = "\<lambda>y. case sk_comp sk of None \<Rightarrow> y = p | Some g \<Rightarrow> p \<noteq> None \<and> call g p y = 0"
  have c: "mset (contents sk') = mset (contents sk)"
    using s(4) sorted_contents_ordered(2) [OF assms(1,4,3)] by (cases "sk_comp sk") (auto simp: sorted_contents_def)
  have n: "index_of (\<lambda>_. False) xs = None" for xs :: "'a option list" by (simp add: index_of_None)
  have r: "sk_find lib call p sk = (Ok (index_of ?match (contents sk')), sk')"
    using s(1,4) n by (cases "sk_comp sk") (simp_all add: sorted_contents_def)
  have i: "case index_of ?match (contents sk') of None \<Rightarrow> \<forall>y \<in> set (contents sk). \<not> ?match y
     | Some i \<Rightarrow> i < length (contents sk') \<and> ?match (contents sk' ! i) \<and> (\<forall>k < i. \<not> ?match (contents sk' ! k))"
  proof (cases "index_of ?match (contents sk')")
    case None
    then show ?thesis using index_of_None [of ?match "contents sk'"] mset_eq_setD [OF c] by simp
  next
    case (Some i)
    then show ?thesis using index_of_SomeD [OF Some] by simp
  qed
  have q: "snd (sk_find lib call q sk') = sk'" if "p \<noteq> None" for q
    using s(3,5) that by (cases "sk_comp sk") (auto simp: sk_find_def sk_sort_def seq_def split: option.split)
  show ?thesis unfolding Let_def by (intro exI conjI impI allI) (rule r s(2) c i q, assumption?)+
qed

definition sk_demo_sorted :: "(nat, unit) stack" where
  "sk_demo_sorted = \<lparr>sk_num_field = 3, sk_data = [Some 2, Some 5, Some 5, None], sk_sorted = True, sk_num_alloc = 4, sk_comp = Some ()\<rparr>"

lemma sk_demo_sorted_ok: "sk_ok sk_demo_sorted" "flag_ok by_value sk_demo_sorted"
  by (simp_all add: sk_ok_def flag_ok_def ordered_def contents_def by_value_def sk_demo_sorted_def)

lemma sk_find_first_witness:
  "\<exists>r sk'. sk_find simple_sorting by_value (Some 5) sk_demo_sorted = (Ok r, sk') \<and> sk_ok sk' \<and>
    mset (contents sk') = mset (contents sk_demo_sorted)"
  using sk_find_first [OF simple_sorting_ok sk_demo_sorted_ok by_value_consistent, of "Some 5"] by meson

text \<open>C33.  Well-formedness: in every sequence of calls, with \<^verbatim>\<open>sk_set\<close> as long as it puts no pointer out of
  order into a stack marked as sorted, for consistent comparisons and a library that sorts and searches as the C standard says:
  no call is undefined, so that no slot outside the array is read or written; the stack keeps as many slots as it says it has and
  no more pointers than slots; and it is marked as sorted only if it is, so that every call of \<^verbatim>\<open>bsearch\<close> is on an
  array in order, as the standard asks.\<close>

theorem stack_well_formed:
  assumes "sorting_ok lib" "\<And>f. consistent (call f)" "malloc_ok malloc" "sk_new malloc f = Ok (Some sk0)"
    and "length cs < 2 ^ 58" "\<forall>c \<in> set cs. \<forall>m. call_malloc c = Some m \<longrightarrow> malloc_ok m"
    and "sets_in_order lib call cs sk0" "sk_run lib call cs sk0 = (rs, sk)"
  shows "Undef \<notin> set rs \<and> sk_ok sk \<and> flag_ok call sk"
proof -
  have n: "sk_ok sk0" "flag_ok call sk0" "unat (sk_num_field sk0) = 0"
    using sk_new_okD [OF assms(3,4)] by (auto simp: flag_ok_def split: option.split)
  show ?thesis by (rule run_well_formed [OF assms(1,2) n(1,2) _ assms(6-8)]) (use n(3) assms(5) in simp)
qed

definition sk_set_calls :: "(nat, unit) sk_call list" where
  "sk_set_calls = [S_push calloc None (Some 5), S_push calloc None (Some 3), S_set 0 (Some 4), S_find (Some 4), S_set 1 (Some 6)]"

definition sk_set_answers :: "nat sk_result outcome list" where
  "sk_set_answers = [Ok (Count 1), Ok (Count 2), Ok (Pointer (Some 4)), Ok (Index (Some 1)), Ok (Pointer (Some 6))]"

lemma sk_set_calls_run:
  "sk_run simple_sorting by_value sk_set_calls sk_demo_stack = (sk_set_answers, snd (sk_run simple_sorting by_value sk_set_calls sk_demo_stack))"
proof (rule prod_eqI)
  show "fst (sk_run simple_sorting by_value sk_set_calls sk_demo_stack) =
      fst (sk_set_answers, snd (sk_run simple_sorting by_value sk_set_calls sk_demo_stack))"
    by code_simp
qed simp

lemma sk_set_calls_ok:
  "length sk_set_calls < 2 ^ 58" "\<forall>c \<in> set sk_set_calls. \<forall>m. call_malloc c = Some m \<longrightarrow> malloc_ok m"
  "sets_in_order simple_sorting by_value sk_set_calls sk_demo_stack"
  by (simp_all add: sk_set_calls_def calloc_ok, code_simp)

lemma stack_well_formed_witness:
  "Undef \<notin> set sk_set_answers \<and> sk_ok (snd (sk_run simple_sorting by_value sk_set_calls sk_demo_stack)) \<and>
    flag_ok by_value (snd (sk_run simple_sorting by_value sk_set_calls sk_demo_stack))"
  by (rule stack_well_formed [OF simple_sorting_ok by_value_consistent calloc_ok(1) sk_demo_stack_new sk_set_calls_ok sk_set_calls_run])

section \<open>Deep copies\<close>

text \<open>A client whose state is the multiset of its live objects: a copy adds one, or fails without effect; freeing
  takes one away.\<close>

definition counts_objects :: "('a \<Rightarrow> 'a multiset \<Rightarrow> 'a option \<times> 'a multiset) \<Rightarrow> ('a \<Rightarrow> 'a multiset \<Rightarrow> 'a multiset) \<Rightarrow> bool" where
  "counts_objects copy_func free_func \<longleftrightarrow>
    (\<forall>x st. snd (copy_func x st) = (case fst (copy_func x st) of None \<Rightarrow> st | Some c \<Rightarrow> add_mset c st)) \<and>
    (\<forall>x st. free_func x st = st - {#x#})"

lemma copies_count:
  assumes "counts_objects copy_func free_func"
  shows "copies copy_func xs st = (ys, ok, st') \<Longrightarrow> st' = st + mset (List.map_filter id ys) \<and>
    (ok \<longrightarrow> list_all2 (\<lambda>x y. case x of None \<Rightarrow> y = None | Some e \<Rightarrow> \<exists>st c. y = Some c \<and> fst (copy_func e st) = Some c) xs ys)"
proof (induction xs arbitrary: st ys ok st')
  case (Cons x xs)
  show ?case
  proof (cases x)
    case None
    then show ?thesis using Cons by (auto simp: map_filter_simps split: prod.splits)
  next
    case (Some e)
    obtain c st1 where c: "copy_func e st = (c, st1)" by fastforce
    then have st1: "st1 = (case c of None \<Rightarrow> st | Some c \<Rightarrow> add_mset c st)"
      using assms unfolding counts_objects_def by (metis fst_conv snd_conv)
    show ?thesis
    proof (cases c)
      case None
      then show ?thesis using Cons.prems Some c st1 by (auto simp: map_filter_simps)
    next
      case (Some d)
      then obtain zs where z: "copies copy_func xs st1 = (zs, ok, st')" "ys = Some d # zs"
        using Cons.prems \<open>x = Some e\<close> c by (auto split: prod.splits)
      from Cons.IH [OF z(1)] show ?thesis
        using z(2) st1 Some c \<open>x = Some e\<close> by (auto simp: map_filter_simps intro: exI [of _ st])
    qed
  qed
qed (simp add: map_filter_simps)

lemma copies_failed:
  "copies copy_func xs st = (ys, False, st') \<Longrightarrow> \<exists>e st1. Some e \<in> set xs \<and> fst (copy_func e st1) = None"
proof (induction xs arbitrary: st ys)
  case (Cons x xs)
  show ?case
  proof (cases x)
    case None
    then show ?thesis using Cons by (auto split: prod.splits)
  next
    case (Some e)
    obtain c st1 where c: "copy_func e st = (c, st1)" by fastforce
    show ?thesis
    proof (cases c)
      case None
      then show ?thesis using Some c by (intro exI [of _ e] exI [of _ st]) simp
    next
      case (Some d)
      then obtain zs where "copies copy_func xs st1 = (zs, False, st')"
        using Cons.prems \<open>x = Some e\<close> c by (auto split: prod.splits)
      then show ?thesis using Cons.IH [of st1 zs] unfolding list.set(2) by blast
    qed
  qed
qed simp

lemma fold_free:
  assumes "counts_objects copy_func free_func"
  shows "fold free_func xs (st + mset xs) = st"
proof -
  have "free_func x st = st - {#x#}" for x st using assms by (simp add: counts_objects_def)
  then show ?thesis by (induction xs) simp_all
qed

text \<open>C34.  \<^verbatim>\<open>sk_deep_copy\<close> is all or nothing: it makes a well-formed copy whose pointers are copies
  of the pointers in their order, all of them live; or some allocation or copy failed, and no object it made is left
  alive.\<close>

theorem sk_deep_copy_all_or_nothing:
  assumes "sk_ok sk" "malloc_ok malloc" "counts_objects copy_func free_func"
  shows "\<exists>r st'. sk_deep_copy malloc fill copy_func free_func (Some sk) st = (Ok r, st') \<and>
    (case r of
       None \<Rightarrow> st' = st \<and> ((\<exists>k. malloc k = None) \<or> (\<exists>e st1. Some e \<in> set (contents sk) \<and> fst (copy_func e st1) = None))
     | Some s \<Rightarrow> sk_ok s \<and> sk_sorted s = sk_sorted sk \<and> sk_comp s = sk_comp sk \<and> st' = st + mset (List.map_filter id (contents s)) \<and>
         list_all2 (\<lambda>x y. case x of None \<Rightarrow> y = None | Some e \<Rightarrow> \<exists>st c. y = Some c \<and> fst (copy_func e st) = Some c)
           (contents sk) (contents s))"
proof -
  obtain r where d: "sk_dup malloc fill (Some sk) = Ok r"
    "case r of None \<Rightarrow> \<exists>k. malloc k = None | Some s \<Rightarrow> sk_ok s \<and> abs_stack s = abs_stack sk \<and> sk_num_field s = sk_num_field sk"
    using dup_ok [OF assms(1,2), of fill] by blast
  show ?thesis
  proof (cases r)
    case None
    then show ?thesis using d by (simp add: sk_deep_copy_def)
  next
    case (Some s)
    then have s: "sk_ok s" "contents s = contents sk" "sk_sorted s = sk_sorted sk" "sk_comp s = sk_comp sk"
      using d(2) by (simp_all add: abs_stack_def)
    obtain ys ok st1 where y: "copies copy_func (contents s) st = (ys, ok, st1)" by (metis prod_cases3)
    note q = copies_count [OF assms(3) y]
    have l: "copy_loop copy_func free_func [] (take (unat (sk_num_field s)) (sk_data s)) st =
        (if ok then (Some ys, st1) else (None, fold free_func (List.map_filter id ys) st1))"
      using y by (simp add: copy_loop_copies contents_def)
    show ?thesis
    proof (cases ok)
      case True
      let ?s = "s\<lparr>sk_data := ys @ drop (unat (sk_num_field s)) (sk_data s)\<rparr>"
      have len: "length ys = unat (sk_num_field s)" using mp [OF conjunct2 [OF q] True, THEN list_all2_lengthD] sk_okD(2) [OF s(1)] by simp
      then have "contents ?s = ys" "sk_ok ?s" using s(1) sk_okD(1) [OF s(1)] by (simp_all add: contents_def sk_ok_def)
      then show ?thesis using d(1) Some l True q s by (simp add: sk_deep_copy_def Let_def)
    next
      case False
      have f: "fold free_func (List.map_filter id ys) st1 = st"
        using q fold_free [OF assms(3), of "List.map_filter id ys" st] by simp
      have "\<exists>e st1. Some e \<in> set (contents sk) \<and> fst (copy_func e st1) = None" using copies_failed [of copy_func "contents s" st ys st1] y False s(2) by simp
      then show ?thesis using d(1) Some l False f by (simp add: sk_deep_copy_def Let_def)
    qed
  qed
qed

definition sk_demo_copy :: "nat \<Rightarrow> nat multiset \<Rightarrow> nat option \<times> nat multiset"
  where "sk_demo_copy x st = (if x = 9 then (None, st) else (Some (x + 10), add_mset (x + 10) st))"

definition sk_demo_free :: "nat \<Rightarrow> nat multiset \<Rightarrow> nat multiset"
  where "sk_demo_free x st = st - {#x#}"

lemma sk_demo_counts: "counts_objects sk_demo_copy sk_demo_free"
  by (simp add: counts_objects_def sk_demo_copy_def sk_demo_free_def)

definition sk_demo_copied :: "nat \<Rightarrow> (nat, unit) stack" where
  "sk_demo_copied x = \<lparr>sk_num_field = 3, sk_data = [Some 1, None, Some x, None], sk_sorted = False, sk_num_alloc = 4, sk_comp = None\<rparr>"

lemma sk_demo_copied_ok: "sk_ok (sk_demo_copied x)"
  by (simp add: sk_ok_def sk_demo_copied_def)

lemma sk_deep_copy_all_or_nothing_witness:
  "(\<exists>r st'. sk_deep_copy calloc None sk_demo_copy sk_demo_free (Some (sk_demo_copied 9)) {#} = (Ok r, st')) \<and>
   (\<exists>r st'. sk_deep_copy calloc None sk_demo_copy sk_demo_free (Some (sk_demo_copied 2)) {#} = (Ok r, st'))"
  using sk_deep_copy_all_or_nothing [OF sk_demo_copied_ok calloc_ok(1) sk_demo_counts] by meson

section \<open>The flag and \<open>sk_set\<close>\<close>

text \<open>\<^verbatim>\<open>sk_set\<close> leaves the flag as it is: after it a sorted stack counts as sorted when it is not, and
  a search, which is then a binary search in unsorted memory, may miss what is there.  Here it is the library that
  answers as the standard allows, as the array is out of order.\<close>

lemma sk_set_keeps_flag:
  "let sk = \<lparr>sk_num_field = 2, sk_data = [Some 1, Some 2, None, None], sk_sorted = True, sk_num_alloc = 4, sk_comp = Some ()\<rparr>;
       sk' = snd (sk_set 0 (Some (3 :: nat)) sk)
   in flag_ok by_value sk \<and> sk_sorted sk' \<and> \<not> ordered (by_value ()) (contents sk') \<and> \<not> flag_ok by_value sk'"
  by (simp add: sk_set_def flag_ok_def ordered_def contents_def by_value_def)

end
