(* ===== verification/Boring_AES.thy ===== *)
theory Boring_AES
  imports Boring_AES_Tables
begin

text \<open>
  The block cipher of \<^verbatim>\<open>crypto/fipsmodule/aes/aes.c\<close>, in the portable form that is compiled for the
  phone's processors (\<^verbatim>\<open>FULL_UNROLL\<close> is not defined), on a little-endian machine.  An \<^verbatim>\<open>AES_KEY\<close>
  is an array of 60 words and the number of rounds; a block is a list of sixteen bytes.
\<close>

unbundle bit_operations_syntax

section \<open>Words in memory\<close>

definition CRYPTO_bswap4 :: "u32 \<Rightarrow> u32" where
  "CRYPTO_bswap4 x =
    (let y = drop_bit 16 x OR push_bit 16 x
     in drop_bit 8 (y AND 0xff00ff00) OR push_bit 8 (y AND 0x00ff00ff))"

definition GETU32 :: "byte list \<Rightarrow> u32"
  where "GETU32 p = CRYPTO_bswap4 (le_word (take 4 p))"

definition PUTU32 :: "u32 \<Rightarrow> byte list"
  where "PUTU32 v = le_bytes 4 (CRYPTO_bswap4 v)"

section \<open>Keys\<close>

record aes_key =
  rd_key :: "u32 list"
  aes_rounds :: u32

definition aes_key_ok :: "aes_key \<Rightarrow> bool"
  where "aes_key_ok k \<longleftrightarrow> length (rd_key k) = 60"

text \<open>The index of a byte of a word in a table.\<close>

definition ix24 :: "u32 \<Rightarrow> nat" where "ix24 w = unat (drop_bit 24 w)"
definition ix16 :: "u32 \<Rightarrow> nat" where "ix16 w = unat (drop_bit 16 w AND 0xff)"
definition ix8 :: "u32 \<Rightarrow> nat" where "ix8 w = unat (drop_bit 8 w AND 0xff)"
definition ix0 :: "u32 \<Rightarrow> nat" where "ix0 w = unat (w AND 0xff)"

text \<open>The words a key schedule mixes in: with a rotation and a round constant, and without.\<close>

definition rot_sub_word :: "u32 \<Rightarrow> u32" where
  "rot_sub_word w = (Te2 ! ix16 w AND 0xff000000) XOR (Te3 ! ix8 w AND 0x00ff0000) XOR
    (Te0 ! ix0 w AND 0x0000ff00) XOR (Te1 ! ix24 w AND 0x000000ff)"

definition sub_word :: "u32 \<Rightarrow> u32" where
  "sub_word w = (Te2 ! ix24 w AND 0xff000000) XOR (Te3 ! ix16 w AND 0x00ff0000) XOR
    (Te0 ! ix8 w AND 0x0000ff00) XOR (Te1 ! ix0 w AND 0x000000ff)"

text \<open>An assignment \<^verbatim>\<open>rk[d] = rk[a] ^ rk[b]\<close>.\<close>

definition xor_into :: "nat \<Rightarrow> nat \<Rightarrow> nat \<Rightarrow> u32 list \<Rightarrow> u32 list"
  where "xor_into d a b rk = rk[d := rk ! a XOR rk ! b]"

text \<open>One pass of each loop, at pass \<open>i\<close>; \<open>r\<close> is the offset \<^verbatim>\<open>rk\<close> has then.\<close>

definition expand128 :: "nat \<Rightarrow> u32 list \<Rightarrow> u32 list" where
  "expand128 i rk =
    (let r = 4 * i;
         rk = rk[r + 4 := rk ! r XOR rot_sub_word (rk ! (r + 3)) XOR rcon ! i];
         rk = xor_into (r + 5) (r + 1) (r + 4) rk;
         rk = xor_into (r + 6) (r + 2) (r + 5) rk
     in xor_into (r + 7) (r + 3) (r + 6) rk)"

definition expand192 :: "nat \<Rightarrow> u32 list \<Rightarrow> u32 list" where
  "expand192 i rk =
    (let r = 6 * i;
         rk = rk[r + 6 := rk ! r XOR rot_sub_word (rk ! (r + 5)) XOR rcon ! i];
         rk = xor_into (r + 7) (r + 1) (r + 6) rk;
         rk = xor_into (r + 8) (r + 2) (r + 7) rk;
         rk = xor_into (r + 9) (r + 3) (r + 8) rk
     in if i + 1 = 8 then rk else xor_into (r + 11) (r + 5) (r + 10) (xor_into (r + 10) (r + 4) (r + 9) rk))"

definition expand256 :: "nat \<Rightarrow> u32 list \<Rightarrow> u32 list" where
  "expand256 i rk =
    (let r = 8 * i;
         rk = rk[r + 8 := rk ! r XOR rot_sub_word (rk ! (r + 7)) XOR rcon ! i];
         rk = xor_into (r + 9) (r + 1) (r + 8) rk;
         rk = xor_into (r + 10) (r + 2) (r + 9) rk;
         rk = xor_into (r + 11) (r + 3) (r + 10) rk
     in if i + 1 = 7 then rk
        else
          let rk = rk[r + 12 := rk ! (r + 4) XOR sub_word (rk ! (r + 11))];
              rk = xor_into (r + 13) (r + 5) (r + 12) rk;
              rk = xor_into (r + 14) (r + 6) (r + 13) rk
          in xor_into (r + 15) (r + 7) (r + 14) rk)"

text \<open>The words of the key itself.\<close>

definition load_key :: "nat \<Rightarrow> byte list \<Rightarrow> u32 list \<Rightarrow> u32 list"
  where "load_key n key rk = map (\<lambda>i. GETU32 (drop (4 * i) key)) [0..<n] @ drop n rk"

text \<open>The return value, and the key afterwards; \<open>None\<close> is a null pointer.\<close>

definition AES_set_encrypt_key :: "byte list option \<Rightarrow> u32 \<Rightarrow> aes_key \<Rightarrow> int \<times> aes_key" where
  "AES_set_encrypt_key key bits aeskey =
    (case key of
       None \<Rightarrow> (-1, aeskey)
     | Some p \<Rightarrow>
         if bits = 128 then
           (0, aeskey\<lparr>aes_rounds := 10, rd_key := fold expand128 [0..<10] (load_key 4 p (rd_key aeskey))\<rparr>)
         else if bits = 192 then
           (0, aeskey\<lparr>aes_rounds := 12, rd_key := fold expand192 [0..<8] (load_key 6 p (rd_key aeskey))\<rparr>)
         else if bits = 256 then
           (0, aeskey\<lparr>aes_rounds := 14, rd_key := fold expand256 [0..<7] (load_key 8 p (rd_key aeskey))\<rparr>)
         else (-2, aeskey))"

text \<open>Exchanging the round keys from the outside in, and the transformation of the inner ones.\<close>

definition swap_words :: "nat \<Rightarrow> nat \<Rightarrow> u32 list \<Rightarrow> u32 list"
  where "swap_words i j rk = rk[i := rk ! j, j := rk ! i]"

function invert_keys :: "nat \<Rightarrow> nat \<Rightarrow> u32 list \<Rightarrow> u32 list" where
  "invert_keys i j rk =
    (if i < j then
       invert_keys (i + 4) (j - 4)
         (swap_words (i + 3) (j + 3) (swap_words (i + 2) (j + 2) (swap_words (i + 1) (j + 1) (swap_words i j rk))))
     else rk)"
  by pat_completeness auto
termination by (relation "measure (\<lambda>(i, j, rk). j - i)") auto

declare invert_keys.simps [simp del]

definition inv_mix_word :: "u32 \<Rightarrow> u32" where
  "inv_mix_word w =
    Td0 ! unat (Te1 ! ix24 w AND 0xff) XOR Td1 ! unat (Te1 ! ix16 w AND 0xff) XOR
    Td2 ! unat (Te1 ! ix8 w AND 0xff) XOR Td3 ! unat (Te1 ! ix0 w AND 0xff)"

definition inv_mix_key :: "nat \<Rightarrow> u32 list \<Rightarrow> u32 list" where
  "inv_mix_key i rk =
    (let r = 4 * i
     in rk[r := inv_mix_word (rk ! r), r + 1 := inv_mix_word (rk ! (r + 1)),
         r + 2 := inv_mix_word (rk ! (r + 2)), r + 3 := inv_mix_word (rk ! (r + 3))])"

definition AES_set_decrypt_key :: "byte list option \<Rightarrow> u32 \<Rightarrow> aes_key \<Rightarrow> int \<times> aes_key" where
  "AES_set_decrypt_key key bits aeskey =
    (case AES_set_encrypt_key key bits aeskey of
       (status, k) \<Rightarrow>
         if status < 0 then (status, k)
         else
           let n = unat (aes_rounds k)
           in (0, k\<lparr>rd_key := fold inv_mix_key [1..<n] (invert_keys 0 (4 * n) (rd_key k))\<rparr>))"

section \<open>Blocks\<close>

type_synonym columns = "u32 \<times> u32 \<times> u32 \<times> u32"

text \<open>The four columns, with four words of the key added.\<close>

definition add_key :: "u32 list \<Rightarrow> nat \<Rightarrow> columns \<Rightarrow> columns" where
  "add_key rk r s = (case s of (s0, s1, s2, s3) \<Rightarrow>
    (s0 XOR rk ! r, s1 XOR rk ! (r + 1), s2 XOR rk ! (r + 2), s3 XOR rk ! (r + 3)))"

definition load_block :: "byte list \<Rightarrow> columns"
  where "load_block p = (GETU32 p, GETU32 (drop 4 p), GETU32 (drop 8 p), GETU32 (drop 12 p))"

definition store_block :: "columns \<Rightarrow> byte list"
  where "store_block s = (case s of (s0, s1, s2, s3) \<Rightarrow> PUTU32 s0 @ PUTU32 s1 @ PUTU32 s2 @ PUTU32 s3)"

definition enc_column :: "u32 \<Rightarrow> u32 \<Rightarrow> u32 \<Rightarrow> u32 \<Rightarrow> u32"
  where "enc_column a b c d = Te0 ! ix24 a XOR Te1 ! ix16 b XOR Te2 ! ix8 c XOR Te3 ! ix0 d"

definition enc_round :: "u32 list \<Rightarrow> nat \<Rightarrow> columns \<Rightarrow> columns" where
  "enc_round rk r s = (case s of (s0, s1, s2, s3) \<Rightarrow>
    add_key rk r (enc_column s0 s1 s2 s3, enc_column s1 s2 s3 s0, enc_column s2 s3 s0 s1, enc_column s3 s0 s1 s2))"

definition last_column :: "u32 \<Rightarrow> u32 \<Rightarrow> u32 \<Rightarrow> u32 \<Rightarrow> u32" where
  "last_column a b c d = (Te2 ! ix24 a AND 0xff000000) XOR (Te3 ! ix16 b AND 0x00ff0000) XOR
    (Te0 ! ix8 c AND 0x0000ff00) XOR (Te1 ! ix0 d AND 0x000000ff)"

definition enc_last :: "u32 list \<Rightarrow> nat \<Rightarrow> columns \<Rightarrow> columns" where
  "enc_last rk r t = (case t of (t0, t1, t2, t3) \<Rightarrow>
    add_key rk r (last_column t0 t1 t2 t3, last_column t1 t2 t3 t0, last_column t2 t3 t0 t1, last_column t3 t0 t1 t2))"

text \<open>The loop over pairs of rounds, \<open>r\<close> pairs to go; it ends in the middle of the last pair.  The result
  is \<open>t\<close>, and \<^verbatim>\<open>rk\<close>, an offset, is behind the words it has used and the next four.\<close>

fun enc_rounds :: "u32 list \<Rightarrow> nat \<Rightarrow> nat \<Rightarrow> columns \<Rightarrow> columns \<times> nat" where
  "enc_rounds rk 0 off s = (s, off)"
| "enc_rounds rk (Suc r) off s =
    (let t = enc_round rk (off + 4) s; off = off + 8
     in if r = 0 then (t, off) else enc_rounds rk r off (enc_round rk off t))"

text \<open>A key of no rounds or too many would take the loop outside the array.\<close>

definition AES_encrypt :: "aes_key \<Rightarrow> byte list \<Rightarrow> byte list outcome" where
  "AES_encrypt key p =
    (let rk = rd_key key; r = unat (drop_bit 1 (aes_rounds key))
     in if r = 0 \<or> length rk < 8 * r + 4 then Undef
        else case enc_rounds rk r 0 (add_key rk 0 (load_block p)) of
            (t, off) \<Rightarrow> Ok (store_block (enc_last rk off t)))"

definition dec_column :: "u32 \<Rightarrow> u32 \<Rightarrow> u32 \<Rightarrow> u32 \<Rightarrow> u32"
  where "dec_column a b c d = Td0 ! ix24 a XOR Td1 ! ix16 b XOR Td2 ! ix8 c XOR Td3 ! ix0 d"

definition dec_round :: "u32 list \<Rightarrow> nat \<Rightarrow> columns \<Rightarrow> columns" where
  "dec_round rk r s = (case s of (s0, s1, s2, s3) \<Rightarrow>
    add_key rk r (dec_column s0 s3 s2 s1, dec_column s1 s0 s3 s2, dec_column s2 s1 s0 s3, dec_column s3 s2 s1 s0))"

definition dec_last_column :: "u32 \<Rightarrow> u32 \<Rightarrow> u32 \<Rightarrow> u32 \<Rightarrow> u32" where
  "dec_last_column a b c d = push_bit 24 (ucast (Td4 ! ix24 a)) XOR push_bit 16 (ucast (Td4 ! ix16 b)) XOR
    push_bit 8 (ucast (Td4 ! ix8 c)) XOR ucast (Td4 ! ix0 d)"

definition dec_last :: "u32 list \<Rightarrow> nat \<Rightarrow> columns \<Rightarrow> columns" where
  "dec_last rk r t = (case t of (t0, t1, t2, t3) \<Rightarrow>
    add_key rk r (dec_last_column t0 t3 t2 t1, dec_last_column t1 t0 t3 t2, dec_last_column t2 t1 t0 t3, dec_last_column t3 t2 t1 t0))"

fun dec_rounds :: "u32 list \<Rightarrow> nat \<Rightarrow> nat \<Rightarrow> columns \<Rightarrow> columns \<times> nat" where
  "dec_rounds rk 0 off s = (s, off)"
| "dec_rounds rk (Suc r) off s =
    (let t = dec_round rk (off + 4) s; off = off + 8
     in if r = 0 then (t, off) else dec_rounds rk r off (dec_round rk off t))"

definition AES_decrypt :: "aes_key \<Rightarrow> byte list \<Rightarrow> byte list outcome" where
  "AES_decrypt key p =
    (let rk = rd_key key; r = unat (drop_bit 1 (aes_rounds key))
     in if r = 0 \<or> length rk < 8 * r + 4 then Undef
        else case dec_rounds rk r 0 (add_key rk 0 (load_block p)) of
            (t, off) \<Rightarrow> Ok (store_block (dec_last rk off t)))"

end
