(* ===== verification/Boring_AES_Spec.thy ===== *)
theory Boring_AES_Spec
  imports Boring_AES
begin

text \<open>
  The cipher of FIPS 197, written down from the standard: the field of 256 elements, the S-box as inversion
  and an affine map, the state as sixteen bytes, column by column, the key schedule.
\<close>

unbundle bit_operations_syntax

section \<open>The field\<close>

definition xtime :: "byte \<Rightarrow> byte"
  where "xtime x = push_bit 1 x XOR (if bit x 7 then 0x1b else 0)"

fun gmul_loop :: "nat \<Rightarrow> byte \<Rightarrow> byte \<Rightarrow> byte" where
  "gmul_loop 0 a b = 0"
| "gmul_loop (Suc k) a b = (if bit b 0 then a else 0) XOR gmul_loop k (xtime a) (drop_bit 1 b)"

definition gmul :: "byte \<Rightarrow> byte \<Rightarrow> byte"
  where "gmul a b = gmul_loop 8 a b"

text \<open>The inverse is the power 254, and zero for zero.\<close>

definition gsq_mul :: "byte \<Rightarrow> byte \<Rightarrow> byte"
  where "gsq_mul x r = gmul (gmul r r) x"

definition gf_inverse :: "byte \<Rightarrow> byte"
  where "gf_inverse x = (let r = (gsq_mul x ^^ 6) x in gmul r r)"

definition affine :: "byte \<Rightarrow> byte"
  where "affine b = b XOR word_rotl 1 b XOR word_rotl 2 b XOR word_rotl 3 b XOR word_rotl 4 b XOR 0x63"

definition sub_byte :: "byte \<Rightarrow> byte"
  where "sub_byte x = affine (gf_inverse x)"

section \<open>The cipher\<close>

definition xor_bytes :: "byte list \<Rightarrow> byte list \<Rightarrow> byte list"
  where "xor_bytes xs ys = map2 (XOR) xs ys"

definition sub_bytes :: "byte list \<Rightarrow> byte list"
  where "sub_bytes s = map sub_byte s"

text \<open>Row \<open>r\<close> of column \<open>c\<close> is byte \<open>4 * c + r\<close>.\<close>

definition shift_rows :: "byte list \<Rightarrow> byte list"
  where "shift_rows s = map (\<lambda>i. s ! (4 * ((i div 4 + i mod 4) mod 4) + i mod 4)) [0..<16]"

definition mix_column :: "byte list \<Rightarrow> byte list" where
  "mix_column c =
    [gmul (c ! 0) 2 XOR gmul (c ! 1) 3 XOR c ! 2 XOR c ! 3,
     c ! 0 XOR gmul (c ! 1) 2 XOR gmul (c ! 2) 3 XOR c ! 3,
     c ! 0 XOR c ! 1 XOR gmul (c ! 2) 2 XOR gmul (c ! 3) 3,
     gmul (c ! 0) 3 XOR c ! 1 XOR c ! 2 XOR gmul (c ! 3) 2]"

definition mix_columns :: "byte list \<Rightarrow> byte list"
  where "mix_columns s = concat (map (\<lambda>i. mix_column (take 4 (drop (4 * i) s))) [0..<4])"

definition cipher :: "(nat \<Rightarrow> byte list) \<Rightarrow> nat \<Rightarrow> byte list \<Rightarrow> byte list" where
  "cipher round_key nr p =
    xor_bytes (shift_rows (sub_bytes
      (fold (\<lambda>i s. xor_bytes (mix_columns (shift_rows (sub_bytes s))) (round_key i)) [1..<nr]
        (xor_bytes p (round_key 0))))) (round_key nr)"

section \<open>The key schedule\<close>

definition rcon_word :: "nat \<Rightarrow> byte list"
  where "rcon_word i = [(xtime ^^ (i - 1)) 1, 0, 0, 0]"

definition next_key_word :: "nat \<Rightarrow> byte list list \<Rightarrow> byte list" where
  "next_key_word nk w =
    (let i = length w; temp = w ! (i - 1)
     in xor_bytes (w ! (i - nk))
       (if i mod nk = 0 then xor_bytes (map sub_byte (rotate1 temp)) (rcon_word (i div nk))
        else if 6 < nk \<and> i mod nk = 4 then map sub_byte temp
        else temp))"

fun key_expansion :: "byte list \<Rightarrow> nat \<Rightarrow> byte list list" where
  "key_expansion key 0 = map (\<lambda>i. take 4 (drop (4 * i) key)) [0..<length key div 4]"
| "key_expansion key (Suc n) =
    (let w = key_expansion key n in w @ [next_key_word (length key div 4) w])"

text \<open>A key of \<open>4 * nk\<close> bytes has \<open>nk + 6\<close> rounds.\<close>

definition fips_rounds :: "byte list \<Rightarrow> nat"
  where "fips_rounds key = length key div 4 + 6"

definition fips_round_key :: "byte list \<Rightarrow> nat \<Rightarrow> byte list" where
  "fips_round_key key i =
    concat (take 4 (drop (4 * i) (key_expansion key (4 * (fips_rounds key + 1) - length key div 4))))"

definition fips_cipher :: "byte list \<Rightarrow> byte list \<Rightarrow> byte list"
  where "fips_cipher key p = cipher (fips_round_key key) (fips_rounds key) p"

end
