(* ===== verification/Boring_AES_Field.thy ===== *)
theory Boring_AES_Field
  imports Boring_AES_Spec
begin

text \<open>
  What the tables of \<open>Boring_AES_Tables\<close> hold, in terms of the field: evaluated on the bits of the
  entries, least significant first.
\<close>

unbundle bit_operations_syntax

section \<open>Bits of numerals\<close>

definition obits :: "byte \<Rightarrow> bool list" where "obits x = map (bit x) [0..<8]"
definition qbits :: "u32 \<Rightarrow> bool list" where "qbits w = map (bit w) [0..<32]"

fun num_bits :: "num \<Rightarrow> bool list" where
  "num_bits num.One = [True]"
| "num_bits (num.Bit0 n) = False # num_bits n"
| "num_bits (num.Bit1 n) = True # num_bits n"

text \<open>As many bits as the first list is long.\<close>

fun pad :: "unit list \<Rightarrow> bool list \<Rightarrow> bool list" where
  "pad [] xs = []"
| "pad (t # ts) [] = False # pad ts []"
| "pad (t # ts) (x # xs) = x # pad ts xs"

definition len8 :: "unit list" where "len8 = [(), (), (), (), (), (), (), ()]"
definition len32 :: "unit list" where "len32 = len8 @ len8 @ len8 @ len8"

lemma pad_map: "pad ts xs = map (\<lambda>i. i < length xs \<and> xs ! i) [0..<length ts]"
proof (induction ts xs rule: pad.induct)
  case (2 t ts)
  then show ?case by (simp only: pad.simps length_Cons) (simp add: upt_conv_Cons map_Suc_upt [symmetric] comp_def del: upt_Suc)
next
  case (3 t ts x xs)
  then show ?case by (simp only: pad.simps length_Cons) (simp add: upt_conv_Cons map_Suc_upt [symmetric] comp_def del: upt_Suc)
qed simp

lemma num_bits_bit: "bit (numeral k :: int) i \<longleftrightarrow> i < length (num_bits k) \<and> num_bits k ! i"
proof (induction k arbitrary: i rule: num_bits.induct)
  case 1
  then show ?case by (cases i) (simp_all add: bit_0 bit_Suc)
next
  case (2 n)
  then show ?case by (cases i) (simp_all add: bit_0 bit_Suc)
next
  case (3 n)
  then show ?case by (cases i) (simp_all add: bit_0 bit_Suc)
qed

lemma len_lengths [simp]: "length len8 = 8" "length len32 = 32"
  by (simp_all add: len8_def len32_def)

lemma obits_simps: "obits (numeral k) = pad len8 (num_bits k)" "obits 0 = pad len8 []" "obits 1 = pad len8 [True]"
  by (auto simp: obits_def pad_map num_bits_bit bit_1_iff intro!: nth_equalityI)

lemma qbits_simps: "qbits (numeral k) = pad len32 (num_bits k)" "qbits 0 = pad len32 []" "qbits 1 = pad len32 [True]"
  by (auto simp: qbits_def pad_map num_bits_bit bit_1_iff intro!: nth_equalityI)

lemmas bits_eval = obits_simps qbits_simps num_bits.simps pad.simps len8_def len32_def append.simps list.map

lemma obits_inject: "obits x = obits y \<longleftrightarrow> x = y"
  by (auto simp: obits_def bit_word_eqI intro!: bit_word_eqI)

lemma qbits_inject: "qbits x = qbits y \<longleftrightarrow> x = y"
  by (auto simp: qbits_def intro!: bit_word_eqI)

section \<open>The field on bits\<close>

text \<open>A byte as its eight bits.\<close>

datatype octet = Oct bool bool bool bool bool bool bool bool

definition octet_of :: "byte \<Rightarrow> octet" where
  "octet_of x = Oct (bit x 0) (bit x 1) (bit x 2) (bit x 3) (bit x 4) (bit x 5) (bit x 6) (bit x 7)"

definition octet_at :: "nat \<Rightarrow> u32 \<Rightarrow> octet" where
  "octet_at n w = Oct (bit w n) (bit w (n + 1)) (bit w (n + 2)) (bit w (n + 3)) (bit w (n + 4)) (bit w (n + 5)) (bit w (n + 6)) (bit w (n + 7))"

fun bxor :: "bool \<Rightarrow> bool \<Rightarrow> bool" where
  "bxor True True = False"
| "bxor True False = True"
| "bxor False True = True"
| "bxor False False = False"

lemma bxor_eq: "bxor a b = (a \<noteq> b)"
  by (cases a; cases b) simp_all

fun xor_oct :: "octet \<Rightarrow> octet \<Rightarrow> octet" where
  "xor_oct (Oct a0 a1 a2 a3 a4 a5 a6 a7) (Oct b0 b1 b2 b3 b4 b5 b6 b7) =
    Oct (bxor a0 b0) (bxor a1 b1) (bxor a2 b2) (bxor a3 b3) (bxor a4 b4) (bxor a5 b5) (bxor a6 b6) (bxor a7 b7)"

fun xtime_oct :: "octet \<Rightarrow> octet" where
  "xtime_oct (Oct b0 b1 b2 b3 b4 b5 b6 b7) = Oct b7 (bxor b0 b7) b1 (bxor b2 b7) (bxor b3 b7) b4 b5 b6"

fun add_if :: "bool \<Rightarrow> octet \<Rightarrow> octet \<Rightarrow> octet" where
  "add_if True a r = xor_oct a r"
| "add_if False a r = r"

definition zero_oct :: octet where "zero_oct = Oct False False False False False False False False"

fun gmul_bits :: "octet \<Rightarrow> bool list \<Rightarrow> octet" where
  "gmul_bits a [] = zero_oct"
| "gmul_bits a (b # bs) = add_if b a (gmul_bits (xtime_oct a) bs)"

fun gmul_oct :: "octet \<Rightarrow> octet \<Rightarrow> octet" where
  "gmul_oct a (Oct b0 b1 b2 b3 b4 b5 b6 b7) = gmul_bits a [b0, b1, b2, b3, b4, b5, b6, b7]"

lemma octet_xor: "octet_of (x XOR y) = xor_oct (octet_of x) (octet_of y)"
  by (simp add: octet_of_def bit_xor_iff bxor_eq)

lemma octet_xtime: "octet_of (xtime x) = xtime_oct (octet_of x)"
  unfolding octet_of_def xtime_def bit_xor_iff bit_push_bit_iff by (simp add: bxor_eq)

lemma octet_inject: "octet_of x = octet_of y \<longleftrightarrow> x = y"
proof
  assume e: "octet_of x = octet_of y"
  show "x = y"
  proof (rule bit_word_eqI)
    fix n assume "n < LENGTH(8)"
    then have "n \<in> {0, 1, 2, 3, 4, 5, 6, 7}" by auto
    then show "bit x n = bit y n" using e by (auto simp: octet_of_def)
  qed
qed simp

lemma gmul_loop_bits: "octet_of (gmul_loop k a b) = gmul_bits (octet_of a) (map (bit b) [0..<k])"
proof (induction k arbitrary: a b)
  case 0
  then show ?case by (simp add: octet_of_def zero_oct_def)
next
  case (Suc k)
  have "map (bit b) [0..<Suc k] = bit b 0 # map (bit (drop_bit 1 b)) [0..<k]"
    by (simp add: upt_conv_Cons map_Suc_upt [symmetric] bit_drop_bit_eq comp_def del: upt_Suc)
  moreover have "octet_of (gmul_loop (Suc k) a b) =
      add_if (bit b 0) (octet_of a) (octet_of (gmul_loop k (xtime a) (drop_bit 1 b)))"
    by (cases "bit b 0") (simp_all add: octet_xor)
  ultimately show ?case by (simp only: Suc octet_xtime gmul_bits.simps)
qed

lemma upt_8: "[0..<8] = [0, 1, 2, 3, 4, 5, 6, 7 :: nat]" by (simp add: upt_rec)

lemma octet_gmul: "octet_of (gmul a b) = gmul_oct (octet_of a) (octet_of b)"
  unfolding gmul_def gmul_loop_bits upt_8 by (simp add: octet_of_def)

definition sq_mul_oct :: "octet \<Rightarrow> octet \<Rightarrow> octet"
  where "sq_mul_oct x r = gmul_oct (gmul_oct r r) x"

definition square_oct :: "octet \<Rightarrow> octet"
  where "square_oct r = gmul_oct r r"

definition inverse_oct :: "octet \<Rightarrow> octet" where
  "inverse_oct x = square_oct (sq_mul_oct x (sq_mul_oct x (sq_mul_oct x (sq_mul_oct x (sq_mul_oct x (sq_mul_oct x x))))))"

lemma octet_inverse: "octet_of (gf_inverse x) = inverse_oct (octet_of x)"
  by (simp add: gf_inverse_def gsq_mul_def sq_mul_oct_def square_oct_def inverse_oct_def octet_gmul Let_def eval_nat_numeral)

fun rot_oct :: "octet \<Rightarrow> octet" where
  "rot_oct (Oct b0 b1 b2 b3 b4 b5 b6 b7) = Oct b7 b0 b1 b2 b3 b4 b5 b6"

fun affine_oct :: "octet \<Rightarrow> octet" where
  "affine_oct (Oct b0 b1 b2 b3 b4 b5 b6 b7) =
    xor_oct (xor_oct (Oct b0 b1 b2 b3 b4 b5 b6 b7) (xor_oct (Oct b7 b0 b1 b2 b3 b4 b5 b6) (xor_oct (Oct b6 b7 b0 b1 b2 b3 b4 b5)
      (xor_oct (Oct b5 b6 b7 b0 b1 b2 b3 b4) (Oct b4 b5 b6 b7 b0 b1 b2 b3))))) (Oct True True False False False True True False)"

lemma octet_affine: "octet_of (affine x) = affine_oct (octet_of x)"
  by (simp add: affine_def octet_of_def bit_xor_iff bit_word_rotl_iff bxor_eq)

section \<open>The S-box\<close>

text \<open>The bits of the numbers from 0 below 256.\<close>

fun all_octets :: "unit list \<Rightarrow> bool list list" where
  "all_octets [] = [[]]"
| "all_octets (t # ts) = concat (map (\<lambda>l. [False # l, True # l]) (all_octets ts))"

fun to_octet :: "bool list \<Rightarrow> octet" where
  "to_octet (b0 # b1 # b2 # b3 # b4 # b5 # b6 # b7 # r) = Oct b0 b1 b2 b3 b4 b5 b6 b7"

text \<open>The inverses in order, the products with them, and the S-box.\<close>

definition inverses :: "byte list" where
  "inverses = [
    0x00, 0x01, 0x8d, 0xf6, 0xcb, 0x52, 0x7b, 0xd1, 0xe8, 0x4f, 0x29, 0xc0, 0xb0, 0xe1, 0xe5, 0xc7,
    0x74, 0xb4, 0xaa, 0x4b, 0x99, 0x2b, 0x60, 0x5f, 0x58, 0x3f, 0xfd, 0xcc, 0xff, 0x40, 0xee, 0xb2,
    0x3a, 0x6e, 0x5a, 0xf1, 0x55, 0x4d, 0xa8, 0xc9, 0xc1, 0x0a, 0x98, 0x15, 0x30, 0x44, 0xa2, 0xc2,
    0x2c, 0x45, 0x92, 0x6c, 0xf3, 0x39, 0x66, 0x42, 0xf2, 0x35, 0x20, 0x6f, 0x77, 0xbb, 0x59, 0x19,
    0x1d, 0xfe, 0x37, 0x67, 0x2d, 0x31, 0xf5, 0x69, 0xa7, 0x64, 0xab, 0x13, 0x54, 0x25, 0xe9, 0x09,
    0xed, 0x5c, 0x05, 0xca, 0x4c, 0x24, 0x87, 0xbf, 0x18, 0x3e, 0x22, 0xf0, 0x51, 0xec, 0x61, 0x17,
    0x16, 0x5e, 0xaf, 0xd3, 0x49, 0xa6, 0x36, 0x43, 0xf4, 0x47, 0x91, 0xdf, 0x33, 0x93, 0x21, 0x3b,
    0x79, 0xb7, 0x97, 0x85, 0x10, 0xb5, 0xba, 0x3c, 0xb6, 0x70, 0xd0, 0x06, 0xa1, 0xfa, 0x81, 0x82,
    0x83, 0x7e, 0x7f, 0x80, 0x96, 0x73, 0xbe, 0x56, 0x9b, 0x9e, 0x95, 0xd9, 0xf7, 0x02, 0xb9, 0xa4,
    0xde, 0x6a, 0x32, 0x6d, 0xd8, 0x8a, 0x84, 0x72, 0x2a, 0x14, 0x9f, 0x88, 0xf9, 0xdc, 0x89, 0x9a,
    0xfb, 0x7c, 0x2e, 0xc3, 0x8f, 0xb8, 0x65, 0x48, 0x26, 0xc8, 0x12, 0x4a, 0xce, 0xe7, 0xd2, 0x62,
    0x0c, 0xe0, 0x1f, 0xef, 0x11, 0x75, 0x78, 0x71, 0xa5, 0x8e, 0x76, 0x3d, 0xbd, 0xbc, 0x86, 0x57,
    0x0b, 0x28, 0x2f, 0xa3, 0xda, 0xd4, 0xe4, 0x0f, 0xa9, 0x27, 0x53, 0x04, 0x1b, 0xfc, 0xac, 0xe6,
    0x7a, 0x07, 0xae, 0x63, 0xc5, 0xdb, 0xe2, 0xea, 0x94, 0x8b, 0xc4, 0xd5, 0x9d, 0xf8, 0x90, 0x6b,
    0xb1, 0x0d, 0xd6, 0xeb, 0xc6, 0x0e, 0xcf, 0xad, 0x08, 0x4e, 0xd7, 0xe3, 0x5d, 0x50, 0x1e, 0xb3,
    0x5b, 0x23, 0x38, 0x34, 0x68, 0x46, 0x03, 0x8c, 0xdd, 0x9c, 0x7d, 0xa0, 0xcd, 0x1a, 0x41, 0x1c]"

lemma inverses_evaluated: "map (\<lambda>b. inverse_oct (to_octet b)) (all_octets len8) = map (\<lambda>x. to_octet (obits x)) inverses"
  apply (simp only: inverses_def bits_eval)
  by code_simp

lemma products_evaluated:
  "map2 (\<lambda>b x. gmul_oct (to_octet b) (to_octet (obits x))) (tl (all_octets len8)) (tl inverses) =
    map (\<lambda>x. Oct True False False False False False False False) (tl inverses)"
  apply (simp only: inverses_def bits_eval list.sel)
  by code_simp

fun quad :: "bool list \<Rightarrow> octet list" where
  "quad (b0 # b1 # b2 # b3 # b4 # b5 # b6 # b7 # r) = Oct b0 b1 b2 b3 b4 b5 b6 b7 # quad r"
| "quad [] = []"

lemma S_box_evaluated: "map (\<lambda>x. affine_oct (to_octet (obits x))) inverses = map (\<lambda>w. hd (quad (qbits w))) Te1"
  apply (simp only: inverses_def Te1_def bits_eval quad.simps list.sel)
  by code_simp

section \<open>The other tables\<close>

lemma Te_evaluated:
  "map (\<lambda>w. quad (qbits w)) Te0 = map (\<lambda>s. [xor_oct s (xtime_oct s), s, s, xtime_oct s]) (map (\<lambda>w. hd (quad (qbits w))) Te1)"
  "map (\<lambda>w. quad (qbits w)) Te1 = map (\<lambda>s. [s, s, xtime_oct s, xor_oct s (xtime_oct s)]) (map (\<lambda>w. hd (quad (qbits w))) Te1)"
  "map (\<lambda>w. quad (qbits w)) Te2 = map (\<lambda>s. [s, xtime_oct s, xor_oct s (xtime_oct s), s]) (map (\<lambda>w. hd (quad (qbits w))) Te1)"
  "map (\<lambda>w. quad (qbits w)) Te3 = map (\<lambda>s. [xtime_oct s, xor_oct s (xtime_oct s), s, s]) (map (\<lambda>w. hd (quad (qbits w))) Te1)"
  by ((simp only: Te0_def Te1_def Te2_def Te3_def bits_eval quad.simps list.sel), code_simp)+

fun oct9 :: "octet \<Rightarrow> octet" where "oct9 x = xor_oct (xtime_oct (xtime_oct (xtime_oct x))) x"
fun octB :: "octet \<Rightarrow> octet" where "octB x = xor_oct (xtime_oct (xtime_oct (xtime_oct x))) (xor_oct (xtime_oct x) x)"
fun octD :: "octet \<Rightarrow> octet" where "octD x = xor_oct (xtime_oct (xtime_oct (xtime_oct x))) (xor_oct (xtime_oct (xtime_oct x)) x)"
fun octE :: "octet \<Rightarrow> octet" where
  "octE x = xor_oct (xtime_oct (xtime_oct (xtime_oct x))) (xor_oct (xtime_oct (xtime_oct x)) (xtime_oct x))"

lemma Td_evaluated:
  "map (\<lambda>w. quad (qbits w)) Td0 = map (\<lambda>s. [octB s, octD s, oct9 s, octE s]) (map (\<lambda>x. to_octet (obits x)) Td4)"
  "map (\<lambda>w. quad (qbits w)) Td1 = map (\<lambda>s. [octD s, oct9 s, octE s, octB s]) (map (\<lambda>x. to_octet (obits x)) Td4)"
  "map (\<lambda>w. quad (qbits w)) Td2 = map (\<lambda>s. [oct9 s, octE s, octB s, octD s]) (map (\<lambda>x. to_octet (obits x)) Td4)"
  "map (\<lambda>w. quad (qbits w)) Td3 = map (\<lambda>s. [octE s, octB s, octD s, oct9 s]) (map (\<lambda>x. to_octet (obits x)) Td4)"
  by ((simp only: Td0_def Td1_def Td2_def Td3_def Td4_def bits_eval quad.simps to_octet.simps), code_simp)+

definition S_box :: "byte list" where "S_box = map (\<lambda>w. ucast w) Te1"

lemma S_box_inverse_evaluated: "map (\<lambda>v. S_box ! unat v) Td4 = map of_nat [0..<256]"
  by code_simp

end
