(* ===== verification/Boring_AES_Bytes.thy ===== *)
theory Boring_AES_Bytes
  imports Boring_AES_Field
begin

text \<open>
  The tables entry by entry: the S-box and its inverse, and the products that make up the words of the
  other tables.
\<close>

unbundle bit_operations_syntax

section \<open>The S-box\<close>

lemma unat_byte_less: "unat (x :: byte) < 256"
  using unsigned_less [of x] by simp

lemma table_lengths [simp]:
  "length Te0 = 256" "length Te1 = 256" "length Te2 = 256" "length Te3 = 256"
  "length Td0 = 256" "length Td1 = 256" "length Td2 = 256" "length Td3 = 256" "length Td4 = 256"
  "length S_box = 256" "length inverses = 256"
  by (simp_all add: Te0_def Te1_def Te2_def Te3_def Td0_def Td1_def Td2_def Td3_def Td4_def S_box_def inverses_def)

lemma octet_to_octet: "octet_of x = to_octet (obits x)"
  by (simp add: octet_of_def obits_def upt_8)

lemma bytes_enumerated: "map obits (map of_nat [0..<256]) = all_octets len8"
  by (simp add: upt_rec bits_eval)

lemma octet_nth: "to_octet (all_octets len8 ! unat x) = octet_of x"
  using unat_byte_less [of x] by (simp add: bytes_enumerated [symmetric] octet_to_octet)

lemma all_octets_length: "length (all_octets len8) = 256"
  by (simp add: bytes_enumerated [symmetric])

text \<open>A pointwise reading of the evaluated equations.\<close>

lemma map_eq_nth: "map f xs = map g ys \<Longrightarrow> i < length ys \<Longrightarrow> f (xs ! i) = g (ys ! i)"
  by (metis length_map nth_map)

lemma inverse_nth: "gf_inverse x = inverses ! unat x"
  using map_eq_nth [OF inverses_evaluated, of "unat x"] unat_byte_less [of x]
  by (simp add: octet_nth octet_inverse [symmetric] octet_to_octet [symmetric] octet_inject)

lemma upt_32: "[0..<32] = [0, 1, 2, 3, 4, 5, 6, 7, 8, 9, 10, 11, 12, 13, 14, 15,
    16, 17, 18, 19, 20, 21, 22, 23, 24, 25, 26, 27, 28, 29, 30, 31 :: nat]"
  by (simp add: upt_rec)

lemma upt_4: "[0..<4] = [0, 1, 2, 3 :: nat]"
  by (simp add: upt_rec)

lemma quad_octets: "quad (qbits w) = map octet_of (le_bytes 4 w)"
  by (simp only: qbits_def upt_32 upt_4 le_bytes_def) (simp add: octet_of_def bit_unsigned_iff bit_drop_bit_eq)

lemma low_octet: "hd (quad (qbits w)) = octet_of (ucast w)"
  by (simp add: quad_octets le_bytes_def upt_rec)

lemma sub_byte_nth: "sub_byte x = S_box ! unat x"
proof -
  have "octet_of (sub_byte x) = hd (quad (qbits (Te1 ! unat x)))"
    using map_eq_nth [OF S_box_evaluated, of "unat x"] unat_byte_less [of x]
    by (simp add: sub_byte_def octet_affine inverse_nth octet_to_octet [symmetric])
  then show ?thesis using unat_byte_less [of x] by (simp add: low_octet octet_inject S_box_def)
qed

theorem gf_inverse_correct: "x \<noteq> 0 \<Longrightarrow> gmul x (gf_inverse x) = 1"
proof -
  assume "x \<noteq> 0"
  then obtain i where i: "unat x = Suc i" by (metis not0_implies_Suc unat_eq_0)
  then have l: "i < 255" using unat_byte_less [of x] by simp
  have "to_octet (tl (all_octets len8) ! i) = octet_of x" "tl inverses ! i = gf_inverse x"
    using octet_nth [of x] i l by (simp_all add: nth_tl all_octets_length inverse_nth)
  moreover have "gmul_oct (to_octet (tl (all_octets len8) ! i)) (to_octet (obits (tl inverses ! i))) = octet_of 1"
    using arg_cong [OF products_evaluated, of "\<lambda>l. l ! i"] l by (simp add: all_octets_length octet_of_def)
  ultimately show ?thesis by (simp add: octet_gmul [symmetric] octet_to_octet [symmetric] octet_inject)
qed

lemma S_box_inverse: "S_box ! unat (Td4 ! unat x) = x"
  using arg_cong [OF S_box_inverse_evaluated, of "\<lambda>l. l ! unat x"] unat_byte_less [of x] by simp

lemma sub_byte_inv: "sub_byte (Td4 ! unat x) = x" and inv_sub_byte: "Td4 ! unat (sub_byte x) = x"
proof -
  have e: "sub_byte (Td4 ! unat y) = y" for y by (simp add: sub_byte_nth S_box_inverse)
  then show "sub_byte (Td4 ! unat x) = x" .
  have "surj sub_byte" using e by (intro surjI [where f = "\<lambda>y. Td4 ! unat y"])
  then have "inj sub_byte" by (simp add: finite_UNIV_surj_inj)
  then show "Td4 ! unat (sub_byte x) = x" using e [of "sub_byte x"] by (simp add: inj_eq)
qed

section \<open>The other tables\<close>

lemma word_of_octets:
  assumes "quad (qbits w) = map octet_of [d, c, b, a]"
  shows "w = be_word [a, b, c, d]"
proof -
  have "map octet_of (le_bytes 4 w) = map octet_of [d, c, b, a]" using assms by (simp add: quad_octets)
  moreover have "inj octet_of" by (simp add: inj_def octet_inject)
  ultimately have "le_bytes 4 w = [d, c, b, a]" by (rule map_injective)
  then have "w = le_word [d, c, b, a]" using le_word_le_bytes [of 4 w] by simp
  then show ?thesis by (simp add: be_word_def)
qed

lemma table_word:
  fixes x :: byte
  assumes "map (\<lambda>w. quad (qbits w)) T = map f (map g U)" "length U = 256"
    and "f (g (U ! unat x)) = map octet_of [d, c, b, a]"
  shows "T ! unat x = be_word [a, b, c, d]"
proof -
  have "map (\<lambda>w. quad (qbits w)) T = map (\<lambda>w. f (g w)) U" using assms(1) by simp
  from map_eq_nth [OF this, of "unat x"] show ?thesis
    using unat_byte_less [of x] assms(2,3) by (intro word_of_octets) simp
qed

lemma Te1_octet: "hd (quad (qbits (Te1 ! unat x))) = octet_of (sub_byte x)"
  using unat_byte_less [of x] by (simp add: low_octet sub_byte_nth S_box_def)

lemma Te_nth:
  "Te0 ! unat x = be_word [xtime (sub_byte x), sub_byte x, sub_byte x, sub_byte x XOR xtime (sub_byte x)]"
  "Te1 ! unat x = be_word [sub_byte x XOR xtime (sub_byte x), xtime (sub_byte x), sub_byte x, sub_byte x]"
  "Te2 ! unat x = be_word [sub_byte x, sub_byte x XOR xtime (sub_byte x), xtime (sub_byte x), sub_byte x]"
  "Te3 ! unat x = be_word [sub_byte x, sub_byte x, sub_byte x XOR xtime (sub_byte x), xtime (sub_byte x)]"
  by (rule table_word [OF Te_evaluated(1)] table_word [OF Te_evaluated(2)] table_word [OF Te_evaluated(3)]
      table_word [OF Te_evaluated(4)]; simp add: Te1_octet octet_xor octet_xtime)+

definition times9 :: "byte \<Rightarrow> byte" where "times9 x = xtime (xtime (xtime x)) XOR x"
definition timesB :: "byte \<Rightarrow> byte" where "timesB x = xtime (xtime (xtime x)) XOR (xtime x XOR x)"
definition timesD :: "byte \<Rightarrow> byte" where "timesD x = xtime (xtime (xtime x)) XOR (xtime (xtime x) XOR x)"
definition timesE :: "byte \<Rightarrow> byte" where "timesE x = xtime (xtime (xtime x)) XOR (xtime (xtime x) XOR xtime x)"

lemmas times_defs = times9_def timesB_def timesD_def timesE_def

lemma Td_nth:
  fixes x :: byte
  shows "Td0 ! unat x = be_word [timesE (Td4 ! unat x), times9 (Td4 ! unat x), timesD (Td4 ! unat x), timesB (Td4 ! unat x)]"
  "Td1 ! unat x = be_word [timesB (Td4 ! unat x), timesE (Td4 ! unat x), times9 (Td4 ! unat x), timesD (Td4 ! unat x)]"
  "Td2 ! unat x = be_word [timesD (Td4 ! unat x), timesB (Td4 ! unat x), timesE (Td4 ! unat x), times9 (Td4 ! unat x)]"
  "Td3 ! unat x = be_word [times9 (Td4 ! unat x), timesD (Td4 ! unat x), timesB (Td4 ! unat x), timesE (Td4 ! unat x)]"
  by (rule table_word [OF Td_evaluated(1)] table_word [OF Td_evaluated(2)] table_word [OF Td_evaluated(3)]
      table_word [OF Td_evaluated(4)]; simp add: times_defs octet_to_octet [symmetric] octet_xor octet_xtime)+

text \<open>Multiplication by two is linear, and the two mixing matrices are inverse.\<close>

lemma xtime_xor: "xtime (x XOR y) = xtime x XOR xtime y"
  by (rule bit_word_eqI) (auto simp: xtime_def bit_xor_iff bit_push_bit_iff)

lemma gmul_two: "gmul x 2 = xtime x" and gmul_three: "gmul x 3 = x XOR xtime x"
proof -
  have eight: "(8 :: nat) = Suc (Suc (Suc (Suc (Suc (Suc (Suc (Suc 0)))))))" by simp
  show "gmul x 2 = xtime x" "gmul x 3 = x XOR xtime x" unfolding gmul_def eight by simp_all
qed

lemma xor_cancel: "x XOR (x XOR y) = (y :: 'a::len word)"
  by (simp add: xor.assoc [symmetric])

lemmas xor_simps = xor.assoc xor.commute xor.left_commute xor_cancel

end
