(* ===== verification/Boring_AES_Laws.thy ===== *)
theory Boring_AES_Laws
  imports Boring_AES_Bytes
begin

text \<open>
  The rounds on bytes: a column is the big-endian word of four bytes, so the table look-ups of a round are
  the S-box, the shift of the rows and the product with the mixing matrix; the rounds of decryption undo those of
  encryption.
\<close>

unbundle bit_operations_syntax

section \<open>Words of four bytes\<close>

lemma less_32: "n < LENGTH(32) \<Longrightarrow> n \<in> {0, 1, 2, 3, 4, 5, 6, 7, 8, 9, 10, 11, 12, 13, 14, 15,
    16, 17, 18, 19, 20, 21, 22, 23, 24, 25, 26, 27, 28, 29, 30, 31}"
proof -
  assume "n < LENGTH(32)"
  then have "n \<in> set [0..<32]" by simp
  then show ?thesis unfolding upt_32 by simp
qed

lemma word32_eqI:
  "(\<And>n. n \<in> {0, 1, 2, 3, 4, 5, 6, 7, 8, 9, 10, 11, 12, 13, 14, 15,
    16, 17, 18, 19, 20, 21, 22, 23, 24, 25, 26, 27, 28, 29, 30, 31} \<Longrightarrow> bit v n = bit w n) \<Longrightarrow> v = (w :: u32)"
  by (rule bit_word_eqI) (use less_32 in blast)

abbreviation word4 :: "byte \<Rightarrow> byte \<Rightarrow> byte \<Rightarrow> byte \<Rightarrow> u32"
  where "word4 a b c d \<equiv> be_word [a, b, c, d]"

lemma bit_word4:
  "bit (word4 a b c d) n = (n < 32 \<and> bit ([d, c, b, a] ! (n div 8)) (n mod 8))"
proof -
  have "rev [a, b, c, d] = [d, c, b, a]" by simp
  then show ?thesis unfolding be_word_def bit_le_word by auto
qed

lemma drop_word4:
  "drop_bit 24 (word4 a b c d) = ucast a"
  "drop_bit 16 (word4 a b c d) AND 0xff = ucast b"
  "drop_bit 8 (word4 a b c d) AND 0xff = ucast c"
  "word4 a b c d AND 0xff = ucast d"
  by (rule word32_eqI; auto simp: bit_word4 bit_drop_bit_eq bit_and_iff bit_unsigned_iff dest: bit_imp_le_length)+

lemma ix_word4 [simp]:
  "ix24 (word4 a b c d) = unat a" "ix16 (word4 a b c d) = unat b" "ix8 (word4 a b c d) = unat c" "ix0 (word4 a b c d) = unat d"
  by (simp_all only: ix24_def ix16_def ix8_def ix0_def drop_word4 unat_ucast_byte_u32)

lemma xor_word4 [simp]:
  "word4 a b c d XOR word4 a' b' c' d' = word4 (a XOR a') (b XOR b') (c XOR c') (d XOR d')"
  by (rule word32_eqI) (auto simp: bit_word4 bit_xor_iff)

lemma mask_word4:
  "word4 a b c d AND 0xff000000 = word4 a 0 0 0"
  "word4 a b c d AND 0x00ff0000 = word4 0 b 0 0"
  "word4 a b c d AND 0x0000ff00 = word4 0 0 c 0"
  "word4 a b c d AND 0x000000ff = word4 0 0 0 d"
  by (rule word32_eqI; auto simp: bit_word4 bit_and_iff)+

lemma bytes_word4 [simp]: "be_bytes 4 (word4 a b c d) = [a, b, c, d]"
proof -
  have "length [a, b, c, d] = 4" by simp
  moreover have "be_bytes (length [a, b, c, d]) (word4 a b c d) = [a, b, c, d]" by (rule be_bytes_be_word) simp
  ultimately show ?thesis by (simp only:)
qed

lemma word4_inject: "word4 a b c d = word4 a' b' c' d' \<longleftrightarrow> a = a' \<and> b = b' \<and> c = c' \<and> d = d'"
  by (metis bytes_word4 list.inject)

lemma shift_word4:
  "drop_bit 16 (word4 a b c d) = word4 0 0 a b" "push_bit 16 (word4 a b c d) = word4 c d 0 0"
  "drop_bit 8 (word4 a b c d) = word4 0 a b c" "push_bit 8 (word4 a b c d) = word4 b c d 0"
  by (rule word32_eqI; auto simp: bit_word4 bit_drop_bit_eq bit_push_bit_iff)+

lemma or_word4:
  "word4 a b c d OR word4 a' b' c' d' = word4 (a OR a') (b OR b') (c OR c') (d OR d')"
  by (rule word32_eqI) (auto simp: bit_word4 bit_or_iff)

lemma mask2_word4:
  "word4 a b c d AND 0xff00ff00 = word4 a 0 c 0"
  "word4 a b c d AND 0x00ff00ff = word4 0 b 0 d"
  by (rule word32_eqI; auto simp: bit_word4 bit_and_iff)+

lemma bswap_word4: "CRYPTO_bswap4 (word4 a b c d) = word4 d c b a"
  unfolding CRYPTO_bswap4_def Let_def shift_word4 or_word4 mask2_word4 by simp

lemma GETU32_word4: "GETU32 (a # b # c # d # r) = word4 a b c d"
  using bswap_word4 [of d c b a] by (simp add: GETU32_def be_word_def)

lemma PUTU32_word4: "PUTU32 (word4 a b c d) = [a, b, c, d]"
  using bytes_word4 [of d c b a] by (simp add: PUTU32_def bswap_word4 be_bytes_def rev_swap)

lemma word4_cases: obtains a b c d where "w = word4 a b c d"
proof -
  obtain a b c d where "be_bytes 4 w = [a, b, c, d]"
    unfolding be_bytes_def le_bytes_def upt_4 by simp
  then have "w = word4 a b c d" using be_word_be_bytes [of 4 w] by simp
  then show ?thesis by (rule that)
qed

section \<open>Columns of bytes\<close>

definition columns_of :: "byte list \<Rightarrow> columns"
  where "columns_of s = (be_word (take 4 s), be_word (take 4 (drop 4 s)), be_word (take 4 (drop 8 s)), be_word (take 4 (drop 12 s)))"

definition key_bytes :: "u32 list \<Rightarrow> nat \<Rightarrow> byte list"
  where "key_bytes rk r = be_bytes 4 (rk ! r) @ be_bytes 4 (rk ! (r + 1)) @ be_bytes 4 (rk ! (r + 2)) @ be_bytes 4 (rk ! (r + 3))"

lemma key_bytes_length [simp]: "length (key_bytes rk r) = 16"
  by (simp add: key_bytes_def)

lemma list16:
  assumes "length s = 16"
  obtains x0 x1 x2 x3 x4 x5 x6 x7 x8 x9 x10 x11 x12 x13 x14 x15
  where "s = [x0, x1, x2, x3, x4, x5, x6, x7, x8, x9, x10, x11, x12, x13, x14, x15]"
proof -
  have "s = map ((!) s) [0..<16]" using assms map_nth [of s] by simp
  also have "[0..<16] = [0, 1, 2, 3, 4, 5, 6, 7, 8, 9, 10, 11, 12, 13, 14, 15 :: nat]" by (simp add: upt_rec)
  finally show ?thesis using that by simp
qed

lemma load_block_columns: "length p = 16 \<Longrightarrow> load_block p = columns_of p"
  by (erule list16) (simp add: load_block_def columns_of_def GETU32_word4)

lemma store_block_columns: "length p = 16 \<Longrightarrow> store_block (columns_of p) = p"
  by (erule list16) (simp add: store_block_def columns_of_def PUTU32_word4)

lemma xor_bytes_length [simp]: "length (xor_bytes xs ys) = min (length xs) (length ys)"
  by (simp add: xor_bytes_def)

lemma add_key_columns:
  assumes "length s = 16"
  shows "add_key rk r (columns_of s) = columns_of (xor_bytes s (key_bytes rk r))"
proof -
  obtain a b c d where w0: "rk ! r = word4 a b c d" by (rule word4_cases)
  obtain e f g h where w1: "rk ! (r + 1) = word4 e f g h" by (rule word4_cases)
  obtain i j k l where w2: "rk ! (r + 2) = word4 i j k l" by (rule word4_cases)
  obtain m n p q where w3: "rk ! (r + 3) = word4 m n p q" by (rule word4_cases)
  show ?thesis
    using assms
    by (elim list16) (simp only: add_key_def columns_of_def key_bytes_def xor_bytes_def w0 w1 w2 w3 bytes_word4, simp)
qed

lemma sub_bytes_length [simp]: "length (sub_bytes s) = length s"
  by (simp add: sub_bytes_def)

lemma upt_16: "[0..<16] = [0, 1, 2, 3, 4, 5, 6, 7, 8, 9, 10, 11, 12, 13, 14, 15 :: nat]"
  by (simp add: upt_rec)

lemma shift_rows_list:
  "shift_rows [x0, x1, x2, x3, x4, x5, x6, x7, x8, x9, x10, x11, x12, x13, x14, x15] =
    [x0, x5, x10, x15, x4, x9, x14, x3, x8, x13, x2, x7, x12, x1, x6, x11]"
  unfolding shift_rows_def upt_16 by simp

lemma mix_columns_list:
  "mix_columns [x0, x1, x2, x3, x4, x5, x6, x7, x8, x9, x10, x11, x12, x13, x14, x15] =
    mix_column [x0, x1, x2, x3] @ mix_column [x4, x5, x6, x7] @ mix_column [x8, x9, x10, x11] @ mix_column [x12, x13, x14, x15]"
  unfolding mix_columns_def upt_4 by simp

lemma length_shift_rows [simp]: "length (shift_rows s) = 16"
  by (simp add: shift_rows_def)

lemma length_mix_columns [simp]: "length (mix_columns s) = 16"
  by (simp add: mix_columns_def mix_column_def upt_4)

lemma enc_column_word4:
  "enc_column (word4 a0 a1 a2 a3) (word4 b0 b1 b2 b3) (word4 c0 c1 c2 c3) (word4 d0 d1 d2 d3) =
    be_word (mix_column [sub_byte a0, sub_byte b1, sub_byte c2, sub_byte d3])"
  by (simp add: enc_column_def Te_nth mix_column_def gmul_two gmul_three xor_simps)

lemma last_column_word4:
  "last_column (word4 a0 a1 a2 a3) (word4 b0 b1 b2 b3) (word4 c0 c1 c2 c3) (word4 d0 d1 d2 d3) =
    word4 (sub_byte a0) (sub_byte b1) (sub_byte c2) (sub_byte d3)"
  by (simp add: last_column_def Te_nth mask_word4)

lemma enc_round_columns:
  assumes "length s = 16"
  shows "enc_round rk r (columns_of s) = columns_of (xor_bytes (mix_columns (shift_rows (sub_bytes s))) (key_bytes rk r))"
proof -
  have "enc_round rk r (columns_of s) = add_key rk r (columns_of (mix_columns (shift_rows (sub_bytes s))))"
    using assms
    by (elim list16)
      (simp add: enc_round_def columns_of_def enc_column_word4 sub_bytes_def shift_rows_list mix_columns_list mix_column_def)
  then show ?thesis by (simp add: add_key_columns)
qed

lemma enc_last_columns:
  assumes "length s = 16"
  shows "enc_last rk r (columns_of s) = columns_of (xor_bytes (shift_rows (sub_bytes s)) (key_bytes rk r))"
proof -
  have "enc_last rk r (columns_of s) = add_key rk r (columns_of (shift_rows (sub_bytes s)))"
    using assms
    by (elim list16) (simp add: enc_last_def columns_of_def last_column_word4 sub_bytes_def shift_rows_list)
  then show ?thesis by (simp add: add_key_columns)
qed

section \<open>Encryption\<close>

definition byte_round :: "(nat \<Rightarrow> byte list) \<Rightarrow> nat \<Rightarrow> byte list \<Rightarrow> byte list"
  where "byte_round k i s = xor_bytes (mix_columns (shift_rows (sub_bytes s))) (k i)"

definition round_keys :: "aes_key \<Rightarrow> nat \<Rightarrow> byte list"
  where "round_keys key i = key_bytes (rd_key key) (4 * i)"

lemma round_keys_length [simp]: "length (round_keys key i) = 16"
  by (simp add: round_keys_def)

lemma byte_round_length: "length (k i) = 16 \<Longrightarrow> length (byte_round k i s) = 16"
  by (simp add: byte_round_def)

lemma enc_rounds_columns:
  "0 < r \<Longrightarrow> length s = 16 \<Longrightarrow>
    enc_rounds rk r (4 * j) (columns_of s) =
      (columns_of (fold (byte_round (\<lambda>i. key_bytes rk (4 * i))) [j + 1..<j + 2 * r] s), 4 * (j + 2 * r))"
proof (induction r arbitrary: s j)
  case (Suc r)
  let ?k = "\<lambda>i. key_bytes rk (4 * i)"
  let ?s1 = "byte_round ?k (j + 1) s"
  let ?s2 = "byte_round ?k (j + 2) ?s1"
  have l: "length ?s1 = 16" "length ?s2 = 16" by (simp_all add: byte_round_length)
  have a: "enc_round rk (4 * j + 4) (columns_of s) = columns_of ?s1"
    using enc_round_columns [OF Suc.prems(2), of rk "4 * j + 4"]
    by (simp add: byte_round_def algebra_simps)
  have b: "enc_round rk (4 * j + 8) (columns_of ?s1) = columns_of ?s2"
    using enc_round_columns [OF l(1), of rk "4 * j + 8"] 
    unfolding byte_round_def [of ?k "j + 2" ?s1] by (simp add: algebra_simps)
  show ?case
  proof (cases "r = 0")
    case True
    then show ?thesis using a by (simp add: Let_def)
  next
    case False
    have "[j + 1..<j + 2 * Suc r] = (j + 1) # (j + 2) # [j + 2 + 1..<j + 2 + 2 * r]"
      using False by (simp add: upt_conv_Cons del: upt_Suc)
    then have f: "fold (byte_round ?k) [j + 1..<j + 2 * Suc r] s = fold (byte_round ?k) [j + 2 + 1..<j + 2 + 2 * r] ?s2"
      by (simp only: fold_simps)
    have e: "4 * j + 8 = 4 * (j + 2)" "j + 2 + 2 * r = j + 2 * Suc r" by simp_all
    have "enc_rounds rk (Suc r) (4 * j) (columns_of s) = enc_rounds rk r (4 * j + 8) (columns_of ?s2)"
      using False a b by (simp add: Let_def)
    also have "\<dots> = (columns_of (fold (byte_round ?k) [j + 2 + 1..<j + 2 + 2 * r] ?s2), 4 * (j + 2 + 2 * r))"
      unfolding e(1) by (rule Suc.IH [OF _ l(2)]) (use False in simp)
    finally show ?thesis unfolding f e(2) .
  qed
qed simp

lemma fold_byte_round_length:
  "(\<And>i. length (k i) = 16) \<Longrightarrow> length s = 16 \<Longrightarrow> length (fold (byte_round k) is s) = 16"
  by (induction "is" arbitrary: s) (simp_all add: byte_round_length)

definition aes_rounds_ok :: "aes_key \<Rightarrow> nat \<Rightarrow> bool"
  where "aes_rounds_ok key n \<longleftrightarrow> aes_rounds key = of_nat n \<and> n \<in> {10, 12, 14} \<and> length (rd_key key) = 60"

lemma aes_rounds_half:
  assumes "aes_rounds_ok key n"
  shows "2 * unat (drop_bit 1 (aes_rounds key)) = n" "unat (drop_bit 1 (aes_rounds key)) \<noteq> 0"
    "8 * unat (drop_bit 1 (aes_rounds key)) + 4 \<le> length (rd_key key)"
  using assms by (auto simp: aes_rounds_ok_def)

lemma cipher_fold:
  "cipher k n p = xor_bytes (shift_rows (sub_bytes (fold (byte_round k) [1..<n] (xor_bytes p (k 0))))) (k n)"
  by (simp add: cipher_def byte_round_def [abs_def])

lemma AES_encrypt_cipher:
  assumes "aes_rounds_ok key n" "length p = 16"
  shows "AES_encrypt key p = Ok (cipher (round_keys key) n p)"
proof -
  let ?r = "unat (drop_bit 1 (aes_rounds key))" and ?k = "\<lambda>i. key_bytes (rd_key key) (4 * i)"
  let ?s = "xor_bytes p (?k 0)"
  have l: "length ?s = 16" using assms(2) by simp
  have lf: "length (fold (byte_round ?k) [1..<n] ?s) = 16"
    by (rule fold_byte_round_length) (simp_all add: assms(2))
  have "enc_rounds (rd_key key) ?r 0 (columns_of ?s) = (columns_of (fold (byte_round ?k) [1..<n] ?s), 4 * n)"
    using enc_rounds_columns [OF _ l, of ?r "rd_key key" 0] aes_rounds_half(1,2) [OF assms(1)] by simp
  then show ?thesis
    using aes_rounds_half(2,3) [OF assms(1)] assms(2) lf
    by (simp add: AES_encrypt_def Let_def load_block_columns add_key_columns enc_last_columns
      store_block_columns cipher_fold round_keys_def [abs_def])
qed

section \<open>Decryption\<close>

definition inv_sub_bytes :: "byte list \<Rightarrow> byte list"
  where "inv_sub_bytes s = map (\<lambda>x. Td4 ! unat x) s"

definition inv_shift_rows :: "byte list \<Rightarrow> byte list"
  where "inv_shift_rows s = map (\<lambda>i. s ! (4 * ((i div 4 + 4 - i mod 4) mod 4) + i mod 4)) [0..<16]"

definition inv_mix_column :: "byte list \<Rightarrow> byte list" where
  "inv_mix_column c =
    [timesE (c ! 0) XOR timesB (c ! 1) XOR timesD (c ! 2) XOR times9 (c ! 3),
     times9 (c ! 0) XOR timesE (c ! 1) XOR timesB (c ! 2) XOR timesD (c ! 3),
     timesD (c ! 0) XOR times9 (c ! 1) XOR timesE (c ! 2) XOR timesB (c ! 3),
     timesB (c ! 0) XOR timesD (c ! 1) XOR times9 (c ! 2) XOR timesE (c ! 3)]"

definition inv_mix_columns :: "byte list \<Rightarrow> byte list"
  where "inv_mix_columns s = concat (map (\<lambda>i. inv_mix_column (take 4 (drop (4 * i) s))) [0..<4])"

lemma inv_lengths [simp]:
  "length (inv_sub_bytes s) = length s" "length (inv_shift_rows s) = 16" "length (inv_mix_columns s) = 16"
  by (simp_all add: inv_sub_bytes_def inv_shift_rows_def inv_mix_columns_def inv_mix_column_def upt_4)

lemma inv_shift_rows_list:
  "inv_shift_rows [x0, x1, x2, x3, x4, x5, x6, x7, x8, x9, x10, x11, x12, x13, x14, x15] =
    [x0, x13, x10, x7, x4, x1, x14, x11, x8, x5, x2, x15, x12, x9, x6, x3]"
  unfolding inv_shift_rows_def upt_16 by simp

lemma inv_mix_columns_list:
  "inv_mix_columns [x0, x1, x2, x3, x4, x5, x6, x7, x8, x9, x10, x11, x12, x13, x14, x15] =
    inv_mix_column [x0, x1, x2, x3] @ inv_mix_column [x4, x5, x6, x7] @ inv_mix_column [x8, x9, x10, x11] @ inv_mix_column [x12, x13, x14, x15]"
  unfolding inv_mix_columns_def upt_4 by simp

lemma inv_shift_sub: "length s = 16 \<Longrightarrow> inv_shift_rows (inv_sub_bytes (shift_rows (sub_bytes s))) = s"
  by (erule list16) (simp add: sub_bytes_def inv_sub_bytes_def shift_rows_list inv_shift_rows_list inv_sub_byte)

lemma inv_mix_column_mix: "inv_mix_column (mix_column [a, b, c, d]) = [a, b, c, d]"
  by (simp add: inv_mix_column_def mix_column_def gmul_two gmul_three times_defs xtime_xor xor_simps)

lemma inv_mix_columns_mix: "length s = 16 \<Longrightarrow> inv_mix_columns (mix_columns s) = s"
proof (erule list16)
  fix x0 x1 x2 x3 x4 x5 x6 x7 x8 x9 x10 x11 x12 x13 x14 x15
  assume s: "s = [x0, x1, x2, x3, x4, x5, x6, x7, x8, x9, x10, x11, x12, x13, x14, x15]"
  have "\<exists>a b c d. mix_column x = [a, b, c, d]" for x by (simp add: mix_column_def)
  then show ?thesis
    unfolding s mix_columns_list by (metis append_Cons append_Nil inv_mix_columns_list inv_mix_column_mix)
qed

lemma inv_mix_columns_xor:
  "length s = 16 \<Longrightarrow> length t = 16 \<Longrightarrow> inv_mix_columns (xor_bytes s t) = xor_bytes (inv_mix_columns s) (inv_mix_columns t)"
  by (elim list16) (simp add: inv_mix_columns_list xor_bytes_def inv_mix_column_def times_defs xtime_xor xor_simps)

lemma dec_column_word4:
  "dec_column (word4 a0 a1 a2 a3) (word4 b0 b1 b2 b3) (word4 c0 c1 c2 c3) (word4 d0 d1 d2 d3) =
    be_word (inv_mix_column [Td4 ! unat a0, Td4 ! unat b1, Td4 ! unat c2, Td4 ! unat d3])"
  by (simp add: dec_column_def Td_nth inv_mix_column_def xor_simps)

lemma word4_ucast:
  "push_bit 24 (ucast a) XOR push_bit 16 (ucast b) XOR push_bit 8 (ucast c) XOR ucast d = word4 a b c d"
proof -
  have "push_bit 24 (ucast a) = word4 a 0 0 0" "push_bit 16 (ucast b) = word4 0 b 0 0"
    "push_bit 8 (ucast c) = word4 0 0 c 0" "ucast d = word4 0 0 0 d"
    by (rule word32_eqI; auto simp: bit_word4 bit_push_bit_iff bit_unsigned_iff dest: bit_imp_le_length)+
  then show ?thesis by simp
qed

lemma dec_last_column_word4:
  "dec_last_column (word4 a0 a1 a2 a3) (word4 b0 b1 b2 b3) (word4 c0 c1 c2 c3) (word4 d0 d1 d2 d3) =
    word4 (Td4 ! unat a0) (Td4 ! unat b1) (Td4 ! unat c2) (Td4 ! unat d3)"
  unfolding dec_last_column_def ix_word4 word4_ucast ..

lemma dec_round_columns:
  assumes "length s = 16"
  shows "dec_round rk r (columns_of s) = columns_of (xor_bytes (inv_mix_columns (inv_shift_rows (inv_sub_bytes s))) (key_bytes rk r))"
proof -
  have "dec_round rk r (columns_of s) = add_key rk r (columns_of (inv_mix_columns (inv_shift_rows (inv_sub_bytes s))))"
    using assms
    by (elim list16)
      (simp add: dec_round_def columns_of_def dec_column_word4 inv_sub_bytes_def inv_shift_rows_list inv_mix_columns_list inv_mix_column_def)
  then show ?thesis by (simp add: add_key_columns)
qed

lemma dec_last_columns:
  assumes "length s = 16"
  shows "dec_last rk r (columns_of s) = columns_of (xor_bytes (inv_shift_rows (inv_sub_bytes s)) (key_bytes rk r))"
proof -
  have "dec_last rk r (columns_of s) = add_key rk r (columns_of (inv_shift_rows (inv_sub_bytes s)))"
    using assms
    by (elim list16) (simp add: dec_last_def columns_of_def dec_last_column_word4 inv_sub_bytes_def inv_shift_rows_list)
  then show ?thesis by (simp add: add_key_columns)
qed

definition inv_round :: "(nat \<Rightarrow> byte list) \<Rightarrow> nat \<Rightarrow> byte list \<Rightarrow> byte list"
  where "inv_round k i s = xor_bytes (inv_mix_columns (inv_shift_rows (inv_sub_bytes s))) (k i)"

lemma inv_round_length: "length (k i) = 16 \<Longrightarrow> length (inv_round k i s) = 16"
  by (simp add: inv_round_def)

definition inv_cipher :: "(nat \<Rightarrow> byte list) \<Rightarrow> nat \<Rightarrow> byte list \<Rightarrow> byte list" where
  "inv_cipher k n c = xor_bytes (inv_shift_rows (inv_sub_bytes (fold (inv_round k) [1..<n] (xor_bytes c (k 0))))) (k n)"

lemma dec_rounds_columns:
  "0 < r \<Longrightarrow> length s = 16 \<Longrightarrow>
    dec_rounds rk r (4 * j) (columns_of s) =
      (columns_of (fold (inv_round (\<lambda>i. key_bytes rk (4 * i))) [j + 1..<j + 2 * r] s), 4 * (j + 2 * r))"
proof (induction r arbitrary: s j)
  case (Suc r)
  let ?k = "\<lambda>i. key_bytes rk (4 * i)"
  let ?s1 = "inv_round ?k (j + 1) s"
  let ?s2 = "inv_round ?k (j + 2) ?s1"
  have l: "length ?s1 = 16" "length ?s2 = 16" by (simp_all add: inv_round_length)
  have a: "dec_round rk (4 * j + 4) (columns_of s) = columns_of ?s1"
    using dec_round_columns [OF Suc.prems(2), of rk "4 * j + 4"]
    by (simp add: inv_round_def algebra_simps)
  have b: "dec_round rk (4 * j + 8) (columns_of ?s1) = columns_of ?s2"
    using dec_round_columns [OF l(1), of rk "4 * j + 8"]
    unfolding inv_round_def [of ?k "j + 2" ?s1] by (simp add: algebra_simps)
  show ?case
  proof (cases "r = 0")
    case True
    then show ?thesis using a by (simp add: Let_def)
  next
    case False
    have "[j + 1..<j + 2 * Suc r] = (j + 1) # (j + 2) # [j + 2 + 1..<j + 2 + 2 * r]"
      using False by (simp add: upt_conv_Cons del: upt_Suc)
    then have f: "fold (inv_round ?k) [j + 1..<j + 2 * Suc r] s = fold (inv_round ?k) [j + 2 + 1..<j + 2 + 2 * r] ?s2"
      by (simp only: fold_simps)
    have e: "4 * j + 8 = 4 * (j + 2)" "j + 2 + 2 * r = j + 2 * Suc r" by simp_all
    have "dec_rounds rk (Suc r) (4 * j) (columns_of s) = dec_rounds rk r (4 * j + 8) (columns_of ?s2)"
      using False a b by (simp add: Let_def)
    also have "\<dots> = (columns_of (fold (inv_round ?k) [j + 2 + 1..<j + 2 + 2 * r] ?s2), 4 * (j + 2 + 2 * r))"
      unfolding e(1) by (rule Suc.IH [OF _ l(2)]) (use False in simp)
    finally show ?thesis unfolding f e(2) .
  qed
qed simp

lemma fold_inv_round_length:
  "(\<And>i. length (k i) = 16) \<Longrightarrow> length s = 16 \<Longrightarrow> length (fold (inv_round k) is s) = 16"
  by (induction "is" arbitrary: s) (simp_all add: inv_round_length)

lemma AES_decrypt_cipher:
  assumes "aes_rounds_ok key n" "length c = 16"
  shows "AES_decrypt key c = Ok (inv_cipher (round_keys key) n c)"
proof -
  let ?r = "unat (drop_bit 1 (aes_rounds key))" and ?k = "\<lambda>i. key_bytes (rd_key key) (4 * i)"
  let ?s = "xor_bytes c (?k 0)"
  have l: "length ?s = 16" using assms(2) by simp
  have lf: "length (fold (inv_round ?k) [1..<n] ?s) = 16"
    by (rule fold_inv_round_length) (simp_all add: assms(2))
  have "dec_rounds (rd_key key) ?r 0 (columns_of ?s) = (columns_of (fold (inv_round ?k) [1..<n] ?s), 4 * n)"
    using dec_rounds_columns [OF _ l, of ?r "rd_key key" 0] aes_rounds_half(1,2) [OF assms(1)] by simp
  then show ?thesis
    using aes_rounds_half(2,3) [OF assms(1)] assms(2) lf
    by (simp add: AES_decrypt_def Let_def load_block_columns add_key_columns dec_last_columns
      store_block_columns inv_cipher_def round_keys_def [abs_def])
qed

section \<open>Decryption undoes encryption\<close>

lemma xor_bytes_cancel: "length s \<le> length k \<Longrightarrow> xor_bytes (xor_bytes s k) k = s"
  by (rule nth_equalityI) (simp_all add: xor_bytes_def xor.assoc)

text \<open>For a schedule in the opposite order whose inner keys have gone through the inverse mixing matrix.\<close>

lemma inv_cipher_cipher:
  assumes k: "\<And>i. length (k i) = 16" and n: "0 < n" and p: "length p = 16"
    and d: "dk 0 = k n" "dk n = k 0" "\<And>i. 0 < i \<Longrightarrow> i < n \<Longrightarrow> dk i = inv_mix_columns (k (n - i))"
  shows "inv_cipher dk n (cipher k n p) = p"
proof -
  define x where "x j = fold (byte_round k) [1..<Suc j] (xor_bytes p (k 0))" for j
  have x0: "x 0 = xor_bytes p (k 0)" by (simp add: x_def)
  have xS: "x (Suc j) = byte_round k (Suc j) (x j)" for j by (simp add: x_def)
  have xl: "length (x j) = 16" for j
    unfolding x_def by (rule fold_byte_round_length) (simp_all add: k p)
  have c: "cipher k n p = xor_bytes (shift_rows (sub_bytes (x (n - 1)))) (k n)"
    using n by (simp add: cipher_fold x_def)
  have y: "fold (inv_round dk) [1..<Suc i] (xor_bytes (cipher k n p) (dk 0)) = shift_rows (sub_bytes (x (n - 1 - i)))" if "i < n" for i
    using that
  proof (induction i)
    case 0
    then show ?case by (simp add: c d(1) xor_bytes_cancel k)
  next
    case (Suc i)
    have e: "n - 1 - i = Suc (n - 1 - Suc i)" "n - Suc i = Suc (n - 1 - Suc i)" using Suc.prems by simp_all
    have "fold (inv_round dk) [1..<Suc (Suc i)] (xor_bytes (cipher k n p) (dk 0)) =
        inv_round dk (Suc i) (shift_rows (sub_bytes (x (n - 1 - i))))"
      using Suc by simp
    also have "\<dots> = xor_bytes (inv_mix_columns (x (n - 1 - i))) (inv_mix_columns (k (n - Suc i)))"
      using Suc.prems by (simp add: inv_round_def inv_shift_sub xl d(3))
    also have "\<dots> = inv_mix_columns (xor_bytes (x (n - 1 - i)) (k (n - Suc i)))"
      by (simp add: inv_mix_columns_xor xl k)
    also have "xor_bytes (x (n - 1 - i)) (k (n - Suc i)) = mix_columns (shift_rows (sub_bytes (x (n - 1 - Suc i))))"
      unfolding e xS byte_round_def by (rule xor_bytes_cancel) (simp add: k)
    finally show ?case by (simp add: inv_mix_columns_mix)
  qed
  have "inv_cipher dk n (cipher k n p) = xor_bytes (inv_shift_rows (inv_sub_bytes (shift_rows (sub_bytes (x 0))))) (k 0)"
    using y [of "n - 1"] n by (simp add: inv_cipher_def d(2))
  then show ?thesis by (simp add: inv_shift_sub xl x0 xor_bytes_cancel k p)
qed

end
