(* ===== verification/Boring_AES_Keys.thy ===== *)
theory Boring_AES_Keys
  imports Boring_AES_Laws
begin

text \<open>
  The key schedules: the loops of \<^verbatim>\<open>AES_set_encrypt_key\<close> compute the recurrence of the standard, and
  \<^verbatim>\<open>AES_set_decrypt_key\<close> the schedule that \<open>inv_cipher_cipher\<close> asks for.
\<close>

unbundle bit_operations_syntax

section \<open>The recurrence\<close>

definition key_step :: "nat \<Rightarrow> nat \<Rightarrow> u32 \<Rightarrow> u32" where
  "key_step nk j w =
    (if j mod nk = 0 then rot_sub_word w XOR rcon ! (j div nk - 1)
     else if 6 < nk \<and> j mod nk = 4 then sub_word w
     else w)"

definition scheduled :: "nat \<Rightarrow> nat \<Rightarrow> u32 list \<Rightarrow> bool"
  where "scheduled nk m rk \<longleftrightarrow> (\<forall>j. nk \<le> j \<and> j < m \<longrightarrow> rk ! j = rk ! (j - nk) XOR key_step nk j (rk ! (j - 1)))"

definition extends :: "nat \<Rightarrow> nat \<Rightarrow> nat \<Rightarrow> u32 list \<Rightarrow> u32 list \<Rightarrow> bool" where
  "extends nk m m' rk rk' \<longleftrightarrow> length rk' = length rk \<and> (\<forall>j < m. rk' ! j = rk ! j) \<and>
    (\<forall>j. m \<le> j \<and> j < m' \<longrightarrow> rk' ! j = rk' ! (j - nk) XOR key_step nk j (rk' ! (j - 1)))"

lemma scheduled_extends:
  assumes "scheduled nk m rk" "extends nk m m' rk rk'" "0 < nk"
  shows "scheduled nk m' rk'"
  unfolding scheduled_def
proof (intro allI impI)
  fix j assume j: "nk \<le> j \<and> j < m'"
  show "rk' ! j = rk' ! (j - nk) XOR key_step nk j (rk' ! (j - 1))"
  proof (cases "j < m")
    case True
    then have "rk' ! j = rk ! j" "rk' ! (j - nk) = rk ! (j - nk)" "rk' ! (j - 1) = rk ! (j - 1)"
      using assms(2) by (auto simp: extends_def)
    then show ?thesis using assms(1) True j by (simp add: scheduled_def)
  next
    case False
    then show ?thesis using assms(2) j by (simp add: extends_def)
  qed
qed

text \<open>A loop of \<open>n\<close> passes, of which the last may be shorter.\<close>

lemma loop_scheduled:
  assumes nk: "0 < nk" and w: "\<And>i. Suc i < n \<Longrightarrow> w i = nk"
    and step: "\<And>i rk. i < n \<Longrightarrow> length rk = 60 \<Longrightarrow> extends nk (nk * Suc i) (nk * Suc i + w i) rk (f i rk)"
    and l: "length rk = 60"
  shows "k < n \<Longrightarrow> length (fold f [0..<Suc k] rk) = 60 \<and> take nk (fold f [0..<Suc k] rk) = take nk rk \<and>
    scheduled nk (nk * Suc k + w k) (fold f [0..<Suc k] rk)"
proof (induction k)
  case 0
  have "scheduled nk nk rk" by (auto simp: scheduled_def)
  moreover have e: "extends nk nk (nk + w 0) rk (f 0 rk)" using step [of 0 rk] l 0 by simp
  moreover have "take nk (f 0 rk) = take nk rk"
    using e by (intro nth_equalityI) (auto simp: extends_def)
  ultimately show ?case using scheduled_extends [of nk nk rk "nk + w 0" "f 0 rk"] nk l by (simp add: extends_def)
next
  case (Suc k)
  let ?rk = "fold f [0..<Suc k] rk"
  have ih: "length ?rk = 60" "take nk ?rk = take nk rk" "scheduled nk (nk * Suc (Suc k)) ?rk"
    using Suc.IH Suc.prems w [of k] by (simp_all add: algebra_simps)
  have e: "extends nk (nk * Suc (Suc k)) (nk * Suc (Suc k) + w (Suc k)) ?rk (f (Suc k) ?rk)"
    using step [of "Suc k" ?rk] ih(1) Suc.prems by simp
  have "take nk (f (Suc k) ?rk) = take nk ?rk"
    using e by (intro nth_equalityI) (auto simp: extends_def)
  moreover have "fold f [0..<Suc (Suc k)] rk = f (Suc k) ?rk" by simp
  ultimately show ?case
    using scheduled_extends [OF ih(3) e nk] ih(1,2) e by (simp only: extends_def)
qed

lemma xor_into_nth: "d < length rk \<Longrightarrow> xor_into d a b rk ! j = (if j = d then rk ! a XOR rk ! b else rk ! j)"
  by (auto simp: xor_into_def nth_list_update)

lemma length_xor_into [simp]: "length (xor_into d a b rk) = length rk"
  by (simp add: xor_into_def)

text \<open>The new words one after the other.\<close>

lemma extendsI:
  assumes "length rk' = length rk" "\<And>j. j < m \<Longrightarrow> rk' ! j = rk ! j"
    and "\<And>c. c < w \<Longrightarrow> rk' ! (m + c) = rk' ! (m + c - nk) XOR key_step nk (m + c) (rk' ! (m + c - 1))"
  shows "extends nk m (m + w) rk rk'"
  unfolding extends_def
proof (intro conjI allI impI)
  fix j assume "m \<le> j \<and> j < m + w"
  then obtain c where "j = m + c" "c < w" by (metis le_Suc_ex nat_add_left_cancel_less)
  then show "rk' ! j = rk' ! (j - nk) XOR key_step nk j (rk' ! (j - 1))" using assms(3) by simp
qed (use assms in auto)

lemma below_4: "c < 4 \<Longrightarrow> c \<in> {0, 1, 2, 3 :: nat}" and below_6: "c < 6 \<Longrightarrow> c \<in> {0, 1, 2, 3, 4, 5 :: nat}"
  and below_8: "c < 8 \<Longrightarrow> c \<in> {0, 1, 2, 3, 4, 5, 6, 7 :: nat}"
  by auto

lemma multiple_mod: "0 < k \<Longrightarrow> c < k \<Longrightarrow> (k * i + c) mod k = (c :: nat)" "0 < k \<Longrightarrow> c < k \<Longrightarrow> (k * i + c) div k = (i :: nat)"
  by simp_all

text \<open>At an offset \<open>r\<close>.\<close>

lemma extends_atI:
  assumes "length rk' = length rk" "\<And>j. j < r + nk \<Longrightarrow> rk' ! j = rk ! j" "m = r + nk"
    and "\<And>c. c \<in> {..<w} \<Longrightarrow> rk' ! (r + (nk + c)) = rk' ! (r + c) XOR key_step nk (r + (nk + c)) (rk' ! (r + (nk + c - 1)))" "0 < nk"
  shows "extends nk m (m + w) rk rk'"
proof (rule extendsI)
  fix c assume "c < w"
  then show "rk' ! (m + c) = rk' ! (m + c - nk) XOR key_step nk (m + c) (rk' ! (m + c - 1))"
    using assms(4) [of c] assms(3,5) by (simp add: add.assoc)
qed (use assms in auto)

lemma lessThan_4: "{..<4} = {0, 1, 2, 3 :: nat}" and lessThan_6: "{..<6} = {0, 1, 2, 3, 4, 5 :: nat}"
  and lessThan_8: "{..<8} = {0, 1, 2, 3, 4, 5, 6, 7 :: nat}"
  by auto

lemma expand128_extends:
  assumes "i < 10" "length rk = 60"
  shows "extends 4 (4 * Suc i) (4 * Suc i + 4) rk (expand128 i rk)"
proof -
  define r where "r = 4 * i"
  have l: "r + 7 < length rk" using assms by (simp add: r_def)
  have ks: "key_step 4 (r + 4) w = rot_sub_word w XOR rcon ! i" "key_step 4 (r + 5) w = w" "key_step 4 (r + 6) w = w" "key_step 4 (r + 7) w = w" for w
    by (simp_all add: key_step_def r_def)
  show ?thesis
  proof (rule extends_atI [where r = r])
    show "length (expand128 i rk) = length rk" by (simp add: expand128_def Let_def)
    show "expand128 i rk ! j = rk ! j" if "j < r + 4" for j
      using l that by (simp add: expand128_def Let_def xor_into_nth r_def [symmetric])
    fix c :: nat assume "c \<in> {..<4}"
    then show "expand128 i rk ! (r + (4 + c)) =
        expand128 i rk ! (r + c) XOR key_step 4 (r + (4 + c)) (expand128 i rk ! (r + (4 + c - 1)))"
      unfolding lessThan_4 using l
      by (elim insertE emptyE)
        (simp_all add: expand128_def Let_def xor_into_nth ks xor.assoc r_def [symmetric] del: One_nat_def)
  qed (simp_all add: r_def)
qed

lemma expand192_extends:
  assumes "i < 8" "length rk = 60"
  shows "extends 6 (6 * Suc i) (6 * Suc i + (if Suc i < 8 then 6 else 4)) rk (expand192 i rk)"
proof -
  define r where "r = 6 * i"
  have l: "r + 9 < length rk" "Suc i < 8 \<Longrightarrow> r + 11 < length rk" using assms by (simp_all add: r_def)
  have ks: "key_step 6 (r + 6) w = rot_sub_word w XOR rcon ! i" "key_step 6 (r + 7) w = w" "key_step 6 (r + 8) w = w" "key_step 6 (r + 9) w = w" "key_step 6 (r + 10) w = w" "key_step 6 (r + 11) w = w" for w
    by (simp_all add: key_step_def r_def)
  have c: "i + 1 = 8 \<longleftrightarrow> \<not> Suc i < 8" using assms(1) by auto
  show ?thesis
  proof (rule extends_atI [where r = r])
    show "length (expand192 i rk) = length rk" by (simp add: expand192_def Let_def)
    show "expand192 i rk ! j = rk ! j" if "j < r + 6" for j
      using l that unfolding expand192_def c by (cases "Suc i < 8") (simp_all add: Let_def xor_into_nth r_def [symmetric])
    fix c :: nat assume *: "c \<in> {..<if Suc i < 8 then 6 else 4}"
    show "expand192 i rk ! (r + (6 + c)) =
        expand192 i rk ! (r + c) XOR key_step 6 (r + (6 + c)) (expand192 i rk ! (r + (6 + c - 1)))"
    proof (cases "Suc i < 8")
      case True
      then have "c \<in> {0, 1, 2, 3, 4, 5}" using * lessThan_6 by simp
      then show ?thesis unfolding expand192_def \<open>i + 1 = 8 \<longleftrightarrow> \<not> Suc i < 8\<close> using l True
        by (elim insertE emptyE)
          (simp_all add: Let_def xor_into_nth ks xor.assoc r_def [symmetric] del: One_nat_def)
    next
      case False
      then have "c \<in> {0, 1, 2, 3}" using * lessThan_4 by simp
      then show ?thesis unfolding expand192_def \<open>i + 1 = 8 \<longleftrightarrow> \<not> Suc i < 8\<close> using l False
        by (elim insertE emptyE)
          (simp_all add: Let_def xor_into_nth ks xor.assoc r_def [symmetric] del: One_nat_def)
    qed
  qed (simp_all add: r_def)
qed

lemma expand256_extends:
  assumes "i < 7" "length rk = 60"
  shows "extends 8 (8 * Suc i) (8 * Suc i + (if Suc i < 7 then 8 else 4)) rk (expand256 i rk)"
proof -
  define r where "r = 8 * i"
  have l: "r + 11 < length rk" "Suc i < 7 \<Longrightarrow> r + 15 < length rk" using assms by (simp_all add: r_def)
  have ks: "key_step 8 (r + 8) w = rot_sub_word w XOR rcon ! i" "key_step 8 (r + 9) w = w" "key_step 8 (r + 10) w = w" "key_step 8 (r + 11) w = w" "key_step 8 (r + 12) w = sub_word w" "key_step 8 (r + 13) w = w" "key_step 8 (r + 14) w = w" "key_step 8 (r + 15) w = w" for w
    by (simp_all add: key_step_def r_def)
  have c: "i + 1 = 7 \<longleftrightarrow> \<not> Suc i < 7" using assms(1) by auto
  show ?thesis
  proof (rule extends_atI [where r = r])
    show "length (expand256 i rk) = length rk" by (simp add: expand256_def Let_def)
    show "expand256 i rk ! j = rk ! j" if "j < r + 8" for j
      using l that unfolding expand256_def c by (cases "Suc i < 7") (simp_all add: Let_def xor_into_nth r_def [symmetric])
    fix c :: nat assume *: "c \<in> {..<if Suc i < 7 then 8 else 4}"
    show "expand256 i rk ! (r + (8 + c)) =
        expand256 i rk ! (r + c) XOR key_step 8 (r + (8 + c)) (expand256 i rk ! (r + (8 + c - 1)))"
    proof (cases "Suc i < 7")
      case True
      then have "c \<in> {0, 1, 2, 3, 4, 5, 6, 7}" using * lessThan_8 by simp
      then show ?thesis unfolding expand256_def \<open>i + 1 = 7 \<longleftrightarrow> \<not> Suc i < 7\<close> using l True
        by (elim insertE emptyE)
          (simp_all add: Let_def xor_into_nth ks xor.assoc r_def [symmetric] del: One_nat_def)
    next
      case False
      then have "c \<in> {0, 1, 2, 3}" using * lessThan_4 by simp
      then show ?thesis unfolding expand256_def \<open>i + 1 = 7 \<longleftrightarrow> \<not> Suc i < 7\<close> using l False
        by (elim insertE emptyE)
          (simp_all add: Let_def xor_into_nth ks xor.assoc r_def [symmetric] del: One_nat_def)
    qed
  qed (simp_all add: r_def)
qed

text \<open>The three kinds of keys.\<close>

definition key_words :: "u32 \<Rightarrow> nat"
  where "key_words bits = unat bits div 32"

lemma set_encrypt_key_ok:
  assumes "bits \<in> {128, 192, 256}" "length key = unat bits div 8" "aes_key_ok k0"
  shows "\<exists>k. AES_set_encrypt_key (Some key) bits k0 = (0, k) \<and> aes_rounds_ok k (key_words bits + 6) \<and>
    scheduled (key_words bits) (4 * (key_words bits + 7)) (rd_key k) \<and>
    take (key_words bits) (rd_key k) = map (\<lambda>i. GETU32 (drop (4 * i) key)) [0..<key_words bits]"
proof -
  have l: "length (load_key n p (rd_key k0)) = 60" "take n (load_key n p (rd_key k0)) = map (\<lambda>i. GETU32 (drop (4 * i) p)) [0..<n]"
    if "n \<le> 60" for n p
    using assms(3) that by (simp_all add: load_key_def aes_key_ok_def)
  consider "bits = 128" | "bits = 192" | "bits = 256" using assms(1) by blast
  then show ?thesis
  proof cases
    case 1
    have "length (fold expand128 [0..<Suc 9] (load_key 4 key (rd_key k0))) = 60 \<and>
      take 4 (fold expand128 [0..<Suc 9] (load_key 4 key (rd_key k0))) = take 4 (load_key 4 key (rd_key k0)) \<and>
      scheduled 4 (4 * Suc 9 + 4) (fold expand128 [0..<Suc 9] (load_key 4 key (rd_key k0)))"
      by (rule loop_scheduled [where n = 10 and w = "\<lambda>i. 4"]) (use expand128_extends l [of 4] in auto)
    then show ?thesis using 1 l(2) [of 4 key]
      by (simp add: AES_set_encrypt_key_def key_words_def aes_rounds_ok_def del: upt_Suc)
  next
    case 2
    have "length (fold expand192 [0..<Suc 7] (load_key 6 key (rd_key k0))) = 60 \<and>
      take 6 (fold expand192 [0..<Suc 7] (load_key 6 key (rd_key k0))) = take 6 (load_key 6 key (rd_key k0)) \<and>
      scheduled 6 (6 * Suc 7 + (if Suc 7 < 8 then 6 else 4)) (fold expand192 [0..<Suc 7] (load_key 6 key (rd_key k0)))"
      by (rule loop_scheduled [where n = 8 and w = "\<lambda>i. if Suc i < 8 then 6 else 4"]) (use expand192_extends l [of 6] in auto)
    then show ?thesis using 2 l(2) [of 6 key]
      by (simp add: AES_set_encrypt_key_def key_words_def aes_rounds_ok_def del: upt_Suc)
  next
    case 3
    have "length (fold expand256 [0..<Suc 6] (load_key 8 key (rd_key k0))) = 60 \<and>
      take 8 (fold expand256 [0..<Suc 6] (load_key 8 key (rd_key k0))) = take 8 (load_key 8 key (rd_key k0)) \<and>
      scheduled 8 (8 * Suc 6 + (if Suc 6 < 7 then 8 else 4)) (fold expand256 [0..<Suc 6] (load_key 8 key (rd_key k0)))"
      by (rule loop_scheduled [where n = 7 and w = "\<lambda>i. if Suc i < 7 then 8 else 4"]) (use expand256_extends l [of 8] in auto)
    then show ?thesis using 3 l(2) [of 8 key]
      by (simp add: AES_set_encrypt_key_def key_words_def aes_rounds_ok_def del: upt_Suc)
  qed
qed

section \<open>The schedule of the standard\<close>

lemma be_bytes_xor: "be_bytes 4 (v XOR w :: u32) = xor_bytes (be_bytes 4 v) (be_bytes 4 w)"
  by (rule word4_cases [of v], rule word4_cases [of w]) (simp add: xor_bytes_def)

lemma rot_sub_word_bytes: "be_bytes 4 (rot_sub_word w) = map sub_byte (rotate1 (be_bytes 4 w))"
  by (rule word4_cases [of w]) (simp add: rot_sub_word_def Te_nth mask_word4)

lemma sub_word_bytes: "be_bytes 4 (sub_word w) = map sub_byte (be_bytes 4 w)"
  by (rule word4_cases [of w]) (simp add: sub_word_def Te_nth mask_word4)

lemma rcon_evaluated: "map (\<lambda>i. word4 ((xtime ^^ i) 1) 0 0 0) [0..<10] = rcon"
  by code_simp

lemma rcon_bytes: "i < 10 \<Longrightarrow> be_bytes 4 (rcon ! i) = rcon_word (Suc i)"
  by (simp add: rcon_evaluated [symmetric] rcon_word_def)

lemma key_step_bytes:
  assumes "j div nk - 1 < 10" "0 < j div nk"
  shows "be_bytes 4 (key_step nk j w) =
    (if j mod nk = 0 then xor_bytes (map sub_byte (rotate1 (be_bytes 4 w))) (rcon_word (j div nk))
     else if 6 < nk \<and> j mod nk = 4 then map sub_byte (be_bytes 4 w) else be_bytes 4 w)"
  using assms rcon_bytes [OF assms(1)] by (simp add: key_step_def be_bytes_xor rot_sub_word_bytes sub_word_bytes)

lemma GETU32_bytes: "4 \<le> length p \<Longrightarrow> be_bytes 4 (GETU32 p) = take 4 p"
  by (cases p; cases "tl p"; cases "tl (tl p)"; cases "tl (tl (tl p))") (auto simp: GETU32_word4)

lemma key_expansion_scheduled:
  assumes s: "scheduled nk m rk" and l: "m \<le> length rk" and k: "length key = 4 * nk" "0 < nk"
    and t: "take nk rk = map (\<lambda>i. GETU32 (drop (4 * i) key)) [0..<nk]" and m: "m \<le> 11 * nk"
  shows "nk + n \<le> m \<Longrightarrow> key_expansion key n = map (\<lambda>j. be_bytes 4 (rk ! j)) [0..<nk + n]"
proof (induction n)
  case 0
  have "rk ! i = GETU32 (drop (4 * i) key)" if "i < nk" for i
    using arg_cong [OF t, of "\<lambda>l. l ! i"] that l 0 by simp
  then show ?case using k by (auto simp: GETU32_bytes)
next
  case (Suc n)
  let ?i = "nk + n" and ?w = "map (\<lambda>j. be_bytes 4 (rk ! j)) [0..<nk + n]"
  have ih: "key_expansion key n = ?w" using Suc by simp
  have "?i div nk < 11" using Suc.prems m k(2) by (simp add: less_mult_imp_div_less)
  moreover have "0 < ?i div nk" using k(2) by (simp add: div_greater_zero_iff)
  ultimately have b: "?i div nk - 1 < 10" "0 < ?i div nk" by simp_all
  have "rk ! ?i = rk ! (?i - nk) XOR key_step nk ?i (rk ! (?i - 1))"
    using s Suc.prems by (simp add: scheduled_def)
  then have "be_bytes 4 (rk ! ?i) = xor_bytes (be_bytes 4 (rk ! (?i - nk))) (be_bytes 4 (key_step nk ?i (rk ! (?i - 1))))"
    by (simp only: be_bytes_xor)
  also have "\<dots> = next_key_word nk ?w"
    unfolding key_step_bytes [OF b] using k(2) by (simp add: next_key_word_def Let_def del: upt_Suc)
  finally show ?case using ih k by (simp add: Let_def)
qed

lemma concat_key_bytes:
  assumes "4 * i + 4 \<le> n"
  shows "concat (take 4 (drop (4 * i) (map (\<lambda>j. be_bytes 4 (rk ! j)) [0..<n]))) = key_bytes rk (4 * i)"
proof -
  have "take 4 (drop (4 * i) [0..<n]) = [4 * i..<4 * i + 4]" using assms by simp
  also have "\<dots> = [4 * i, 4 * i + 1, 4 * i + 2, 4 * i + 3]" by (simp add: upt_rec)
  finally show ?thesis by (simp add: take_map drop_map key_bytes_def)
qed

lemma cipher_cong: "(\<And>i. i \<le> n \<Longrightarrow> k i = k' i) \<Longrightarrow> cipher k n p = cipher k' n p"
  unfolding cipher_def by (auto intro!: arg_cong [where f = "\<lambda>s. xor_bytes (shift_rows (sub_bytes s)) _"] fold_cong)

section \<open>The inverse schedule\<close>

lemma swap_words_nth:
  "i < length rk \<Longrightarrow> j < length rk \<Longrightarrow> swap_words i j rk ! k = (if k = j then rk ! i else if k = i then rk ! j else rk ! k)"
  by (auto simp: swap_words_def nth_list_update)

lemma length_swap_words [simp]: "length (swap_words i j rk) = length rk"
  by (simp add: swap_words_def)

lemma invert_keys_nth:
  "4 * b + 4 \<le> length rk \<Longrightarrow> c < 4 \<Longrightarrow>
    length (invert_keys (4 * a) (4 * b) rk) = length rk \<and>
    invert_keys (4 * a) (4 * b) rk ! (4 * q + c) = (if a \<le> q \<and> q \<le> b then rk ! (4 * (a + b - q) + c) else rk ! (4 * q + c))"
proof (induction "b - a" arbitrary: a b rk rule: less_induct)
  case less
  show ?case
  proof (cases "a < b")
    case False
    then have "invert_keys (4 * a) (4 * b) rk = rk" by (simp add: invert_keys.simps [of "4 * a"])
    moreover have "a + b - q = q" if "a \<le> q" "q \<le> b" using that False by simp
    ultimately show ?thesis by simp
  next
    case True
    let ?s = "swap_words (4 * a + 3) (4 * b + 3) (swap_words (4 * a + 2) (4 * b + 2) (swap_words (4 * a + 1) (4 * b + 1) (swap_words (4 * a) (4 * b) rk)))"
    have e: "invert_keys (4 * a) (4 * b) rk = invert_keys (4 * Suc a) (4 * (b - 1)) ?s"
    proof -
      have i: "4 * a + 4 = 4 * Suc a" "4 * b - 4 = 4 * (b - 1)" "4 * a < 4 * b" using True by simp_all
      show ?thesis unfolding invert_keys.simps [of "4 * a" "4 * b" rk] i(1,2) using i(3) by simp
    qed
    have ih: "length (invert_keys (4 * Suc a) (4 * (b - 1)) ?s) = length ?s \<and>
        invert_keys (4 * Suc a) (4 * (b - 1)) ?s ! (4 * q + c) =
          (if Suc a \<le> q \<and> q \<le> b - 1 then ?s ! (4 * (Suc a + (b - 1) - q) + c) else ?s ! (4 * q + c))"
      by (rule less.hyps) (use True less.prems in auto)
    have s: "?s ! (4 * p + c) = (if p = a then rk ! (4 * b + c) else if p = b then rk ! (4 * a + c) else rk ! (4 * p + c))" for p
    proof -
      have l: "4 * a + 3 < length rk" "4 * b + 3 < length rk" using less.prems(1) True by simp_all
      have "4 * x + y = 4 * z + w \<longleftrightarrow> x = z \<and> y = w" if "y < 4" "w < 4" for x y z w :: nat using that by presburger
      note eq = this [of c 0] this [of c 1] this [of c 2] this [of c 3]
      from below_4 [OF less.prems(2)] show ?thesis
        using l True by (elim insertE emptyE) (auto simp: swap_words_nth eq)
    qed
    show ?thesis
      using ih True unfolding e s by auto
  qed
qed

lemma inv_mix_keys_nth:
  "4 * n \<le> length rk \<Longrightarrow> c < 4 \<Longrightarrow>
    length (fold inv_mix_key [1..<n] rk) = length rk \<and>
    fold inv_mix_key [1..<n] rk ! (4 * q + c) = (if 0 < q \<and> q < n then inv_mix_word (rk ! (4 * q + c)) else rk ! (4 * q + c))"
proof (induction n arbitrary: q)
  case (Suc n)
  show ?case
  proof (cases "n = 0")
    case False
    let ?rk = "fold inv_mix_key [1..<n] rk"
    have f: "fold inv_mix_key [1..<Suc n] rk = inv_mix_key n ?rk" using False by simp
    have ih: "length ?rk = length rk"
      "?rk ! (4 * q + c) = (if 0 < q \<and> q < n then inv_mix_word (rk ! (4 * q + c)) else rk ! (4 * q + c))"
      using Suc.IH [of q] Suc.prems by simp_all
    have "4 * x + y = 4 * z + w \<longleftrightarrow> x = z \<and> y = w" if "y < 4" "w < 4" for x y z w :: nat using that by presburger
    note eq = this [of 0 c] this [of 1 c] this [of 2 c] this [of 3 c]
    have l: "4 * n + 3 < length ?rk" using Suc.prems(1) ih(1) by simp
    from below_4 [OF Suc.prems(2)] have "inv_mix_key n ?rk ! (4 * q + c) = (if q = n then inv_mix_word (?rk ! (4 * n + c)) else ?rk ! (4 * q + c))"
      using l by (elim insertE emptyE) (auto simp: inv_mix_key_def Let_def nth_list_update eq)
    moreover have "?rk ! (4 * n + c) = rk ! (4 * n + c)" using Suc.IH [of n] Suc.prems by simp
    ultimately show ?thesis unfolding f using ih False by (auto simp: inv_mix_key_def Let_def)
  qed auto
qed simp

lemma inv_mix_word_word4: "inv_mix_word (word4 a b c d) = be_word (inv_mix_column [a, b, c, d])"
proof -
  have i: "unat (Te1 ! unat x AND 0xff) = unat (sub_byte x)" for x :: byte
  proof -
    have "Te1 ! unat x AND 0xff = ucast (sub_byte x)" unfolding Te_nth drop_word4 ..
    then show ?thesis by simp
  qed
  show ?thesis
    by (simp add: inv_mix_word_def i Td_nth inv_sub_byte inv_mix_column_def xor_simps)
qed

lemma set_decrypt_key_ok:
  assumes "AES_set_encrypt_key (Some key) bits k0 = (0, ek)" "aes_rounds_ok ek n"
  shows "\<exists>dk. AES_set_decrypt_key (Some key) bits k0 = (0, dk) \<and> aes_rounds_ok dk n \<and>
    round_keys dk 0 = round_keys ek n \<and> round_keys dk n = round_keys ek 0 \<and>
    (\<forall>i. 0 < i \<and> i < n \<longrightarrow> round_keys dk i = inv_mix_columns (round_keys ek (n - i)))"
proof -
  let ?rk = "rd_key ek" and ?iv = "invert_keys 0 (4 * n) (rd_key ek)"
  let ?dk = "ek\<lparr>rd_key := fold inv_mix_key [1..<n] ?iv\<rparr>"
  have n: "unat (aes_rounds ek) = n" "length ?rk = 60" "4 * n + 4 \<le> 60" "n \<noteq> 0" using assms(2) by (auto simp: aes_rounds_ok_def)
  have d: "AES_set_decrypt_key (Some key) bits k0 = (0, ?dk)"
    using assms(1) n(1) by (simp add: AES_set_decrypt_key_def Let_def)
  have iv: "length ?iv = 60" "?iv ! (4 * q + c) = (if q \<le> n then ?rk ! (4 * (n - q) + c) else ?rk ! (4 * q + c))" if "c < 4" for q c
    using invert_keys_nth [of n ?rk c 0 q] n that by simp_all
  have w: "length (rd_key ?dk) = 60" "rd_key ?dk ! (4 * q + c) = (if 0 < q \<and> q < n then inv_mix_word (?iv ! (4 * q + c)) else ?iv ! (4 * q + c))"
    if "c < 4" for q c
    using inv_mix_keys_nth [of n ?iv c q] iv(1) n that by simp_all
  have outer: "round_keys ?dk q = round_keys ek (n - q)" if "q = 0 \<or> q = n" for q
    using w(2) [of 0 q] w(2) [of 1 q] w(2) [of 2 q] w(2) [of 3 q] iv(2) [of 0 q] iv(2) [of 1 q] iv(2) [of 2 q] iv(2) [of 3 q] that
    by (auto simp: round_keys_def key_bytes_def)
  have inner: "round_keys ?dk q = inv_mix_columns (round_keys ek (n - q))" if "0 < q" "q < n" for q
  proof -
    have v: "rd_key ?dk ! (4 * q + c) = inv_mix_word (?rk ! (4 * (n - q) + c))" if "c < 4" for c
      using w(2) [OF that, of q] iv(2) [OF that, of q] \<open>0 < q\<close> \<open>q < n\<close> by simp
    obtain a0 a1 a2 a3 where w0: "?rk ! (4 * (n - q) + 0) = word4 a0 a1 a2 a3" by (rule word4_cases)
    obtain b0 b1 b2 b3 where w1: "?rk ! (4 * (n - q) + 1) = word4 b0 b1 b2 b3" by (rule word4_cases)
    obtain c0 c1 c2 c3 where w2: "?rk ! (4 * (n - q) + 2) = word4 c0 c1 c2 c3" by (rule word4_cases)
    obtain d0 d1 d2 d3 where w3: "?rk ! (4 * (n - q) + 3) = word4 d0 d1 d2 d3" by (rule word4_cases)
    have "be_bytes 4 (be_word (inv_mix_column l) :: u32) = inv_mix_column l" for l by (simp add: inv_mix_column_def)
    then show ?thesis
      using v [of 0] v [of 1] v [of 2] v [of 3] w0 w1 w2 w3
      by (simp add: round_keys_def key_bytes_def inv_mix_word_word4 inv_mix_columns_list)
  qed
  have "aes_rounds_ok ?dk n" using assms(2) w(1) [of 0] by (simp add: aes_rounds_ok_def)
  then show ?thesis using d outer [of 0] outer [of n] inner by (intro exI [of _ ?dk]) simp
qed

section \<open>The cipher\<close>

lemma cipher_length: "length (k n) = 16 \<Longrightarrow> length (cipher k n p) = 16"
  by (simp add: cipher_def)

lemma encrypt_decrypt:
  assumes "bits \<in> {128, 192, 256}" "length key = unat bits div 8" "aes_key_ok k0" "length p = 16"
  shows "\<exists>ek dk c. AES_set_encrypt_key (Some key) bits k0 = (0, ek) \<and> AES_set_decrypt_key (Some key) bits k0 = (0, dk) \<and>
    AES_encrypt ek p = Ok c \<and> length c = 16 \<and> AES_decrypt dk c = Ok p \<and> c = fips_cipher key p"
proof -
  let ?nk = "key_words bits"
  obtain ek where e: "AES_set_encrypt_key (Some key) bits k0 = (0, ek)" "aes_rounds_ok ek (?nk + 6)"
    "scheduled ?nk (4 * (?nk + 7)) (rd_key ek)"
    "take ?nk (rd_key ek) = map (\<lambda>i. GETU32 (drop (4 * i) key)) [0..<?nk]"
    using set_encrypt_key_ok [OF assms(1-3)] by blast
  obtain dk where d: "AES_set_decrypt_key (Some key) bits k0 = (0, dk)" "aes_rounds_ok dk (?nk + 6)"
    "round_keys dk 0 = round_keys ek (?nk + 6)" "round_keys dk (?nk + 6) = round_keys ek 0"
    "\<And>i. 0 < i \<Longrightarrow> i < ?nk + 6 \<Longrightarrow> round_keys dk i = inv_mix_columns (round_keys ek (?nk + 6 - i))"
    using set_decrypt_key_ok [OF e(1,2)] by blast
  let ?c = "cipher (round_keys ek) (?nk + 6) p"
  have c: "AES_encrypt ek p = Ok ?c" "length ?c = 16"
    using AES_encrypt_cipher [OF e(2) assms(4)] by (simp_all add: cipher_length)
  have "AES_decrypt dk ?c = Ok (inv_cipher (round_keys dk) (?nk + 6) ?c)" by (rule AES_decrypt_cipher [OF d(2) c(2)])
  also have "inv_cipher (round_keys dk) (?nk + 6) ?c = p"
    by (rule inv_cipher_cipher) (simp_all add: assms(4) d(3-5))
  finally have dec: "AES_decrypt dk ?c = Ok p" .
  have k: "length key = 4 * ?nk" "0 < ?nk" "?nk \<le> 8" "4 * (?nk + 7) \<le> 11 * ?nk" "length (rd_key ek) = 60"
    using assms(1,2) e(2) by (auto simp: key_words_def aes_rounds_ok_def)
  have f: "fips_round_key key i = round_keys ek i" if "i \<le> ?nk + 6" for i
  proof -
    have r: "length key div 4 = ?nk" "fips_rounds key = ?nk + 6" "?nk + (4 * (?nk + 6 + 1) - ?nk) = 4 * (?nk + 7)"
      using k(1,2) by (simp_all add: fips_rounds_def)
    have "key_expansion key (4 * (?nk + 6 + 1) - ?nk) = map (\<lambda>j. be_bytes 4 (rd_key ek ! j)) [0..<?nk + (4 * (?nk + 6 + 1) - ?nk)]"
      by (rule key_expansion_scheduled [OF e(3) _ k(1,2) e(4) k(4)]) (use k r in auto)
    then show ?thesis unfolding fips_round_key_def r round_keys_def
      using concat_key_bytes [of i "4 * (?nk + 7)" "rd_key ek"] that by (simp only: r) simp
  qed
  have r: "fips_rounds key = ?nk + 6" using k(1,2) by (simp add: fips_rounds_def)
  have "?c = fips_cipher key p"
    unfolding fips_cipher_def r by (rule cipher_cong) (simp add: f)
  then show ?thesis using e(1) d(1) c dec by blast
qed

end
