(* ===== verification/Boring_AES_Properties.thy ===== *)
theory Boring_AES_Properties
  imports Boring_AES_Keys
begin

text \<open>
  The properties of the block cipher.
\<close>

text \<open>C35.  \<^verbatim>\<open>AES_encrypt\<close> with a key from \<^verbatim>\<open>AES_set_encrypt_key\<close>, for keys of 128, 192 and 256
  bits, computes the cipher of FIPS 197, written down from the standard with the S-box as inversion in the field and an
  affine map: the rounds with their merged tables, the key schedule and the word order are right, and no access leaves an
  array.\<close>

theorem AES_encrypt_is_FIPS197:
  assumes "bits \<in> {128, 192, 256}" "length key = unat bits div 8" "aes_key_ok k0" "length p = 16"
  shows "\<exists>ek. AES_set_encrypt_key (Some key) bits k0 = (0, ek) \<and> AES_encrypt ek p = Ok (fips_cipher key p)"
  using encrypt_decrypt [OF assms] by blast

definition zero_key :: aes_key
  where "zero_key = \<lparr>rd_key = replicate 60 0, aes_rounds = 0\<rparr>"

lemma zero_key_ok: "aes_key_ok zero_key"
  by (simp add: aes_key_ok_def zero_key_def)

definition demo_key :: "byte list"
  where "demo_key = [0, 1, 2, 3, 4, 5, 6, 7, 8, 9, 10, 11, 12, 13, 14, 15]"

definition demo_block :: "byte list"
  where "demo_block = [0x00, 0x11, 0x22, 0x33, 0x44, 0x55, 0x66, 0x77, 0x88, 0x99, 0xaa, 0xbb, 0xcc, 0xdd, 0xee, 0xff]"

lemma AES_encrypt_is_FIPS197_witness:
  "\<exists>ek. AES_set_encrypt_key (Some demo_key) 128 zero_key = (0, ek) \<and> AES_encrypt ek demo_block = Ok (fips_cipher demo_key demo_block)"
  by (rule AES_encrypt_is_FIPS197 [OF _ _ zero_key_ok]) (simp_all add: demo_key_def demo_block_def)

text \<open>C36.  \<^verbatim>\<open>AES_decrypt\<close> with the key \<^verbatim>\<open>AES_set_decrypt_key\<close> makes undoes
  \<^verbatim>\<open>AES_encrypt\<close>, for every block and every key of the three lengths.\<close>

theorem AES_decrypt_encrypt:
  assumes "bits \<in> {128, 192, 256}" "length key = unat bits div 8" "aes_key_ok k0" "length p = 16"
  shows "\<exists>ek dk c. AES_set_encrypt_key (Some key) bits k0 = (0, ek) \<and> AES_set_decrypt_key (Some key) bits k0 = (0, dk) \<and>
    AES_encrypt ek p = Ok c \<and> length c = 16 \<and> AES_decrypt dk c = Ok p"
  using encrypt_decrypt [OF assms] by blast

lemma AES_decrypt_encrypt_witness:
  "\<exists>ek dk c. AES_set_encrypt_key (Some demo_key) 128 zero_key = (0, ek) \<and> AES_set_decrypt_key (Some demo_key) 128 zero_key = (0, dk) \<and>
    AES_encrypt ek demo_block = Ok c \<and> length c = 16 \<and> AES_decrypt dk c = Ok demo_block"
  by (rule AES_decrypt_encrypt [OF _ _ zero_key_ok]) (simp_all add: demo_key_def demo_block_def)

end
