(* ===== verification/Boring_Modes.thy ===== *)
theory Boring_Modes
  imports Boring_AES_Properties
begin

text \<open>
  The stream modes of \<^verbatim>\<open>crypto/fipsmodule/modes\<close> (\<^verbatim>\<open>ctr.c\<close>, \<^verbatim>\<open>ofb.c\<close>, \<^verbatim>\<open>cfb.c\<close>)
  and the wrappers for AES (\<^verbatim>\<open>aes/mode_wrappers.c\<close>).  A \<^verbatim>\<open>block128_f\<close> with its key is a function on blocks.
  \<open>strict\<close> is the value of \<^verbatim>\<open>STRICT_ALIGNMENT\<close> and the test that a pointer is not aligned: then the
  code works byte by byte.  The stream modes are given on the bytes of \<^verbatim>\<open>in\<close> and \<^verbatim>\<open>out\<close>; the
  word-sized exclusive ors of a block are \<open>xor_bytes\<close>.  A failed assertion on \<^verbatim>\<open>num\<close> is
  \<open>Undef\<close>: counter mode asserts that it is less than 16, the cipher feedback of 1 and of 8 bits that it is zero.
  \<^verbatim>\<open>CRYPTO_ofb128_encrypt\<close> and \<^verbatim>\<open>CRYPTO_cfb128_encrypt\<close> assert nothing about it, but with 16 or more
  the first byte of input would be combined with a byte behind \<^verbatim>\<open>ivec\<close>, which is \<open>Undef\<close> too.
\<close>

unbundle bit_operations_syntax

type_synonym block_fn = "byte list \<Rightarrow> byte list"

section \<open>Counter mode\<close>

text \<open>Adding \<open>c\<close> to the first \<open>n\<close> bytes, from the last of them on.\<close>

fun inc_loop :: "nat \<Rightarrow> u32 \<Rightarrow> byte list \<Rightarrow> byte list" where
  "inc_loop 0 c counter = counter"
| "inc_loop (Suc n) c counter =
    (let c = c + ucast (counter ! n) in inc_loop n (drop_bit 8 c) (counter[n := ucast c]))"

definition ctr128_inc :: "byte list \<Rightarrow> byte list"
  where "ctr128_inc counter = inc_loop 16 1 counter"

definition ctr96_inc :: "byte list \<Rightarrow> byte list"
  where "ctr96_inc counter = inc_loop 12 1 counter"

record ctr_state =
  ct_ivec :: "byte list"
  ct_ecount :: "byte list"
  ct_num :: u32

text \<open>The bytes left of a block: the output, the rest of the input and the new \<^verbatim>\<open>n\<close>.\<close>

fun use_rest :: "byte list \<Rightarrow> u32 \<Rightarrow> byte list \<Rightarrow> byte list \<times> byte list \<times> u32" where
  "use_rest buf n [] = ([], [], n)"
| "use_rest buf n (x # xs) =
    (if n = 0 then ([], x # xs, n)
     else case use_rest buf ((n + 1) mod 16) xs of (out, rest, n') \<Rightarrow> ((x XOR buf ! unat n) # out, rest, n'))"

text \<open>The loop over blocks; output, rest of the input, counter and key stream block.\<close>

function ctr_blocks :: "block_fn \<Rightarrow> byte list \<Rightarrow> byte list \<Rightarrow> byte list \<Rightarrow> byte list \<times> byte list \<times> byte list \<times> byte list" where
  "ctr_blocks block iv ec inp =
    (if length inp < 16 then ([], inp, iv, ec)
     else
       let ec = block iv; iv = ctr128_inc iv
       in case ctr_blocks block iv ec (drop 16 inp) of (out, r) \<Rightarrow> (xor_bytes (take 16 inp) ec @ out, r))"
  by pat_completeness auto
termination by (relation "measure (\<lambda>(block, iv, ec, inp). length inp)") auto

declare ctr_blocks.simps [simp del]

text \<open>The byte-wise loop for buffers that are not aligned.\<close>

fun ctr_bytes :: "block_fn \<Rightarrow> byte list \<Rightarrow> byte list \<Rightarrow> u32 \<Rightarrow> byte list \<Rightarrow> byte list \<times> ctr_state" where
  "ctr_bytes block iv ec n [] = ([], \<lparr>ct_ivec = iv, ct_ecount = ec, ct_num = n\<rparr>)"
| "ctr_bytes block iv ec n (x # xs) =
    (let ec' = (if n = 0 then block iv else ec); iv' = (if n = 0 then ctr128_inc iv else iv)
     in case ctr_bytes block iv' ec' ((n + 1) mod 16) xs of (out, s) \<Rightarrow> ((x XOR ec' ! unat n) # out, s))"

definition CRYPTO_ctr128_encrypt :: "block_fn \<Rightarrow> bool \<Rightarrow> byte list \<Rightarrow> ctr_state \<Rightarrow> byte list outcome \<times> ctr_state" where
  "CRYPTO_ctr128_encrypt block strict inp s =
    (if \<not> ct_num s < 16 then (Undef, s)
     else case use_rest (ct_ecount s) (ct_num s) inp of
         (out, rest, n) \<Rightarrow>
           if strict then
             (case ctr_bytes block (ct_ivec s) (ct_ecount s) n rest of (out', s') \<Rightarrow> (Ok (out @ out'), s'))
           else
             (case ctr_blocks block (ct_ivec s) (ct_ecount s) rest of
                (out', rest', iv, ec) \<Rightarrow>
                  if rest' = [] then (Ok (out @ out'), \<lparr>ct_ivec = iv, ct_ecount = ec, ct_num = n\<rparr>)
                  else
                    let ec = block iv; iv = ctr128_inc iv
                    in (Ok (out @ out' @ xor_bytes rest' ec),
                        \<lparr>ct_ivec = iv, ct_ecount = ec, ct_num = of_nat (length rest')\<rparr>)))"

text \<open>The number of blocks for one call of \<^verbatim>\<open>func\<close>, which counts with 32 bits, and the new low word of the
  counter, for \<open>len\<close> bytes.\<close>

definition ctr32_step :: "u32 \<Rightarrow> nat \<Rightarrow> nat \<times> u32" where
  "ctr32_step ctr32 len =
    (let b = (if 2 ^ 28 < len div 16 then 2 ^ 28 else len div 16);
         c = ctr32 + of_nat b
     in if unat c < b then (b - unat c, 0) else (b, c))"

lemma ctr32_step_blocks:
  assumes "16 \<le> len" "ctr32_step c len = (b, c')"
  shows "0 < b \<and> 16 * b \<le> len"
proof -
  define n where "n = (if 2 ^ 28 < len div 16 then 2 ^ 28 else len div 16 :: nat)"
  have n: "0 < n" "n \<le> 2 ^ 28" "16 * n \<le> len" using assms(1) by (auto simp: n_def div_greater_zero_iff)
  have "ctr32_step c len = (if unat (c + of_nat n) < n then (n - unat (c + of_nat n), 0) else (n, c + of_nat n))"
    by (simp only: ctr32_step_def Let_def n_def)
  then have e: "(b, c') = (if unat (c + of_nat n) < n then (n - unat (c + of_nat n), 0) else (n, c + of_nat n))"
    unfolding assms(2) .
  show ?thesis
  proof (cases "unat (c + of_nat n) < n")
    case True
    then have "b = n - unat (c + of_nat n)" using e by simp
    then show ?thesis using True n(3) by (metis diff_le_self le_trans mult_le_mono2 zero_less_diff)
  qed (use e n in simp)
qed

text \<open>The low word of the counter, and the carry into the upper twelve bytes.\<close>

definition set_ctr32 :: "u32 \<Rightarrow> byte list \<Rightarrow> byte list" where
  "set_ctr32 ctr32 iv =
    (let iv = take 12 iv @ PUTU32 ctr32 in if ctr32 = 0 then ctr96_inc iv else iv)"

type_synonym ctr_fn = "byte list \<Rightarrow> nat \<Rightarrow> byte list \<Rightarrow> byte list"

function ctr32_blocks :: "ctr_fn \<Rightarrow> byte list \<Rightarrow> u32 \<Rightarrow> byte list \<Rightarrow> byte list \<times> byte list \<times> byte list \<times> u32" where
  "ctr32_blocks func iv ctr32 inp =
    (if length inp < 16 then ([], inp, iv, ctr32)
     else case ctr32_step ctr32 (length inp) of
         (b, c) \<Rightarrow>
           (case ctr32_blocks func (set_ctr32 c iv) c (drop (16 * b) inp) of
              (out, r) \<Rightarrow> (func (take (16 * b) inp) b iv @ out, r)))"
  by pat_completeness auto
termination
proof (relation "measure (\<lambda>(func, iv, c, inp). length inp)")
  fix func :: ctr_fn and iv ctr32 and inp :: "byte list" and b c
  assume "\<not> length inp < 16" "(b, c) = ctr32_step ctr32 (length inp)"
  then have "0 < b" "16 * b \<le> length inp" using ctr32_step_blocks [of "length inp" ctr32 b c] by simp_all
  then show "((func, set_ctr32 c iv, c, drop (16 * b) inp), func, iv, ctr32, inp) \<in> measure (\<lambda>(func, iv, c, inp). length inp)"
    by simp
qed simp

declare ctr32_blocks.simps [simp del]

definition CRYPTO_ctr128_encrypt_ctr32 :: "ctr_fn \<Rightarrow> byte list \<Rightarrow> ctr_state \<Rightarrow> byte list outcome \<times> ctr_state" where
  "CRYPTO_ctr128_encrypt_ctr32 func inp s =
    (if \<not> ct_num s < 16 then (Undef, s)
     else case use_rest (ct_ecount s) (ct_num s) inp of
         (out, rest, n) \<Rightarrow>
           (case ctr32_blocks func (ct_ivec s) (GETU32 (drop 12 (ct_ivec s))) rest of
              (out', rest', iv, ctr32) \<Rightarrow>
                if rest' = [] then (Ok (out @ out'), s\<lparr>ct_ivec := iv, ct_num := n\<rparr>)
                else
                  let ec = func (replicate 16 0) 1 iv
                  in (Ok (out @ out' @ xor_bytes rest' ec),
                      \<lparr>ct_ivec = set_ctr32 (ctr32 + 1) iv, ct_ecount = ec, ct_num = of_nat (length rest')\<rparr>)))"

section \<open>Output feedback\<close>

record fb_state =
  fb_ivec :: "byte list"
  fb_num :: u32

function ofb_blocks :: "block_fn \<Rightarrow> byte list \<Rightarrow> byte list \<Rightarrow> byte list \<times> byte list \<times> byte list" where
  "ofb_blocks block iv inp =
    (if length inp < 16 then ([], inp, iv)
     else
       let iv = block iv
       in case ofb_blocks block iv (drop 16 inp) of (out, r) \<Rightarrow> (xor_bytes (take 16 inp) iv @ out, r))"
  by pat_completeness auto
termination by (relation "measure (\<lambda>(block, iv, inp). length inp)") auto

declare ofb_blocks.simps [simp del]

definition CRYPTO_ofb128_encrypt :: "block_fn \<Rightarrow> byte list \<Rightarrow> fb_state \<Rightarrow> byte list outcome \<times> fb_state" where
  "CRYPTO_ofb128_encrypt block inp s =
    (if \<not> fb_num s < 16 \<and> inp \<noteq> [] then (Undef, s)
     else case use_rest (fb_ivec s) (fb_num s) inp of
       (out, rest, n) \<Rightarrow>
         (case ofb_blocks block (fb_ivec s) rest of
            (out', rest', iv) \<Rightarrow>
              if rest' = [] then (Ok (out @ out'), \<lparr>fb_ivec = iv, fb_num = n\<rparr>)
              else
                let iv = block iv
                in (Ok (out @ out' @ xor_bytes rest' iv), \<lparr>fb_ivec = iv, fb_num = of_nat (length rest')\<rparr>)))"

section \<open>Cipher feedback\<close>

text \<open>One byte: the output, and what goes into the register, the cipher text.\<close>

definition cfb_out :: "bool \<Rightarrow> byte \<Rightarrow> byte \<Rightarrow> byte \<times> byte"
  where "cfb_out enc x k = (if enc then (k XOR x, k XOR x) else (k XOR x, x))"

fun cfb_rest :: "bool \<Rightarrow> byte list \<Rightarrow> u32 \<Rightarrow> byte list \<Rightarrow> byte list \<times> byte list \<times> byte list \<times> u32" where
  "cfb_rest enc iv n [] = ([], [], iv, n)"
| "cfb_rest enc iv n (x # xs) =
    (if n = 0 then ([], x # xs, iv, n)
     else
       case cfb_out enc x (iv ! unat n) of
         (y, c) \<Rightarrow>
           (case cfb_rest enc (iv[unat n := c]) ((n + 1) mod 16) xs of (out, r) \<Rightarrow> (y # out, r)))"

fun cfb_bytes :: "block_fn \<Rightarrow> bool \<Rightarrow> byte list \<Rightarrow> u32 \<Rightarrow> byte list \<Rightarrow> byte list \<times> fb_state" where
  "cfb_bytes block enc iv n [] = ([], \<lparr>fb_ivec = iv, fb_num = n\<rparr>)"
| "cfb_bytes block enc iv n (x # xs) =
    (let iv = (if n = 0 then block iv else iv)
     in case cfb_out enc x (iv ! unat n) of
         (y, c) \<Rightarrow>
           (case cfb_bytes block enc (iv[unat n := c]) ((n + 1) mod 16) xs of (out, s) \<Rightarrow> (y # out, s)))"

text \<open>A whole block, and the last bytes; the register keeps its end when there are fewer than sixteen.\<close>

definition cfb_chunk :: "block_fn \<Rightarrow> bool \<Rightarrow> byte list \<Rightarrow> byte list \<Rightarrow> byte list \<times> byte list" where
  "cfb_chunk block enc iv x =
    (let k = block iv; out = xor_bytes k x
     in (out, (if enc then out else x) @ drop (length x) k))"

function cfb_blocks :: "block_fn \<Rightarrow> bool \<Rightarrow> byte list \<Rightarrow> byte list \<Rightarrow> byte list \<times> byte list \<times> byte list" where
  "cfb_blocks block enc iv inp =
    (if length inp < 16 then ([], inp, iv)
     else case cfb_chunk block enc iv (take 16 inp) of
         (y, iv) \<Rightarrow> (case cfb_blocks block enc iv (drop 16 inp) of (out, r) \<Rightarrow> (y @ out, r)))"
  by pat_completeness auto
termination by (relation "measure (\<lambda>(block, enc, iv, inp). length inp)") auto

declare cfb_blocks.simps [simp del]

definition CRYPTO_cfb128_encrypt :: "block_fn \<Rightarrow> bool \<Rightarrow> bool \<Rightarrow> byte list \<Rightarrow> fb_state \<Rightarrow> byte list outcome \<times> fb_state" where
  "CRYPTO_cfb128_encrypt block strict enc inp s =
    (if \<not> fb_num s < 16 \<and> inp \<noteq> [] then (Undef, s)
     else case cfb_rest enc (fb_ivec s) (fb_num s) inp of
       (out, rest, iv, n) \<Rightarrow>
         if strict then
           (case cfb_bytes block enc iv n rest of (out', s') \<Rightarrow> (Ok (out @ out'), s'))
         else
           (case cfb_blocks block enc iv rest of
              (out', rest', iv) \<Rightarrow>
                if rest' = [] then (Ok (out @ out'), \<lparr>fb_ivec = iv, fb_num = n\<rparr>)
                else case cfb_chunk block enc iv rest' of
                    (y, iv) \<Rightarrow> (Ok (out @ out' @ y), \<lparr>fb_ivec = iv, fb_num = of_nat (length rest')\<rparr>)))"

text \<open>A block of \<open>nbits\<close> bits; the register is shifted by that many.  \<^verbatim>\<open>ovec\<close> is the old register,
  then the cipher text; its other bytes are not initialised (\<open>junk\<close>).\<close>

definition cfbr_encrypt_block :: "block_fn \<Rightarrow> byte list \<Rightarrow> bool \<Rightarrow> nat \<Rightarrow> byte list \<Rightarrow> byte list \<Rightarrow> byte list \<times> byte list" where
  "cfbr_encrypt_block block junk enc nbits x iv =
    (let k = block iv; num = (nbits + 7) div 8;
         out = xor_bytes (take num x) k;
         ovec = iv @ (if enc then out else take num x) @ drop num junk;
         rem = nbits mod 8; num = nbits div 8
     in (out,
         if rem = 0 then take 16 (drop num ovec)
         else map (\<lambda>n. push_bit rem (ovec ! (n + num)) OR drop_bit (8 - rem) (ovec ! (n + num + 1))) [0..<16]))"

text \<open>The loops of the two functions; \<^verbatim>\<open>num\<close> must be zero, and stays so.\<close>

fun cfb8_loop :: "block_fn \<Rightarrow> byte list \<Rightarrow> bool \<Rightarrow> byte list \<Rightarrow> byte list \<Rightarrow> byte list \<times> byte list" where
  "cfb8_loop block junk enc [] iv = ([], iv)"
| "cfb8_loop block junk enc (x # xs) iv =
    (case cfbr_encrypt_block block junk enc 8 [x] iv of
       (y, iv) \<Rightarrow> (case cfb8_loop block junk enc xs iv of (out, iv) \<Rightarrow> (y @ out, iv)))"

definition CRYPTO_cfb128_8_encrypt :: "block_fn \<Rightarrow> byte list \<Rightarrow> bool \<Rightarrow> byte list \<Rightarrow> fb_state \<Rightarrow> byte list outcome \<times> fb_state" where
  "CRYPTO_cfb128_8_encrypt block junk enc inp s =
    (if fb_num s \<noteq> 0 then (Undef, s)
     else case cfb8_loop block junk enc inp (fb_ivec s) of (out, iv) \<Rightarrow> (Ok out, s\<lparr>fb_ivec := iv\<rparr>))"

text \<open>One bit, at position \<open>n\<close> of the packed input, into the output buffer.\<close>

definition cfb1_bit :: "block_fn \<Rightarrow> byte list \<Rightarrow> bool \<Rightarrow> byte list \<Rightarrow> nat \<Rightarrow> byte list \<times> byte list \<Rightarrow> byte list \<times> byte list" where
  "cfb1_bit block junk enc inp n s =
    (case s of (out, iv) \<Rightarrow>
       let c = (if bit (inp ! (n div 8)) (7 - n mod 8) then 0x80 else 0)
       in case cfbr_encrypt_block block junk enc 1 [c] iv of
           (d, iv) \<Rightarrow>
             (out[n div 8 := (out ! (n div 8) AND NOT (push_bit (7 - n mod 8) 1)) OR
                drop_bit (n mod 8) (d ! 0 AND 0x80)], iv))"

definition CRYPTO_cfb128_1_encrypt ::
  "block_fn \<Rightarrow> byte list \<Rightarrow> bool \<Rightarrow> byte list \<Rightarrow> nat \<Rightarrow> byte list \<Rightarrow> fb_state \<Rightarrow> byte list outcome \<times> fb_state" where
  "CRYPTO_cfb128_1_encrypt block junk enc inp bits out s =
    (if fb_num s \<noteq> 0 then (Undef, s)
     else case fold (cfb1_bit block junk enc inp) [0..<bits] (out, fb_ivec s) of (out, iv) \<Rightarrow> (Ok out, s\<lparr>fb_ivec := iv\<rparr>))"

section \<open>The wrappers for AES\<close>

text \<open>A key schedule that \<^verbatim>\<open>AES_encrypt\<close> cannot run on is a fault at the call of a wrapper.\<close>

definition aes_enc_fn :: "aes_key \<Rightarrow> block_fn"
  where "aes_enc_fn key p = (case AES_encrypt key p of Ok c \<Rightarrow> c | _ \<Rightarrow> p)"

definition aes_dec_fn :: "aes_key \<Rightarrow> block_fn"
  where "aes_dec_fn key p = (case AES_decrypt key p of Ok c \<Rightarrow> c | _ \<Rightarrow> p)"

definition aes_key_fits :: "aes_key \<Rightarrow> bool"
  where "aes_key_fits key \<longleftrightarrow> (let r = unat (drop_bit 1 (aes_rounds key)) in r \<noteq> 0 \<and> 8 * r + 4 \<le> length (rd_key key))"

definition AES_ctr128_encrypt :: "aes_key \<Rightarrow> bool \<Rightarrow> byte list \<Rightarrow> ctr_state \<Rightarrow> byte list outcome \<times> ctr_state" where
  "AES_ctr128_encrypt key strict inp s =
    (if aes_key_fits key then CRYPTO_ctr128_encrypt (aes_enc_fn key) strict inp s else (Undef, s))"

definition AES_ecb_encrypt :: "aes_key \<Rightarrow> bool \<Rightarrow> byte list \<Rightarrow> byte list outcome"
  where "AES_ecb_encrypt key enc p = (if enc then AES_encrypt key p else AES_decrypt key p)"

definition AES_ofb128_encrypt :: "aes_key \<Rightarrow> byte list \<Rightarrow> fb_state \<Rightarrow> byte list outcome \<times> fb_state" where
  "AES_ofb128_encrypt key inp s =
    (if aes_key_fits key then CRYPTO_ofb128_encrypt (aes_enc_fn key) inp s else (Undef, s))"

definition AES_cfb128_encrypt :: "aes_key \<Rightarrow> bool \<Rightarrow> bool \<Rightarrow> byte list \<Rightarrow> fb_state \<Rightarrow> byte list outcome \<times> fb_state" where
  "AES_cfb128_encrypt key strict enc inp s =
    (if aes_key_fits key then CRYPTO_cfb128_encrypt (aes_enc_fn key) strict enc inp s else (Undef, s))"

end
