(* ===== verification/Boring_Stream_Laws.thy ===== *)
theory Boring_Stream_Laws
  imports Boring_Modes
begin

text \<open>
  The stream modes against their byte-at-a-time definitions: the key stream of counter mode by position, and
  the feedback modes as loops over single bytes.
\<close>

unbundle bit_operations_syntax

section \<open>Numbers in a fixed number of bytes\<close>

fun fixed_bytes :: "nat \<Rightarrow> nat \<Rightarrow> byte list" where
  "fixed_bytes 0 v = []"
| "fixed_bytes (Suc n) v = fixed_bytes n (v div 256) @ [of_nat v]"

lemma length_fixed_bytes [simp]: "length (fixed_bytes n v) = n"
  by (induction n arbitrary: v) simp_all

lemma of_nat_byte_mod: "(of_nat (v mod 256) :: byte) = of_nat v"
  by (rule word_unat_eq_iff [THEN iffD2]) (simp add: unat_of_nat)

lemma nat_of_fixed_bytes: "nat_of_bytes (fixed_bytes n v) = v mod 256 ^ n"
proof (induction n arbitrary: v)
  case (Suc n)
  have "nat_of_bytes (fixed_bytes (Suc n) v) = (v div 256 mod 256 ^ n) * 256 + v mod 256"
    by (simp add: Suc unat_of_nat_byte)
  also have "\<dots> = v mod 256 ^ Suc n" by (metis mod_mult2_eq mult.commute power_Suc)
  finally show ?case .
qed simp

lemma fixed_bytes_cong: "v mod 256 ^ n = w mod 256 ^ n \<Longrightarrow> fixed_bytes n v = fixed_bytes n w"
proof (induction n arbitrary: v w)
  case (Suc n)
  have "v div 256 mod 256 ^ n = w div 256 mod 256 ^ n"
    using arg_cong [OF Suc.prems, of "\<lambda>x. x div 256"] by (simp add: mod_mult2_eq)
  moreover have "v mod 256 = w mod 256"
    using arg_cong [OF Suc.prems, of "\<lambda>x. x mod 256"] by (simp add: mod_mult2_eq)
  ultimately show ?case using Suc.IH by (metis fixed_bytes.simps(2) of_nat_byte_mod)
qed simp

lemma fixed_bytes_nat_of_bytes: "fixed_bytes (length bs) (nat_of_bytes bs) = bs"
proof (induction bs rule: rev_induct)
  case (snoc b bs)
  have "(nat_of_bytes bs * 256 + unat b) div 256 = nat_of_bytes bs" using byte_less [of b] by simp
  moreover have "(of_nat (nat_of_bytes bs * 256 + unat b) :: byte) = b"
    by (rule word_unat_eq_iff [THEN iffD2]) (simp only: unat_of_nat_byte, simp add: byte_less)
  ultimately show ?case using snoc by simp
qed simp

lemma fixed_bytes_append: "fixed_bytes (k + n) v = fixed_bytes k (v div 256 ^ n) @ fixed_bytes n v"
proof (induction n arbitrary: v)
  case (Suc n)
  have "v div 256 div 256 ^ n = v div 256 ^ Suc n" by (simp add: div_mult2_eq)
  then show ?case using Suc [of "v div 256"] by simp
qed simp

section \<open>The counter\<close>

lemma mod_256: "(a * 256 + b + c) mod 256 = (c + b) mod (256 :: nat)"
proof -
  have "a * 256 + b + c = c + b + a * 256" by simp
  then show ?thesis by (simp only: mod_mult_self1)
qed

text \<open>The loop adds with carry.\<close>

lemma inc_loop_adds:
  "n \<le> length counter \<Longrightarrow> unat c \<le> 1 \<Longrightarrow>
    inc_loop n c counter = fixed_bytes n (nat_of_bytes (take n counter) + unat c) @ drop n counter"
proof (induction n arbitrary: c counter)
  case (Suc n)
  let ?b = "counter ! n" and ?s = "c + ucast (counter ! n) :: u32"
  have s: "unat ?s = unat c + unat ?b" using Suc.prems(2) byte_less [of ?b] by (simp add: unat_word_ariths)
  then have d: "unat (drop_bit 8 ?s) = (unat c + unat ?b) div 256" by (simp add: unat_drop_bit_div)
  then have d1: "unat (drop_bit 8 ?s) \<le> 1" using Suc.prems(2) byte_less [of ?b] by linarith
  have t: "take (Suc n) counter = take n counter @ [?b]" using Suc.prems(1) by (simp add: take_Suc_conv_app_nth)
  have u: "(ucast ?s :: byte) = of_nat (unat c + unat ?b)"
    by (rule word_unat_eq_iff [THEN iffD2]) (simp only: unat_of_nat_byte s unsigned_ucast_eq take_bit_eq_mod, simp)
  have "inc_loop (Suc n) c counter = inc_loop n (drop_bit 8 ?s) (counter[n := ucast ?s])"
    by (simp add: Let_def)
  also have "\<dots> = fixed_bytes n (nat_of_bytes (take n counter) + (unat c + unat ?b) div 256) @ ucast ?s # drop (Suc n) counter"
    using Suc.IH [OF _ d1, of "counter[n := ucast ?s]"] Suc.prems(1) d
    by (simp add: Cons_nth_drop_Suc [symmetric] drop_update_cancel nth_list_update)
  also have "\<dots> = fixed_bytes (Suc n) (nat_of_bytes (take (Suc n) counter) + unat c) @ drop (Suc n) counter"
  proof -
    have "(nat_of_bytes (take n counter) * 256 + unat ?b + unat c) div 256 = nat_of_bytes (take n counter) + (unat c + unat ?b) div 256"
      by simp
    moreover have "(of_nat (nat_of_bytes (take n counter) * 256 + unat ?b + unat c) :: byte) = ucast ?s"
      unfolding u by (rule word_unat_eq_iff [THEN iffD2]) (simp only: unat_of_nat_byte mod_256)
    ultimately show ?thesis unfolding t by simp
  qed
  finally show ?case .
qed simp

lemma ctr128_inc_next: "length iv = 16 \<Longrightarrow> ctr128_inc iv = fixed_bytes 16 (nat_of_bytes iv + 1)"
  by (simp add: ctr128_inc_def inc_loop_adds)

lemma ctr128_inc_fixed: "ctr128_inc (fixed_bytes 16 v) = fixed_bytes 16 (v + 1)"
proof -
  have "ctr128_inc (fixed_bytes 16 v) = fixed_bytes 16 (v mod 256 ^ 16 + 1)"
    by (simp only: ctr128_inc_next length_fixed_bytes nat_of_fixed_bytes)
  also have "\<dots> = fixed_bytes 16 (v + 1)" by (rule fixed_bytes_cong) (simp only: mod_add_left_eq)
  finally show ?thesis .
qed

lemma PUTU32_bytes: "PUTU32 w = be_bytes 4 w"
  by (rule word4_cases [of w]) (simp add: PUTU32_word4)

lemma PUTU32_of_nat: "PUTU32 (of_nat w) = fixed_bytes 4 w"
proof -
  have "unat (be_word (fixed_bytes 4 w) :: u32) = unat (of_nat w :: u32)"
    by (simp add: unat_be_word nat_of_fixed_bytes unat_of_nat)
  then have "be_word (fixed_bytes 4 w) = (of_nat w :: u32)" by (simp only: word_unat_eq_iff)
  then show ?thesis
    using be_bytes_be_word [of "fixed_bytes 4 w", where 'a = 32] by (simp add: PUTU32_bytes)
qed

lemma fixed_16: "fixed_bytes 16 w = fixed_bytes 12 (w div 2 ^ 32) @ fixed_bytes 4 w"
  using fixed_bytes_append [of 12 4 w] by simp

lemma of_nat_u32_zero: "of_nat n = (0 :: u32) \<longleftrightarrow> n mod 2 ^ 32 = 0"
  by (simp add: word_unat_eq_iff unat_of_nat)

lemma set_ctr32_next:
  assumes "v mod 2 ^ 32 + b \<le> 2 ^ 32" "0 < b"
  shows "set_ctr32 (of_nat (v + b)) (fixed_bytes 16 v) = fixed_bytes 16 (v + b)"
proof -
  note z = of_nat_u32_zero [of "v + b"]
  have s: "take 12 (fixed_bytes 16 v) @ PUTU32 (of_nat (v + b)) = fixed_bytes 12 (v div 2 ^ 32) @ fixed_bytes 4 (v + b)"
    unfolding PUTU32_of_nat by (simp add: fixed_16)
  have e: "v + b = v div 2 ^ 32 * 2 ^ 32 + (v mod 2 ^ 32 + b)" by simp
  show ?thesis
  proof (cases "v mod 2 ^ 32 + b < 2 ^ 32")
    case True
    then have "(v + b) mod 2 ^ 32 = v mod 2 ^ 32 + b" "(v + b) div 2 ^ 32 = v div 2 ^ 32"
      by (subst e, simp only: mod_mult_self3 mod_less, subst e, simp only: div_mult_self3, simp)
    then show ?thesis
      using z s assms(2) fixed_16 [of "v + b"] by (simp add: set_ctr32_def Let_def del: of_nat_add)
  next
    case False
    then have "v + b = (v div 2 ^ 32 + 1) * 2 ^ 32" using assms(1) e by simp
    then have d: "(v + b) mod 2 ^ 32 = 0" "(v + b) div 2 ^ 32 = v div 2 ^ 32 + 1" by simp_all
    have "ctr96_inc (fixed_bytes 12 (v div 2 ^ 32) @ fixed_bytes 4 (v + b)) = fixed_bytes 12 (v div 2 ^ 32 + 1) @ fixed_bytes 4 (v + b)"
    proof -
      let ?x = "fixed_bytes 12 (v div 2 ^ 32) @ fixed_bytes 4 (v + b)"
      have "ctr96_inc ?x = fixed_bytes 12 (nat_of_bytes (take 12 ?x) + unat (1 :: u32)) @ drop 12 ?x"
        unfolding ctr96_inc_def by (rule inc_loop_adds) simp_all
      also have "take 12 ?x = fixed_bytes 12 (v div 2 ^ 32)" by simp
      also have "drop 12 ?x = fixed_bytes 4 (v + b)" by simp
      also have "fixed_bytes 12 (nat_of_bytes (fixed_bytes 12 (v div 2 ^ 32)) + unat (1 :: u32)) = fixed_bytes 12 (v div 2 ^ 32 + 1)"
        unfolding nat_of_fixed_bytes unsigned_1 by (rule fixed_bytes_cong) (simp only: mod_add_left_eq)
      finally show ?thesis .
    qed
    then show ?thesis
      using z s d fixed_16 [of "v + b"] by (simp add: set_ctr32_def Let_def del: of_nat_add)
  qed
qed

section \<open>The key stream\<close>

definition stream_byte :: "block_fn \<Rightarrow> nat \<Rightarrow> nat \<Rightarrow> byte"
  where "stream_byte block v j = block (fixed_bytes 16 (v + j div 16)) ! (j mod 16)"

fun keyed :: "block_fn \<Rightarrow> nat \<Rightarrow> nat \<Rightarrow> byte list \<Rightarrow> byte list" where
  "keyed block v k [] = []"
| "keyed block v k (x # xs) = (x XOR stream_byte block v k) # keyed block v (Suc k) xs"

lemma length_keyed [simp]: "length (keyed block v k xs) = length xs"
  by (induction xs arbitrary: k) simp_all

lemma keyed_append: "keyed block v k (xs @ ys) = keyed block v k xs @ keyed block v (k + length xs) ys"
  by (induction xs arbitrary: k) simp_all

lemma keyed_nth: "i < length xs \<Longrightarrow> keyed block v k xs ! i = xs ! i XOR stream_byte block v (k + i)"
  by (induction xs arbitrary: k i) (auto simp: nth_Cons split: nat.split)

lemma keyed_keyed: "keyed block v k (keyed block v k xs) = xs"
  by (induction xs arbitrary: k) (simp_all add: xor.assoc)

definition block_sized :: "block_fn \<Rightarrow> bool"
  where "block_sized block \<longleftrightarrow> (\<forall>x. length x = 16 \<longrightarrow> length (block x) = 16)"

text \<open>Positions within blocks of sixteen.\<close>

lemma block_cases:
  obtains q r where "k = 16 * q + r" "r < (16 :: nat)"
  using that [of "k div 16" "k mod 16"] by simp

lemma pos_start: "k mod 16 = 0 \<Longrightarrow> i < 16 \<Longrightarrow> (k + i) div 16 = k div 16 \<and> (k + i) mod 16 = (i :: nat)"
  by (rule block_cases [of k]) (auto simp: div_mult2_eq)

lemma pos_add: "(k + 16 * q) mod 16 = k mod 16" "(k + 16 * q) div 16 = k div 16 + (q :: nat)"
  by simp_all

lemma pos_round: "k mod 16 = 0 \<Longrightarrow> (k + 15) div 16 = k div (16 :: nat)"
  using pos_start [of k 15] by simp

lemma pos_next_div: "Suc k mod 16 \<noteq> 0 \<Longrightarrow> Suc k div 16 = k div 16"
  by (simp add: div_Suc)

lemma pos_next_round: "k mod 16 \<noteq> 0 \<Longrightarrow> (Suc k + 15) div 16 = (k + 15) div 16"
proof -
  assume "k mod 16 \<noteq> 0"
  then have "(k + 16) mod 16 \<noteq> 0" by simp
  then have "Suc (k + 15) mod 16 \<noteq> 0" by simp
  then have "Suc (k + 15) div 16 = (k + 15) div 16" by (rule pos_next_div)
  then show ?thesis by simp
qed

lemma pos_next_start: "k mod 16 = 0 \<Longrightarrow> (Suc k + 15) div 16 = (k + 15) div 16 + 1"
  using pos_round [of k] by simp

lemma xor_bytes_Nil [simp]: "xor_bytes [] ys = []"
  by (simp add: xor_bytes_def)

lemma xor_bytes_zero: "length ys = n \<Longrightarrow> xor_bytes (replicate n 0) ys = ys"
  by (simp add: xor_bytes_def list_eq_iff_nth_eq)

lemma keyed_chunk:
  assumes "block_sized block" "length x \<le> 16" "k mod 16 = 0"
  shows "xor_bytes x (block (fixed_bytes 16 (v + k div 16))) = keyed block v k x"
proof (rule nth_equalityI)
  have l: "length (block (fixed_bytes 16 (v + k div 16))) = 16" using assms(1) by (simp add: block_sized_def)
  then show "length (xor_bytes x (block (fixed_bytes 16 (v + k div 16)))) = length (keyed block v k x)"
    using assms(2) by simp
  fix i assume "i < length (xor_bytes x (block (fixed_bytes 16 (v + k div 16))))"
  then have i: "i < length x" "i < 16" using l assms(2) by simp_all
  then have "(k + i) div 16 = k div 16" "(k + i) mod 16 = i" using pos_start [OF assms(3)] by simp_all
  then show "xor_bytes x (block (fixed_bytes 16 (v + k div 16))) ! i = keyed block v k x ! i"
    using i l by (simp add: xor_bytes_def keyed_nth stream_byte_def)
qed

text \<open>The state at a position of the stream.\<close>

definition ctr_at :: "block_fn \<Rightarrow> nat \<Rightarrow> nat \<Rightarrow> ctr_state \<Rightarrow> bool" where
  "ctr_at block v k s \<longleftrightarrow> ct_num s = of_nat (k mod 16) \<and> ct_ivec s = fixed_bytes 16 (v + (k + 15) div 16) \<and>
    (k mod 16 \<noteq> 0 \<longrightarrow> ct_ecount s = block (fixed_bytes 16 (v + k div 16)))"

lemma num_zero: "of_nat (k mod 16) = (0 :: u32) \<longleftrightarrow> k mod 16 = 0"
  by (simp add: word_unat_eq_iff unat_of_nat)

lemma num_next: "(of_nat (k mod 16) + 1) mod 16 = (of_nat (Suc k mod 16) :: u32)"
  by (rule word_unat_eq_iff [THEN iffD2]) (simp add: unat_mod unat_word_ariths unat_of_nat mod_Suc_eq)

lemma num_unat: "unat (of_nat (k mod 16) :: u32) = k mod 16"
  by (simp add: unat_of_nat)

lemma num_less: "of_nat (k mod 16) < (16 :: u32)"
  by (simp add: word_less_nat_alt num_unat)

lemma use_rest_keyed:
  assumes "k mod 16 \<noteq> 0 \<longrightarrow> buf = block (fixed_bytes 16 (v + k div 16))"
  shows "\<exists>m. use_rest buf (of_nat (k mod 16)) inp = (keyed block v k (take m inp), drop m inp, of_nat ((k + m) mod 16)) \<and>
    m \<le> length inp \<and> (k + m + 15) div 16 = (k + 15) div 16 \<and> (drop m inp \<noteq> [] \<longrightarrow> (k + m) mod 16 = 0) \<and>
    ((k + m) mod 16 \<noteq> 0 \<longrightarrow> k mod 16 \<noteq> 0 \<and> (k + m) div 16 = k div 16)"
  using assms
proof (induction inp arbitrary: k)
  case Nil
  then show ?case by (intro exI [of _ 0]) simp
next
  case (Cons x xs)
  show ?case
  proof (cases "k mod 16 = 0")
    case True
    then show ?thesis by (intro exI [of _ 0]) simp
  next
    case False
    have d: "(Suc k + 15) div 16 = (k + 15) div 16" "Suc k mod 16 \<noteq> 0 \<Longrightarrow> Suc k div 16 = k div 16" using pos_next_round [OF False] pos_next_div by simp_all
    have "Suc k mod 16 \<noteq> 0 \<longrightarrow> buf = block (fixed_bytes 16 (v + Suc k div 16))"
      using Cons.prems False d(2) by metis
    from Cons.IH [OF this] obtain m where m:
      "use_rest buf (of_nat (Suc k mod 16)) xs = (keyed block v (Suc k) (take m xs), drop m xs, of_nat ((Suc k + m) mod 16))"
      "m \<le> length xs" "(Suc k + m + 15) div 16 = (Suc k + 15) div 16" "drop m xs \<noteq> [] \<longrightarrow> (Suc k + m) mod 16 = 0"
      "(Suc k + m) mod 16 \<noteq> 0 \<longrightarrow> Suc k mod 16 \<noteq> 0 \<and> (Suc k + m) div 16 = Suc k div 16"
      by (elim exE conjE)
    have b: "stream_byte block v k = buf ! (k mod 16)" using Cons.prems False unfolding stream_byte_def by metis
    have n0: "(of_nat (k mod 16) :: u32) \<noteq> 0" unfolding num_zero by (rule False)
    have "use_rest buf (of_nat (k mod 16)) (x # xs) =
        (keyed block v k (take (Suc m) (x # xs)), drop (Suc m) (x # xs), of_nat ((k + Suc m) mod 16))"
      by (simp only: use_rest.simps num_next num_unat n0 if_False m(1) prod.case take_Suc_Cons drop_Suc_Cons keyed.simps b add_Suc_shift)
    moreover have "Suc m \<le> length (x # xs)" using m(2) by simp
    moreover have "(k + Suc m + 15) div 16 = (k + 15) div 16" using m(3) d(1) by (simp only: add_Suc_right add_Suc_shift)
    moreover have "drop (Suc m) (x # xs) \<noteq> [] \<longrightarrow> (k + Suc m) mod 16 = 0" using m(4) by (simp only: drop_Suc_Cons add_Suc_shift)
    moreover have "(k + Suc m) mod 16 \<noteq> 0 \<longrightarrow> k mod 16 \<noteq> 0 \<and> (k + Suc m) div 16 = k div 16"
    proof
      assume "(k + Suc m) mod 16 \<noteq> 0"
      then have "Suc k mod 16 \<noteq> 0 \<and> (Suc k + m) div 16 = Suc k div 16" using m(5) by (simp only: add_Suc_shift simp_thms)
      then show "k mod 16 \<noteq> 0 \<and> (k + Suc m) div 16 = k div 16" using d(2) False by (simp only: add_Suc_shift simp_thms)
    qed
    ultimately show ?thesis by (intro exI [of _ "Suc m"] conjI)
  qed
qed

lemma ctr_bytes_keyed:
  assumes "k mod 16 \<noteq> 0 \<longrightarrow> ec = block (fixed_bytes 16 (v + k div 16))"
  shows "\<exists>s. ctr_bytes block (fixed_bytes 16 (v + (k + 15) div 16)) ec (of_nat (k mod 16)) inp = (keyed block v k inp, s) \<and>
    ctr_at block v (k + length inp) s"
  using assms
proof (induction inp arbitrary: k ec)
  case Nil
  then show ?case by (simp add: ctr_at_def)
next
  case (Cons x xs)
  let ?ec = "if k mod 16 = 0 then block (fixed_bytes 16 (v + (k + 15) div 16)) else ec"
  let ?iv = "if k mod 16 = 0 then ctr128_inc (fixed_bytes 16 (v + (k + 15) div 16)) else fixed_bytes 16 (v + (k + 15) div 16)"
  have z: "k mod 16 = 0 \<Longrightarrow> (k + 15) div 16 = k div 16" "k mod 16 = 0 \<Longrightarrow> (Suc k + 15) div 16 = (k + 15) div 16 + 1"
    "k mod 16 \<noteq> 0 \<Longrightarrow> (Suc k + 15) div 16 = (k + 15) div 16" "Suc k mod 16 \<noteq> 0 \<Longrightarrow> Suc k div 16 = k div 16"
    by (rule pos_round pos_next_start pos_next_round pos_next_div; assumption)+
  have ec: "?ec = block (fixed_bytes 16 (v + k div 16))" using Cons.prems z(1) by auto
  have iv: "?iv = fixed_bytes 16 (v + (Suc k + 15) div 16)"
    using z(2,3) ctr128_inc_fixed [of "v + (k + 15) div 16"] by (auto simp: add.assoc)
  have "Suc k mod 16 \<noteq> 0 \<longrightarrow> ?ec = block (fixed_bytes 16 (v + Suc k div 16))" unfolding ec using z(4) by simp
  from Cons.IH [OF this] obtain s where s:
    "ctr_bytes block (fixed_bytes 16 (v + (Suc k + 15) div 16)) ?ec (of_nat (Suc k mod 16)) xs = (keyed block v (Suc k) xs, s)"
    "ctr_at block v (Suc k + length xs) s" by blast
  have "ctr_bytes block (fixed_bytes 16 (v + (k + 15) div 16)) ec (of_nat (k mod 16)) (x # xs) =
      (case ctr_bytes block ?iv ?ec (of_nat (Suc k mod 16)) xs of (out, s) \<Rightarrow> ((x XOR ?ec ! (k mod 16)) # out, s))"
    by (simp only: ctr_bytes.simps Let_def num_zero num_next num_unat)
  also have "\<dots> = (keyed block v k (x # xs), s)"
    unfolding iv s(1) unfolding ec keyed.simps stream_byte_def prod.case ..
  finally show ?case using s(2) by simp
qed

lemma keyed_shift: "keyed block v (16 * q + k) xs = keyed block (v + q) k xs"
proof (induction xs arbitrary: k)
  case (Cons x xs)
  have "(16 * q + k) div 16 = q + k div 16" "(16 * q + k) mod 16 = k mod 16" by simp_all
  then have "stream_byte block v (16 * q + k) = stream_byte block (v + q) k" by (simp only: stream_byte_def add.assoc)
  then show ?case using Cons.IH [of "Suc k"] by simp
qed simp

lemma keyed_block: "k mod 16 = 0 \<Longrightarrow> keyed block v k xs = keyed block (v + k div 16) 0 xs"
proof -
  assume "k mod 16 = 0"
  then have "16 * (k div 16) + 0 = k" using mult_div_mod_eq [of 16 k] by (simp only:)
  then show ?thesis using keyed_shift [of block v "k div 16" 0 xs] by (simp only:)
qed

lemma keyed_take_drop:
  "n \<le> length inp \<Longrightarrow> keyed block v k (take n inp) @ keyed block v (k + n) (drop n inp) = keyed block v k inp"
  using keyed_append [of block v k "take n inp" "drop n inp"] by simp

lemma ctr_blocks_keyed:
  assumes "block_sized block"
  shows "\<exists>ec'. ctr_blocks block (fixed_bytes 16 w) ec inp =
    (keyed block w 0 (take (16 * (length inp div 16)) inp), drop (16 * (length inp div 16)) inp,
     fixed_bytes 16 (w + length inp div 16), ec')"
proof (induction "length inp" arbitrary: inp w ec rule: less_induct)
  case less
  show ?case
  proof (cases "length inp < 16")
    case True
    then show ?thesis by (simp add: ctr_blocks.simps [of _ _ _ inp])
  next
    case False
    define q where "q = length (drop 16 inp) div 16"
    have q: "length inp div 16 = Suc q" using False by (simp add: q_def le_div_geq)
    have le: "length (drop 16 inp) < length inp" using False by simp
    from less [OF le, of "w + 1" "block (fixed_bytes 16 w)"] obtain ec' where r: "ctr_blocks block (fixed_bytes 16 (w + 1)) (block (fixed_bytes 16 w)) (drop 16 inp) =
        (keyed block (w + 1) 0 (take (16 * q) (drop 16 inp)), drop (16 * q) (drop 16 inp), fixed_bytes 16 (w + 1 + q), ec')"
      unfolding q_def by (elim exE)
    have x: "xor_bytes (take 16 inp) (block (fixed_bytes 16 w)) = keyed block w 0 (take 16 inp)"
      using keyed_chunk [OF assms, of "take 16 inp" 0 w] by simp
    have "ctr_blocks block (fixed_bytes 16 w) ec inp =
        (keyed block w 0 (take 16 inp) @ keyed block (w + 1) 0 (take (16 * q) (drop 16 inp)), drop (16 * q) (drop 16 inp),
         fixed_bytes 16 (w + 1 + q), ec')"
      by (simp only: ctr_blocks.simps [of _ _ _ inp] False if_False Let_def ctr128_inc_fixed r x prod.case)
    moreover have "keyed block w 0 (take 16 inp) @ keyed block (w + 1) 0 (take (16 * q) (drop 16 inp)) = keyed block w 0 (take (16 * Suc q) inp)"
    proof -
      have "take (16 * Suc q) inp = take 16 inp @ take (16 * q) (drop 16 inp)" using take_add [of 16 "16 * q" inp] by simp
      then show ?thesis using False keyed_shift [of block w 1 0] by (simp add: keyed_append)
    qed
    moreover have "drop (16 * q) (drop 16 inp) = drop (16 * Suc q) inp" by (simp add: algebra_simps)
    moreover have "w + 1 + q = w + Suc q" by simp
    ultimately show ?thesis unfolding q by (intro exI [of _ ec']) (simp only:)
  qed
qed

text \<open>The end of a call: whole blocks and then the first bytes of one more.\<close>

lemma keyed_end:
  assumes "block_sized block"
  shows "keyed block w 0 (take (16 * (length inp div 16)) inp) @
      xor_bytes (drop (16 * (length inp div 16)) inp) (block (fixed_bytes 16 (w + length inp div 16))) = keyed block w 0 inp"
proof -
  let ?q = "length inp div 16"
  have "length (drop (16 * ?q) inp) \<le> 16" using mod_less_divisor [of 16 "length inp"] by (simp add: minus_mult_div_eq_mod)
  then have "xor_bytes (drop (16 * ?q) inp) (block (fixed_bytes 16 (w + ?q))) = keyed block w (16 * ?q) (drop (16 * ?q) inp)"
    using keyed_chunk [OF assms, of "drop (16 * ?q) inp" "16 * ?q" w] by simp
  then show ?thesis using keyed_take_drop [of "16 * ?q" inp block w 0] by simp
qed

section \<open>A call of the counter mode\<close>

lemma ctr_at_less: "ctr_at block v k s \<Longrightarrow> ct_num s < 16"
  by (simp only: ctr_at_def num_less)

lemma fixed_round: "(k + 15) div 16 = k div 16 + (if k mod 16 = 0 then 0 else 1 :: nat)"
  by (rule block_cases [of k]) (auto simp: div_mult2_eq)

text \<open>What both functions do after the bytes left of a block, at the start of the next one.\<close>

lemma ctr_at_end:
  assumes "k mod 16 = 0" "length rest mod 16 \<noteq> 0" "ec = block (fixed_bytes 16 (v + k div 16 + length rest div 16))"
  shows "ctr_at block v (k + length rest)
    \<lparr>ct_ivec = fixed_bytes 16 (v + k div 16 + length rest div 16 + 1), ct_ecount = ec, ct_num = of_nat (length rest mod 16)\<rparr>"
proof -
  have a: "(k + length rest) mod 16 = length rest mod 16" using assms(1) by (metis add_0 mod_add_left_eq)
  have b: "(k + length rest) div 16 = k div 16 + length rest div 16" using assms(1) by (simp add: div_add1_eq)
  show ?thesis unfolding ctr_at_def fixed_round a b using assms(2,3) by (simp add: add.assoc)
qed

lemma CRYPTO_ctr128_keyed:
  assumes b: "block_sized block" and s: "ctr_at block v k s"
  shows "\<exists>s'. CRYPTO_ctr128_encrypt block strict inp s = (Ok (keyed block v k inp), s') \<and> ctr_at block v (k + length inp) s'"
proof -
  have n: "ct_num s = of_nat (k mod 16)" and iv: "ct_ivec s = fixed_bytes 16 (v + (k + 15) div 16)"
    and ec: "k mod 16 \<noteq> 0 \<longrightarrow> ct_ecount s = block (fixed_bytes 16 (v + k div 16))"
    using s by (metis ctr_at_def)+
  from use_rest_keyed [where block = block and v = v, OF ec, of inp] obtain m where
    u: "use_rest (ct_ecount s) (of_nat (k mod 16)) inp = (keyed block v k (take m inp), drop m inp, of_nat ((k + m) mod 16))"
    and m: "m \<le> length inp" "(k + m + 15) div 16 = (k + 15) div 16" "drop m inp \<noteq> [] \<longrightarrow> (k + m) mod 16 = 0"
      "(k + m) mod 16 \<noteq> 0 \<longrightarrow> k mod 16 \<noteq> 0 \<and> (k + m) div 16 = k div 16"
    by (elim exE conjE)
  let ?k = "k + m" and ?rest = "drop m inp"
  have iv': "ct_ivec s = fixed_bytes 16 (v + (?k + 15) div 16)" unfolding iv m(2) ..
  have ec': "?k mod 16 \<noteq> 0 \<longrightarrow> ct_ecount s = block (fixed_bytes 16 (v + ?k div 16))" using m(4) ec by metis
  have l: "?k + length ?rest = k + length inp" using m(1) by simp
  have out: "keyed block v k (take m inp) @ keyed block v ?k ?rest = keyed block v k inp" by (rule keyed_take_drop [OF m(1)])
  show ?thesis
  proof (cases strict)
    case True
    from ctr_bytes_keyed [where block = block and v = v, OF ec', of ?rest] obtain s' where
      "ctr_bytes block (fixed_bytes 16 (v + (?k + 15) div 16)) (ct_ecount s) (of_nat (?k mod 16)) ?rest = (keyed block v ?k ?rest, s')"
      and s': "ctr_at block v (?k + length ?rest) s'" by (elim exE conjE)
    then have "CRYPTO_ctr128_encrypt block strict inp s = (Ok (keyed block v k inp), s')"
      unfolding CRYPTO_ctr128_encrypt_def n u iv' using True by (simp only: num_less not_True_eq_False if_False if_True prod.case out)
    then show ?thesis using s' unfolding l by blast
  next
    case False
    show ?thesis
    proof (cases "?rest = []")
      case True
      have r: "ctr_blocks block (ct_ivec s) (ct_ecount s) [] = ([], [], ct_ivec s, ct_ecount s)"
        by (simp add: ctr_blocks.simps)
      have "CRYPTO_ctr128_encrypt block strict inp s =
          (Ok (keyed block v k inp), \<lparr>ct_ivec = ct_ivec s, ct_ecount = ct_ecount s, ct_num = of_nat (?k mod 16)\<rparr>)"
        unfolding CRYPTO_ctr128_encrypt_def n u out [symmetric]
        by (simp only: num_less False not_True_eq_False if_False prod.case r simp_thms if_True True keyed.simps append_Nil2)
      moreover have "ctr_at block v (k + length inp) \<lparr>ct_ivec = ct_ivec s, ct_ecount = ct_ecount s, ct_num = of_nat (?k mod 16)\<rparr>"
        unfolding l [symmetric] using True iv' ec' by (simp only: ctr_at_def ctr_state.simps list.size add_0_right)
      ultimately show ?thesis by blast
    next
      case ne: False
      define w q where "w = v + ?k div 16" and "q = length ?rest div 16"
      have k0: "?k mod 16 = 0" using m(3) ne by blast
      then have w: "ct_ivec s = fixed_bytes 16 w" unfolding iv' w_def by (simp only: pos_round)
      from ctr_blocks_keyed [OF b, of w "ct_ecount s" ?rest] obtain e where
        r: "ctr_blocks block (fixed_bytes 16 w) (ct_ecount s) ?rest = (keyed block w 0 (take (16 * q) ?rest), drop (16 * q) ?rest, fixed_bytes 16 (w + q), e)"
        unfolding q_def by (elim exE)
      have e: "keyed block w 0 (take (16 * q) ?rest) @ xor_bytes (drop (16 * q) ?rest) (block (fixed_bytes 16 (w + q))) = keyed block v ?k ?rest"
        unfolding q_def keyed_end [OF b] w_def by (rule keyed_block [OF k0, symmetric])
      have dl: "length (drop (16 * q) ?rest) = length ?rest mod 16"
        unfolding q_def by (simp only: length_drop minus_mult_div_eq_mod)
      show ?thesis
      proof (cases "drop (16 * q) ?rest = []")
        case True
        then have z: "length ?rest mod 16 = 0" using dl by simp
        have e': "keyed block w 0 (take (16 * q) ?rest) = keyed block v ?k ?rest"
          using e unfolding True xor_bytes_Nil append_Nil2 .
        have "CRYPTO_ctr128_encrypt block strict inp s =
            (Ok (keyed block v k inp), \<lparr>ct_ivec = fixed_bytes 16 (w + q), ct_ecount = e, ct_num = of_nat (?k mod 16)\<rparr>)"
          unfolding CRYPTO_ctr128_encrypt_def n u w out [symmetric] e' [symmetric]
          by (simp only: num_less False True not_True_eq_False simp_thms if_False if_True prod.case r)
        moreover have "ctr_at block v (?k + length ?rest) \<lparr>ct_ivec = fixed_bytes 16 (w + q), ct_ecount = e, ct_num = of_nat (?k mod 16)\<rparr>"
        proof -
          have "length ?rest = 16 * q" using z unfolding q_def by (metis add_0_right mult_div_mod_eq)
          then have "(?k + length ?rest) mod 16 = ?k mod 16" "(?k + length ?rest) div 16 = ?k div 16 + q"
            using pos_add [of ?k q] by (simp_all only:)
          then show ?thesis unfolding ctr_at_def fixed_round ctr_state.simps k0 w_def by (simp only: simp_thms if_True add_0_right add.assoc)
        qed
        ultimately show ?thesis unfolding l by blast
      next
        case False2: False
        have "CRYPTO_ctr128_encrypt block strict inp s =
            (Ok (keyed block v k inp), \<lparr>ct_ivec = fixed_bytes 16 (w + q + 1), ct_ecount = block (fixed_bytes 16 (w + q)),
               ct_num = of_nat (length ?rest mod 16)\<rparr>)"
          unfolding CRYPTO_ctr128_encrypt_def n u w out [symmetric] e [symmetric]
          by (simp only: num_less False False2 not_True_eq_False not_False_eq_True if_False prod.case r Let_def ctr128_inc_fixed dl)
        moreover have "length ?rest mod 16 \<noteq> 0" using False2 dl by auto
        ultimately show ?thesis
          using ctr_at_end [OF k0, of ?rest "block (fixed_bytes 16 (w + q))" block v] unfolding l w_def q_def by blast
      qed
    qed
  qed
qed

section \<open>Counter mode by calls that count with 32 bits\<close>

text \<open>What a \<^verbatim>\<open>ctr128_f\<close> does: the counter is incremented in its last four bytes only.\<close>

fun ctr_fn_of :: "block_fn \<Rightarrow> ctr_fn" where
  "ctr_fn_of block inp 0 iv = []"
| "ctr_fn_of block inp (Suc b) iv =
    xor_bytes (take 16 inp) (block iv) @ ctr_fn_of block (drop 16 inp) b (take 12 iv @ PUTU32 (GETU32 (drop 12 iv) + 1))"

definition ctr_fn_for :: "block_fn \<Rightarrow> ctr_fn \<Rightarrow> bool" where
  "ctr_fn_for block func \<longleftrightarrow>
    (\<forall>inp b iv. length iv = 16 \<longrightarrow> length inp = 16 * b \<longrightarrow> func inp b iv = ctr_fn_of block inp b iv)"

lemma GETU32_PUTU32: "GETU32 (PUTU32 w @ xs) = w"
  by (rule word4_cases [of w]) (simp add: PUTU32_word4 GETU32_word4)

lemma GETU32_fixed: "GETU32 (drop 12 (fixed_bytes 16 w)) = of_nat w"
  using GETU32_PUTU32 [of "of_nat w" "[]"] by (simp add: fixed_16 PUTU32_of_nat)

lemma low_next:
  assumes "w mod 2 ^ 32 + 1 < 2 ^ 32"
  shows "take 12 (fixed_bytes 16 w) @ PUTU32 (of_nat w + 1) = fixed_bytes 16 (w + 1)"
proof -
  have "(w + 1) mod 2 ^ 32 \<noteq> 0" using assms by (metis add_is_0 mod_add_left_eq mod_less zero_neq_one)
  then have "of_nat (w + 1) \<noteq> (0 :: u32)" unfolding of_nat_u32_zero .
  then have "set_ctr32 (of_nat (w + 1)) (fixed_bytes 16 w) = take 12 (fixed_bytes 16 w) @ PUTU32 (of_nat (w + 1))"
    by (simp only: set_ctr32_def Let_def if_False)
  moreover have "set_ctr32 (of_nat (w + 1)) (fixed_bytes 16 w) = fixed_bytes 16 (w + 1)"
    using assms by (intro set_ctr32_next) simp_all
  ultimately show ?thesis by (simp add: add.commute)
qed

lemma ctr_fn_of_keyed:
  assumes "block_sized block"
  shows "length inp = 16 * b \<Longrightarrow> w mod 2 ^ 32 + b \<le> 2 ^ 32 \<Longrightarrow> ctr_fn_of block inp b (fixed_bytes 16 w) = keyed block w 0 inp"
proof (induction b arbitrary: inp w)
  case (Suc b)
  have x: "xor_bytes (take 16 inp) (block (fixed_bytes 16 w)) = keyed block w 0 (take 16 inp)"
    using keyed_chunk [OF assms, of "take 16 inp" 0 w] by simp
  have "ctr_fn_of block (drop 16 inp) b (take 12 (fixed_bytes 16 w) @ PUTU32 (of_nat w + 1)) = keyed block (w + 1) 0 (drop 16 inp)"
  proof (cases b)
    case 0
    then show ?thesis using Suc.prems(1) by simp
  next
    case (Suc b')
    have lt: "w mod 2 ^ 32 + 1 < 2 ^ 32" using Suc.prems(2) Suc by simp
    have "(w + 1) mod 2 ^ 32 = w mod 2 ^ 32 + 1" using lt by (metis mod_add_left_eq mod_less)
    then show ?thesis unfolding low_next [OF lt] using Suc.IH [of "drop 16 inp" "w + 1"] Suc.prems by simp
  qed
  then have "ctr_fn_of block inp (Suc b) (fixed_bytes 16 w) = keyed block w 0 (take 16 inp) @ keyed block w 16 (drop 16 inp)"
    unfolding ctr_fn_of.simps GETU32_fixed x using keyed_shift [of block w 1 0 "drop 16 inp"] by simp
  then show ?case using keyed_take_drop [of 16 inp block w 0] Suc.prems(1) by simp
qed simp

lemma ctr32_step_adds:
  assumes "ctr32_step (of_nat w) len = (b, c)"
  shows "w mod 2 ^ 32 + b \<le> 2 ^ 32 \<and> c = of_nat (w + b)"
proof -
  define n where "n = (if 2 ^ 28 < len div 16 then 2 ^ 28 else len div 16 :: nat)"
  define a where "a = w mod 2 ^ 32"
  have n: "n \<le> 2 ^ 28" by (simp add: n_def)
  have "ctr32_step (of_nat w) len = (if unat (of_nat w + of_nat n :: u32) < n then (n - unat (of_nat w + of_nat n :: u32), 0) else (n, of_nat w + of_nat n))"
    by (simp only: ctr32_step_def Let_def n_def)
  then have e: "(b, c) = (if unat (of_nat (w + n) :: u32) < n then (n - unat (of_nat (w + n) :: u32), 0) else (n, of_nat (w + n)))"
    unfolding assms by simp
  have u: "unat (of_nat (w + n) :: u32) = (a + n) mod 2 ^ 32"
    by (simp add: unat_of_nat a_def mod_add_left_eq del: of_nat_add)
  have al: "a < 2 ^ 32" by (simp add: a_def)
  show ?thesis
  proof (cases "a + n < 2 ^ 32")
    case True
    then have "unat (of_nat (w + n) :: u32) = a + n" using u by simp
    then have "b = n \<and> c = of_nat (w + n)" using e by (simp del: of_nat_add)
    then show ?thesis using True by (simp add: a_def)
  next
    case False
    have "(a + n) mod 2 ^ 32 = a + n - 2 ^ 32" using False al n by (subst le_mod_geq) simp_all
    then have h: "unat (of_nat (w + n) :: u32) < n" "n - unat (of_nat (w + n) :: u32) = 2 ^ 32 - a"
      using u False al n by simp_all
    have bc: "b = 2 ^ 32 - a \<and> c = 0" using e h by (simp del: of_nat_add)
    have "w + (2 ^ 32 - a) = (w div 2 ^ 32 + 1) * 2 ^ 32"
    proof -
      have "w = w div 2 ^ 32 * 2 ^ 32 + a" unfolding a_def by simp
      then show ?thesis using al by simp
    qed
    then have "unat (of_nat (w + b) :: u32) = 0" using bc by (simp add: unat_of_nat del: of_nat_add)
    then have "of_nat (w + b) = (0 :: u32)" by (simp only: unat_eq_0)
    then show ?thesis using bc al by (simp add: a_def)
  qed
qed

lemma ctr32_blocks_keyed:
  assumes b: "block_sized block" and f: "ctr_fn_for block func"
  shows "ctr32_blocks func (fixed_bytes 16 w) (of_nat w) inp =
    (keyed block w 0 (take (16 * (length inp div 16)) inp), drop (16 * (length inp div 16)) inp,
     fixed_bytes 16 (w + length inp div 16), of_nat (w + length inp div 16))"
proof (induction "length inp" arbitrary: inp w rule: less_induct)
  case less
  show ?case
  proof (cases "length inp < 16")
    case True
    then show ?thesis by (simp add: ctr32_blocks.simps [of _ _ _ inp])
  next
    case False
    obtain n c where st: "ctr32_step (of_nat w) (length inp) = (n, c)" by (cases "ctr32_step (of_nat w) (length inp)")
    have n: "0 < n" "16 * n \<le> length inp" using ctr32_step_blocks [OF _ st] False by simp_all
    have a: "w mod 2 ^ 32 + n \<le> 2 ^ 32" "c = of_nat (w + n)" using ctr32_step_adds [OF st] by simp_all
    let ?x = "take (16 * n) inp" and ?y = "drop (16 * n) inp"
    define q where "q = length ?y div 16"
    have q: "length inp div 16 = n + q"
    proof -
      have "length inp = length ?y + 16 * n" using n(2) by simp
      then show ?thesis unfolding q_def by (metis add.commute div_mult_self4 zero_neq_numeral)
    qed
    have c: "set_ctr32 c (fixed_bytes 16 w) = fixed_bytes 16 (w + n)" unfolding a(2) by (rule set_ctr32_next [OF a(1) n(1)])
    have le: "length ?y < length inp" using n by simp
    have r: "ctr32_blocks func (fixed_bytes 16 (w + n)) c ?y =
        (keyed block (w + n) 0 (take (16 * q) ?y), drop (16 * q) ?y, fixed_bytes 16 (w + n + q), of_nat (w + n + q))"
      unfolding a(2) q_def by (rule less [OF le])
    have lx: "length ?x = 16 * n" using n(2) by simp
    then have x: "func ?x n (fixed_bytes 16 w) = keyed block w 0 ?x"
      using f ctr_fn_of_keyed [OF b lx a(1)] by (simp add: ctr_fn_for_def)
    have "ctr32_blocks func (fixed_bytes 16 w) (of_nat w) inp =
        (keyed block w 0 ?x @ keyed block (w + n) 0 (take (16 * q) ?y), drop (16 * q) ?y, fixed_bytes 16 (w + n + q), of_nat (w + n + q))"
      by (simp only: ctr32_blocks.simps [of _ _ _ inp] False if_False st prod.case c r x)
    moreover have "keyed block w 0 ?x @ keyed block (w + n) 0 (take (16 * q) ?y) = keyed block w 0 (take (16 * (n + q)) inp)"
    proof -
      have "take (16 * (n + q)) inp = ?x @ take (16 * q) ?y" by (simp only: distrib_left take_add)
      then show ?thesis using lx keyed_shift [of block w n 0] by (simp only: keyed_append add_0 add_0_right)
    qed
    moreover have "drop (16 * q) ?y = drop (16 * (n + q)) inp" by (simp add: algebra_simps)
    ultimately show ?thesis unfolding q by (simp only: add.assoc)
  qed
qed

text \<open>The state of the second function, which keeps a whole block of key stream like the first.\<close>

lemma CRYPTO_ctr32_keyed:
  assumes b: "block_sized block" and f: "ctr_fn_for block func" and s: "ctr_at block v k s"
  shows "\<exists>s'. CRYPTO_ctr128_encrypt_ctr32 func inp s = (Ok (keyed block v k inp), s') \<and> ctr_at block v (k + length inp) s'"
proof -
  have n: "ct_num s = of_nat (k mod 16)" and iv: "ct_ivec s = fixed_bytes 16 (v + (k + 15) div 16)"
    and ec: "k mod 16 \<noteq> 0 \<longrightarrow> ct_ecount s = block (fixed_bytes 16 (v + k div 16))"
    using s by (metis ctr_at_def)+
  from use_rest_keyed [where block = block and v = v, OF ec, of inp] obtain m where
    u: "use_rest (ct_ecount s) (of_nat (k mod 16)) inp = (keyed block v k (take m inp), drop m inp, of_nat ((k + m) mod 16))"
    and m: "m \<le> length inp" "(k + m + 15) div 16 = (k + 15) div 16" "drop m inp \<noteq> [] \<longrightarrow> (k + m) mod 16 = 0"
      "(k + m) mod 16 \<noteq> 0 \<longrightarrow> k mod 16 \<noteq> 0 \<and> (k + m) div 16 = k div 16"
    by (elim exE conjE)
  let ?k = "k + m" and ?rest = "drop m inp"
  have ec': "?k mod 16 \<noteq> 0 \<longrightarrow> ct_ecount s = block (fixed_bytes 16 (v + ?k div 16))" using m(4) ec by metis
  have l: "?k + length ?rest = k + length inp" using m(1) by simp
  have out: "keyed block v k (take m inp) @ keyed block v ?k ?rest = keyed block v k inp" by (rule keyed_take_drop [OF m(1)])
  define w q where "w = v + (?k + 15) div 16" and "q = length ?rest div 16"
  have w: "ct_ivec s = fixed_bytes 16 w" unfolding iv w_def m(2) ..
  have r: "ctr32_blocks func (ct_ivec s) (GETU32 (drop 12 (ct_ivec s))) ?rest =
      (keyed block w 0 (take (16 * q) ?rest), drop (16 * q) ?rest, fixed_bytes 16 (w + q), of_nat (w + q))"
    unfolding w GETU32_fixed q_def by (rule ctr32_blocks_keyed [OF b f])
  have dl: "length (drop (16 * q) ?rest) = length ?rest mod 16"
    unfolding q_def by (simp only: length_drop minus_mult_div_eq_mod)
  have k0: "w = v + ?k div 16" if "?k mod 16 = 0" using that unfolding w_def by (simp only: pos_round)
  have e: "keyed block w 0 (take (16 * q) ?rest) @ xor_bytes (drop (16 * q) ?rest) (block (fixed_bytes 16 (w + q))) = keyed block v ?k ?rest"
  proof (cases "?rest = []")
    case False
    then have z: "?k mod 16 = 0" using m(3) by blast
    show ?thesis unfolding q_def keyed_end [OF b] k0 [OF z] by (rule keyed_block [OF z, symmetric])
  qed (simp add: q_def)
  show ?thesis
  proof (cases "drop (16 * q) ?rest = []")
    case True
    then have z: "length ?rest mod 16 = 0" using dl by simp
    have e': "keyed block w 0 (take (16 * q) ?rest) = keyed block v ?k ?rest"
      using e unfolding True xor_bytes_Nil append_Nil2 .
    have "CRYPTO_ctr128_encrypt_ctr32 func inp s =
        (Ok (keyed block v k inp), s\<lparr>ct_ivec := fixed_bytes 16 (w + q), ct_num := of_nat (?k mod 16)\<rparr>)"
      unfolding CRYPTO_ctr128_encrypt_ctr32_def n u out [symmetric] e' [symmetric]
      by (simp only: num_less True not_True_eq_False simp_thms if_False if_True prod.case r)
    moreover have "ctr_at block v (?k + length ?rest) (s\<lparr>ct_ivec := fixed_bytes 16 (w + q), ct_num := of_nat (?k mod 16)\<rparr>)"
    proof -
      have "length ?rest = 16 * q" using z unfolding q_def by (metis add_0_right mult_div_mod_eq)
      moreover have "(?k + 16 * q) mod 16 = ?k mod 16" "(?k + 16 * q) div 16 = ?k div 16 + q" "(?k + 16 * q + 15) div 16 = (?k + 15) div 16 + q"
        using pos_add [of ?k q] pos_add [of "?k + 15" q] by (simp_all only: add.assoc add.commute [of "16 * q" 15])
      moreover have "?k mod 16 \<noteq> 0 \<longrightarrow> q = 0" unfolding q_def using m(3) by (cases "?rest = []") simp_all
      ultimately show ?thesis using ec' by (simp add: ctr_at_def w_def add.assoc)
    qed
    ultimately show ?thesis unfolding l by blast
  next
    case False
    then have z: "length ?rest mod 16 \<noteq> 0" using dl by auto
    then have k0': "?k mod 16 = 0" using m(3) by (cases "?rest = []") simp_all
    have bl: "length (block (fixed_bytes 16 (w + q))) = 16" using b by (simp add: block_sized_def)
    have fe: "func (replicate 16 0) 1 (fixed_bytes 16 (w + q)) = block (fixed_bytes 16 (w + q))"
    proof -
      have "func (replicate 16 0) 1 (fixed_bytes 16 (w + q)) = ctr_fn_of block (replicate 16 0) 1 (fixed_bytes 16 (w + q))"
        using f by (simp add: ctr_fn_for_def)
      also have "\<dots> = xor_bytes (replicate 16 0) (block (fixed_bytes 16 (w + q)))"
        using ctr_fn_of.simps(2) [of block "replicate 16 0" 0] by simp
      finally show ?thesis unfolding xor_bytes_zero [OF bl] .
    qed
    have sc: "set_ctr32 (of_nat (w + q) + 1) (fixed_bytes 16 (w + q)) = fixed_bytes 16 (w + q + 1)"
      using set_ctr32_next [of "w + q" 1] mod_less_divisor [of "2 ^ 32" "w + q"] by (simp add: add.commute)
    have "CRYPTO_ctr128_encrypt_ctr32 func inp s =
        (Ok (keyed block v k inp), \<lparr>ct_ivec = fixed_bytes 16 (w + q + 1), ct_ecount = block (fixed_bytes 16 (w + q)),
           ct_num = of_nat (length ?rest mod 16)\<rparr>)"
      unfolding CRYPTO_ctr128_encrypt_ctr32_def n u out [symmetric] e [symmetric]
      by (simp only: num_less False not_True_eq_False if_False prod.case r Let_def fe sc dl)
    then show ?thesis
      using ctr_at_end [OF k0', of ?rest "block (fixed_bytes 16 (w + q))" block v] z unfolding l k0 [OF k0'] q_def by blast
  qed
qed

end
