(* ===== verification/Boring_Feedback_Laws.thy ===== *)
theory Boring_Feedback_Laws
  imports Boring_Stream_Laws
begin

text \<open>
  The feedback modes: whole blocks against single bytes, calls one after another, and decryption against encryption.
\<close>

unbundle bit_operations_syntax

definition then_bytes :: "byte list \<Rightarrow> byte list \<times> 's \<Rightarrow> byte list \<times> 's"
  where "then_bytes out r = (out @ fst r, snd r)"

lemma then_bytes_Nil [simp]: "then_bytes [] r = r"
  by (simp add: then_bytes_def)

lemma then_bytes_append: "then_bytes xs (then_bytes ys r) = then_bytes (xs @ ys) r"
  by (simp add: then_bytes_def)

lemma then_bytes_pair [simp]: "then_bytes xs (ys, s) = (xs @ ys, s)"
  by (simp add: then_bytes_def)

lemma then_bytes_case: "(case r of (out, s) \<Rightarrow> (xs @ out, s)) = then_bytes xs r"
  by (simp add: then_bytes_def case_prod_beta)

lemma then_bytes_case1: "(case r of (out, s) \<Rightarrow> (x # out, s)) = then_bytes [x] r"
  by (simp add: then_bytes_def case_prod_beta)

lemma num_step: "n < 16 \<Longrightarrow> (of_nat n + 1) mod 16 = (of_nat (Suc n mod 16) :: u32)"
  using num_next [of n] by simp

lemma num_pos: "0 < n \<Longrightarrow> n < 16 \<Longrightarrow> of_nat n \<noteq> (0 :: u32)"
  using num_zero [of n] by simp

lemma num_value: "n < 16 \<Longrightarrow> unat (of_nat n :: u32) = n"
  using num_unat [of n] by simp

section \<open>Cipher feedback\<close>

definition cfb_reg :: "bool \<Rightarrow> byte list \<Rightarrow> byte list \<Rightarrow> byte list"
  where "cfb_reg enc k x = (if enc then xor_bytes k x else x) @ drop (length x) k"

lemma cfb_reg_Nil [simp]: "cfb_reg enc k [] = k"
  by (cases enc) (simp_all add: cfb_reg_def xor_bytes_def)

lemma cfb_reg_Cons: "cfb_reg enc (k # ks) (x # xs) = snd (cfb_out enc x k) # cfb_reg enc ks xs"
  by (cases enc) (simp_all add: cfb_reg_def cfb_out_def xor_bytes_def)

lemma xor_bytes_Cons [simp]: "xor_bytes (k # ks) (x # xs) = (k XOR x) # xor_bytes ks xs"
  by (simp add: xor_bytes_def)

lemma xor_bytes_Nil2 [simp]: "xor_bytes k [] = []"
  by (simp add: xor_bytes_def)

lemma fst_cfb_out [simp]: "fst (cfb_out enc x k) = k XOR x"
  by (cases enc) (simp_all add: cfb_out_def)

lemma cfb_bytes_Cons: "cfb_bytes block enc iv n (x # xs) =
    (let iv = (if n = 0 then block iv else iv)
     in then_bytes [iv ! unat n XOR x] (cfb_bytes block enc (iv[unat n := snd (cfb_out enc x (iv ! unat n))]) ((n + 1) mod 16) xs))"
  by (cases enc) (simp_all add: cfb_out_def then_bytes_case1 Let_def)

declare cfb_bytes.simps(2) [simp del]

text \<open>Bytes within a block whose register is there.\<close>

lemma cfb_bytes_within:
  "0 < length p \<Longrightarrow> length p + length k = 16 \<Longrightarrow> length x \<le> length k \<Longrightarrow>
    cfb_bytes block enc (p @ k) (of_nat (length p mod 16)) (x @ xs) =
    then_bytes (xor_bytes k x) (cfb_bytes block enc (p @ cfb_reg enc k x) (of_nat ((length p + length x) mod 16)) xs)"
proof (induction x arbitrary: p k)
  case Nil
  then show ?case by simp
next
  case (Cons x1 x)
  then obtain k0 k' where k: "k = k0 # k'" by (cases k) auto
  have lt: "length p < 16" using Cons.prems k by simp
  let ?c = "snd (cfb_out enc x1 k0)"
  have "cfb_bytes block enc (p @ k) (of_nat (length p)) (x1 # x @ xs) =
      then_bytes [k0 XOR x1] (cfb_bytes block enc ((p @ [?c]) @ k') (of_nat (length (p @ [?c]) mod 16)) (x @ xs))"
    using num_pos [OF Cons.prems(1) lt] by (simp add: cfb_bytes_Cons num_step [OF lt] num_value [OF lt] k del: of_nat_Suc)
  also have "\<dots> = then_bytes [k0 XOR x1] (then_bytes (xor_bytes k' x)
      (cfb_bytes block enc ((p @ [?c]) @ cfb_reg enc k' x) (of_nat ((length (p @ [?c]) + length x) mod 16)) xs))"
    using Cons.IH [of "p @ [?c]" k'] Cons.prems k by simp
  finally show ?case using lt by (simp add: k cfb_reg_Cons then_bytes_append)
qed

text \<open>A block, or the beginning of one.\<close>

lemma cfb_bytes_chunk:
  assumes b: "block_sized block" and iv: "length iv = 16" and x: "x \<noteq> []" "length x \<le> 16"
  shows "cfb_bytes block enc iv 0 (x @ xs) =
    then_bytes (fst (cfb_chunk block enc iv x)) (cfb_bytes block enc (snd (cfb_chunk block enc iv x)) (of_nat (length x mod 16)) xs)"
proof -
  obtain x1 x' where xx: "x = x1 # x'" using x(1) by (cases x) auto
  have lk: "length (block iv) = 16" using b iv by (simp add: block_sized_def)
  then obtain k0 k' where k: "block iv = k0 # k'" by (cases "block iv") auto
  let ?c = "snd (cfb_out enc x1 k0)"
  have "cfb_bytes block enc iv 0 (x @ xs) = then_bytes [k0 XOR x1] (cfb_bytes block enc ([?c] @ k') (of_nat (length [?c] mod 16)) (x' @ xs))"
    by (simp add: cfb_bytes_Cons xx k)
  also have "\<dots> = then_bytes [k0 XOR x1] (then_bytes (xor_bytes k' x') (cfb_bytes block enc ([?c] @ cfb_reg enc k' x') (of_nat ((length [?c] + length x') mod 16)) xs))"
    using lk x(2) by (subst cfb_bytes_within) (simp_all add: k xx)
  also have "\<dots> = then_bytes (xor_bytes (block iv) x) (cfb_bytes block enc (cfb_reg enc (block iv) x) (of_nat (length x mod 16)) xs)"
    by (simp add: k xx cfb_reg_Cons then_bytes_append)
  finally show ?thesis by (simp add: cfb_chunk_def Let_def cfb_reg_def)
qed

lemma length_cfb_chunk:
  assumes "block_sized block" "length iv = 16" "length x \<le> 16"
  shows "length (snd (cfb_chunk block enc iv x)) = 16"
proof -
  have "length (block iv) = 16" using assms by (simp add: block_sized_def)
  then show ?thesis using assms(3) by (simp add: cfb_chunk_def Let_def xor_bytes_def)
qed

lemma cfb_rest_bytes:
  "\<exists>out rest iv' n'. cfb_rest enc iv n inp = (out, rest, iv', n') \<and> length iv' = length iv \<and> (rest \<noteq> [] \<longrightarrow> n' = 0) \<and>
    cfb_bytes block enc iv n inp = then_bytes out (cfb_bytes block enc iv' n' rest)"
proof (induction inp arbitrary: iv n)
  case (Cons x xs)
  show ?case
  proof (cases "n = 0")
    case False
    let ?iv = "iv[unat n := snd (cfb_out enc x (iv ! unat n))]"
    from Cons.IH [of ?iv "(n + 1) mod 16"] obtain out rest iv' n' where
      r: "cfb_rest enc ?iv ((n + 1) mod 16) xs = (out, rest, iv', n')" "length iv' = length ?iv" "rest \<noteq> [] \<longrightarrow> n' = 0"
        "cfb_bytes block enc ?iv ((n + 1) mod 16) xs = then_bytes out (cfb_bytes block enc iv' n' rest)" by (elim exE conjE)
    have "cfb_rest enc iv n (x # xs) = ((iv ! unat n XOR x) # out, rest, iv', n')"
      using False r(1) by (cases enc) (simp_all add: cfb_out_def)
    then show ?thesis using False r(2-4) by (simp add: cfb_bytes_Cons then_bytes_append)
  qed simp
qed simp

lemma cfb_blocks_bytes:
  assumes "block_sized block"
  shows "length iv = 16 \<Longrightarrow> \<exists>out rest iv'. cfb_blocks block enc iv inp = (out, rest, iv') \<and> length iv' = 16 \<and> length rest < 16 \<and>
    cfb_bytes block enc iv 0 inp = then_bytes out (cfb_bytes block enc iv' 0 rest)"
proof (induction "length inp" arbitrary: inp iv rule: less_induct)
  case less
  show ?case
  proof (cases "length inp < 16")
    case True
    then show ?thesis using less.prems by (simp add: cfb_blocks.simps [of _ _ _ inp])
  next
    case False
    have l: "length (take 16 inp) = 16" using False by simp
    obtain y iv1 where c: "cfb_chunk block enc iv (take 16 inp) = (y, iv1)" by (cases "cfb_chunk block enc iv (take 16 inp)")
    have iv1: "length iv1 = 16" using length_cfb_chunk [OF assms less.prems, of "take 16 inp" enc] l c by simp
    have le: "length (drop 16 inp) < length inp" using False by simp
    from less.hyps [OF le iv1] obtain out rest iv' where
      r: "cfb_blocks block enc iv1 (drop 16 inp) = (out, rest, iv')" "length iv' = 16" "length rest < 16"
        "cfb_bytes block enc iv1 0 (drop 16 inp) = then_bytes out (cfb_bytes block enc iv' 0 rest)" by (elim exE conjE)
    have ne: "take 16 inp \<noteq> []" using l by (metis list.size(3) zero_neq_numeral)
    have "cfb_bytes block enc iv 0 inp = then_bytes y (cfb_bytes block enc iv1 0 (drop 16 inp))"
      using cfb_bytes_chunk [OF assms less.prems ne, of enc "drop 16 inp"] l c by simp
    moreover have "cfb_blocks block enc iv inp = (y @ out, rest, iv')"
      using False c r(1) by (simp add: cfb_blocks.simps [of _ _ _ inp])
    ultimately show ?thesis using r(2-4) by (simp add: then_bytes_append)
  qed
qed

text \<open>The fast loop computes the byte-wise one.\<close>

lemma CRYPTO_cfb128_bytes:
  assumes b: "block_sized block" and iv: "length (fb_ivec s) = 16" and n16: "fb_num s < 16"
  shows "CRYPTO_cfb128_encrypt block strict enc inp s =
    (case cfb_bytes block enc (fb_ivec s) (fb_num s) inp of (out, s') \<Rightarrow> (Ok out, s'))"
proof -
  from cfb_rest_bytes [of enc "fb_ivec s" "fb_num s" inp block] obtain out rest iv n where
    r: "cfb_rest enc (fb_ivec s) (fb_num s) inp = (out, rest, iv, n)" "length iv = length (fb_ivec s)" "rest \<noteq> [] \<longrightarrow> n = 0"
      "cfb_bytes block enc (fb_ivec s) (fb_num s) inp = then_bytes out (cfb_bytes block enc iv n rest)" by (elim exE conjE)
  show ?thesis
  proof (cases strict)
    case True
    then show ?thesis using r(1,4) by (simp add: n16 CRYPTO_cfb128_encrypt_def then_bytes_def case_prod_beta)
  next
    case False
    have l: "length iv = 16" using r(2) iv by simp
    from cfb_blocks_bytes [OF b l, of enc rest] obtain out' rest' iv' where
      k: "cfb_blocks block enc iv rest = (out', rest', iv')" "length iv' = 16" "length rest' < 16"
        "cfb_bytes block enc iv 0 rest = then_bytes out' (cfb_bytes block enc iv' 0 rest')" by (elim exE conjE)
    show ?thesis
    proof (cases "rest = []")
      case True
      then show ?thesis using r(1,4) False by (simp add: n16 CRYPTO_cfb128_encrypt_def cfb_blocks.simps)
    next
      case ne: False
      then have n: "n = 0" using r(3) by simp
      show ?thesis
      proof (cases "rest' = []")
        case True
        then show ?thesis using r(1,4) k False n by (simp add: n16 CRYPTO_cfb128_encrypt_def then_bytes_append)
      next
        case ne': False
        have "cfb_bytes block enc iv' 0 rest' = (fst (cfb_chunk block enc iv' rest'),
            \<lparr>fb_ivec = snd (cfb_chunk block enc iv' rest'), fb_num = of_nat (length rest')\<rparr>)"
          using cfb_bytes_chunk [OF b k(2) ne', of enc "[]"] k(3) by simp
        then show ?thesis using r(1,4) k(1,4) False n ne'
          by (simp add: n16 CRYPTO_cfb128_encrypt_def then_bytes_append case_prod_beta)
      qed
    qed
  qed
qed

lemma cfb_bytes_append:
  "cfb_bytes block enc iv n (xs @ ys) =
    (case cfb_bytes block enc iv n xs of (out, s) \<Rightarrow> then_bytes out (cfb_bytes block enc (fb_ivec s) (fb_num s) ys))"
  by (induction xs arbitrary: iv n) (simp_all add: cfb_bytes_Cons Let_def case_prod_beta then_bytes_def)

lemma cfb_bytes_length:
  assumes "block_sized block"
  shows "length iv = 16 \<Longrightarrow> length (fb_ivec (snd (cfb_bytes block enc iv n xs))) = 16"
proof (induction xs arbitrary: iv n)
  case (Cons x xs)
  have "length (if n = 0 then block iv else iv) = 16" using assms Cons.prems by (simp add: block_sized_def)
  then show ?case unfolding cfb_bytes_Cons Let_def then_bytes_def snd_conv by (intro Cons.IH) (simp only: length_list_update)
qed simp

text \<open>Decryption follows encryption byte by byte with the same register.\<close>

lemma cfb_bytes_inverse:
  "cfb_bytes block True iv n inp = (out, s) \<Longrightarrow> cfb_bytes block False iv n out = (inp, s)"
proof (induction inp arbitrary: iv n out)
  case (Cons x xs)
  let ?iv = "if n = 0 then block iv else iv"
  let ?k = "?iv ! unat n"
  obtain out' where o: "out = (?k XOR x) # out'" "cfb_bytes block True (?iv[unat n := ?k XOR x]) ((n + 1) mod 16) xs = (out', s)"
    using Cons.prems unfolding cfb_bytes_Cons Let_def by (auto simp: then_bytes_def cfb_out_def prod_eq_iff)
  from Cons.IH [OF o(2)] show ?case unfolding o(1) cfb_bytes_Cons Let_def by (simp add: cfb_out_def)
qed simp

section \<open>Cipher feedback of eight bits\<close>

lemma cfbr_8:
  assumes "length iv = 16" "length (block iv) = 16"
  shows "cfbr_encrypt_block block junk enc 8 [x] iv =
    (xor_bytes [x] (block iv), tl iv @ (if enc then xor_bytes [x] (block iv) else [x]))"
proof -
  obtain i iv' where i: "iv = i # iv'" "length iv' = 15" using assms(1) by (cases iv) auto
  obtain k ks where k: "block iv = k # ks" using assms(2) by (cases "block iv") auto
  show ?thesis unfolding cfbr_encrypt_block_def Let_def k by (simp add: i)
qed

lemma cfb8_loop_inverse:
  assumes "block_sized block"
  shows "length iv = 16 \<Longrightarrow> cfb8_loop block junk True xs iv = (out, iv') \<Longrightarrow>
    cfb8_loop block junk' False out iv = (xs, iv')"
proof (induction xs arbitrary: iv out)
  case (Cons x xs)
  have l: "length (block iv) = 16" using assms Cons.prems(1) by (simp add: block_sized_def)
  then obtain k ks where k: "block iv = k # ks" by (cases "block iv") auto
  obtain out' where o: "cfb8_loop block junk True xs (tl iv @ [x XOR k]) = (out', iv')" "out = (x XOR k) # out'"
    using Cons.prems(2) by (auto simp: cfbr_8 [where block = block, OF Cons.prems(1) l] k split: prod.splits)
  from Cons.IH [OF _ o(1)] show ?case
    using Cons.prems(1) unfolding o(2) by (simp add: cfbr_8 [where block = block, OF Cons.prems(1) l] k xor.assoc)
qed simp

lemma cfb8_loop_append:
  "cfb8_loop block junk enc (xs @ ys) iv =
    (case cfb8_loop block junk enc xs iv of (out, iv) \<Rightarrow> then_bytes out (cfb8_loop block junk enc ys iv))"
  by (induction xs arbitrary: iv) (simp_all add: case_prod_beta then_bytes_def)

lemma cfb8_loop_length:
  assumes "block_sized block"
  shows "length iv = 16 \<Longrightarrow> length (snd (cfb8_loop block junk enc xs iv)) = 16"
proof (induction xs arbitrary: iv)
  case (Cons x xs)
  have l: "length (block iv) = 16" using assms Cons.prems by (simp add: block_sized_def)
  then obtain k ks where k: "block iv = k # ks" by (cases "block iv") auto
  show ?case using Cons.prems Cons.IH by (simp add: cfbr_8 [where block = block, OF Cons.prems l] k case_prod_beta)
qed simp

section \<open>Output feedback\<close>

text \<open>The register and the position of the byte-wise loop.\<close>

fun ofb_bytes :: "block_fn \<Rightarrow> byte list \<Rightarrow> u32 \<Rightarrow> byte list \<Rightarrow> byte list \<times> fb_state" where
  "ofb_bytes block iv n [] = ([], \<lparr>fb_ivec = iv, fb_num = n\<rparr>)"
| "ofb_bytes block iv n (x # xs) =
    (let iv = (if n = 0 then block iv else iv)
     in then_bytes [x XOR iv ! unat n] (ofb_bytes block iv ((n + 1) mod 16) xs))"

declare ofb_bytes.simps(2) [simp del]

lemma ofb_bytes_within:
  "0 < n \<Longrightarrow> n + length x \<le> 16 \<Longrightarrow> length k = 16 \<Longrightarrow>
    ofb_bytes block k (of_nat (n mod 16)) (x @ xs) =
    then_bytes (xor_bytes x (drop n k)) (ofb_bytes block k (of_nat ((n + length x) mod 16)) xs)"
proof (induction x arbitrary: n)
  case (Cons x1 x)
  have lt: "n < 16" using Cons.prems by simp
  have d: "drop n k = k ! n # drop (Suc n) k" using lt Cons.prems(3) by (simp add: Cons_nth_drop_Suc)
  have "ofb_bytes block k (of_nat n) (x1 # x @ xs) = then_bytes [x1 XOR k ! n] (ofb_bytes block k (of_nat (Suc n mod 16)) (x @ xs))"
    using num_pos [OF Cons.prems(1) lt] by (simp add: ofb_bytes.simps(2) num_step [OF lt] num_value [OF lt] del: of_nat_Suc)
  also have "\<dots> = then_bytes [x1 XOR k ! n] (then_bytes (xor_bytes x (drop (Suc n) k)) (ofb_bytes block k (of_nat ((Suc n + length x) mod 16)) xs))"
    using Cons.IH [of "Suc n"] Cons.prems by simp
  finally show ?case using lt by (simp add: d then_bytes_append)
qed simp

lemma ofb_bytes_chunk:
  assumes b: "block_sized block" and iv: "length iv = 16" and x: "x \<noteq> []" "length x \<le> 16"
  shows "ofb_bytes block iv 0 (x @ xs) = then_bytes (xor_bytes x (block iv)) (ofb_bytes block (block iv) (of_nat (length x mod 16)) xs)"
proof -
  obtain x1 x' where xx: "x = x1 # x'" using x(1) by (cases x) auto
  have lk: "length (block iv) = 16" using b iv by (simp add: block_sized_def)
  then obtain k0 k' where k: "block iv = k0 # k'" by (cases "block iv") auto
  have "ofb_bytes block iv 0 (x @ xs) = then_bytes [x1 XOR k0] (ofb_bytes block (block iv) (of_nat (1 mod 16)) (x' @ xs))"
    by (simp add: ofb_bytes.simps(2) xx k)
  also have "\<dots> = then_bytes [x1 XOR k0] (then_bytes (xor_bytes x' (drop 1 (block iv))) (ofb_bytes block (block iv) (of_nat ((1 + length x') mod 16)) xs))"
    using lk x(2) by (subst ofb_bytes_within) (simp_all add: xx)
  finally show ?thesis by (simp add: k xx then_bytes_append)
qed

lemma ofb_rest_bytes:
  "\<exists>out rest n'. use_rest iv n inp = (out, rest, n') \<and> (rest \<noteq> [] \<longrightarrow> n' = 0) \<and>
    ofb_bytes block iv n inp = then_bytes out (ofb_bytes block iv n' rest)"
proof (induction inp arbitrary: n)
  case (Cons x xs)
  show ?case
  proof (cases "n = 0")
    case False
    from Cons.IH [of "(n + 1) mod 16"] obtain out rest n' where
      "use_rest iv ((n + 1) mod 16) xs = (out, rest, n')" "rest \<noteq> [] \<longrightarrow> n' = 0"
      "ofb_bytes block iv ((n + 1) mod 16) xs = then_bytes out (ofb_bytes block iv n' rest)" by (elim exE conjE)
    then show ?thesis using False by (simp add: ofb_bytes.simps(2) then_bytes_append)
  qed simp
qed simp

lemma ofb_blocks_bytes:
  assumes "block_sized block"
  shows "length iv = 16 \<Longrightarrow> \<exists>out rest iv'. ofb_blocks block iv inp = (out, rest, iv') \<and> length iv' = 16 \<and> length rest < 16 \<and>
    ofb_bytes block iv 0 inp = then_bytes out (ofb_bytes block iv' 0 rest)"
proof (induction "length inp" arbitrary: inp iv rule: less_induct)
  case less
  show ?case
  proof (cases "length inp < 16")
    case True
    then show ?thesis using less.prems by (simp add: ofb_blocks.simps [of _ _ inp])
  next
    case False
    have l: "length (take 16 inp) = 16" using False by simp
    have iv1: "length (block iv) = 16" using assms less.prems by (simp add: block_sized_def)
    have le: "length (drop 16 inp) < length inp" using False by simp
    from less.hyps [OF le iv1] obtain out rest iv' where
      r: "ofb_blocks block (block iv) (drop 16 inp) = (out, rest, iv')" "length iv' = 16" "length rest < 16"
        "ofb_bytes block (block iv) 0 (drop 16 inp) = then_bytes out (ofb_bytes block iv' 0 rest)" by (elim exE conjE)
    have ne: "take 16 inp \<noteq> []" using l by (metis list.size(3) zero_neq_numeral)
    have "ofb_bytes block iv 0 inp = then_bytes (xor_bytes (take 16 inp) (block iv)) (ofb_bytes block (block iv) 0 (drop 16 inp))"
      using ofb_bytes_chunk [OF assms less.prems ne, of "drop 16 inp"] l by simp
    moreover have "ofb_blocks block iv inp = (xor_bytes (take 16 inp) (block iv) @ out, rest, iv')"
      using False r(1) by (simp add: ofb_blocks.simps [of _ _ inp])
    ultimately show ?thesis using r(2-4) by (simp add: then_bytes_append)
  qed
qed

lemma CRYPTO_ofb128_bytes:
  assumes b: "block_sized block" and iv: "length (fb_ivec s) = 16" and n16: "fb_num s < 16"
  shows "CRYPTO_ofb128_encrypt block inp s = (case ofb_bytes block (fb_ivec s) (fb_num s) inp of (out, s') \<Rightarrow> (Ok out, s'))"
proof -
  from ofb_rest_bytes [of "fb_ivec s" "fb_num s" inp block] obtain out rest n where
    r: "use_rest (fb_ivec s) (fb_num s) inp = (out, rest, n)" "rest \<noteq> [] \<longrightarrow> n = 0"
      "ofb_bytes block (fb_ivec s) (fb_num s) inp = then_bytes out (ofb_bytes block (fb_ivec s) n rest)" by (elim exE conjE)
  from ofb_blocks_bytes [OF b iv, of rest] obtain out' rest' iv' where
    k: "ofb_blocks block (fb_ivec s) rest = (out', rest', iv')" "length iv' = 16" "length rest' < 16"
      "ofb_bytes block (fb_ivec s) 0 rest = then_bytes out' (ofb_bytes block iv' 0 rest')" by (elim exE conjE)
  show ?thesis
  proof (cases "rest = []")
    case True
    then show ?thesis using r(1,3) by (simp add: n16 CRYPTO_ofb128_encrypt_def ofb_blocks.simps)
  next
    case False
    then have n: "n = 0" using r(2) by simp
    show ?thesis
    proof (cases "rest' = []")
      case True
      then show ?thesis using r(1,3) k n by (simp add: n16 CRYPTO_ofb128_encrypt_def then_bytes_append)
    next
      case ne: False
      have "ofb_bytes block iv' 0 rest' = (xor_bytes rest' (block iv'), \<lparr>fb_ivec = block iv', fb_num = of_nat (length rest')\<rparr>)"
        using ofb_bytes_chunk [OF b k(2) ne, of "[]"] k(3) by simp
      then show ?thesis using r(1,3) k(1,4) n ne by (simp add: n16 CRYPTO_ofb128_encrypt_def then_bytes_append Let_def)
    qed
  qed
qed

lemma ofb_bytes_append:
  "ofb_bytes block iv n (xs @ ys) =
    (case ofb_bytes block iv n xs of (out, s) \<Rightarrow> then_bytes out (ofb_bytes block (fb_ivec s) (fb_num s) ys))"
  by (induction xs arbitrary: iv n) (simp_all add: ofb_bytes.simps(2) Let_def case_prod_beta then_bytes_def)

lemma ofb_bytes_length:
  assumes "block_sized block"
  shows "length iv = 16 \<Longrightarrow> length (fb_ivec (snd (ofb_bytes block iv n xs))) = 16"
proof (induction xs arbitrary: iv n)
  case (Cons x xs)
  have "length (if n = 0 then block iv else iv) = 16" using assms Cons.prems by (simp add: block_sized_def)
  then show ?case unfolding ofb_bytes.simps(2) Let_def then_bytes_def snd_conv by (rule Cons.IH)
qed simp

lemma ofb_bytes_inverse: "ofb_bytes block iv n inp = (out, s) \<Longrightarrow> ofb_bytes block iv n out = (inp, s)"
proof (induction inp arbitrary: iv n out)
  case (Cons x xs)
  let ?iv = "if n = 0 then block iv else iv"
  obtain out' where o: "out = (x XOR ?iv ! unat n) # out'" "ofb_bytes block ?iv ((n + 1) mod 16) xs = (out', s)"
    using Cons.prems unfolding ofb_bytes.simps(2) Let_def by (auto simp: then_bytes_def prod_eq_iff)
  from Cons.IH [OF o(2)] show ?case unfolding o(1) ofb_bytes.simps(2) Let_def by (simp add: xor.assoc)
qed simp

section \<open>Calls of the feedback modes\<close>

text \<open>A call of one of the modes: whether it is one on buffers that are not aligned, and its input.\<close>

datatype feedback = Ofb128 | Cfb128 | Cfb8 "byte list"

definition feedback_call :: "block_fn \<Rightarrow> feedback \<Rightarrow> bool \<Rightarrow> bool \<Rightarrow> byte list \<Rightarrow> fb_state \<Rightarrow> byte list outcome \<times> fb_state" where
  "feedback_call block mode enc strict inp s =
    (case mode of
       Ofb128 \<Rightarrow> CRYPTO_ofb128_encrypt block inp s
     | Cfb128 \<Rightarrow> CRYPTO_cfb128_encrypt block strict enc inp s
     | Cfb8 junk \<Rightarrow> CRYPTO_cfb128_8_encrypt block junk enc inp s)"

fun feedback_calls :: "block_fn \<Rightarrow> feedback \<Rightarrow> bool \<Rightarrow> (bool \<times> byte list) list \<Rightarrow> fb_state \<Rightarrow> byte list outcome \<times> fb_state" where
  "feedback_calls block mode enc [] s = (Ok [], s)"
| "feedback_calls block mode enc ((strict, inp) # cs) s =
    seq (feedback_call block mode enc strict inp) (\<lambda>out. seq (feedback_calls block mode enc cs) (\<lambda>out'. ret (out @ out'))) s"

text \<open>The values of \<^verbatim>\<open>num\<close> a mode may be called with.\<close>

definition num_ok :: "feedback \<Rightarrow> u32 \<Rightarrow> bool"
  where "num_ok mode n \<longleftrightarrow> (case mode of Cfb8 _ \<Rightarrow> n = 0 | _ \<Rightarrow> n < 16)"

definition register_ok :: "feedback \<Rightarrow> fb_state \<Rightarrow> bool"
  where "register_ok mode s \<longleftrightarrow> length (fb_ivec s) = 16 \<and> num_ok mode (fb_num s)"

text \<open>The same, one byte after the other.\<close>

definition feedback_bytes :: "block_fn \<Rightarrow> feedback \<Rightarrow> bool \<Rightarrow> byte list \<Rightarrow> fb_state \<Rightarrow> byte list \<times> fb_state" where
  "feedback_bytes block mode enc inp s =
    (case mode of
       Ofb128 \<Rightarrow> ofb_bytes block (fb_ivec s) (fb_num s) inp
     | Cfb128 \<Rightarrow> cfb_bytes block enc (fb_ivec s) (fb_num s) inp
     | Cfb8 junk \<Rightarrow> (case cfb8_loop block junk enc inp (fb_ivec s) of (out, iv) \<Rightarrow> (out, s\<lparr>fb_ivec := iv\<rparr>)))"

lemma feedback_call_bytes:
  "block_sized block \<Longrightarrow> register_ok mode s \<Longrightarrow>
    feedback_call block mode enc strict inp s = (case feedback_bytes block mode enc inp s of (out, s') \<Rightarrow> (Ok out, s'))"
  by (cases mode)
    (simp_all add: feedback_call_def feedback_bytes_def register_ok_def num_ok_def CRYPTO_ofb128_bytes CRYPTO_cfb128_bytes
      CRYPTO_cfb128_8_encrypt_def case_prod_beta)

lemma feedback_bytes_append:
  "feedback_bytes block mode enc (xs @ ys) s =
    (case feedback_bytes block mode enc xs s of (out, s) \<Rightarrow> then_bytes out (feedback_bytes block mode enc ys s))"
  by (cases mode) (simp_all add: feedback_bytes_def ofb_bytes_append cfb_bytes_append cfb8_loop_append case_prod_beta then_bytes_def)

lemma num_mod_less: "n < 16 \<Longrightarrow> (n + 1) mod 16 < (16 :: u32)"
  by (simp add: word_less_nat_alt unat_mod)

lemma ofb_bytes_num: "n < 16 \<Longrightarrow> fb_num (snd (ofb_bytes block iv n xs)) < 16"
  by (induction xs arbitrary: iv n) (simp_all add: ofb_bytes.simps(2) Let_def then_bytes_def num_mod_less)

lemma cfb_bytes_num: "n < 16 \<Longrightarrow> fb_num (snd (cfb_bytes block enc iv n xs)) < 16"
  by (induction xs arbitrary: iv n) (simp_all add: cfb_bytes_Cons Let_def then_bytes_def num_mod_less)

lemma feedback_bytes_ok:
  "block_sized block \<Longrightarrow> register_ok mode s \<Longrightarrow> register_ok mode (snd (feedback_bytes block mode enc xs s))"
  by (cases mode)
    (simp_all add: feedback_bytes_def register_ok_def num_ok_def ofb_bytes_length cfb_bytes_length cfb8_loop_length
      ofb_bytes_num cfb_bytes_num case_prod_beta)

lemma ofb_bytes_size: "length (fst (ofb_bytes block iv n xs)) = length xs"
  by (induction xs arbitrary: iv n) (simp_all add: ofb_bytes.simps(2) Let_def then_bytes_def)

lemma cfb_bytes_size: "length (fst (cfb_bytes block enc iv n xs)) = length xs"
  by (induction xs arbitrary: iv n) (simp_all add: cfb_bytes_Cons Let_def then_bytes_def)

lemma cfb8_loop_size:
  assumes "block_sized block"
  shows "length iv = 16 \<Longrightarrow> length (fst (cfb8_loop block junk enc xs iv)) = length xs"
proof (induction xs arbitrary: iv)
  case (Cons x xs)
  have l: "length (block iv) = 16" using assms Cons.prems by (simp add: block_sized_def)
  then obtain k ks where k: "block iv = k # ks" by (cases "block iv") auto
  show ?case using Cons.prems Cons.IH by (simp add: cfbr_8 [where block = block, OF Cons.prems l] k case_prod_beta)
qed simp

lemma feedback_bytes_size:
  "block_sized block \<Longrightarrow> length (fb_ivec s) = 16 \<Longrightarrow> length (fst (feedback_bytes block mode enc xs s)) = length xs"
  by (cases mode) (simp_all add: feedback_bytes_def ofb_bytes_size cfb_bytes_size cfb8_loop_size case_prod_beta)

lemma feedback_bytes_Nil: "feedback_bytes block mode enc [] s = ([], s)"
  by (cases mode) (simp_all add: feedback_bytes_def)

lemma feedback_bytes_inverse:
  assumes "block_sized block" "length (fb_ivec s) = 16" "feedback_bytes block mode True inp s = (out, s')"
  shows "feedback_bytes block mode False out s = (inp, s')"
proof (cases mode)
  case Ofb128
  then have "ofb_bytes block (fb_ivec s) (fb_num s) inp = (out, s')" using assms(3) by (simp add: feedback_bytes_def)
  from ofb_bytes_inverse [OF this] Ofb128 show ?thesis by (simp add: feedback_bytes_def)
next
  case Cfb128
  then have "cfb_bytes block True (fb_ivec s) (fb_num s) inp = (out, s')" using assms(3) by (simp add: feedback_bytes_def)
  from cfb_bytes_inverse [OF this] Cfb128 show ?thesis by (simp add: feedback_bytes_def)
next
  case (Cfb8 junk)
  obtain iv where c: "cfb8_loop block junk True inp (fb_ivec s) = (out, iv)" "s' = s\<lparr>fb_ivec := iv\<rparr>"
    using assms(3) Cfb8 by (auto simp: feedback_bytes_def split: prod.splits)
  from cfb8_loop_inverse [OF assms(1,2) c(1)] c(2) Cfb8 show ?thesis by (simp add: feedback_bytes_def)
qed

lemma feedback_calls_bytes:
  assumes "block_sized block"
  shows "register_ok mode s \<Longrightarrow>
    feedback_calls block mode enc cs s = (case feedback_bytes block mode enc (concat (map snd cs)) s of (out, s') \<Rightarrow> (Ok out, s'))"
proof (induction cs arbitrary: s)
  case Nil
  then show ?case by (simp add: feedback_bytes_Nil)
next
  case (Cons c cs)
  obtain strict inp where c: "c = (strict, inp)" by (cases c)
  obtain out s' where r: "feedback_bytes block mode enc inp s = (out, s')" by (cases "feedback_bytes block mode enc inp s")
  have "register_ok mode s'" using feedback_bytes_ok [OF assms Cons.prems, of enc inp] r by simp
  from Cons.IH [OF this] show ?case
    unfolding c using r feedback_call_bytes [OF assms Cons.prems, of enc strict inp]
    by (simp add: feedback_bytes_append seq_def ret_def then_bytes_def case_prod_beta)
qed

end
