(* ===== verification/Boring_Stream_Properties.thy ===== *)
theory Boring_Stream_Properties
  imports Boring_Feedback_Laws
begin

text \<open>
  The properties of the stream modes: calls in any sequence and of any lengths, through either counter function, against
  the key stream; cipher feedback, whole blocks against single bytes and decryption against encryption; and AES as a
  block cipher for them.
\<close>

unbundle bit_operations_syntax

section \<open>Sequences of calls\<close>

datatype ctr_call = Call_ctr128 bool "byte list" | Call_ctr32 "byte list"

fun call_input :: "ctr_call \<Rightarrow> byte list" where
  "call_input (Call_ctr128 strict inp) = inp"
| "call_input (Call_ctr32 inp) = inp"

definition ctr_call_run :: "block_fn \<Rightarrow> ctr_fn \<Rightarrow> ctr_call \<Rightarrow> ctr_state \<Rightarrow> byte list outcome \<times> ctr_state" where
  "ctr_call_run block func c s =
    (case c of Call_ctr128 strict inp \<Rightarrow> CRYPTO_ctr128_encrypt block strict inp s
     | Call_ctr32 inp \<Rightarrow> CRYPTO_ctr128_encrypt_ctr32 func inp s)"

fun ctr_calls :: "block_fn \<Rightarrow> ctr_fn \<Rightarrow> ctr_call list \<Rightarrow> ctr_state \<Rightarrow> byte list outcome \<times> ctr_state" where
  "ctr_calls block func [] s = (Ok [], s)"
| "ctr_calls block func (c # cs) s =
    seq (ctr_call_run block func c) (\<lambda>out. seq (ctr_calls block func cs) (\<lambda>out'. ret (out @ out'))) s"

lemma ctr_calls_keyed:
  assumes b: "block_sized block" and f: "ctr_fn_for block func"
  shows "ctr_at block v k s \<Longrightarrow>
    \<exists>s'. ctr_calls block func cs s = (Ok (keyed block v k (concat (map call_input cs))), s')"
proof (induction cs arbitrary: k s)
  case (Cons c cs)
  have "\<exists>s'. ctr_call_run block func c s = (Ok (keyed block v k (call_input c)), s') \<and> ctr_at block v (k + length (call_input c)) s'"
    using CRYPTO_ctr128_keyed [OF b Cons.prems] CRYPTO_ctr32_keyed [OF b f Cons.prems]
    by (cases c) (simp_all add: ctr_call_run_def)
  then obtain s' where s': "ctr_call_run block func c s = (Ok (keyed block v k (call_input c)), s')"
    "ctr_at block v (k + length (call_input c)) s'" by (elim exE conjE)
  from Cons.IH [OF s'(2)] obtain s'' where
    "ctr_calls block func cs s' = (Ok (keyed block v (k + length (call_input c)) (concat (map call_input cs))), s'')" by (elim exE)
  then show ?case using s'(1) by (simp add: seq_def ret_def keyed_append)
qed simp

lemma ctr_at_start: "length iv = 16 \<Longrightarrow> ctr_at block (nat_of_bytes iv) 0 \<lparr>ct_ivec = iv, ct_ecount = ec, ct_num = 0\<rparr>"
  using fixed_bytes_nat_of_bytes [of iv] by (simp add: ctr_at_def)

section \<open>AES as a block cipher\<close>

text \<open>The key schedules of a key of any length; of the wrong length there is none, and the block stays as it is.\<close>

definition no_key :: aes_key
  where "no_key = \<lparr>rd_key = replicate 60 0, aes_rounds = 0\<rparr>"

definition enc_key :: "byte list \<Rightarrow> aes_key"
  where "enc_key key = snd (AES_set_encrypt_key (Some key) (of_nat (8 * length key)) no_key)"

definition dec_key :: "byte list \<Rightarrow> aes_key"
  where "dec_key key = snd (AES_set_decrypt_key (Some key) (of_nat (8 * length key)) no_key)"

definition key_length :: "byte list \<Rightarrow> bool"
  where "key_length key \<longleftrightarrow> length key \<in> {16, 24, 32}"

lemma AES_with_key:
  assumes "key_length key" "length p = 16"
  shows "\<exists>c. AES_encrypt (enc_key key) p = Ok c \<and> length c = 16 \<and> AES_decrypt (dec_key key) c = Ok p \<and> c = fips_cipher key p"
proof -
  have l: "length key = 16 \<or> length key = 24 \<or> length key = 32" using assms(1) by (simp add: key_length_def)
  have "of_nat (8 * length key) \<in> {128, 192, 256 :: u32}" using l by (elim disjE) simp_all
  moreover have "length key = unat (of_nat (8 * length key) :: u32) div 8" using l by (elim disjE) (simp_all add: unat_of_nat)
  moreover have "aes_key_ok no_key" by (simp add: aes_key_ok_def no_key_def)
  ultimately show ?thesis
    using encrypt_decrypt [of "of_nat (8 * length key)" key no_key p] assms(2) unfolding enc_key_def dec_key_def by auto
qed

lemma aes_enc_sized: "key_length key \<Longrightarrow> block_sized (aes_enc_fn (enc_key key))"
  unfolding block_sized_def aes_enc_fn_def using AES_with_key by fastforce

lemma aes_dec_enc: "key_length key \<Longrightarrow> length p = 16 \<Longrightarrow> aes_dec_fn (dec_key key) (aes_enc_fn (enc_key key) p) = p"
  unfolding aes_enc_fn_def aes_dec_fn_def using AES_with_key [of key p] by auto

lemma demo_key_length: "key_length demo_key"
  by (simp add: demo_key_def key_length_def)

text \<open>C37.  Counter mode: however a message is cut into calls, and whichever of the two functions each call uses, on
  aligned buffers or not, byte \<open>j\<close> of the output is byte \<open>j\<close> of the input with byte \<open>j mod 16\<close> of
  the block for the counter \<open>iv + j div 16\<close>, a number of 128 bits; the carry out of the 32 bits that a
  \<^verbatim>\<open>ctr128_f\<close> counts is not lost.\<close>

theorem ctr_is_the_key_stream:
  assumes "block_sized block" "ctr_fn_for block func" "length iv = 16"
  shows "\<exists>s. ctr_calls block func calls \<lparr>ct_ivec = iv, ct_ecount = ec, ct_num = 0\<rparr> =
    (Ok (keyed block (nat_of_bytes iv) 0 (concat (map call_input calls))), s)"
  by (rule ctr_calls_keyed [OF assms(1,2) ctr_at_start [OF assms(3)]])

definition demo_calls :: "ctr_call list"
  where "demo_calls = [Call_ctr128 True [1, 2, 3], Call_ctr32 (replicate 40 7), Call_ctr128 False (replicate 50 9)]"

lemma ctr_fn_for_of: "ctr_fn_for block (ctr_fn_of block)"
  by (simp add: ctr_fn_for_def)

lemma ctr_is_the_key_stream_witness:
  "\<exists>s. ctr_calls (aes_enc_fn (enc_key demo_key)) (ctr_fn_of (aes_enc_fn (enc_key demo_key))) demo_calls
      \<lparr>ct_ivec = replicate 12 0 @ replicate 4 0xff, ct_ecount = [], ct_num = 0\<rparr> =
    (Ok (keyed (aes_enc_fn (enc_key demo_key)) (nat_of_bytes (replicate 12 0 @ replicate 4 0xff)) 0 (concat (map call_input demo_calls))), s)"
  by (rule ctr_is_the_key_stream [OF aes_enc_sized [OF demo_key_length] ctr_fn_for_of]) simp

text \<open>C38.  The feedback modes: what was encrypted by calls of any lengths, on aligned buffers or not, is decrypted
  by calls cut in any other way; no call is undefined, and both sides end with the same register and position.  Output
  feedback and cipher feedback of 128 bits may start at any position in a block, cipher feedback of 8 bits with
  \<^verbatim>\<open>num\<close> zero, as it asserts.\<close>

theorem feedback_decrypts:
  assumes "block_sized block" "length (fb_ivec s) = 16" "num_ok mode (fb_num s)"
  shows "\<exists>out s'. feedback_calls block mode True calls s = (Ok out, s') \<and> length out = length (concat (map snd calls)) \<and>
    (\<forall>cuts. concat (map snd cuts) = out \<longrightarrow>
      feedback_calls block mode False cuts s = (Ok (concat (map snd calls)), s'))"
proof -
  have ok: "register_ok mode s" using assms(2,3) by (simp add: register_ok_def)
  obtain out s' where r: "feedback_bytes block mode True (concat (map snd calls)) s = (out, s')"
    by (cases "feedback_bytes block mode True (concat (map snd calls)) s")
  then show ?thesis
    using feedback_bytes_inverse [OF assms(1,2) r] feedback_bytes_size [OF assms(1,2), of mode True "concat (map snd calls)"]
    unfolding feedback_calls_bytes [OF assms(1) ok] by (intro exI [of _ out] exI [of _ s']) simp
qed

definition demo_register :: fb_state
  where "demo_register = \<lparr>fb_ivec = demo_block, fb_num = 5\<rparr>"

lemma feedback_decrypts_witness:
  "\<exists>out s'. feedback_calls (aes_enc_fn (enc_key demo_key)) Cfb128 True [(True, [1, 2, 3]), (False, replicate 40 7)] demo_register = (Ok out, s') \<and>
    feedback_calls (aes_enc_fn (enc_key demo_key)) Cfb128 False [(False, take 17 out), (True, drop 17 out)] demo_register =
      (Ok ([1, 2, 3] @ replicate 40 7), s')"
proof -
  have r: "length (fb_ivec demo_register) = 16" "num_ok Cfb128 (fb_num demo_register)"
    by (simp_all add: demo_register_def demo_block_def num_ok_def)
  from feedback_decrypts [OF aes_enc_sized [OF demo_key_length] r, of "[(True, [1, 2, 3]), (False, replicate 40 7)]"]
  obtain out s' where o: "feedback_calls (aes_enc_fn (enc_key demo_key)) Cfb128 True [(True, [1, 2, 3]), (False, replicate 40 7)] demo_register = (Ok out, s')"
    "\<forall>cuts. concat (map snd cuts) = out \<longrightarrow> feedback_calls (aes_enc_fn (enc_key demo_key)) Cfb128 False cuts demo_register =
      (Ok (concat (map snd [(True, [1, 2, 3]), (False, replicate 40 7)])), s')" by (elim exE conjE)
  from o(2) [rule_format, of "[(False, take 17 out), (True, drop 17 out)]"]
  have "feedback_calls (aes_enc_fn (enc_key demo_key)) Cfb128 False [(False, take 17 out), (True, drop 17 out)] demo_register =
      (Ok ([1, 2, 3] @ replicate 40 7), s')" by (simp del: feedback_calls.simps)
  with o(1) show ?thesis by blast
qed

end
