(* ===== verification/Boring_CBC.thy ===== *)
theory Boring_CBC
  imports Boring_Modes
begin

text \<open>
  Cipher block chaining, \<^verbatim>\<open>crypto/fipsmodule/modes/cbc.c\<close>.  The code works on buffers that may be the same
  or overlap, and chooses its loop by where they are, so the model is on a memory: addresses are numbers, since no object
  reaches over the end of the address space.  \<^verbatim>\<open>in\<close>, \<^verbatim>\<open>out\<close> and \<^verbatim>\<open>ivec\<close> are addresses, and
  so is the variable \<^verbatim>\<open>iv\<close>, which moves along with the blocks.  \<open>w\<close> is the width of one exclusive or: eight bytes, or one where the
  buffers are not aligned.  The function on blocks reads its sixteen bytes before it writes any.  With less than a block the code
  copies \<^verbatim>\<open>ivec\<close> onto itself with \<^verbatim>\<open>memcpy\<close>, which the C standard does not allow; here that
  changes nothing.
\<close>

unbundle bit_operations_syntax

section \<open>Memory\<close>

type_synonym memory = "nat \<Rightarrow> byte"

definition bytes_at :: "memory \<Rightarrow> nat \<Rightarrow> nat \<Rightarrow> byte list"
  where "bytes_at m a n = map (\<lambda>i. m (a + i)) [0..<n]"

definition poke_bytes :: "memory \<Rightarrow> nat \<Rightarrow> byte list \<Rightarrow> memory"
  where "poke_bytes m a bs = (\<lambda>x. if a \<le> x \<and> x < a + length bs then bs ! (x - a) else m x)"

definition unit_width :: "bool \<Rightarrow> nat"
  where "unit_width strict = (if strict then 1 else 8)"

section \<open>Encryption\<close>

text \<open>The loop \<^verbatim>\<open>out[n] = in[n] ^ iv[n]\<close> over \<open>k\<close> units of \<open>w\<close> bytes.\<close>

definition xor_unit :: "nat \<Rightarrow> nat \<Rightarrow> nat \<Rightarrow> nat \<Rightarrow> nat \<Rightarrow> memory \<Rightarrow> memory" where
  "xor_unit w inp iv out j m =
    poke_bytes m (out + w * j) (xor_bytes (bytes_at m (inp + w * j) w) (bytes_at m (iv + w * j) w))"

definition xor_loop :: "nat \<Rightarrow> nat \<Rightarrow> nat \<Rightarrow> nat \<Rightarrow> nat \<Rightarrow> memory \<Rightarrow> memory"
  where "xor_loop w k inp iv out m = fold (xor_unit w inp iv out) [0..<k] m"

definition block_at :: "block_fn \<Rightarrow> nat \<Rightarrow> nat \<Rightarrow> memory \<Rightarrow> memory"
  where "block_at block inp out m = poke_bytes m out (block (bytes_at m inp 16))"

text \<open>The loop over whole blocks; the memory, the two pointers, \<^verbatim>\<open>iv\<close> and the bytes left.\<close>

fun cbc_enc_blocks :: "block_fn \<Rightarrow> nat \<Rightarrow> nat \<Rightarrow> nat \<Rightarrow> nat \<Rightarrow> nat \<Rightarrow> memory \<Rightarrow> memory \<times> nat \<times> nat \<times> nat \<times> nat" where
  "cbc_enc_blocks block w inp out iv len m =
    (if len < 16 then (m, inp, out, iv, len)
     else cbc_enc_blocks block w (inp + 16) (out + 16) out (len - 16)
       (block_at block out out (xor_loop w (16 div w) inp iv out m)))"

declare cbc_enc_blocks.simps [simp del]

text \<open>\<^verbatim>\<open>for (; n < 16; ++n) to[n] = from[n]\<close>.\<close>

definition copy_byte :: "nat \<Rightarrow> nat \<Rightarrow> nat \<Rightarrow> memory \<Rightarrow> memory"
  where "copy_byte from to n m = m(to + n := m (from + n))"

definition copy_rest :: "nat \<Rightarrow> nat \<Rightarrow> nat \<Rightarrow> memory \<Rightarrow> memory"
  where "copy_rest from to n m = fold (copy_byte from to) [n..<16] m"

text \<open>The last loop starts with fewer than sixteen bytes, so its body is done at most once.\<close>

definition CRYPTO_cbc128_encrypt :: "block_fn \<Rightarrow> bool \<Rightarrow> nat \<Rightarrow> nat \<Rightarrow> nat \<Rightarrow> nat \<Rightarrow> memory \<Rightarrow> memory" where
  "CRYPTO_cbc128_encrypt block strict inp out len ivec m =
    (case cbc_enc_blocks block (unit_width strict) inp out ivec len m of
       (m, inp, out, iv, len) \<Rightarrow>
         (let (m, iv) =
            (if len = 0 then (m, iv)
             else (block_at block out out (copy_rest iv out len (xor_loop 1 len inp iv out m)), out))
          in poke_bytes m ivec (bytes_at m iv 16)))"

section \<open>Decryption\<close>

text \<open>Directly into \<^verbatim>\<open>out\<close>.\<close>

fun cbc_dec_direct :: "block_fn \<Rightarrow> nat \<Rightarrow> nat \<Rightarrow> nat \<Rightarrow> nat \<Rightarrow> nat \<Rightarrow> memory \<Rightarrow> memory \<times> nat \<times> nat \<times> nat \<times> nat" where
  "cbc_dec_direct block w inp out iv len m =
    (if len < 16 then (m, inp, out, iv, len)
     else cbc_dec_direct block w (inp + 16) (out + 16) inp (len - 16)
       (xor_loop w (16 div w) out iv out (block_at block inp out m)))"

declare cbc_dec_direct.simps [simp del]

text \<open>Through \<^verbatim>\<open>tmp\<close>, saving each unit of the cipher text in \<^verbatim>\<open>ivec\<close> before it may be overwritten.\<close>

definition tmp_unit :: "nat \<Rightarrow> byte list \<Rightarrow> nat \<Rightarrow> nat \<Rightarrow> nat \<Rightarrow> nat \<Rightarrow> memory \<Rightarrow> memory" where
  "tmp_unit w tmp inp out ivec j m =
    (let c = bytes_at m (inp + w * j) w;
         m = poke_bytes m (out + w * j) (xor_bytes (take w (drop (w * j) tmp)) (bytes_at m (ivec + w * j) w))
     in poke_bytes m (ivec + w * j) c)"

definition tmp_loop :: "nat \<Rightarrow> nat \<Rightarrow> byte list \<Rightarrow> nat \<Rightarrow> nat \<Rightarrow> nat \<Rightarrow> memory \<Rightarrow> memory"
  where "tmp_loop w k tmp inp out ivec m = fold (tmp_unit w tmp inp out ivec) [0..<k] m"

fun cbc_dec_tmp :: "block_fn \<Rightarrow> nat \<Rightarrow> nat \<Rightarrow> nat \<Rightarrow> nat \<Rightarrow> nat \<Rightarrow> memory \<Rightarrow> memory \<times> nat \<times> nat \<times> nat" where
  "cbc_dec_tmp block w inp out ivec len m =
    (if len < 16 then (m, inp, out, len)
     else cbc_dec_tmp block w (inp + 16) (out + 16) ivec (len - 16)
       (tmp_loop w (16 div w) (block (bytes_at m inp 16)) inp out ivec m))"

declare cbc_dec_tmp.simps [simp del]

definition cbc_dec_last :: "block_fn \<Rightarrow> nat \<Rightarrow> nat \<Rightarrow> nat \<Rightarrow> nat \<Rightarrow> memory \<Rightarrow> memory" where
  "cbc_dec_last block inp out ivec len m =
    (if len = 0 then m
     else copy_rest inp ivec len (tmp_loop 1 len (block (bytes_at m inp 16)) inp out ivec m))"

definition CRYPTO_cbc128_decrypt :: "block_fn \<Rightarrow> bool \<Rightarrow> nat \<Rightarrow> nat \<Rightarrow> nat \<Rightarrow> nat \<Rightarrow> memory \<Rightarrow> unit outcome \<times> memory" where
  "CRYPTO_cbc128_decrypt block strict inp out len ivec m =
    (if \<not> (out \<le> inp \<or> inp + len \<le> out) then (Undef, m)
     else if (32 \<le> inp \<and> out \<le> inp - 32) \<or> inp < out then
       (case cbc_dec_direct block (unit_width strict) inp out ivec len m of
          (m, inp, out, iv, len) \<Rightarrow> (Ok (), cbc_dec_last block inp out ivec len (poke_bytes m ivec (bytes_at m iv 16))))
     else
       (case cbc_dec_tmp block (unit_width strict) inp out ivec len m of
          (m, inp, out, len) \<Rightarrow> (Ok (), cbc_dec_last block inp out ivec len m)))"

definition AES_cbc_encrypt :: "aes_key \<Rightarrow> bool \<Rightarrow> nat \<Rightarrow> nat \<Rightarrow> nat \<Rightarrow> nat \<Rightarrow> bool \<Rightarrow> memory \<Rightarrow> unit outcome \<times> memory" where
  "AES_cbc_encrypt key strict inp out len ivec enc m =
    (if \<not> aes_key_fits key then (Undef, m)
     else if enc then (Ok (), CRYPTO_cbc128_encrypt (aes_enc_fn key) strict inp out len ivec m)
     else CRYPTO_cbc128_decrypt (aes_dec_fn key) strict inp out len ivec m)"

end
