(* ===== verification/Boring_CBC_Laws.thy ===== *)
theory Boring_CBC_Laws
  imports Boring_CBC Boring_Feedback_Laws
begin

text \<open>
  Cipher block chaining on memory against its definition on byte lists, for every allowed position of the two buffers.
\<close>

unbundle bit_operations_syntax

section \<open>Reading and writing\<close>

lemma length_bytes_at [simp]: "length (bytes_at m a n) = n"
  by (simp add: bytes_at_def)

lemma bytes_at_0 [simp]: "bytes_at m a 0 = []"
  by (simp add: bytes_at_def)

lemma bytes_at_nth: "i < n \<Longrightarrow> bytes_at m a n ! i = m (a + i)"
  by (simp add: bytes_at_def)

lemma bytes_at_add: "bytes_at m a (n + k) = bytes_at m a n @ bytes_at m (a + n) k"
  by (rule nth_equalityI) (auto simp: bytes_at_nth nth_append)

lemma take_bytes_at: "k \<le> n \<Longrightarrow> take k (bytes_at m a n) = bytes_at m a k"
  by (rule nth_equalityI) (simp_all add: bytes_at_nth)

lemma drop_bytes_at: "drop k (bytes_at m a n) = bytes_at m (a + k) (n - k)"
  by (rule nth_equalityI) (simp_all add: bytes_at_nth add.assoc)

lemma bytes_at_put_other: "b + length bs \<le> a \<or> a + n \<le> b \<Longrightarrow> bytes_at (poke_bytes m b bs) a n = bytes_at m a n"
  by (rule nth_equalityI) (auto simp: bytes_at_nth poke_bytes_def)

lemma bytes_at_put_same: "length bs = n \<Longrightarrow> bytes_at (poke_bytes m a bs) a n = bs"
  by (rule nth_equalityI) (auto simp: bytes_at_nth poke_bytes_def)

lemma poke_bytes_Nil [simp]: "poke_bytes m a [] = m"
  by (rule ext) (auto simp: poke_bytes_def)

lemma poke_bytes_append: "b = a + length xs \<Longrightarrow> poke_bytes (poke_bytes m a xs) b ys = poke_bytes m a (xs @ ys)"
  by (rule ext) (auto simp: poke_bytes_def nth_append)

lemma poke_bytes_comm:
  "a + length xs \<le> b \<or> b + length ys \<le> a \<Longrightarrow> poke_bytes (poke_bytes m a xs) b ys = poke_bytes (poke_bytes m b ys) a xs"
  by (rule ext) (auto simp: poke_bytes_def)

lemma poke_bytes_over: "length xs = length ys \<Longrightarrow> poke_bytes (poke_bytes m a xs) a ys = poke_bytes m a ys"
  by (rule ext) (auto simp: poke_bytes_def)

lemma poke_bytes_at [simp]: "poke_bytes m a (bytes_at m a n) = m"
  by (rule ext) (auto simp: poke_bytes_def bytes_at_nth)

section \<open>The loops within a block\<close>

lemma length_xor_bytes [simp]: "length (xor_bytes xs ys) = min (length xs) (length ys)"
  by (simp add: xor_bytes_def)

lemma take_drop_xor: "take w (drop n (xor_bytes xs ys)) = xor_bytes (take w (drop n xs)) (take w (drop n ys))"
  by (simp add: xor_bytes_def take_zip drop_zip take_map drop_map)

text \<open>The buffers may be the same, or the output earlier or outside of the input.\<close>

lemma xor_loop_put:
  assumes "out \<le> inp \<or> inp + w * k \<le> out" "iv + w * k \<le> out \<or> out + w * k \<le> iv"
  shows "xor_loop w k inp iv out m = poke_bytes m out (xor_bytes (bytes_at m inp (w * k)) (bytes_at m iv (w * k)))"
proof -
  have "fold (xor_unit w inp iv out) [0..<j] m = poke_bytes m out (xor_bytes (bytes_at m inp (w * j)) (bytes_at m iv (w * j)))" if "j \<le> k" for j
    using that
  proof (induction j)
    case (Suc j)
    let ?o = "xor_bytes (bytes_at m inp (w * j)) (bytes_at m iv (w * j))"
    have wj: "w * j + w \<le> w * k" using Suc.prems mult_le_mono2 [of "Suc j" k w] by simp
    have a: "bytes_at (poke_bytes m out ?o) (inp + w * j) w = bytes_at m (inp + w * j) w"
      using assms(1) wj by (intro bytes_at_put_other) auto
    have b: "bytes_at (poke_bytes m out ?o) (iv + w * j) w = bytes_at m (iv + w * j) w"
      using assms(2) wj by (intro bytes_at_put_other) auto
    have x: "xor_bytes (bytes_at m inp (w * j)) (bytes_at m iv (w * j)) @ xor_bytes (bytes_at m (inp + w * j) w) (bytes_at m (iv + w * j) w) =
        xor_bytes (bytes_at m inp (w * Suc j)) (bytes_at m iv (w * Suc j))"
      using bytes_at_add [of m inp "w * j" w] bytes_at_add [of m iv "w * j" w] by (simp add: xor_bytes_def add.commute)
    have "fold (xor_unit w inp iv out) [0..<Suc j] m = xor_unit w inp iv out j (poke_bytes m out ?o)" using Suc by simp
    also have "\<dots> = poke_bytes m out (xor_bytes (bytes_at m inp (w * Suc j)) (bytes_at m iv (w * Suc j)))"
      unfolding xor_unit_def a b x [symmetric] by (rule poke_bytes_append) simp
    finally show ?case .
  qed (simp add: xor_bytes_def)
  then show ?thesis by (simp add: xor_loop_def)
qed

lemma tmp_loop_put:
  assumes "out \<le> inp \<or> inp + w * k \<le> out" "ivec + w * k \<le> out \<or> out + w * k \<le> ivec" "ivec + w * k \<le> inp \<or> inp + w * k \<le> ivec"
    and "w * k \<le> length tmp"
  shows "tmp_loop w k tmp inp out ivec m =
    poke_bytes (poke_bytes m out (xor_bytes (take (w * k) tmp) (bytes_at m ivec (w * k)))) ivec (bytes_at m inp (w * k))"
proof -
  have "fold (tmp_unit w tmp inp out ivec) [0..<j] m =
      poke_bytes (poke_bytes m out (xor_bytes (take (w * j) tmp) (bytes_at m ivec (w * j)))) ivec (bytes_at m inp (w * j))" if "j \<le> k" for j
    using that
  proof (induction j)
    case (Suc j)
    let ?o = "xor_bytes (take (w * j) tmp) (bytes_at m ivec (w * j))" and ?c = "bytes_at m inp (w * j)"
    let ?m = "poke_bytes (poke_bytes m out ?o) ivec ?c"
    let ?o1 = "xor_bytes (take w (drop (w * j) tmp)) (bytes_at m (ivec + w * j) w)" and ?c1 = "bytes_at m (inp + w * j) w"
    have wj: "w * j + w \<le> w * k" using Suc.prems mult_le_mono2 [of "Suc j" k w] by simp
    have lo: "length ?o = w * j" using assms(4) wj by simp
    have lo1: "length ?o1 = w" using assms(4) wj by simp
    have a: "bytes_at ?m (inp + w * j) w = ?c1"
      using assms(1,3) wj lo by (subst bytes_at_put_other, force, subst bytes_at_put_other) auto
    have b: "bytes_at ?m (ivec + w * j) w = bytes_at m (ivec + w * j) w"
      using assms(2) wj lo by (subst bytes_at_put_other, force, subst bytes_at_put_other) auto
    have x: "?o @ ?o1 = xor_bytes (take (w * Suc j) tmp) (bytes_at m ivec (w * Suc j))"
      using bytes_at_add [of m ivec "w * j" w] take_add [of "w * j" w tmp] assms(4) wj
      by (simp add: xor_bytes_def add.commute)
    have c: "?c @ ?c1 = bytes_at m inp (w * Suc j)" using bytes_at_add [of m inp "w * j" w] by (simp add: add.commute)
    have "fold (tmp_unit w tmp inp out ivec) [0..<Suc j] m = tmp_unit w tmp inp out ivec j ?m" using Suc by simp
    also have "\<dots> = poke_bytes (poke_bytes ?m (out + w * j) ?o1) (ivec + w * j) ?c1"
      unfolding tmp_unit_def Let_def a b ..
    also have "poke_bytes ?m (out + w * j) ?o1 = poke_bytes (poke_bytes (poke_bytes m out ?o) (out + w * j) ?o1) ivec ?c"
      using assms(2) wj lo1 by (intro poke_bytes_comm) auto
    also have "\<dots> = poke_bytes (poke_bytes m out (?o @ ?o1)) ivec ?c"
      using lo by (subst poke_bytes_append) simp_all
    also have "poke_bytes \<dots> (ivec + w * j) ?c1 = poke_bytes (poke_bytes m out (?o @ ?o1)) ivec (?c @ ?c1)"
      by (rule poke_bytes_append) simp
    finally show ?case unfolding x c .
  qed (simp add: xor_bytes_def)
  then show ?thesis by (simp add: tmp_loop_def)
qed

lemma copy_rest_put:
  assumes "n \<le> 16" "from + 16 \<le> to \<or> to + 16 \<le> from"
  shows "copy_rest from to n m = poke_bytes m (to + n) (bytes_at m (from + n) (16 - n))"
proof -
  have "fold (copy_byte from to) [n..<n + j] m = poke_bytes m (to + n) (bytes_at m (from + n) j)" if "n + j \<le> 16" for j
    using that
  proof (induction j)
    case (Suc j)
    let ?m = "poke_bytes m (to + n) (bytes_at m (from + n) j)"
    have "?m (from + (n + j)) = m (from + n + j)" using assms(2) Suc.prems by (auto simp: poke_bytes_def add.assoc)
    moreover have "?m(to + (n + j) := x) = poke_bytes ?m (to + n + j) [x]" for x
      by (rule ext) (auto simp: poke_bytes_def)
    ultimately have "copy_byte from to (n + j) ?m = poke_bytes ?m (to + n + j) [m (from + n + j)]" by (simp only: copy_byte_def)
    also have "\<dots> = poke_bytes m (to + n) (bytes_at m (from + n) j @ [m (from + n + j)])" by (rule poke_bytes_append) simp
    also have "\<dots> = poke_bytes m (to + n) (bytes_at m (from + n) (Suc j))" by (simp add: bytes_at_def)
    finally show ?case using Suc by simp
  qed simp
  from this [of "16 - n"] show ?thesis using assms(1) by (simp add: copy_rest_def)
qed

section \<open>The mode on byte lists\<close>

text \<open>The last block is filled up with zeros.\<close>

definition pad_block :: "byte list \<Rightarrow> byte list"
  where "pad_block x = take 16 x @ replicate (16 - length x) 0"

function cbc_enc :: "block_fn \<Rightarrow> byte list \<Rightarrow> byte list \<Rightarrow> byte list" where
  "cbc_enc block iv x =
    (if x = [] then [] else let c = block (xor_bytes (pad_block x) iv) in c @ cbc_enc block c (drop 16 x))"
  by pat_completeness auto
termination by (relation "measure (\<lambda>(block, iv, x). length x)") auto

declare cbc_enc.simps [simp del]

function cbc_dec :: "block_fn \<Rightarrow> byte list \<Rightarrow> byte list \<Rightarrow> byte list" where
  "cbc_dec unblock iv c =
    (if c = [] then [] else xor_bytes (unblock (take 16 c)) iv @ cbc_dec unblock (take 16 c) (drop 16 c))"
  by pat_completeness auto
termination by (relation "measure (\<lambda>(unblock, iv, c). length c)") auto

declare cbc_dec.simps [simp del]

definition last_block :: "byte list \<Rightarrow> byte list \<Rightarrow> byte list"
  where "last_block iv c = (if c = [] then iv else drop (length c - 16) c)"

definition full_length :: "nat \<Rightarrow> nat"
  where "full_length n = 16 * ((n + 15) div 16)"

lemma cbc_enc_Nil [simp]: "cbc_enc block iv [] = []"
  by (simp add: cbc_enc.simps)

lemma cbc_dec_Nil [simp]: "cbc_dec unblock iv [] = []"
  by (simp add: cbc_dec.simps)

lemma pad_block_full: "16 \<le> length x \<Longrightarrow> pad_block x = take 16 x"
  by (simp add: pad_block_def)

lemma length_pad_block [simp]: "length (pad_block x) = 16"
  by (simp add: pad_block_def)

lemma cbc_enc_block:
  "16 \<le> length x \<Longrightarrow>
    cbc_enc block iv x = block (xor_bytes (take 16 x) iv) @ cbc_enc block (block (xor_bytes (take 16 x) iv)) (drop 16 x)"
  by (subst cbc_enc.simps) (auto simp: Let_def pad_block_full)

lemma cbc_enc_short:
  "0 < length x \<Longrightarrow> length x \<le> 16 \<Longrightarrow> cbc_enc block iv x = block (xor_bytes (pad_block x) iv)"
  by (subst cbc_enc.simps) (auto simp: Let_def)

lemma cbc_dec_block:
  "length b = 16 \<Longrightarrow> cbc_dec unblock iv (b @ c) = xor_bytes (unblock b) iv @ cbc_dec unblock b c"
  by (subst cbc_dec.simps) (cases b; simp)

lemma full_length_Suc: "full_length (16 + n) = 16 + full_length n"
proof -
  have "16 + n + 15 = n + 15 + 16 * 1" by simp
  then show ?thesis unfolding full_length_def using pos_add(2) [of "n + 15" 1] by simp
qed

lemma full_length_16: "full_length (16 * q) = 16 * q"
  by (simp add: full_length_def)

lemma full_length_short: "0 < n \<Longrightarrow> n \<le> 16 \<Longrightarrow> full_length n = 16"
proof -
  assume "0 < n" "n \<le> 16"
  then have "n + 15 = 16 + (n - 1)" "n - 1 < 16" by simp_all
  then have "(n + 15) div 16 = 1" by simp
  then show ?thesis by (simp add: full_length_def)
qed

lemma full_length_ge: "n \<le> full_length n"
  using mult_div_mod_eq [of 16 "n + 15"] mod_less_divisor [of 16 "n + 15"] unfolding full_length_def by linarith

lemma length_cbc_enc:
  assumes "block_sized block"
  shows "length iv = 16 \<Longrightarrow> length (cbc_enc block iv x) = full_length (length x)"
proof (induction "length x" arbitrary: x iv rule: less_induct)
  case less
  show ?case
  proof (cases "x = []")
    case False
    let ?c = "block (xor_bytes (pad_block x) iv)"
    have c: "length ?c = 16" using assms less.prems by (simp add: block_sized_def)
    have "length (cbc_enc block ?c (drop 16 x)) = full_length (length x - 16)"
      using less.hyps [OF _ c, of "drop 16 x"] False by simp
    then have l: "length (cbc_enc block iv x) = 16 + full_length (length x - 16)"
      using False c by (subst cbc_enc.simps) (simp add: Let_def)
    show ?thesis
    proof (cases "length x \<le> 16")
      case True
      then show ?thesis using l full_length_short [of "length x"] False by (simp add: full_length_def)
    next
      case False
      then show ?thesis using l full_length_Suc [of "length x - 16"] by simp
    qed
  qed (simp add: full_length_def)
qed

lemma xor_bytes_again: "length xs = length ys \<Longrightarrow> xor_bytes (xor_bytes xs ys) ys = xs"
  by (rule nth_equalityI) (simp_all add: xor_bytes_def xor.assoc)

text \<open>Decryption gives the message back, filled up with zeros.\<close>

lemma cbc_dec_enc:
  assumes "block_sized block" and inv: "\<And>p. length p = 16 \<Longrightarrow> unblock (block p) = p"
  shows "length iv = 16 \<Longrightarrow> take (length x) (cbc_dec unblock iv (cbc_enc block iv x)) = x"
proof (induction "length x" arbitrary: x iv rule: less_induct)
  case less
  show ?case
  proof (cases "x = []")
    case False
    let ?p = "xor_bytes (pad_block x) iv"
    have p: "length ?p = 16" using less.prems by simp
    have c: "length (block ?p) = 16" using assms(1) p by (simp add: block_sized_def)
    have "cbc_dec unblock iv (cbc_enc block iv x) = pad_block x @ cbc_dec unblock (block ?p) (cbc_enc block (block ?p) (drop 16 x))"
      using False less.prems by (subst cbc_enc.simps) (simp add: Let_def cbc_dec_block [OF c] inv [OF p] xor_bytes_again)
    moreover have "take (length x - 16) (cbc_dec unblock (block ?p) (cbc_enc block (block ?p) (drop 16 x))) = drop 16 x"
      using less.hyps [OF _ c, of "drop 16 x"] False by simp
    moreover have "take (length x) (pad_block x) = take 16 x" by (simp add: pad_block_def min_def)
    ultimately show ?thesis by simp
  qed simp
qed

section \<open>Encryption\<close>

lemma width_16: "unit_width strict * (16 div unit_width strict) = 16"
  by (simp add: unit_width_def)

text \<open>The output is at the input or before it, or not in it.\<close>

definition follows :: "nat \<Rightarrow> nat \<Rightarrow> nat \<Rightarrow> bool"
  where "follows inp out n \<longleftrightarrow> out \<le> inp \<or> inp + n \<le> out"

definition apart :: "nat \<Rightarrow> nat \<Rightarrow> nat \<Rightarrow> nat \<Rightarrow> bool"
  where "apart a n b k \<longleftrightarrow> a + n \<le> b \<or> b + k \<le> a"

lemma bytes_at_put_apart: "apart a n b (length bs) \<Longrightarrow> bytes_at (poke_bytes m b bs) a n = bytes_at m a n"
  unfolding apart_def by (intro bytes_at_put_other) auto

lemma cbc_enc_blocks_put:
  assumes b: "block_sized block" and w: "w * (16 div w) = 16"
  shows "follows inp out (full_length len) \<Longrightarrow> apart iv 16 out 16 \<Longrightarrow>
    \<exists>iv'. cbc_enc_blocks block w inp out iv len m =
      (poke_bytes m out (cbc_enc block (bytes_at m iv 16) (bytes_at m inp (16 * (len div 16)))),
       inp + 16 * (len div 16), out + 16 * (len div 16), iv', len mod 16) \<and>
      (if len < 16 then iv' = iv else iv' = out + 16 * (len div 16) - 16)"
proof (induction len arbitrary: inp out iv m rule: less_induct)
  case (less len)
  show ?case
  proof (cases "len < 16")
    case True
    then show ?thesis by (simp add: cbc_enc_blocks.simps [of _ _ _ _ _ len])
  next
    case False
    define n where "n = len - 16"
    have len: "len = 16 + n" using False by (simp add: n_def)
    have d: "len div 16 = Suc (n div 16)" "len mod 16 = n mod 16" unfolding len by simp_all
    let ?iv = "bytes_at m iv 16" and ?x = "bytes_at m inp 16"
    let ?c = "block (xor_bytes ?x ?iv)"
    let ?m = "poke_bytes m out ?c"
    have c: "length ?c = 16" using b by (simp add: block_sized_def)
    have f: "follows inp out (16 + full_length n)" using less.prems(1) unfolding len full_length_Suc .
    have m1: "block_at block out out (xor_loop w (16 div w) inp iv out m) = ?m"
    proof -
      have "xor_loop w (16 div w) inp iv out m = poke_bytes m out (xor_bytes ?x ?iv)"
        using f less.prems(2) by (subst xor_loop_put) (auto simp: w follows_def apart_def)
      then show ?thesis using c by (simp add: block_at_def bytes_at_put_same poke_bytes_over)
    qed
    have f': "follows (inp + 16) (out + 16) (full_length n)" using f by (auto simp: follows_def)
    have i': "apart out 16 (out + 16) 16" by (simp add: apart_def)
    have lt: "n < len" by (simp add: len)
    from less.IH [OF lt f' i', of ?m] obtain iv' where r:
      "cbc_enc_blocks block w (inp + 16) (out + 16) out n ?m =
        (poke_bytes ?m (out + 16) (cbc_enc block (bytes_at ?m out 16) (bytes_at ?m (inp + 16) (16 * (n div 16)))),
         inp + 16 + 16 * (n div 16), out + 16 + 16 * (n div 16), iv', n mod 16)"
      "if n < 16 then iv' = out else iv' = out + 16 + 16 * (n div 16) - 16" by (elim exE conjE)
    have a: "bytes_at ?m out 16 = ?c" by (rule bytes_at_put_same [OF c])
    have x: "bytes_at ?m (inp + 16) (16 * (n div 16)) = bytes_at m (inp + 16) (16 * (n div 16))"
      using f full_length_ge [of n] c times_div_less_eq_dividend [of 16 n] by (intro bytes_at_put_other) (auto simp: follows_def)
    have o: "poke_bytes ?m (out + 16) (cbc_enc block ?c (bytes_at m (inp + 16) (16 * (n div 16)))) =
        poke_bytes m out (cbc_enc block ?iv (bytes_at m inp (16 * Suc (n div 16))))"
      using c bytes_at_add [of m inp 16 "16 * (n div 16)"]
      by (subst poke_bytes_append) (simp_all add: cbc_enc_block take_bytes_at drop_bytes_at)
    have e: "cbc_enc_blocks block w inp out iv len m = cbc_enc_blocks block w (inp + 16) (out + 16) out n ?m"
      using False by (simp add: cbc_enc_blocks.simps [of _ _ _ _ _ len] m1 n_def)
    have i: "iv' = out + 16 * Suc (n div 16) - 16" using r(2) by (simp split: if_splits)
    show ?thesis unfolding e r(1) a x o d using False i by simp
  qed
qed

lemma poke_bytes_eqI: "(\<And>i. i < length bs \<Longrightarrow> m' (a + i) = bs ! i) \<Longrightarrow> (\<And>x. x < a \<or> a + length bs \<le> x \<Longrightarrow> m' x = m x) \<Longrightarrow> m' = poke_bytes m a bs"
proof (rule ext)
  fix x
  assume a: "\<And>i. i < length bs \<Longrightarrow> m' (a + i) = bs ! i" "\<And>x. x < a \<or> a + length bs \<le> x \<Longrightarrow> m' x = m x"
  show "m' x = poke_bytes m a bs x"
    using a(1) [of "x - a"] a(2) [of x] by (cases "a \<le> x \<and> x < a + length bs") (auto simp: poke_bytes_def)
qed

lemma pad_xor:
  assumes "n \<le> 16"
  shows "xor_bytes (bytes_at m inp n) (bytes_at m iv n) @ bytes_at m (iv + n) (16 - n) =
    xor_bytes (pad_block (bytes_at m inp n)) (bytes_at m iv 16)"
  using assms by (intro nth_equalityI) (auto simp: xor_bytes_def pad_block_def nth_append bytes_at_nth)

text \<open>The last bytes.\<close>

lemma cbc_enc_last:
  assumes b: "block_sized block" and n: "0 < n" "n < 16" and a: "follows inp out 16" "apart iv 16 out 16"
  shows "block_at block out out (copy_rest iv out n (xor_loop 1 n inp iv out m)) =
    poke_bytes m out (cbc_enc block (bytes_at m iv 16) (bytes_at m inp n))"
proof -
  let ?o = "xor_bytes (bytes_at m inp n) (bytes_at m iv n)"
  let ?p = "xor_bytes (pad_block (bytes_at m inp n)) (bytes_at m iv 16)"
  have x: "xor_loop 1 n inp iv out m = poke_bytes m out ?o"
    using a n xor_loop_put [of out inp 1 n iv m] by (auto simp: follows_def apart_def)
  have "copy_rest iv out n (poke_bytes m out ?o) = poke_bytes (poke_bytes m out ?o) (out + n) (bytes_at (poke_bytes m out ?o) (iv + n) (16 - n))"
    using a(2) n by (intro copy_rest_put) (auto simp: apart_def)
  also have "bytes_at (poke_bytes m out ?o) (iv + n) (16 - n) = bytes_at m (iv + n) (16 - n)"
    using a(2) n by (intro bytes_at_put_other) (auto simp: apart_def)
  also have "poke_bytes (poke_bytes m out ?o) (out + n) \<dots> = poke_bytes m out ?p"
    unfolding pad_xor [OF less_imp_le [OF n(2)], symmetric] by (rule poke_bytes_append) simp
  finally have "copy_rest iv out n (xor_loop 1 n inp iv out m) = poke_bytes m out ?p" unfolding x .
  moreover have "cbc_enc block (bytes_at m iv 16) (bytes_at m inp n) = block ?p" using n by (intro cbc_enc_short) simp_all
  moreover have "length (block ?p) = 16" using b by (simp add: block_sized_def)
  ultimately show ?thesis by (simp add: block_at_def bytes_at_put_same poke_bytes_over)
qed

lemma last_block_append: "length b = 16 \<Longrightarrow> c = [] \<or> 16 \<le> length c \<Longrightarrow> last_block iv (b @ c) = last_block b c"
  by (auto simp: last_block_def)

lemma last_block_Nil [simp]: "last_block iv [] = iv"
  by (simp add: last_block_def)

lemma cbc_enc_append:
  assumes b: "block_sized block"
  shows "length iv = 16 \<Longrightarrow> length x = 16 * q \<Longrightarrow>
    cbc_enc block iv (x @ y) = cbc_enc block iv x @ cbc_enc block (last_block iv (cbc_enc block iv x)) y"
proof (induction q arbitrary: x iv)
  case (Suc q)
  let ?c = "block (xor_bytes (take 16 x) iv)"
  have c: "length ?c = 16" using b Suc.prems by (simp add: block_sized_def)
  have x: "cbc_enc block iv x = ?c @ cbc_enc block ?c (drop 16 x)" using Suc.prems by (intro cbc_enc_block) simp
  have "cbc_enc block iv (x @ y) = ?c @ cbc_enc block ?c (drop 16 x @ y)"
    using Suc.prems cbc_enc_block [of "x @ y" block iv] by simp
  also have "cbc_enc block ?c (drop 16 x @ y) = cbc_enc block ?c (drop 16 x) @ cbc_enc block (last_block ?c (cbc_enc block ?c (drop 16 x))) y"
    using Suc.prems c by (intro Suc.IH) simp_all
  finally show ?case unfolding x
    using last_block_append [OF c, of "cbc_enc block ?c (drop 16 x)" iv] length_cbc_enc [OF b c, of "drop 16 x"] Suc.prems
    by (cases q) (simp_all add: full_length_Suc full_length_16)
qed simp

lemma length_last_block: "length iv = 16 \<Longrightarrow> c = [] \<or> 16 \<le> length c \<Longrightarrow> length (last_block iv c) = 16"
  by (auto simp: last_block_def)

lemma full_length_split: "full_length n = 16 * (n div 16) + (if n mod 16 = 0 then 0 else 16)"
proof -
  have "full_length n = 16 * (n div 16 + (if n mod 16 = 0 then 0 else 1))" unfolding full_length_def fixed_round ..
  then show ?thesis by simp
qed

lemma CRYPTO_cbc128_encrypt_put:
  assumes b: "block_sized block" and f: "follows inp out (full_length len)" and a: "apart ivec 16 out (full_length len)"
    and c_def: "c = cbc_enc block (bytes_at m ivec 16) (bytes_at m inp len)"
  shows "CRYPTO_cbc128_encrypt block strict inp out len ivec m = poke_bytes (poke_bytes m out c) ivec (last_block (bytes_at m ivec 16) c)"
proof -
  define q n where "q = len div 16" and "n = len mod 16"
  have len: "len = 16 * q + n" "n < 16" unfolding q_def n_def by simp_all
  have fl: "full_length len = 16 * q + (if n = 0 then 0 else 16)" unfolding q_def n_def by (rule full_length_split)
  let ?iv = "bytes_at m ivec 16" and ?c = "cbc_enc block (bytes_at m ivec 16) (bytes_at m inp (16 * q))"
  let ?m = "poke_bytes m out ?c"
  have lc: "length ?c = 16 * q" using length_cbc_enc [OF b, of ?iv "bytes_at m inp (16 * q)"] by (simp add: full_length_16)
  have "\<exists>iv. cbc_enc_blocks block (unit_width strict) inp out ivec len m = (?m, inp + 16 * q, out + 16 * q, iv, n) \<and>
      bytes_at ?m iv 16 = last_block ?iv ?c \<and> (n \<noteq> 0 \<longrightarrow> apart iv 16 (out + 16 * q) 16)"
  proof (cases "full_length len = 0")
    case True
    then have "len = 0" using full_length_ge [of len] by simp
    then show ?thesis by (simp add: cbc_enc_blocks.simps q_def n_def)
  next
    case False
    then have "16 \<le> full_length len" unfolding fl by (auto split: if_splits)
    then have ap: "apart ivec 16 out 16" using a by (auto simp: apart_def)
    from cbc_enc_blocks_put [OF b width_16 f ap, of strict m] obtain iv where
      iv: "cbc_enc_blocks block (unit_width strict) inp out ivec len m = (?m, inp + 16 * q, out + 16 * q, iv, n)"
      "if len < 16 then iv = ivec else iv = out + 16 * q - 16"
      unfolding q_def n_def by (elim exE conjE)
    show ?thesis
    proof (cases "len < 16")
      case True
      then have "q = 0" by (simp add: q_def)
      then show ?thesis using iv True ap by simp
    next
      case False
      then obtain q' where q': "q = Suc q'" using len by (cases q) auto
      have i: "iv = out + 16 * q'" using iv(2) False q' by simp
      have "bytes_at ?m iv 16 = drop (16 * q') ?c"
        using bytes_at_put_same [OF lc, of m out] drop_bytes_at [of "16 * q'" ?m out "16 * q"] unfolding i q' by simp
      also have "\<dots> = last_block ?iv ?c" using lc q' by (auto simp: last_block_def)
      finally show ?thesis using iv(1) by (auto simp: apart_def i q')
    qed
  qed
  then obtain iv where r: "cbc_enc_blocks block (unit_width strict) inp out ivec len m = (?m, inp + 16 * q, out + 16 * q, iv, n)"
    and iv: "bytes_at ?m iv 16 = last_block ?iv ?c" and ap: "n \<noteq> 0 \<longrightarrow> apart iv 16 (out + 16 * q) 16" by (elim exE conjE)
  show ?thesis
  proof (cases "n = 0")
    case True
    then have "c = ?c" unfolding c_def len(1) by simp
    then show ?thesis using r iv True by (simp add: CRYPTO_cbc128_encrypt_def)
  next
    case False
    let ?y = "bytes_at m (inp + 16 * q) n"
    let ?d = "cbc_enc block (last_block ?iv ?c) ?y"
    have c: "c = ?c @ ?d"
      unfolding c_def len(1) bytes_at_add by (rule cbc_enc_append [OF b]) simp_all
    have f': "follows (inp + 16 * q) (out + 16 * q) 16" using f False unfolding fl by (auto simp: follows_def)
    have y: "bytes_at ?m (inp + 16 * q) n = ?y"
      using f False lc len(2) unfolding fl by (intro bytes_at_put_other) (auto simp: follows_def)
    have ld: "length ?d = 16"
      using length_cbc_enc [OF b, of "last_block ?iv ?c" ?y] length_last_block [of ?iv ?c] lc False len(2)
      by (cases q) (simp_all add: full_length_short)
    have "block_at block (out + 16 * q) (out + 16 * q) (copy_rest iv (out + 16 * q) n (xor_loop 1 n (inp + 16 * q) iv (out + 16 * q) ?m)) =
        poke_bytes ?m (out + 16 * q) ?d"
      using cbc_enc_last [OF b _ len(2) f', of iv ?m] False ap unfolding y iv by simp
    also have "\<dots> = poke_bytes m out c" unfolding c using lc by (intro poke_bytes_append) simp
    finally have m: "block_at block (out + 16 * q) (out + 16 * q) (copy_rest iv (out + 16 * q) n (xor_loop 1 n (inp + 16 * q) iv (out + 16 * q) ?m)) =
        poke_bytes m out c" .
    have "bytes_at (poke_bytes m out c) (out + 16 * q) 16 = drop (16 * q) c"
    proof -
      have "length c = 16 * q + 16" using c lc ld by simp
      from bytes_at_put_same [OF this, of m out] drop_bytes_at [of "16 * q" "poke_bytes m out c" out "16 * q + 16"]
      show ?thesis by simp
    qed
    also have "\<dots> = last_block ?iv c" using c lc ld by (auto simp: last_block_def)
    finally have l: "bytes_at (poke_bytes m out c) (out + 16 * q) 16 = last_block ?iv c" .
    show ?thesis using r m l False by (simp add: CRYPTO_cbc128_encrypt_def)
  qed
qed

section \<open>Decryption\<close>

lemma bytes_at_block: "16 + k = n \<Longrightarrow> bytes_at m a n = bytes_at m a 16 @ bytes_at m (a + 16) k"
  using bytes_at_add [of m a 16 k] by simp

lemma last_block_bytes_at: "last_block iv (bytes_at m a (16 + 16 * k)) = last_block (bytes_at m a 16) (bytes_at m (a + 16) (16 * k))"
  unfolding bytes_at_add [of m a 16 "16 * k"] by (rule last_block_append) (simp, cases k, simp_all)

lemma cbc_dec_bytes_at:
  "cbc_dec unblock iv (bytes_at m a (16 + 16 * k)) =
    xor_bytes (unblock (bytes_at m a 16)) iv @ cbc_dec unblock (bytes_at m a 16) (bytes_at m (a + 16) (16 * k))"
  unfolding bytes_at_add [of m a 16 "16 * k"] by (rule cbc_dec_block) simp

lemma cbc_dec_direct_put:
  assumes b: "block_sized block" and w: "w * (16 div w) = 16"
  shows "out + 32 \<le> inp \<or> inp + full_length len \<le> out \<Longrightarrow> apart iv 16 out 16 \<Longrightarrow>
    \<exists>iv'. cbc_dec_direct block w inp out iv len m =
      (poke_bytes m out (cbc_dec block (bytes_at m iv 16) (bytes_at m inp (16 * (len div 16)))),
       inp + 16 * (len div 16), out + 16 * (len div 16), iv', len mod 16) \<and>
      bytes_at (poke_bytes m out (cbc_dec block (bytes_at m iv 16) (bytes_at m inp (16 * (len div 16))))) iv' 16 =
        last_block (bytes_at m iv 16) (bytes_at m inp (16 * (len div 16)))"
proof (induction len arbitrary: inp out iv m rule: less_induct)
  case (less len)
  show ?case
  proof (cases "len < 16")
    case True
    then show ?thesis by (simp add: cbc_dec_direct.simps [of _ _ _ _ _ len])
  next
    case False
    define n where "n = len - 16"
    have len: "len = 16 + n" using False by (simp add: n_def)
    have d: "16 * (len div 16) = 16 + 16 * (n div 16)" "len mod 16 = n mod 16"
      unfolding len using pos_add [of n 1] by (simp_all add: add.commute)
    let ?iv = "bytes_at m iv 16" and ?x = "bytes_at m inp 16" and ?y = "bytes_at m (inp + 16) (16 * (n div 16))"
    let ?p = "xor_bytes (block ?x) ?iv"
    let ?m = "poke_bytes m out ?p"
    have lb: "length (block ?x) = 16" using b by (simp add: block_sized_def)
    have p: "length ?p = 16" using lb by simp
    have f: "out + 32 \<le> inp \<or> inp + 16 + full_length n \<le> out" using less.prems(1) unfolding len full_length_Suc by auto
    have m1: "xor_loop w (16 div w) out iv out (block_at block inp out m) = ?m"
    proof -
      have "bytes_at (poke_bytes m out (block ?x)) iv 16 = ?iv" using less.prems(2) lb by (intro bytes_at_put_apart) simp
      moreover have "bytes_at (poke_bytes m out (block ?x)) out 16 = block ?x" by (rule bytes_at_put_same [OF lb])
      moreover have "xor_loop w (16 div w) out iv out (block_at block inp out m) =
          poke_bytes (block_at block inp out m) out (xor_bytes (bytes_at (block_at block inp out m) out 16) (bytes_at (block_at block inp out m) iv 16))"
        using less.prems(2) xor_loop_put [of out out w "16 div w" iv "block_at block inp out m"] by (simp add: w apart_def)
      ultimately show ?thesis using p lb by (simp add: block_at_def poke_bytes_over)
    qed
    have f': "out + 16 + 32 \<le> inp + 16 \<or> inp + 16 + full_length n \<le> out + 16" using f by auto
    have i': "apart inp 16 (out + 16) 16" using f by (auto simp: apart_def)
    have lt: "n < len" by (simp add: len)
    from less.IH [OF lt f' i', of ?m] obtain iv' where r:
      "cbc_dec_direct block w (inp + 16) (out + 16) inp n ?m =
        (poke_bytes ?m (out + 16) (cbc_dec block (bytes_at ?m inp 16) (bytes_at ?m (inp + 16) (16 * (n div 16)))),
         inp + 16 + 16 * (n div 16), out + 16 + 16 * (n div 16), iv', n mod 16)"
      "bytes_at (poke_bytes ?m (out + 16) (cbc_dec block (bytes_at ?m inp 16) (bytes_at ?m (inp + 16) (16 * (n div 16))))) iv' 16 =
        last_block (bytes_at ?m inp 16) (bytes_at ?m (inp + 16) (16 * (n div 16)))" by (elim exE conjE)
    have x: "bytes_at ?m inp 16 = ?x" using f p by (intro bytes_at_put_other) auto
    have y: "bytes_at ?m (inp + 16) (16 * (n div 16)) = ?y"
      using f full_length_ge [of n] times_div_less_eq_dividend [of 16 n] p by (intro bytes_at_put_other) auto
    have o: "poke_bytes ?m (out + 16) (cbc_dec block ?x ?y) = poke_bytes m out (cbc_dec block ?iv (bytes_at m inp (16 + 16 * (n div 16))))"
      unfolding cbc_dec_bytes_at using p by (intro poke_bytes_append) simp
    have e: "cbc_dec_direct block w inp out iv len m = cbc_dec_direct block w (inp + 16) (out + 16) inp n ?m"
      using False by (simp add: cbc_dec_direct.simps [of _ _ _ _ _ len] m1 n_def)
    show ?thesis unfolding e d last_block_bytes_at using r unfolding x y o by (intro exI [of _ iv']) (simp only: add.assoc simp_thms)
  qed
qed

lemma poke_bytes_stage:
  assumes "length xs = n" "length c = 16" "length c' = 16" "apart ivec 16 (out + n) (length ys)"
  shows "poke_bytes (poke_bytes (poke_bytes (poke_bytes m out xs) ivec c) (out + n) ys) ivec c' = poke_bytes (poke_bytes m out (xs @ ys)) ivec c'"
proof -
  have "poke_bytes (poke_bytes (poke_bytes m out xs) ivec c) (out + n) ys = poke_bytes (poke_bytes (poke_bytes m out xs) (out + n) ys) ivec c"
    using assms(2,4) by (intro poke_bytes_comm) (auto simp: apart_def)
  also have "poke_bytes (poke_bytes m out xs) (out + n) ys = poke_bytes m out (xs @ ys)" using assms(1) by (intro poke_bytes_append) simp
  finally show ?thesis using assms(2,3) by (simp add: poke_bytes_over)
qed

lemma length_cbc_dec:
  assumes "block_sized unblock"
  shows "length iv = 16 \<Longrightarrow> length c = 16 * q \<Longrightarrow> length (cbc_dec unblock iv c) = 16 * q"
proof (induction q arbitrary: c iv)
  case (Suc q)
  have t: "length (take 16 c) = 16" using Suc.prems by simp
  have "length (unblock (take 16 c)) = 16" using assms t by (simp add: block_sized_def)
  then show ?case using Suc.IH [OF t, of "drop 16 c"] Suc.prems cbc_dec_block [OF t, of unblock iv "drop 16 c"] by simp
qed simp

lemma cbc_dec_tmp_put:
  assumes b: "block_sized block" and w: "w * (16 div w) = 16"
  shows "out \<le> inp \<Longrightarrow> apart ivec 16 inp (full_length len) \<Longrightarrow> apart ivec 16 out (full_length len) \<Longrightarrow>
    cbc_dec_tmp block w inp out ivec len m =
      (poke_bytes (poke_bytes m out (cbc_dec block (bytes_at m ivec 16) (bytes_at m inp (16 * (len div 16))))) ivec
         (last_block (bytes_at m ivec 16) (bytes_at m inp (16 * (len div 16)))),
       inp + 16 * (len div 16), out + 16 * (len div 16), len mod 16)"
proof (induction len arbitrary: inp out m rule: less_induct)
  case (less len)
  show ?case
  proof (cases "len < 16")
    case True
    then show ?thesis by (simp add: cbc_dec_tmp.simps [of _ _ _ _ _ len])
  next
    case False
    define n where "n = len - 16"
    have len: "len = 16 + n" using False by (simp add: n_def)
    have d: "16 * (len div 16) = 16 + 16 * (n div 16)" "len mod 16 = n mod 16"
      unfolding len using pos_add [of n 1] by (simp_all add: add.commute)
    let ?iv = "bytes_at m ivec 16" and ?x = "bytes_at m inp 16" and ?y = "bytes_at m (inp + 16) (16 * (n div 16))"
    let ?p = "xor_bytes (block ?x) ?iv"
    let ?m = "poke_bytes (poke_bytes m out ?p) ivec ?x"
    have lb: "length (block ?x) = 16" using b by (simp add: block_sized_def)
    have p: "length ?p = 16" using lb by simp
    have ai: "apart ivec 16 inp (16 + full_length n)" "apart ivec 16 out (16 + full_length n)"
      using less.prems(2,3) unfolding len full_length_Suc .
    have m1: "tmp_loop w (16 div w) (block ?x) inp out ivec m = ?m"
      using ai less.prems(1) lb by (subst tmp_loop_put) (auto simp: w apart_def)
    have ai': "apart ivec 16 (inp + 16) (full_length n)" "apart ivec 16 (out + 16) (full_length n)" using ai by (auto simp: apart_def)
    have lt: "n < len" by (simp add: len)
    have le: "out + 16 \<le> inp + 16" using less.prems(1) by simp
    have fl: "16 * (n div 16) \<le> full_length n" using full_length_ge [of n] times_div_less_eq_dividend [of 16 n] by linarith
    note r = less.IH [OF lt le ai', of ?m]
    have x: "bytes_at ?m ivec 16 = ?x" by (rule bytes_at_put_same) simp
    have y: "bytes_at ?m (inp + 16) (16 * (n div 16)) = ?y"
      using ai(1) less.prems(1) fl p by (subst bytes_at_put_other, force simp: apart_def, intro bytes_at_put_other) auto
    have ly: "length (cbc_dec block ?x ?y) = 16 * (n div 16)" by (rule length_cbc_dec [OF b]) simp_all
    have ll: "length (last_block ?x ?y) = 16" by (rule length_last_block) (simp, cases "n div 16", auto)
    have "apart ivec 16 (out + 16) (length (cbc_dec block ?x ?y))" using ai'(2) fl unfolding ly by (auto simp: apart_def)
    from poke_bytes_stage [OF p _ ll this, of ?x m]
    have o: "poke_bytes (poke_bytes ?m (out + 16) (cbc_dec block ?x ?y)) ivec (last_block ?x ?y) =
        poke_bytes (poke_bytes m out (cbc_dec block ?iv (bytes_at m inp (16 + 16 * (n div 16))))) ivec (last_block ?x ?y)"
      unfolding cbc_dec_bytes_at by simp
    have e: "cbc_dec_tmp block w inp out ivec len m = cbc_dec_tmp block w (inp + 16) (out + 16) ivec n ?m"
      using False by (simp add: cbc_dec_tmp.simps [of _ _ _ _ _ len] m1 n_def)
    show ?thesis unfolding e r x y o d last_block_bytes_at by (simp only: add.assoc)
  qed
qed

text \<open>The last bytes, whose block of cipher text is whole.\<close>

lemma cbc_dec_last_put:
  assumes b: "block_sized block" and n: "0 < n" "n < 16"
    and a: "follows inp out 16" "apart ivec 16 inp 16" "apart ivec 16 out 16"
  shows "cbc_dec_last block inp out ivec n m =
    poke_bytes (poke_bytes m out (take n (cbc_dec block (bytes_at m ivec 16) (bytes_at m inp 16)))) ivec (bytes_at m inp 16)"
proof -
  let ?t = "block (bytes_at m inp 16)"
  let ?o = "xor_bytes (take n ?t) (bytes_at m ivec n)"
  let ?m = "poke_bytes (poke_bytes m out ?o) ivec (bytes_at m inp n)"
  have lt: "length ?t = 16" using b by (simp add: block_sized_def)
  have lo: "length ?o = n" using lt n by simp
  have t: "tmp_loop 1 n ?t inp out ivec m = ?m"
    using a n lt tmp_loop_put [of out inp 1 n ivec ?t m] by (auto simp: follows_def apart_def)
  have "copy_rest inp ivec n ?m = poke_bytes ?m (ivec + n) (bytes_at ?m (inp + n) (16 - n))"
    using a(2) n by (intro copy_rest_put) (auto simp: apart_def)
  also have "bytes_at ?m (inp + n) (16 - n) = bytes_at m (inp + n) (16 - n)"
    using a n lo by (subst bytes_at_put_other, force simp: apart_def, intro bytes_at_put_other) (auto simp: follows_def)
  also have "poke_bytes ?m (ivec + n) \<dots> = poke_bytes (poke_bytes m out ?o) ivec (bytes_at m inp n @ bytes_at m (inp + n) (16 - n))"
    by (rule poke_bytes_append) simp
  also have "bytes_at m inp n @ bytes_at m (inp + n) (16 - n) = bytes_at m inp 16" using bytes_at_add [of m inp n "16 - n"] n by simp
  finally have r: "cbc_dec_last block inp out ivec n m = poke_bytes (poke_bytes m out ?o) ivec (bytes_at m inp 16)"
    using n t by (simp add: cbc_dec_last_def)
  have "cbc_dec block (bytes_at m ivec 16) (bytes_at m inp 16) = xor_bytes ?t (bytes_at m ivec 16)"
    using cbc_dec_block [of "bytes_at m inp 16" block "bytes_at m ivec 16" "[]"] by simp
  then have "take n (cbc_dec block (bytes_at m ivec 16) (bytes_at m inp 16)) = ?o"
    using take_drop_xor [of n 0 ?t "bytes_at m ivec 16"] n by (simp add: take_bytes_at)
  then show ?thesis unfolding r by simp
qed

lemma cbc_dec_append:
  "length x = 16 * q \<Longrightarrow> cbc_dec block iv (x @ y) = cbc_dec block iv x @ cbc_dec block (last_block iv x) y"
proof (induction q arbitrary: x iv)
  case (Suc q)
  have t: "length (take 16 x) = 16" using Suc.prems by simp
  have l: "last_block iv x = last_block (take 16 x) (drop 16 x)"
    using last_block_append [OF t, of "drop 16 x" iv] Suc.prems by (cases q) simp_all
  have "cbc_dec block (take 16 x) (drop 16 x @ y) = cbc_dec block (take 16 x) (drop 16 x) @ cbc_dec block (last_block (take 16 x) (drop 16 x)) y"
    using Suc.prems by (intro Suc.IH) simp
  then show ?case
    using cbc_dec_block [OF t, of block iv "drop 16 x @ y"] cbc_dec_block [OF t, of block iv "drop 16 x"] unfolding l
    by (simp only: append_take_drop_id append_assoc [symmetric])
qed simp

text \<open>Both loops leave the memory in the same state, from which the last bytes are done.\<close>

lemma cbc_dec_finish:
  assumes b: "block_sized block" and f: "follows inp out (full_length len)"
    and ai: "apart ivec 16 inp (full_length len)" and ao: "apart ivec 16 out (full_length len)"
    and c: "c = bytes_at m inp (full_length len)" and x: "x = bytes_at m inp (16 * (len div 16))" and iv: "iv = bytes_at m ivec 16"
  shows "cbc_dec_last block (inp + 16 * (len div 16)) (out + 16 * (len div 16)) ivec (len mod 16)
      (poke_bytes (poke_bytes m out (cbc_dec block iv x)) ivec (last_block iv x)) =
    poke_bytes (poke_bytes m out (take len (cbc_dec block iv c))) ivec (last_block iv c)"
proof -
  define q n where "q = len div 16" and "n = len mod 16"
  have len: "len = 16 * q + n" "n < 16" unfolding q_def n_def by simp_all
  have fl: "full_length len = 16 * q + (if n = 0 then 0 else 16)" unfolding q_def n_def by (rule full_length_split)
  have liv: "length iv = 16" unfolding iv by simp
  have lx: "length x = 16 * q" unfolding x q_def by simp
  have ld: "length (cbc_dec block iv x) = 16 * q" by (rule length_cbc_dec [OF b liv lx])
  have ll: "length (last_block iv x) = 16" by (rule length_last_block [OF liv]) (use lx in \<open>cases q; simp\<close>)
  show ?thesis
  proof (cases "n = 0")
    case True
    then have "c = x" unfolding c x fl q_def by simp
    then show ?thesis using True ld len unfolding n_def by (simp add: cbc_dec_last_def)
  next
    case False
    let ?m = "poke_bytes (poke_bytes m out (cbc_dec block iv x)) ivec (last_block iv x)"
    let ?b = "bytes_at m (inp + 16 * q) 16"
    have cx: "c = x @ ?b" unfolding c x fl q_def using False by (simp add: bytes_at_add)
    have f': "follows (inp + 16 * q) (out + 16 * q) 16" using f False unfolding fl by (auto simp: follows_def)
    have ai': "apart ivec 16 (inp + 16 * q) 16" and ao': "apart ivec 16 (out + 16 * q) 16"
      using ai ao False unfolding fl by (auto simp: apart_def)
    have m1: "bytes_at ?m ivec 16 = last_block iv x" by (rule bytes_at_put_same [OF ll])
    have m2: "bytes_at ?m (inp + 16 * q) 16 = ?b"
      using ai' f False ll ld unfolding fl
      by (subst bytes_at_put_other, force simp: apart_def, intro bytes_at_put_other) (auto simp: follows_def)
    let ?d = "take n (cbc_dec block (last_block iv x) ?b)"
    have lb: "length (cbc_dec block (last_block iv x) ?b) = 16" using length_cbc_dec [OF b ll, of ?b 1] by simp
    have "cbc_dec_last block (inp + 16 * q) (out + 16 * q) ivec n ?m = poke_bytes (poke_bytes ?m (out + 16 * q) ?d) ivec ?b"
      using cbc_dec_last_put [OF b _ len(2) f' ai' ao', of ?m] False unfolding m1 m2 by simp
    also have "\<dots> = poke_bytes (poke_bytes m out (cbc_dec block iv x @ ?d)) ivec ?b"
      using ao' lb len(2) by (intro poke_bytes_stage [OF ld ll]) (auto simp: apart_def)
    also have "cbc_dec block iv x @ ?d = take len (cbc_dec block iv c)"
      unfolding cx cbc_dec_append [OF lx] using ld lb len by simp
    also have "?b = last_block iv c"
    proof -
      have l: "length c = 16 * q + 16" unfolding cx using lx by simp
      then have "drop (length c - 16) c = ?b" using lx by (simp add: cx)
      moreover have "c \<noteq> []" using l by auto
      ultimately show ?thesis by (simp only: last_block_def if_False)
    qed
    finally show ?thesis unfolding q_def n_def .
  qed
qed

lemma CRYPTO_cbc128_decrypt_put:
  assumes b: "block_sized block" and f: "follows inp out (full_length len)"
    and ai: "apart ivec 16 inp (full_length len)" and ao: "apart ivec 16 out (full_length len)"
    and c: "c = bytes_at m inp (full_length len)"
  shows "CRYPTO_cbc128_decrypt block strict inp out len ivec m =
    (Ok (), poke_bytes (poke_bytes m out (take len (cbc_dec block (bytes_at m ivec 16) c))) ivec (last_block (bytes_at m ivec 16) c))"
proof -
  have ok: "out \<le> inp \<or> inp + len \<le> out" using f full_length_ge [of len] by (auto simp: follows_def)
  note fin = cbc_dec_finish [OF b f ai ao c refl refl]
  show ?thesis
  proof (cases "(32 \<le> inp \<and> out \<le> inp - 32) \<or> inp < out")
    case True
    then have f': "out + 32 \<le> inp \<or> inp + full_length len \<le> out" using f by (auto simp: follows_def)
    show ?thesis
    proof (cases "len = 0")
      case True
      then have "c = []" unfolding c by (simp add: full_length_def)
      then show ?thesis using True ok by (auto simp: CRYPTO_cbc128_decrypt_def cbc_dec_direct.simps cbc_dec_tmp.simps cbc_dec_last_def)
    next
      case False
      then have "16 \<le> full_length len" using full_length_split [of len] by (cases "len mod 16 = 0") auto
      then have ap: "apart ivec 16 out 16" using ao by (auto simp: apart_def)
      from cbc_dec_direct_put [OF b width_16 f' ap, of strict m] True ok fin show ?thesis
        by (elim exE conjE) (simp add: CRYPTO_cbc128_decrypt_def)
    qed
  next
    case False
    then have le: "out \<le> inp" using f by (auto simp: follows_def)
    show ?thesis
      unfolding CRYPTO_cbc128_decrypt_def cbc_dec_tmp_put [OF b width_16 le ai ao]
      by (simp only: ok False fin not_True_eq_False if_False prod.case)
  qed
qed

end
