(* ===== verification/Boring_CBC_Properties.thy ===== *)
theory Boring_CBC_Properties
  imports Boring_CBC_Laws Boring_Stream_Properties
begin

text \<open>
  The properties of cipher block chaining: what the two functions do to memory, and AES in this mode.
\<close>

text \<open>C39.  Wherever the buffers are, as long as the output is at the input or before it, or apart from it, and
  \<^verbatim>\<open>ivec\<close> apart from both: encryption writes the chained blocks of the input, its last block filled up with zeros;
  decryption, which reads whole blocks, is defined and writes the first \<^verbatim>\<open>len\<close> bytes of what the chained blocks stand
  for, even where it overwrites cipher text it needs for the next block; both leave the last block of cipher text in
  \<^verbatim>\<open>ivec\<close>, and no other byte of memory is changed.\<close>

theorem cbc_on_memory:
  assumes "block_sized block" "follows inp out (full_length len)"
    and "apart ivec 16 inp (full_length len)" "apart ivec 16 out (full_length len)"
    and "iv = bytes_at m ivec 16" "c = cbc_enc block iv (bytes_at m inp len)" "d = bytes_at m inp (full_length len)"
  shows "CRYPTO_cbc128_encrypt block strict inp out len ivec m = poke_bytes (poke_bytes m out c) ivec (last_block iv c) \<and>
    length c = full_length len \<and>
    CRYPTO_cbc128_decrypt block strict inp out len ivec m =
      (Ok (), poke_bytes (poke_bytes m out (take len (cbc_dec block iv d))) ivec (last_block iv d))"
  using CRYPTO_cbc128_encrypt_put [OF assms(1,2,4), of c m strict] CRYPTO_cbc128_decrypt_put [OF assms(1-4,7), of strict]
    length_cbc_enc [OF assms(1), of iv "bytes_at m inp len"]
  by (simp add: assms(5,6))

definition demo_memory :: memory
  where "demo_memory x = of_nat (7 * x)"

lemma cbc_on_memory_witness:
  "\<exists>out. CRYPTO_cbc128_decrypt (aes_enc_fn (enc_key demo_key)) True 1000 996 37 2000 demo_memory =
    (Ok (), poke_bytes (poke_bytes demo_memory 996 out) 2000 (last_block (bytes_at demo_memory 2000 16) (bytes_at demo_memory 1000 (full_length 37))))"
proof -
  have "follows 1000 996 (full_length 37)" "apart 2000 16 1000 (full_length 37)" "apart 2000 16 996 (full_length 37)"
    by (simp_all add: follows_def apart_def full_length_def)
  from cbc_on_memory [where m = demo_memory and strict = True, OF aes_enc_sized [OF demo_key_length] this refl refl refl] show ?thesis by blast
qed

section \<open>AES\<close>

lemma length_PUTU32: "length (PUTU32 w) = 4"
  by (rule word4_cases [of w]) (simp add: PUTU32_word4)

lemma length_store_block: "length (store_block s) = 16"
  by (cases s) (simp add: store_block_def length_PUTU32)

lemma aes_dec_sized: "block_sized (aes_dec_fn key)"
  by (auto simp: block_sized_def aes_dec_fn_def AES_decrypt_def Let_def length_store_block split: prod.split)

lemma aes_keys_fit:
  assumes "key_length key"
  shows "aes_key_fits (enc_key key)" "aes_key_fits (dec_key key)"
proof -
  from AES_with_key [OF assms, of "replicate 16 0"] obtain c where
    c: "AES_encrypt (enc_key key) (replicate 16 0) = Ok c" "AES_decrypt (dec_key key) c = Ok (replicate 16 0)" by auto
  show "aes_key_fits (enc_key key)" using c(1) by (auto simp: aes_key_fits_def AES_encrypt_def Let_def split: if_splits)
  show "aes_key_fits (dec_key key)" using c(2) by (auto simp: aes_key_fits_def AES_decrypt_def Let_def split: if_splits)
qed

text \<open>C40.  \<^verbatim>\<open>AES_cbc_encrypt\<close> with the two schedules of a key: decryption, from where encryption wrote or a
  copy of it, to any allowed place and with the same \<^verbatim>\<open>ivec\<close>, gives the message back, and leaves the same last block
  in its \<^verbatim>\<open>ivec\<close>, so that both sides can go on with the next piece of a message.\<close>

theorem AES_cbc_roundtrip:
  assumes "key_length key" "follows a b (full_length len)" "apart v 16 b (full_length len)"
    and "follows b c (full_length len)" "apart w 16 b (full_length len)" "apart w 16 c (full_length len)"
  shows "\<exists>m1. AES_cbc_encrypt (enc_key key) strict a b len v True m = (Ok (), m1) \<and>
    (\<forall>m2. bytes_at m2 b (full_length len) = bytes_at m1 b (full_length len) \<and> bytes_at m2 w 16 = bytes_at m v 16 \<longrightarrow>
      (\<exists>m3. AES_cbc_encrypt (dec_key key) strict' b c len w False m2 = (Ok (), m3) \<and>
        bytes_at m3 c len = bytes_at m a len \<and> bytes_at m3 w 16 = bytes_at m1 v 16))"
proof -
  let ?e = "aes_enc_fn (enc_key key)" and ?d = "aes_dec_fn (dec_key key)"
  let ?iv = "bytes_at m v 16" and ?x = "bytes_at m a len"
  let ?c = "cbc_enc ?e ?iv ?x"
  let ?m1 = "poke_bytes (poke_bytes m b ?c) v (last_block ?iv ?c)"
  note e = aes_enc_sized [OF assms(1)]
  have lc: "length ?c = full_length len" using length_cbc_enc [OF e, of ?iv ?x] by simp
  have ll: "length (last_block ?iv ?c) = 16"
    by (rule length_last_block) (use lc full_length_split [of len] in \<open>auto split: if_splits\<close>)
  have r1: "AES_cbc_encrypt (enc_key key) strict a b len v True m = (Ok (), ?m1)"
    using CRYPTO_cbc128_encrypt_put [OF e assms(2,3) refl, of strict m] aes_keys_fit(1) [OF assms(1)] by (simp add: AES_cbc_encrypt_def)
  have b1: "bytes_at ?m1 b (full_length len) = ?c"
  proof -
    have "apart b (full_length len) v (length (last_block ?iv ?c))" using assms(3) unfolding ll by (auto simp: apart_def)
    from bytes_at_put_apart [OF this] bytes_at_put_same [OF lc] show ?thesis by simp
  qed
  have v1: "bytes_at ?m1 v 16 = last_block ?iv ?c" by (rule bytes_at_put_same [OF ll])
  have "\<exists>m3. AES_cbc_encrypt (dec_key key) strict' b c len w False m2 = (Ok (), m3) \<and>
      bytes_at m3 c len = ?x \<and> bytes_at m3 w 16 = bytes_at ?m1 v 16"
    if "bytes_at m2 b (full_length len) = bytes_at ?m1 b (full_length len) \<and> bytes_at m2 w 16 = ?iv" for m2
  proof -
    have c2: "?c = bytes_at m2 b (full_length len)" and iv2: "bytes_at m2 w 16 = ?iv" using that b1 by simp_all
    let ?y = "take len (cbc_dec ?d ?iv ?c)"
    let ?m3 = "poke_bytes (poke_bytes m2 c ?y) w (last_block ?iv ?c)"
    have y: "?y = ?x"
      using cbc_dec_enc [where block = ?e and unblock = ?d and iv = ?iv and x = ?x, OF e] aes_dec_enc [OF assms(1)] by simp
    then have ly: "length ?y = len" by simp
    have r: "AES_cbc_encrypt (dec_key key) strict' b c len w False m2 = (Ok (), ?m3)"
      using CRYPTO_cbc128_decrypt_put [OF aes_dec_sized assms(4-6) c2, of "dec_key key" strict'] aes_keys_fit(2) [OF assms(1)]
      unfolding iv2 by (simp add: AES_cbc_encrypt_def)
    have "apart c len w (length (last_block ?iv ?c))" using assms(6) full_length_ge [of len] unfolding ll by (auto simp: apart_def)
    from bytes_at_put_apart [OF this] bytes_at_put_same [OF ly] have "bytes_at ?m3 c len = ?y" by simp
    moreover have "bytes_at ?m3 w 16 = last_block ?iv ?c" by (rule bytes_at_put_same [OF ll])
    ultimately show ?thesis using r y v1 by (intro exI [of _ ?m3]) simp
  qed
  then show ?thesis using r1 by blast
qed

lemma AES_cbc_roundtrip_witness:
  "\<exists>m1. AES_cbc_encrypt (enc_key demo_key) False 1000 1000 37 2000 True demo_memory = (Ok (), m1) \<and>
    (\<exists>m3. AES_cbc_encrypt (dec_key demo_key) True 1000 996 37 3000 False (poke_bytes m1 3000 (bytes_at demo_memory 2000 16)) = (Ok (), m3) \<and>
      bytes_at m3 996 37 = bytes_at demo_memory 1000 37)"
proof -
  have f: "follows 1000 1000 (full_length 37)" "apart 2000 16 1000 (full_length 37)" "follows 1000 996 (full_length 37)"
    "apart 3000 16 1000 (full_length 37)" "apart 3000 16 996 (full_length 37)"
    by (simp_all add: follows_def apart_def full_length_def)
  from AES_cbc_roundtrip [where m = demo_memory and strict = False and strict' = True, OF demo_key_length f] obtain m1 where
    m1: "AES_cbc_encrypt (enc_key demo_key) False 1000 1000 37 2000 True demo_memory = (Ok (), m1)"
    "\<forall>m2. bytes_at m2 1000 (full_length 37) = bytes_at m1 1000 (full_length 37) \<and> bytes_at m2 3000 16 = bytes_at demo_memory 2000 16 \<longrightarrow>
      (\<exists>m3. AES_cbc_encrypt (dec_key demo_key) True 1000 996 37 3000 False m2 = (Ok (), m3) \<and>
        bytes_at m3 996 37 = bytes_at demo_memory 1000 37 \<and> bytes_at m3 3000 16 = bytes_at m1 2000 16)" by (elim exE conjE)
  have "bytes_at (poke_bytes m1 3000 (bytes_at demo_memory 2000 16)) 1000 (full_length 37) = bytes_at m1 1000 (full_length 37)"
    by (rule bytes_at_put_other) (simp add: full_length_def)
  moreover have "bytes_at (poke_bytes m1 3000 (bytes_at demo_memory 2000 16)) 3000 16 = bytes_at demo_memory 2000 16"
    by (rule bytes_at_put_same) simp
  ultimately show ?thesis using m1 by blast
qed

end
