(* ===== verification/Spec2Isabelle.thy ===== *)
theory Spec2Isabelle
  imports Nanopb_Properties Boring_Bytestring Boring_Mem_Laws Boring_Pair_Laws Boring_Base64_Stream Boring_Tables
    Boring_Stack_Properties Boring_AES_Properties Boring_Stream_Properties Boring_CBC_Properties
begin

text \<open>
  A verification development for the C code of the card game's iOS application.  The game itself
  (\<^verbatim>\<open>src/CardsGame/CardsGame\<close>) is Swift; the C it ships is in \<^verbatim>\<open>src/CardsGame/Pods\<close>: nanopb, the
  protocol-buffer runtime Firebase uses, and BoringSSL, which gRPC uses.  The development models
  functions of the two as they are written and proves what makes them correct.

  \<^bold>\<open>Common ground.\<close>  \<open>Bytes_Prelude\<close> fixes the machine: LP64, little-endian (iOS on arm64).  A C
  call yields \<open>Ok\<close> (success and its value), \<open>Fail\<close> (its failure value) or \<open>Undef\<close> (undefined
  behaviour or a failed assertion), and \<open>seq\<close> sequences calls over an explicit state.  Sizes are 64-bit words and
  wrap.  \<open>Byte_Numbers\<close> relates numbers of any size to big-endian byte strings.

  \<^bold>\<open>nanopb\<close> (\<^verbatim>\<open>Pods/nanopb\<close>, configured as the pod builds it: 32-bit descriptors, no
  \<^verbatim>\<open>malloc\<close>).  \<open>Nanopb_Common\<close> has the descriptor tables of \<^verbatim>\<open>pb.h\<close> and the field iterator of
  \<^verbatim>\<open>pb_common.c\<close>; \<open>Nanopb_Encode\<close> and \<open>Nanopb_Decode\<close> are \<^verbatim>\<open>pb_encode.c\<close> and
  \<^verbatim>\<open>pb_decode.c\<close>, function by function.  Messages live in a flat byte memory; streams are
  records with a byte list or a user callback behind them.  User callbacks and generated tables are
  fields of an environment record.  \<open>Nanopb_Encode_Laws\<close> shows that encoding is repeatable (locale
  \<open>repeatable_callbacks\<close>), so that the sizing pass predicts the writing pass;
  \<open>Nanopb_Decode_Laws\<close>, \<open>Nanopb_Decode_Safety\<close> and \<open>Nanopb_Message_Safety\<close> show that decoding
  never reads past its input nor writes outside the message (locale \<open>input_callbacks\<close>);
  \<open>Nanopb_Roundtrip\<close> has the primitive round trips, \<open>Nanopb_Properties\<close> the interpretations and
  the properties C1 to C5.  Recursion over submessages and extensions takes a depth as fuel; a
  depth above the input length suffices for decoding, since each level costs a byte, and in encoding
  running out of it is \<open>Undef\<close>.

  \<^bold>\<open>BoringSSL memory and strings\<close> (\<^verbatim>\<open>crypto/mem.c\<close>, \<^verbatim>\<open>crypto/buf/buf.c\<close>).
  \<open>Boring_Mem\<close> models them over an abstract \<^verbatim>\<open>malloc\<close>, of which only the size of a block is
  assumed (\<open>malloc_ok\<close>); it may fail at any call.  \<open>Boring_Mem_Laws\<close> has the contracts (C10 to C13).

  \<^bold>\<open>BoringSSL byte strings\<close> (\<^verbatim>\<open>crypto/bytestring/cbs.c\<close>, \<^verbatim>\<open>cbb.c\<close>).  \<open>Boring_CBS\<close> is the
  parser, on byte lists; \<open>Boring_CBS_Laws\<close> characterises each reader by the encodings it accepts.
  \<open>Boring_CBB\<close> is the builder: one buffer, and the chain of open children with their pending
  length prefixes; handles are depths in the chain.  \<open>Boring_CBB_Laws\<close> has the buffer's invariant
  and the closing of one child, \<open>Boring_CBB_Refine\<close> the abstract builder (nested byte strings) and
  the refinement of flushing, \<open>Boring_CBB_Calls\<close> the simulation for each call and for sequences.
  \<open>Boring_Bytestring\<close> joins the two: the locale \<open>canonical_reader\<close> with its interpretations, and the
  properties C6 to C9 and C14 to C17.  The size bound $2^{62}$ in them keeps the code's doubling of a
  capacity from wrapping into a block smaller than the allocator's prefix.

  \<^bold>\<open>BIO pairs\<close> (\<^verbatim>\<open>crypto/bio/pair.c\<close> behind \<^verbatim>\<open>BIO_read\<close>, \<^verbatim>\<open>BIO_write\<close> and the other calls
  of \<^verbatim>\<open>bio.c\<close>).  \<open>Boring_Pair\<close>: two ends, each with the ring buffer for what it writes.
  \<open>Boring_Pair_Laws\<close>: the ring as a queue, the contract of each call and the step relation of a pair,
  with its FIFO invariant (C18 to C20).  The copy loops take two rounds; that they need no third is
  part of the contracts.

  \<^bold>\<open>Constant-time helpers and base64\<close> (\<^verbatim>\<open>crypto/internal.h\<close>, \<^verbatim>\<open>crypto/base64/base64.c\<close>).
  \<open>Boring_Constant_Time\<close> has the branch-free comparisons and C21; \<open>Boring_Base64\<close> the coders,
  \<open>Boring_Base64_Laws\<close> the character table, the quads and the invariant of the streaming encoder,
  \<open>Boring_Base64_Stream\<close> sequences of calls and the properties C22 to C25.

  \<^bold>\<open>Hash table and buffer pool\<close> (\<^verbatim>\<open>crypto/lhash/lhash.c\<close>, \<^verbatim>\<open>crypto/pool/pool.c\<close>,
  \<^verbatim>\<open>crypto/refcount_lock.c\<close>).  \<open>Boring_Lhash\<close> is the table, its chains lists of items with
  their addresses; \<open>Boring_Lhash_Laws\<close> has the contract of the client's comparison and hash (locale
  \<open>lh_hashing\<close>), the effect of each operation and the simulation of a map by sequences of calls;
  \<open>Boring_Lhash_Doall\<close> the iteration under deletions.  The walks of \<^verbatim>\<open>lh_doall\<close> are partial
  functions, \<open>None\<close> when they never end.  \<open>Boring_Pool\<close> is the intern table, whose functions are split
  at its lock; \<open>Boring_Pool_Laws\<close> interprets the locale on its comparison and hash, and has the step
  relation of threads and its invariant; \<open>Boring_Tables\<close> the properties C26 to C30.

  \<^bold>\<open>Stack\<close> (\<^verbatim>\<open>crypto/stack/stack.c\<close>).  \<open>Boring_Stack\<close> is the array of pointers; \<^verbatim>\<open>qsort\<close>
  and \<^verbatim>\<open>bsearch\<close> are a parameter, of which the C standard's contract is assumed (\<open>sorting_ok\<close>).
  \<open>Boring_Stack_Laws\<close> has each call as an operation on lists and the simulation by sequences of calls,
  \<open>Boring_Stack_Properties\<close> the properties C31 to C34.

  \<^bold>\<open>AES\<close> (\<^verbatim>\<open>crypto/fipsmodule/aes/aes.c\<close>).  \<open>Boring_AES_Tables\<close> has the tables, \<open>Boring_AES\<close>
  the key schedules and the two directions as the code has them.  \<open>Boring_AES_Spec\<close> is FIPS 197, from the
  standard; \<open>Boring_AES_Field\<close> evaluates the tables on bits and \<open>Boring_AES_Bytes\<close> reads them entry by
  entry; \<open>Boring_AES_Laws\<close> has the rounds and their inverses, \<open>Boring_AES_Keys\<close> the schedules,
  \<open>Boring_AES_Properties\<close> C35 and C36.

  \<^bold>\<open>Modes\<close> (\<^verbatim>\<open>crypto/fipsmodule/modes/ctr.c\<close>, \<^verbatim>\<open>ofb.c\<close>,
  \<^verbatim>\<open>cfb.c\<close>, \<^verbatim>\<open>cbc.c\<close> and \<^verbatim>\<open>aes/mode_wrappers.c\<close>).  The block function is an argument.
  \<open>Boring_Modes\<close> has the stream modes on bytes, \<open>Boring_Stream_Laws\<close> places the state of counter mode in the key stream of
  a 128-bit counter, for both functions, \<open>Boring_Feedback_Laws\<close> reduces the feedback modes to their byte-wise loops, and
  \<open>Boring_Stream_Properties\<close> has AES as the block function and C37 and C38.  \<open>Boring_CBC\<close> has block chaining on memory,
  as its code depends on where the buffers are; \<open>Boring_CBC_Laws\<close> compares it with the mode on byte lists,
  \<open>Boring_CBC_Properties\<close> has C39 and, through all of AES, C40.

  \<^bold>\<open>Not modelled.\<close>  nanopb: the \<^verbatim>\<open>PB_ENABLE_MALLOC\<close> configuration, and input callbacks that
  change \<^verbatim>\<open>bytes_left\<close> themselves.  BoringSSL: freeing memory (no state of the model depends on
  it), \<^verbatim>\<open>BIO_snprintf\<close>, and the components listed as such in the manifest, above all the
  cryptographic kernels and the X.509 code.  The Swift game, the C++ of gRPC and LevelDB, the
  Objective-C libraries and the binary frameworks are not C.
\<close>

end
